(* ===== verification/QQQ_Prelude.thy ===== *)
theory QQQ_Prelude
  imports Main "HOL-Library.Word" "HOL-Library.Monad_Syntax"
begin

text \<open>
  The shared base of the development: the machine integers of the sources, Rust's saturating
  arithmetic, the parts of Rust's \<open>str\<close> API that the modelled code calls, UTF-8, and the locales of
  step machines whose lemmas every stateful component reuses through an interpretation.

  Conventions. A Rust \<open>str\<close> is the list of its Unicode code points (\<open>ustr\<close>), a \<open>[u8]\<close> is a list of
  \<open>8 word\<close>. A \<open>u8\<close>, \<open>u16\<close>, \<open>u32\<close> or \<open>u64\<close> is a word of that width wherever the code compares, packs,
  wraps or saturates it. A \<open>usize\<close> that counts the elements of an in-memory collection is a \<open>nat\<close>.
  Diagnostic counters incremented by \<open>+= 1\<close> are \<open>nat\<close> too: the crates concerned are compiled with
  \<open>overflow-checks = true\<close>, so such a counter never wraps.
\<close>

named_theorems width \<comment> \<open>facts that move machine words to natural numbers\<close>
named_theorems str_simps \<comment> \<open>facts about the string operations\<close>

section \<open>Machine integers\<close>

type_synonym u8 = "8 word"
type_synonym u16 = "16 word"
type_synonym u32 = "32 word"
type_synonym u64 = "64 word"

text \<open>\<open>T::MAX\<close>, \<open>saturating_add\<close>, \<open>saturating_sub\<close>, \<open>saturating_mul\<close> and \<open>checked_add\<close> of Rust's unsigned integers.\<close>

definition umax :: "'a::len word" where
  "umax = - 1"

definition sat_add :: "'a::len word \<Rightarrow> 'a word \<Rightarrow> 'a word" where
  "sat_add a b = (if unat a + unat b < 2 ^ LENGTH('a) then a + b else umax)"

definition sat_sub :: "'a::len word \<Rightarrow> 'a word \<Rightarrow> 'a word" where
  "sat_sub a b = (if b \<le> a then a - b else 0)"

definition sat_mul :: "'a::len word \<Rightarrow> 'a word \<Rightarrow> 'a word" where
  "sat_mul a b = (if unat a * unat b < 2 ^ LENGTH('a) then a * b else umax)"

definition checked_add :: "'a::len word \<Rightarrow> 'a word \<Rightarrow> 'a word option" where
  "checked_add a b = (if unat a + unat b < 2 ^ LENGTH('a) then Some (a + b) else None)"

lemma unat_umax [width]: "unat (umax :: 'a::len word) = 2 ^ LENGTH('a) - 1"
  by (simp add: umax_def unsigned_minus_1_eq_mask mask_eq_exp_minus_1)

lemma unat_sat_add [width]:
  "unat (sat_add a (b :: 'a::len word)) = min (unat a + unat b) (2 ^ LENGTH('a) - 1)"
  by (auto simp: sat_add_def unat_umax unat_word_ariths min_def)

lemma unat_sat_sub [width]: "unat (sat_sub a b) = unat a - unat b"
  by (auto simp: sat_sub_def word_le_nat_alt unat_sub_if_size)

lemma unat_sat_mul [width]:
  "unat (sat_mul a (b :: 'a::len word)) = min (unat a * unat b) (2 ^ LENGTH('a) - 1)"
proof (cases "unat a * unat b < 2 ^ LENGTH('a)")
  case True
  then show ?thesis by (simp add: sat_mul_def unat_word_ariths)
next
  case False
  then have "2 ^ LENGTH('a) - 1 \<le> unat a * unat b" by linarith
  with False show ?thesis by (simp add: sat_mul_def unat_umax)
qed

lemma checked_add_Some:
  "checked_add a b = Some c \<longleftrightarrow> unat a + unat b < 2 ^ LENGTH('a) \<and> c = a + (b :: 'a::len word)"
  by (auto simp: checked_add_def)

lemma unat_checked_add [width]:
  "checked_add a b = Some c \<Longrightarrow> unat c = unat a + unat (b :: 'a::len word)"
  by (auto simp: checked_add_Some unat_word_ariths)

lemma unat_lt_len: "unat (a :: 'a::len word) < 2 ^ LENGTH('a)"
  by (rule unsigned_less)

lemma le_umax [simp]: "(a :: 'a::len word) \<le> umax"
  by (simp add: umax_def)

lemma unat_eq_umax: "unat (a :: 'a::len word) = 2 ^ LENGTH('a) - 1 \<longleftrightarrow> a = umax"
  by (metis unat_umax word_unat_eq_iff)

section \<open>Lists\<close>

lemma find_distinct_key: "distinct (map f xs) \<Longrightarrow> x \<in> set xs \<Longrightarrow> find (\<lambda>y. f y = f x) xs = Some x"
  by (induction xs) (auto simp: image_iff)

section \<open>Strings\<close>

type_synonym ustr = "nat list"

definition lit :: "string \<Rightarrow> ustr" where
  "lit s = map of_char s"

lemma lit_simps [simp]:
  "lit [] = []" "lit (c # cs) = of_char c # lit cs"
  by (simp_all add: lit_def)

text \<open>Message text: the same characters, kept folded by the simplifier.\<close>

definition msg :: "string \<Rightarrow> ustr" where
  "msg s = map of_char s"

text \<open>A text between backticks, as the messages quote their inputs.\<close>

definition ticks :: "ustr \<Rightarrow> ustr" where
  "ticks s = 96 # s @ [96]"

text \<open>\<open>char::is_whitespace\<close> (the Unicode property \<open>White_Space\<close>) and \<open>str::trim\<close>.\<close>

definition is_whitespace :: "nat \<Rightarrow> bool" where
  "is_whitespace c \<longleftrightarrow> (9 \<le> c \<and> c \<le> 13) \<or> c = 32 \<or> c = 133 \<or> c = 160 \<or> c = 5760 \<or>
     (8192 \<le> c \<and> c \<le> 8202) \<or> c = 8232 \<or> c = 8233 \<or> c = 8239 \<or> c = 8287 \<or> c = 12288"

definition trim :: "ustr \<Rightarrow> ustr" where
  "trim s = rev (dropWhile is_whitespace (rev (dropWhile is_whitespace s)))"

text \<open>\<open>u8::is_ascii_digit\<close> and the other ASCII classes, on code points.\<close>

definition is_ascii_digit :: "nat \<Rightarrow> bool" where
  "is_ascii_digit c \<longleftrightarrow> 48 \<le> c \<and> c \<le> 57"

definition is_ascii_lowercase :: "nat \<Rightarrow> bool" where
  "is_ascii_lowercase c \<longleftrightarrow> 97 \<le> c \<and> c \<le> 122"

definition is_ascii_alphabetic :: "nat \<Rightarrow> bool" where
  "is_ascii_alphabetic c \<longleftrightarrow> (65 \<le> c \<and> c \<le> 90) \<or> (97 \<le> c \<and> c \<le> 122)"

definition to_ascii_lowercase :: "nat \<Rightarrow> nat" where
  "to_ascii_lowercase c = (if 65 \<le> c \<and> c \<le> 90 then c + 32 else c)"

text \<open>\<open>str::split\<close> on a character: always at least one part.\<close>

fun split_on :: "nat \<Rightarrow> ustr \<Rightarrow> ustr list" where
  "split_on c [] = [[]]"
| "split_on c (x # xs) =
     (if x = c then [] # split_on c xs
      else (case split_on c xs of [] \<Rightarrow> [[x]] | p # ps \<Rightarrow> (x # p) # ps))"

text \<open>\<open>str::strip_prefix\<close> and \<open>str::strip_suffix\<close>.\<close>

fun strip_prefix :: "ustr \<Rightarrow> ustr \<Rightarrow> ustr option" where
  "strip_prefix [] s = Some s"
| "strip_prefix (p # ps) [] = None"
| "strip_prefix (p # ps) (x # xs) = (if p = x then strip_prefix ps xs else None)"

definition strip_suffix :: "ustr \<Rightarrow> ustr \<Rightarrow> ustr option" where
  "strip_suffix suf s = map_option rev (strip_prefix (rev suf) (rev s))"

text \<open>\<open>[String]::join\<close>.\<close>

fun join :: "ustr \<Rightarrow> ustr list \<Rightarrow> ustr" where
  "join sep [] = []"
| "join sep [x] = x"
| "join sep (x # y # ys) = x @ sep @ join sep (y # ys)"

lemma split_on_nonempty [simp]: "split_on c xs \<noteq> []"
  by (induction xs) (auto split: list.splits)

lemma split_on_no_sep [str_simps]: "c \<notin> set p \<Longrightarrow> split_on c p = [p]"
  by (induction p) auto

lemma split_on_append [str_simps]:
  "c \<notin> set p \<Longrightarrow> split_on c (p @ c # rest) = p # split_on c rest"
  by (induction p) auto

lemma strip_prefix_Some: "strip_prefix p s = Some r \<longleftrightarrow> s = p @ r"
  by (induction p s rule: strip_prefix.induct) auto

lemma strip_prefix_append [simp]: "strip_prefix p (p @ r) = Some r"
  by (simp add: strip_prefix_Some)

lemma strip_prefix_None_hd: "s = x # xs \<Longrightarrow> p \<noteq> x \<Longrightarrow> strip_prefix (p # ps) s = None"
  by simp

lemma trim_id:
  assumes "s \<noteq> [] \<Longrightarrow> \<not> is_whitespace (hd s)" and "s \<noteq> [] \<Longrightarrow> \<not> is_whitespace (last s)"
  shows "trim s = s"
proof (cases s)
  case Nil
  then show ?thesis by (simp add: trim_def)
next
  case (Cons x xs)
  with assms have hd: "dropWhile is_whitespace s = s" by simp
  have "dropWhile is_whitespace (rev s) = rev s"
  proof (cases "rev s")
    case (Cons y ys)
    then have "last s = y" by (metis hd_rev list.sel(1))
    with assms(2) \<open>s = x # xs\<close> Cons show ?thesis by simp
  qed simp
  with hd show ?thesis by (simp add: trim_def)
qed

lemma trim_space_cons [simp]: "is_whitespace x \<Longrightarrow> trim (x # s) = trim s"
  by (simp add: trim_def)

text \<open>\<open>Display\<close> of an unsigned integer and \<open>str::parse\<close> to one (an optional \<open>+\<close>, at least one digit, overflow refused).\<close>

fun show_nat :: "nat \<Rightarrow> ustr" where
  "show_nat n = (if n < 10 then [48 + n] else show_nat (n div 10) @ [48 + n mod 10])"

declare show_nat.simps [simp del]

text \<open>\<open>{:x}\<close>: hexadecimal digits in lower case.\<close>

fun show_hex :: "nat \<Rightarrow> ustr" where
  "show_hex n =
     (let d = (\<lambda>k. if k < 10 then 48 + k else 87 + k) in
      if n < 16 then [d n] else show_hex (n div 16) @ [d (n mod 16)])"

declare show_hex.simps [simp del]

definition digits_val :: "ustr \<Rightarrow> nat" where
  "digits_val s = foldl (\<lambda>a d. a * 10 + (d - 48)) 0 s"

definition parse_uint :: "nat \<Rightarrow> ustr \<Rightarrow> nat option" where
  "parse_uint bits s =
     (let ds = (case strip_prefix (lit ''+'') s of Some r \<Rightarrow> r | None \<Rightarrow> s)
      in if ds \<noteq> [] \<and> list_all is_ascii_digit ds \<and> digits_val ds < 2 ^ bits
         then Some (digits_val ds) else None)"

lemma digits_val_append [simp]: "digits_val (s @ [d]) = digits_val s * 10 + (d - 48)"
  by (simp add: digits_val_def)

lemma show_nat_digits: "list_all is_ascii_digit (show_nat n)"
proof (induction n rule: show_nat.induct)
  case (1 n)
  have "n mod 10 < 10" by simp
  then have "n mod 10 \<le> 9" by linarith
  then have "is_ascii_digit (48 + n mod 10)" "n < 10 \<Longrightarrow> is_ascii_digit (48 + n)"
    by (simp_all add: is_ascii_digit_def)
  with 1 show ?case by (subst show_nat.simps) simp
qed

lemma show_nat_nonempty [simp]: "show_nat n \<noteq> []"
  by (subst show_nat.simps) simp

lemma digits_val_show_nat [simp]: "digits_val (show_nat n) = n"
proof (induction n rule: show_nat.induct)
  case (1 n)
  show ?case
  proof (cases "n < 10")
    case True
    then show ?thesis by (subst show_nat.simps) (simp add: digits_val_def)
  next
    case False
    with 1 show ?thesis by (subst show_nat.simps) simp
  qed
qed

lemma digit_not_whitespace: "is_ascii_digit d \<Longrightarrow> \<not> is_whitespace d"
  by (auto simp: is_ascii_digit_def is_whitespace_def)

lemma show_nat_ends:
  "\<not> is_whitespace (hd (show_nat n))" "\<not> is_whitespace (last (show_nat n))"
  using show_nat_digits [of n] by (auto simp: list_all_iff intro!: digit_not_whitespace)

lemma show_nat_hd_zero: "hd (show_nat n) = 48 \<Longrightarrow> length (show_nat n) = 1"
proof (induction n rule: show_nat.induct)
  case (1 n)
  show ?case
  proof (cases "n < 10")
    case True
    then show ?thesis by (subst show_nat.simps) simp
  next
    case False
    with 1 have "hd (show_nat (n div 10)) = 48"
      by (subst (asm) (2) show_nat.simps) simp
    with 1 False have len: "length (show_nat (n div 10)) = 1" by simp
    with \<open>hd (show_nat (n div 10)) = 48\<close> have "show_nat (n div 10) = [48]"
      by (cases "show_nat (n div 10)") auto
    then have "digits_val (show_nat (n div 10)) = 0" by (simp add: digits_val_def)
    then have "n div 10 = 0" by (simp only: digits_val_show_nat)
    with False show ?thesis by simp
  qed
qed

lemma show_nat_not_plus: "strip_prefix (lit ''+'') (show_nat n) = None"
proof (cases "show_nat n")
  case Nil
  then show ?thesis by simp
next
  case (Cons d ds)
  with show_nat_digits [of n] have "d \<noteq> 43" by (auto simp: is_ascii_digit_def)
  with Cons show ?thesis by simp
qed

lemma parse_show_nat [simp]: "n < 2 ^ bits \<Longrightarrow> parse_uint bits (show_nat n) = Some n"
  using show_nat_digits [of n] by (simp add: parse_uint_def show_nat_not_plus [simplified])

lemma parse_uint_lt: "parse_uint bits s = Some n \<Longrightarrow> n < 2 ^ bits"
  by (auto simp: parse_uint_def Let_def split: if_splits option.splits)

end
