(* ===== verification/Utf8.thy ===== *)
theory Utf8
  imports QQQ_Prelude
begin

text \<open>
  UTF-8 as the Rust standard library has it: \<open>char::len_utf8\<close>, \<open>char::encode_utf8\<close> and the acceptance
  of \<open>std::str::from_utf8\<close> (well-formed byte sequences: no overlong forms, no surrogates, nothing above
  \<open>U+10FFFF\<close>). The lemmas show that what is encoded from scalar values is accepted, whatever follows it.
\<close>

definition is_scalar :: "nat \<Rightarrow> bool" where
  "is_scalar c \<longleftrightarrow> c < 55296 \<or> (57343 < c \<and> c < 1114112)"

definition len_utf8 :: "nat \<Rightarrow> nat" where
  "len_utf8 c = (if c < 128 then 1 else if c < 2048 then 2 else if c < 65536 then 3 else 4)"

definition encode_utf8_nat :: "nat \<Rightarrow> nat list" where
  "encode_utf8_nat c =
     (if c < 128 then [c]
      else if c < 2048 then [192 + c div 64, 128 + c mod 64]
      else if c < 65536 then [224 + c div 4096, 128 + c div 64 mod 64, 128 + c mod 64]
      else [240 + c div 262144, 128 + c div 4096 mod 64, 128 + c div 64 mod 64, 128 + c mod 64])"

definition encode_utf8 :: "nat \<Rightarrow> u8 list" where
  "encode_utf8 c = map of_nat (encode_utf8_nat c)"

definition utf8_bytes :: "ustr \<Rightarrow> u8 list" where
  "utf8_bytes s = concat (map encode_utf8 s)"

definition is_cont :: "nat \<Rightarrow> bool" where
  "is_cont b \<longleftrightarrow> 128 \<le> b \<and> b \<le> 191"

fun utf8_ok :: "nat list \<Rightarrow> bool" where
  "utf8_ok [] = True"
| "utf8_ok (b # bs) =
     (if b < 128 then utf8_ok bs
      else if 194 \<le> b \<and> b \<le> 223 then
        (case bs of c1 # r \<Rightarrow> is_cont c1 \<and> utf8_ok r | _ \<Rightarrow> False)
      else if 224 \<le> b \<and> b \<le> 239 then
        (case bs of c1 # c2 # r \<Rightarrow>
           is_cont c1 \<and> (b = 224 \<longrightarrow> 160 \<le> c1) \<and> (b = 237 \<longrightarrow> c1 \<le> 159) \<and> is_cont c2 \<and> utf8_ok r
         | _ \<Rightarrow> False)
      else if 240 \<le> b \<and> b \<le> 244 then
        (case bs of c1 # c2 # c3 # r \<Rightarrow>
           is_cont c1 \<and> (b = 240 \<longrightarrow> 144 \<le> c1) \<and> (b = 244 \<longrightarrow> c1 \<le> 143) \<and>
           is_cont c2 \<and> is_cont c3 \<and> utf8_ok r
         | _ \<Rightarrow> False)
      else False)"

definition from_utf8_ok :: "u8 list \<Rightarrow> bool" where
  "from_utf8_ok bs \<longleftrightarrow> utf8_ok (map unat bs)"

lemma length_encode_utf8 [simp]: "length (encode_utf8 c) = len_utf8 c"
  by (simp add: encode_utf8_def encode_utf8_nat_def len_utf8_def)

lemma encode_utf8_nat_byte: "is_scalar c \<Longrightarrow> b \<in> set (encode_utf8_nat c) \<Longrightarrow> b < 256"
  by (auto simp: encode_utf8_nat_def is_scalar_def split: if_splits)

lemma map_unat_encode_utf8: "is_scalar c \<Longrightarrow> map unat (encode_utf8 c) = encode_utf8_nat c"
  by (simp add: encode_utf8_def map_idI unat_of_nat encode_utf8_nat_byte)

lemma utf8_ok_encode_append:
  assumes "is_scalar c"
  shows "utf8_ok (encode_utf8_nat c @ rest) = utf8_ok rest"
proof -
  have cont: "is_cont (128 + n mod 64)" for n
  proof -
    have "n mod 64 < 64" by simp
    then show ?thesis unfolding is_cont_def by linarith
  qed
  consider "c < 128" | "128 \<le> c" "c < 2048" | "2048 \<le> c" "c < 65536" | "65536 \<le> c" "c < 1114112"
    using assms by (fastforce simp: is_scalar_def)
  then show ?thesis
  proof cases
    case 1
    then show ?thesis by (simp add: encode_utf8_nat_def)
  next
    case 2
    then have "2 \<le> c div 64" "c div 64 < 32" by auto
    with 2 cont show ?thesis by (simp add: encode_utf8_nat_def)
  next
    case 3
    then have hi: "c div 4096 < 16" by auto
    have e0: "224 + c div 4096 = 224 \<Longrightarrow> 160 \<le> 128 + c div 64 mod 64"
    proof -
      assume "224 + c div 4096 = 224"
      then have "c < 4096" by auto
      then have "c div 64 < 64" by auto
      moreover from 3 have "32 \<le> c div 64" by auto
      ultimately show ?thesis by simp
    qed
    have ed: "224 + c div 4096 = 237 \<Longrightarrow> 128 + c div 64 mod 64 \<le> 159"
    proof -
      assume "224 + c div 4096 = 237"
      then have "53248 \<le> c" "c < 57344" by auto
      with assms have "c < 55296" by (auto simp: is_scalar_def)
      with \<open>53248 \<le> c\<close> have "832 \<le> c div 64" "c div 64 < 864" by auto
      then have "c div 64 mod 64 = c div 64 - 832" by (simp add: mod_nat_eqI)
      with \<open>c div 64 < 864\<close> show ?thesis by simp
    qed
    from 3 hi cont e0 ed show ?thesis by (simp add: encode_utf8_nat_def)
  next
    case 4
    then have hi: "c div 262144 < 5" by auto
    have f0: "240 + c div 262144 = 240 \<Longrightarrow> 144 \<le> 128 + c div 4096 mod 64"
    proof -
      assume "240 + c div 262144 = 240"
      then have "c < 262144" by auto
      then have "c div 4096 < 64" by auto
      moreover from 4 have "16 \<le> c div 4096" by auto
      ultimately show ?thesis by simp
    qed
    have f4: "240 + c div 262144 = 244 \<Longrightarrow> 128 + c div 4096 mod 64 \<le> 143"
    proof -
      assume "240 + c div 262144 = 244"
      then have "1048576 \<le> c" by auto
      with 4 have "256 \<le> c div 4096" "c div 4096 < 272" by auto
      then have "c div 4096 mod 64 = c div 4096 - 256" by (simp add: mod_nat_eqI)
      with \<open>c div 4096 < 272\<close> show ?thesis by simp
    qed
    from 4 hi cont f0 f4 show ?thesis by (simp add: encode_utf8_nat_def)
  qed
qed

lemma from_utf8_ok_utf8_bytes [simp]: "list_all is_scalar s \<Longrightarrow> from_utf8_ok (utf8_bytes s)"
proof -
  have "list_all is_scalar s \<Longrightarrow> utf8_ok (map unat (utf8_bytes s))"
    by (induction s) (simp_all add: utf8_bytes_def map_unat_encode_utf8 utf8_ok_encode_append)
  then show "list_all is_scalar s \<Longrightarrow> from_utf8_ok (utf8_bytes s)"
    by (simp add: from_utf8_ok_def)
qed

lemma length_utf8_bytes: "length (utf8_bytes s) = sum_list (map len_utf8 s)"
  by (induction s) (simp_all add: utf8_bytes_def)

section \<open>The reported error\<close>

text \<open>\<open>Utf8Error\<close>: the index of the first bad sequence (\<open>valid_up_to\<close>) and, unless the input ends inside a
  sequence, how many of its bytes are bad (\<open>error_len\<close>).\<close>

definition check_cont :: "(nat \<Rightarrow> bool) \<Rightarrow> nat \<Rightarrow> nat list \<Rightarrow> (nat option + nat list)" where
  "check_cont ok k bs = (case bs of [] \<Rightarrow> Inl None | c # r \<Rightarrow> if ok c then Inr r else Inl (Some k))"

definition second_ok :: "nat \<Rightarrow> nat \<Rightarrow> bool" where
  "second_ok b c \<longleftrightarrow> is_cont c \<and> (b = 224 \<longrightarrow> 160 \<le> c) \<and> (b = 237 \<longrightarrow> c \<le> 159) \<and>
     (b = 240 \<longrightarrow> 144 \<le> c) \<and> (b = 244 \<longrightarrow> c \<le> 143)"

definition char_width :: "nat \<Rightarrow> nat" where
  "char_width b = (if b < 128 then 1 else if 194 \<le> b \<and> b \<le> 223 then 2
     else if 224 \<le> b \<and> b \<le> 239 then 3 else if 240 \<le> b \<and> b \<le> 244 then 4 else 0)"

text \<open>One character: the bytes after it, or the bad length.\<close>

definition utf8_char :: "nat \<Rightarrow> nat list \<Rightarrow> (nat option + nat list)" where
  "utf8_char b bs =
     (if char_width b = 0 then Inl (Some 1)
      else if char_width b = 1 then Inr bs
      else case check_cont (second_ok b) 1 bs of Inl e \<Rightarrow> Inl e | Inr r \<Rightarrow>
        if char_width b = 2 then Inr r
        else case check_cont is_cont 2 r of Inl e \<Rightarrow> Inl e | Inr r \<Rightarrow>
          if char_width b = 3 then Inr r else check_cont is_cont 3 r)"

lemma check_cont_length: "check_cont ok k bs = Inr r \<Longrightarrow> length r < length bs"
  by (auto simp: check_cont_def split: list.splits if_splits)

lemma utf8_char_length: "utf8_char b bs = Inr r \<Longrightarrow> length r \<le> length bs"
  by (auto simp: utf8_char_def split: if_splits sum.splits dest!: check_cont_length)

function utf8_error_at :: "nat \<Rightarrow> nat list \<Rightarrow> (nat \<times> nat option) option" where
  "utf8_error_at i [] = None"
| "utf8_error_at i (b # bs) =
     (case utf8_char b bs of
        Inl e \<Rightarrow> Some (i, e)
      | Inr r \<Rightarrow> utf8_error_at (i + char_width b) r)"
  by pat_completeness auto
termination by (relation "measure (\<lambda>(i, bs). length bs)") (auto dest: utf8_char_length)

definition from_utf8_error :: "u8 list \<Rightarrow> (nat \<times> nat option) option" where
  "from_utf8_error bs = utf8_error_at 0 (map unat bs)"

text \<open>\<open>Display\<close> of the error.\<close>

definition utf8_error_display :: "nat \<times> nat option \<Rightarrow> ustr" where
  "utf8_error_display e =
     (case e of
        (i, Some n) \<Rightarrow> msg ''invalid utf-8 sequence of '' @ show_nat n @ msg '' bytes from index '' @ show_nat i
      | (i, None) \<Rightarrow> msg ''incomplete utf-8 byte sequence from index '' @ show_nat i)"

lemma utf8_ok_2: "194 \<le> b \<Longrightarrow> b \<le> 223 \<Longrightarrow>
    utf8_ok (b # bs) = (case bs of c # r \<Rightarrow> is_cont c \<and> utf8_ok r | _ \<Rightarrow> False)"
  by simp

lemma utf8_ok_3: "224 \<le> b \<Longrightarrow> b \<le> 239 \<Longrightarrow>
    utf8_ok (b # bs) = (case bs of c1 # c2 # r \<Rightarrow> second_ok b c1 \<and> is_cont c2 \<and> utf8_ok r | _ \<Rightarrow> False)"
  by (auto simp: second_ok_def split: list.splits)

lemma utf8_ok_4: "240 \<le> b \<Longrightarrow> b \<le> 244 \<Longrightarrow>
    utf8_ok (b # bs) =
      (case bs of c1 # c2 # c3 # r \<Rightarrow> second_ok b c1 \<and> is_cont c2 \<and> is_cont c3 \<and> utf8_ok r | _ \<Rightarrow> False)"
  by (auto simp: second_ok_def split: list.splits)

lemma utf8_char_cases:
  "b < 128 \<Longrightarrow> utf8_char b bs = Inr bs"
  "194 \<le> b \<Longrightarrow> b \<le> 223 \<Longrightarrow> utf8_char b bs = check_cont is_cont 1 bs"
proof -
  assume two: "194 \<le> b" "b \<le> 223"
  then have "second_ok b = is_cont" by (auto simp: second_ok_def fun_eq_iff)
  with two show "utf8_char b bs = check_cont is_cont 1 bs"
    by (simp add: utf8_char_def char_width_def split: sum.splits)
qed (simp add: utf8_char_def char_width_def)

lemma utf8_ok_step: "utf8_ok (b # bs) \<longleftrightarrow> (\<exists>r. utf8_char b bs = Inr r \<and> utf8_ok r)"
proof -
  consider (one) "b < 128" | (two) "194 \<le> b" "b \<le> 223" | (three) "224 \<le> b" "b \<le> 239"
    | (four) "240 \<le> b" "b \<le> 244" | (bad) "128 \<le> b" "b < 194 \<or> 244 < b" by linarith
  then show ?thesis
  proof cases
    case one
    then show ?thesis by (simp add: utf8_char_cases)
  next
    case two
    then show ?thesis unfolding utf8_ok_2 [OF two] utf8_char_cases(2) [OF two]
      by (simp add: check_cont_def split: list.splits)
  next
    case three
    then have w: "char_width b = 3" by (simp add: char_width_def)
    show ?thesis unfolding utf8_ok_3 [OF three]
      by (simp add: utf8_char_def w check_cont_def split: list.splits)
  next
    case four
    then have w: "char_width b = 4" by (simp add: char_width_def)
    show ?thesis unfolding utf8_ok_4 [OF four]
      by (simp add: utf8_char_def w check_cont_def split: list.splits)
  next
    case bad
    then have "char_width b = 0" "\<not> utf8_ok (b # bs)" by (auto simp: char_width_def)
    then show ?thesis by (simp add: utf8_char_def)
  qed
qed

lemma utf8_error_at_None: "utf8_error_at i bs = None \<longleftrightarrow> utf8_ok bs"
proof (induction i bs rule: utf8_error_at.induct)
  case (2 i b bs)
  then show ?case unfolding utf8_ok_step by (auto split: sum.splits)
qed simp

lemma from_utf8_error_None: "from_utf8_error bs = None \<longleftrightarrow> from_utf8_ok bs"
  by (simp add: from_utf8_error_def from_utf8_ok_def utf8_error_at_None)

end
