(* ===== verification/Ids.thy ===== *)
theory Ids
  imports Utf8 "HOL-Library.Product_Lexorder"
begin

text \<open>
  Identifiers and versions of \<open>qqq-core/src/ids.rs\<close>: the name rules shared by \<open>TenantId\<close>,
  \<open>ComponentId\<close> and \<open>PackageName\<close>, the three-component \<open>Version\<close> with its derived order, its
  \<open>Display\<close> and \<open>FromStr\<close>, and the compatibility relation of the deprecation policy.
\<close>

section \<open>Names\<close>

datatype IdError =
    Empty
  | TooLong nat nat
  | InvalidCharacter nat nat
  | MustStartWithLetter nat
  | TrailingSeparator nat

definition MAX_ID_LEN :: nat where
  "MAX_ID_LEN = 64"

definition is_name_char :: "nat \<Rightarrow> bool" where
  "is_name_char c \<longleftrightarrow> is_ascii_lowercase c \<or> is_ascii_digit c \<or> c = 45 \<or> c = 95"

text \<open>The loop over \<open>char_indices\<close>: the first refused character with its byte offset.\<close>

fun first_bad_char :: "nat \<Rightarrow> ustr \<Rightarrow> (nat \<times> nat) option" where
  "first_bad_char at [] = None"
| "first_bad_char at (c # cs) =
     (if \<not> is_name_char c then Some (c, at) else first_bad_char (at + len_utf8 c) cs)"

definition validate_name :: "ustr \<Rightarrow> IdError + unit" where
  "validate_name s =
     (case s of
        [] \<Rightarrow> Inl Empty
      | first # _ \<Rightarrow>
          if MAX_ID_LEN < length s then Inl (TooLong (length s) MAX_ID_LEN)
          else if \<not> is_ascii_alphabetic first then Inl (MustStartWithLetter first)
          else (case first_bad_char 0 s of
                  Some (c, at) \<Rightarrow> Inl (InvalidCharacter c at)
                | None \<Rightarrow>
                    if last s = 45 \<or> last s = 95 then Inl (TrailingSeparator (last s))
                    else Inr ()))"

section \<open>Versions\<close>

datatype Version = Version (major: u32) (minor: u32) (patch: u32)

text \<open>The derived \<open>Ord\<close>: lexicographic in declaration order.\<close>

instantiation Version :: linorder
begin

definition less_eq_Version :: "Version \<Rightarrow> Version \<Rightarrow> bool" where
  "less_eq_Version a b \<longleftrightarrow> (major a, minor a, patch a) \<le> (major b, minor b, patch b)"

definition less_Version :: "Version \<Rightarrow> Version \<Rightarrow> bool" where
  "less_Version a b \<longleftrightarrow> (major a, minor a, patch a) < (major b, minor b, patch b)"

instance
  by standard (auto simp: less_eq_Version_def less_Version_def Version.expand)

end

definition is_compatible_with :: "Version \<Rightarrow> Version \<Rightarrow> bool" where
  "is_compatible_with self other \<longleftrightarrow>
     (if major self = 0 \<or> major other = 0 then
        major self = major other \<and> minor self = minor other \<and> patch other \<le> patch self
      else
        major self = major other \<and>
        (minor other < minor self \<or> (minor self = minor other \<and> patch other \<le> patch self)))"

definition version_display :: "Version \<Rightarrow> ustr" where
  "version_display v =
     show_nat (unat (major v)) @ lit ''.'' @ show_nat (unat (minor v)) @ lit ''.'' @
     show_nat (unat (patch v))"

datatype VersionParseError =
    MissingComponent string
  | NotANumber ustr
  | TooManyComponents

text \<open>
  The closure \<open>next\<close> of \<open>Version::from_str\<close>: it takes one part off the iterator and refuses an
  absent, empty, non-digit, zero-led or overflowing component.
\<close>

fun next_component :: "string \<Rightarrow> ustr list \<Rightarrow> VersionParseError + (u32 \<times> ustr list)" where
  "next_component what [] = Inl (MissingComponent what)"
| "next_component what (raw # parts) =
     (if raw = [] \<or> \<not> list_all is_ascii_digit raw then Inl (NotANumber raw)
      else if 1 < length raw \<and> hd raw = 48 then Inl (NotANumber raw)
      else (case parse_uint 32 raw of
              None \<Rightarrow> Inl (NotANumber raw)
            | Some n \<Rightarrow> Inr (of_nat n, parts)))"

definition version_from_str :: "ustr \<Rightarrow> VersionParseError + Version" where
  "version_from_str s =
     (case next_component ''major'' (split_on 46 (trim s)) of
        Inl e \<Rightarrow> Inl e
      | Inr (ma, ps1) \<Rightarrow>
          (case next_component ''minor'' ps1 of
             Inl e \<Rightarrow> Inl e
           | Inr (mi, ps2) \<Rightarrow>
               (case next_component ''patch'' ps2 of
                  Inl e \<Rightarrow> Inl e
                | Inr (pa, ps3) \<Rightarrow>
                    if ps3 \<noteq> [] then Inl TooManyComponents else Inr (Version ma mi pa))))"

section \<open>Properties of names\<close>

lemma first_bad_char_None: "first_bad_char at s = None \<longleftrightarrow> list_all is_name_char s"
  by (induction s arbitrary: at) auto

definition valid_name :: "ustr \<Rightarrow> bool" where
  "valid_name s \<longleftrightarrow> s \<noteq> [] \<and> length s \<le> 64 \<and> list_all is_name_char s \<and>
     is_ascii_lowercase (hd s) \<and> last s \<noteq> 45 \<and> last s \<noteq> 95"

lemma name_first_lowercase:
  "is_name_char c \<Longrightarrow> is_ascii_alphabetic c \<longleftrightarrow> is_ascii_lowercase c"
  by (auto simp: is_name_char_def is_ascii_alphabetic_def is_ascii_lowercase_def is_ascii_digit_def)

lemma validate_name_iff: "validate_name s = Inr () \<longleftrightarrow> valid_name s"
proof (cases s)
  case Nil
  then show ?thesis by (simp add: validate_name_def valid_name_def)
next
  case (Cons c cs)
  have "first_bad_char 0 s = None \<longleftrightarrow> list_all is_name_char s" by (rule first_bad_char_None)
  with Cons show ?thesis
    by (auto simp: validate_name_def valid_name_def MAX_ID_LEN_def name_first_lowercase
        is_name_char_def [of c] is_ascii_alphabetic_def is_ascii_lowercase_def is_ascii_digit_def
        split: option.splits if_splits)
qed

section \<open>Properties of versions\<close>

lemma show_nat_no_dot: "46 \<notin> set (show_nat n)"
  using show_nat_digits [of n] by (auto simp: list_all_iff is_ascii_digit_def)

lemma next_component_show [simp]:
  "next_component what (show_nat (unat (a :: u32)) # ps) = Inr (a, ps)"
proof -
  have "unat a < 2 ^ 32" using unat_lt_len [of a] by simp
  then have "parse_uint 32 (show_nat (unat a)) = Some (unat a)" by (rule parse_show_nat)
  then show ?thesis
    using show_nat_digits [of "unat a"] show_nat_hd_zero [of "unat a"] by auto
qed

lemma trim_version_display [simp]: "trim (version_display v) = version_display v"
  by (rule trim_id) (simp_all add: version_display_def show_nat_ends)

lemma split_version_display:
  "split_on 46 (version_display v) =
     [show_nat (unat (major v)), show_nat (unat (minor v)), show_nat (unat (patch v))]"
  by (simp add: version_display_def split_on_append split_on_no_sep show_nat_no_dot)

text \<open>A version survives being printed and parsed: \<open>FromStr\<close> applied to \<open>Display\<close> is the version
  itself, over the whole \<open>u32\<close> range of each component.\<close>

theorem version_roundtrip: "version_from_str (version_display v) = Inr v"
  by (simp add: version_from_str_def split_version_display del: next_component.simps)

end
