(* ===== verification/Errors.thy ===== *)
theory Errors
  imports QQQ_Prelude
begin

text \<open>
  The error model of \<open>qqq-core/src/error.rs\<close>: the stable codes, their classes, the identifier
  \<open>QQQ-nnnn\<close> and its parser, and the structured part of an \<open>Error\<close>. The prose of an error (message,
  causes, remediation) decides nothing in the modelled code and is left out; the code and the
  key/value context are kept.
\<close>

section \<open>Classes and codes\<close>

datatype ErrorClass = Build | Manifest | Trap | CapabilityClass | Package | Host | Agent

primrec class_is_retryable :: "ErrorClass \<Rightarrow> bool" where
  "class_is_retryable Build = False"
| "class_is_retryable Manifest = False"
| "class_is_retryable Trap = False"
| "class_is_retryable CapabilityClass = False"
| "class_is_retryable Package = True"
| "class_is_retryable Host = True"
| "class_is_retryable Agent = False"

datatype ErrorCode =
    CompilationFailed | InvalidComponentArtifact | MissingTarget
  | WitInterfaceMismatch | NonReproducibleBuild | DebugInfoInvalid
  | ComponentDigestMismatch | ManifestSyntaxInvalid | ManifestSchemaViolation
  | SecretUnresolvable | CapabilityPathInvalid | LimitOutOfRange
  | RequiresFabric | CapabilitySyntaxInvalid | MemoryLimitExceeded
  | FuelExhausted | EpochDeadlineExceeded | GuestTrap
  | InvalidResourceHandle | GuestPanic | GuestOutOfBounds
  | SubrequestLimitExceeded | GuestResponseRefused | CapabilityOutOfScope
  | CapabilityWideningRefused | CapabilityDenied | SecretUseFailed
  | CapabilityQuotaExhausted | RegistryUnreachable | SignatureVerificationFailed
  | LockfileOutOfDate | VersionUnsatisfiable | DependencyCapabilityEscalation
  | StoreCorrupted | DependencyNotFound | InstancePoolExhausted
  | ListenerBindFailed | ComponentLoadFailed | InternalInvariantViolated
  | HostResourceExhausted | RequestBodyTooLarge | HostPanicContained
  | DeterminismUnsupported | McpArgumentInvalid | UnknownSchemaSurface
  | ProtocolVersionUnsupported | CliFlagUnknown

text \<open>\<open>self as u16\<close>, the discriminant each variant is declared with.\<close>

primrec code_number :: "ErrorCode \<Rightarrow> u16" where
  "code_number CompilationFailed = 1001"
| "code_number InvalidComponentArtifact = 1002"
| "code_number MissingTarget = 1003"
| "code_number WitInterfaceMismatch = 1004"
| "code_number NonReproducibleBuild = 1005"
| "code_number DebugInfoInvalid = 1006"
| "code_number ComponentDigestMismatch = 1007"
| "code_number ManifestSyntaxInvalid = 2001"
| "code_number ManifestSchemaViolation = 2002"
| "code_number SecretUnresolvable = 2003"
| "code_number CapabilityPathInvalid = 2004"
| "code_number LimitOutOfRange = 2005"
| "code_number RequiresFabric = 2006"
| "code_number CapabilitySyntaxInvalid = 2007"
| "code_number MemoryLimitExceeded = 3001"
| "code_number FuelExhausted = 3002"
| "code_number EpochDeadlineExceeded = 3003"
| "code_number GuestTrap = 3004"
| "code_number InvalidResourceHandle = 3005"
| "code_number GuestPanic = 3006"
| "code_number GuestOutOfBounds = 3007"
| "code_number SubrequestLimitExceeded = 3008"
| "code_number GuestResponseRefused = 3009"
| "code_number CapabilityOutOfScope = 4001"
| "code_number CapabilityWideningRefused = 4002"
| "code_number CapabilityDenied = 4003"
| "code_number SecretUseFailed = 4004"
| "code_number CapabilityQuotaExhausted = 4005"
| "code_number RegistryUnreachable = 5001"
| "code_number SignatureVerificationFailed = 5002"
| "code_number LockfileOutOfDate = 5003"
| "code_number VersionUnsatisfiable = 5004"
| "code_number DependencyCapabilityEscalation = 5005"
| "code_number StoreCorrupted = 5006"
| "code_number DependencyNotFound = 5007"
| "code_number InstancePoolExhausted = 6001"
| "code_number ListenerBindFailed = 6002"
| "code_number ComponentLoadFailed = 6003"
| "code_number InternalInvariantViolated = 6004"
| "code_number HostResourceExhausted = 6005"
| "code_number RequestBodyTooLarge = 6006"
| "code_number HostPanicContained = 6007"
| "code_number DeterminismUnsupported = 6008"
| "code_number McpArgumentInvalid = 7001"
| "code_number UnknownSchemaSurface = 7002"
| "code_number ProtocolVersionUnsupported = 7003"
| "code_number CliFlagUnknown = 7004"

definition all_codes :: "ErrorCode list" where
  "all_codes =
    [CompilationFailed, InvalidComponentArtifact, MissingTarget, WitInterfaceMismatch,
     NonReproducibleBuild, DebugInfoInvalid, ComponentDigestMismatch, ManifestSyntaxInvalid,
     ManifestSchemaViolation, SecretUnresolvable, CapabilityPathInvalid, LimitOutOfRange,
     RequiresFabric, CapabilitySyntaxInvalid, MemoryLimitExceeded, FuelExhausted,
     EpochDeadlineExceeded, GuestTrap, InvalidResourceHandle, GuestPanic,
     GuestOutOfBounds, SubrequestLimitExceeded, GuestResponseRefused, CapabilityOutOfScope,
     CapabilityWideningRefused, CapabilityDenied, SecretUseFailed, CapabilityQuotaExhausted,
     RegistryUnreachable, SignatureVerificationFailed, LockfileOutOfDate, VersionUnsatisfiable,
     DependencyCapabilityEscalation, StoreCorrupted, DependencyNotFound, InstancePoolExhausted,
     ListenerBindFailed, ComponentLoadFailed, InternalInvariantViolated, HostResourceExhausted,
     RequestBodyTooLarge, HostPanicContained, DeterminismUnsupported, McpArgumentInvalid,
     UnknownSchemaSurface, ProtocolVersionUnsupported, CliFlagUnknown]"

text \<open>
  \<open>ErrorCode::class\<close> divides the number by 1000; its last arm panics, which is the value \<open>None\<close> here.
\<close>

definition code_class :: "ErrorCode \<Rightarrow> ErrorClass option" where
  "code_class c =
     (let d = code_number c div 1000 in
      if d = 1 then Some Build else if d = 2 then Some Manifest
      else if d = 3 then Some Trap else if d = 4 then Some CapabilityClass
      else if d = 5 then Some Package else if d = 6 then Some Host
      else if d = 7 then Some Agent else None)"

definition code_is_retryable :: "ErrorCode \<Rightarrow> bool option" where
  "code_is_retryable c =
     (if c = HostPanicContained then Some False else map_option class_is_retryable (code_class c))"

definition from_number :: "u16 \<Rightarrow> ErrorCode option" where
  "from_number n = find (\<lambda>c. code_number c = n) all_codes"

section \<open>Identifiers\<close>

text \<open>\<open>format!("{:04}")\<close>: decimal, padded on the left with zeros.\<close>

definition show_padded :: "nat \<Rightarrow> nat \<Rightarrow> ustr" where
  "show_padded w n = replicate (w - length (show_nat n)) 48 @ show_nat n"

definition code_id :: "ErrorCode \<Rightarrow> ustr" where
  "code_id c = lit ''QQQ-'' @ show_padded 4 (unat (code_number c))"

definition eq_ignore_ascii_case :: "ustr \<Rightarrow> ustr \<Rightarrow> bool" where
  "eq_ignore_ascii_case a b \<longleftrightarrow> map to_ascii_lowercase a = map to_ascii_lowercase b"

text \<open>
  \<open>ErrorCode::parse\<close>. The byte offsets of the source coincide with code points here: the first four
  bytes pass the comparison only when they are four ASCII characters, and the remainder passes the
  digit test only when every byte is an ASCII digit.
\<close>

definition parse_code :: "ustr \<Rightarrow> ErrorCode option" where
  "parse_code s0 =
     (let s = trim s0 in
      if \<not> eq_ignore_ascii_case (take 4 s) (lit ''qqq-'') then None
      else let rest = drop 4 s in
        if length rest \<noteq> 4 \<or> \<not> list_all is_ascii_digit rest then None
        else (case parse_uint 16 rest of None \<Rightarrow> None | Some n \<Rightarrow> from_number (of_nat n)))"

section \<open>The error value\<close>

record Error =
  code :: ErrorCode
  message :: ustr
  cause :: "ustr list"
  remediation :: "ustr option"
  error_context :: "(ustr \<times> ustr) list"

definition error_new :: "ErrorCode \<Rightarrow> ustr \<Rightarrow> Error" where
  "error_new c m = \<lparr>code = c, message = m, cause = [], remediation = None, error_context = []\<rparr>"

definition with_remediation :: "ustr \<Rightarrow> Error \<Rightarrow> Error" where
  "with_remediation r e = e\<lparr>remediation := Some r\<rparr>"

definition with_context :: "ustr \<Rightarrow> ustr \<Rightarrow> Error \<Rightarrow> Error" where
  "with_context k v e = e\<lparr>error_context := error_context e @ [(k, v)]\<rparr>"

definition with_cause :: "ustr \<Rightarrow> Error \<Rightarrow> Error" where
  "with_cause c e = e\<lparr>cause := cause e @ [c]\<rparr>"

definition docs_url :: "ErrorCode \<Rightarrow> ustr" where
  "docs_url c = lit ''https://qqq.codes/errors/'' @ code_id c"

section \<open>Rendering\<close>

text \<open>\<open>char::is_control\<close> (the category \<open>Cc\<close>), \<open>text::is_layout_forgery\<close> and \<open>text::is_invisible_format\<close>.\<close>

definition is_control :: "nat \<Rightarrow> bool" where
  "is_control c \<longleftrightarrow> c \<le> 31 \<or> (127 \<le> c \<and> c \<le> 159)"

definition is_layout_forgery :: "nat \<Rightarrow> bool" where
  "is_layout_forgery c \<longleftrightarrow>
     c = 0x2028 \<or> c = 0x2029 \<or> c = 0x200E \<or> c = 0x200F \<or> c = 0x061C \<or>
     (0x202A \<le> c \<and> c \<le> 0x202E) \<or> (0x2066 \<le> c \<and> c \<le> 0x2069) \<or> c = 0x2800 \<or> c = 0xFEFF"

definition is_invisible_format :: "nat \<Rightarrow> bool" where
  "is_invisible_format c \<longleftrightarrow>
     c = 0x00AD \<or> c = 0x034F \<or> (0x0600 \<le> c \<and> c \<le> 0x0605) \<or> c = 0x06DD \<or> c = 0x070F \<or> (0x0890 \<le> c \<and> c \<le> 0x0891) \<or>
     c = 0x08E2 \<or> c = 0x110BD \<or> c = 0x110CD \<or> c = 0x13430 \<or> (0x180B \<le> c \<and> c \<le> 0x180F) \<or> c = 0x1BCA0 \<or>
     (0x1D173 \<le> c \<and> c \<le> 0x1D17A) \<or> (0x200B \<le> c \<and> c \<le> 0x200D) \<or> (0x2060 \<le> c \<and> c \<le> 0x2064) \<or>
     (0x206A \<le> c \<and> c \<le> 0x206F) \<or> (0xFE00 \<le> c \<and> c \<le> 0xFE0F) \<or> (0xFFF9 \<le> c \<and> c \<le> 0xFFFB) \<or> c = 0xE0001 \<or>
     (0xE0020 \<le> c \<and> c \<le> 0xE007F) \<or> (0xE0100 \<le> c \<and> c \<le> 0xE01EF)"

definition one_line :: "ustr \<Rightarrow> ustr" where
  "one_line s =
     (if list_all (\<lambda>c. \<not> is_control c \<and> \<not> is_layout_forgery c) s then s
      else map (\<lambda>c. if is_control c \<or> is_layout_forgery c then 0xFFFD else c) s)"

text \<open>\<open>writeln!\<close> ends its text with a line feed; \<open>8594\<close> is the arrow before the remediation.\<close>

definition line :: "ustr \<Rightarrow> ustr" where
  "line s = s @ [10]"

definition render :: "Error \<Rightarrow> ustr" where
  "render e =
     line (lit ''error['' @ code_id (code e) @ lit '']: '' @ one_line (message e)) @
     concat (map (\<lambda>c. line (lit ''  caused by: '' @ one_line c)) (cause e)) @
     (if error_context e \<noteq> [] then
        line [] @ concat (map (\<lambda>(k, v). line (lit ''  '' @ one_line k @ lit '': '' @ one_line v)) (error_context e))
      else []) @
     (case remediation e of None \<Rightarrow> [] | Some r \<Rightarrow> line [] @ line (lit ''  '' @ 8594 # 32 # one_line r)) @
     line [] @ line (lit ''  Docs: '' @ docs_url (code e))"

definition error_display :: "Error \<Rightarrow> ustr" where
  "error_display e = code_id (code e) @ lit '': '' @ one_line (message e)"

lemma code_error_new [simp]: "code (error_new c m) = c"
  by (simp add: error_new_def)

lemma code_builders [simp]:
  "code (with_cause c e) = code e" "code (with_remediation r e) = code e"
  by (simp_all add: with_cause_def with_remediation_def)

lemma code_with_context [simp]: "code (with_context k v e) = code e"
  by (simp add: with_context_def)

section \<open>Round trips\<close>

lemma all_codes_complete: "c \<in> set all_codes"
  by (cases c) (simp_all add: all_codes_def)

lemma all_codesI: "list_all P all_codes \<Longrightarrow> P c"
  using all_codes_complete [of c] by (simp add: list_all_iff)

lemma distinct_code_numbers: "distinct (map (\<lambda>c. unat (code_number c)) all_codes)"
  by (simp add: all_codes_def)

lemma from_number_code_number [simp]: "from_number (code_number c) = Some c"
  using find_distinct_key [OF distinct_code_numbers all_codes_complete, of c]
  by (simp add: from_number_def word_unat_eq_iff)

lemma code_number_range: "1000 \<le> unat (code_number c)" "unat (code_number c) < 10000"
  by (cases c; simp)+

lemma length_show_nat_4: "1000 \<le> n \<Longrightarrow> n < 10000 \<Longrightarrow> length (show_nat n) = 4"
proof -
  assume "1000 \<le> n" "n < 10000"
  then have "n div 10 \<ge> 100" "n div 100 \<ge> 10" "n div 1000 < 10" by auto
  then show ?thesis
    by (simp add: show_nat.simps [of n] show_nat.simps [of "n div 10"] show_nat.simps [of "n div 100"]
        show_nat.simps [of "n div 1000"] div_mult2_eq [symmetric])
qed

lemma trim_ascii_number:
  assumes "p \<noteq> []" "\<not> is_whitespace (hd p)"
  shows "trim (p @ show_nat n) = p @ show_nat n"
proof (rule trim_id)
  show "\<not> is_whitespace (hd (p @ show_nat n))" using assms by simp
  have "last (show_nat n) \<in> set (show_nat n)" by simp
  then have "is_ascii_digit (last (show_nat n))"
    using show_nat_digits [of n] by (simp add: list_all_iff)
  then show "\<not> is_whitespace (last (p @ show_nat n))"
    by (simp add: digit_not_whitespace)
qed

text \<open>Every error code survives being printed and parsed back: \<open>ErrorCode::parse\<close> applied to
  \<open>ErrorCode::id\<close> is the code itself, and no other code prints the same identifier.\<close>

theorem parse_code_id: "parse_code (code_id c) = Some c \<and> (code_id c = code_id d \<longleftrightarrow> c = d)"
proof -
  have rt: "parse_code (code_id c) = Some c" for c
  proof -
    let ?n = "unat (code_number c)"
    have len: "length (show_nat ?n) = 4"
      by (rule length_show_nat_4) (rule code_number_range)+
    then have id: "code_id c = lit ''QQQ-'' @ show_nat ?n"
      by (simp add: code_id_def show_padded_def)
    have "?n < 2 ^ 16" using code_number_range(2) [of c] by simp
    then have "parse_uint 16 (show_nat ?n) = Some ?n" by (rule parse_show_nat)
    with id len show ?thesis
      using show_nat_digits [of ?n]
      by (simp add: parse_code_def trim_ascii_number [of "lit ''QQQ-''", simplified] Let_def
          eq_ignore_ascii_case_def to_ascii_lowercase_def is_whitespace_def)
  qed
  then show ?thesis by (metis option.inject)
qed

section \<open>No forged lines\<close>

definition printable :: "ustr \<Rightarrow> bool" where
  "printable s \<longleftrightarrow> list_all (\<lambda>c. \<not> is_control c \<and> \<not> is_layout_forgery c) s"

lemma printable_simps [simp]:
  "printable []" "printable (c # s) \<longleftrightarrow> \<not> is_control c \<and> \<not> is_layout_forgery c \<and> printable s"
  "printable (s @ t) \<longleftrightarrow> printable s \<and> printable t"
  by (simp_all add: printable_def)

lemma printable_one_line [simp]: "printable (one_line s)"
proof -
  have "\<not> is_control 0xFFFD" "\<not> is_layout_forgery 0xFFFD"
    by (simp_all add: is_control_def is_layout_forgery_def)
  then show ?thesis by (auto simp: printable_def one_line_def list_all_iff)
qed

lemma one_line_printable: "printable s \<Longrightarrow> one_line s = s"
  by (simp add: printable_def one_line_def)

lemma digits_printable: "list_all is_ascii_digit ds \<Longrightarrow> printable ds"
  by (induction ds) (auto simp: is_ascii_digit_def is_control_def is_layout_forgery_def)

lemma printable_code_id [simp]: "printable (code_id c)"
proof -
  have "printable (show_nat n)" for n by (simp add: digits_printable show_nat_digits)
  moreover have "printable (replicate k 48)" for k
    by (induction k) (simp_all add: is_control_def is_layout_forgery_def)
  ultimately show ?thesis
    by (simp add: code_id_def show_padded_def is_control_def is_layout_forgery_def)
qed

text \<open>A text that is a sequence of lines with printable content.\<close>

inductive printed :: "nat \<Rightarrow> ustr \<Rightarrow> bool" where
  printed_none: "printed 0 []"
| printed_line: "printed n s \<Longrightarrow> printable l \<Longrightarrow> printed (Suc n) (line l @ s)"

lemma printed_append: "printed n s \<Longrightarrow> printed m t \<Longrightarrow> printed (n + m) (s @ t)"
  by (induction rule: printed.induct) (auto intro: printed.intros)

lemma printed_one: "printable l \<Longrightarrow> printed 1 (line l)"
  using printed_line [OF printed_none, of l] by simp

lemma printed_concat: "(\<And>x. printable (f x)) \<Longrightarrow> printed (length xs) (concat (map (\<lambda>x. line (f x)) xs))"
  by (induction xs) (auto intro: printed.intros)

lemma printed_count: "printed n s \<Longrightarrow> count_list s 10 = n \<and> list_all (\<lambda>c. c = 10 \<or> printable [c]) s"
proof (induction rule: printed.induct)
  case (printed_line n s l)
  have "10 \<notin> set l" and "list_all (\<lambda>c. c = 10 \<or> printable [c]) l"
    using printed_line(2) by (auto simp: printable_def list_all_iff is_control_def)
  with printed_line show ?case by (simp add: line_def count_notin)
qed simp

definition rendered_lines :: "Error \<Rightarrow> nat" where
  "rendered_lines e =
     1 + length (cause e) + (if error_context e = [] then 0 else 1 + length (error_context e)) +
     (if remediation e = None then 0 else 2) + 2"

lemma printed_render: "printed (rendered_lines e) (render e)"
proof -
  note lits = is_control_def is_layout_forgery_def docs_url_def
  have head: "printed 1 (line (lit ''error['' @ code_id (code e) @ lit '']: '' @ one_line (message e)))"
    by (rule printed_one) (simp add: lits)
  have cs: "printed (length (cause e)) (concat (map (\<lambda>c. line (lit ''  caused by: '' @ one_line c)) (cause e)))"
    by (rule printed_concat) (simp add: lits)
  have kv: "printed (length (error_context e))
      (concat (map (\<lambda>(k, v). line (lit ''  '' @ one_line k @ lit '': '' @ one_line v)) (error_context e)))"
    unfolding case_prod_beta by (rule printed_concat) (simp add: lits)
  have blank: "printed 1 (line [])" by (rule printed_one) simp
  have ctx: "printed (if error_context e = [] then 0 else 1 + length (error_context e))
      (if error_context e \<noteq> [] then line [] @ concat (map (\<lambda>(k, v).
         line (lit ''  '' @ one_line k @ lit '': '' @ one_line v)) (error_context e)) else [])"
    using printed_append [OF blank kv] printed_none by simp
  have rem: "printed (if remediation e = None then 0 else 2)
      (case remediation e of None \<Rightarrow> [] | Some r \<Rightarrow> line [] @ line (lit ''  '' @ 8594 # 32 # one_line r))"
  proof (cases "remediation e")
    case (Some r)
    have "printed 1 (line (lit ''  '' @ 8594 # 32 # one_line r))" by (rule printed_one) (simp add: lits)
    from printed_append [OF blank this] Some show ?thesis by (simp add: numeral_2_eq_2)
  qed (simp add: printed_none)
  have docs: "printed 2 (line [] @ line (lit ''  Docs: '' @ docs_url (code e)))"
    using printed_append [OF blank printed_one, of "lit ''  Docs: '' @ docs_url (code e)"]
    by (simp add: lits numeral_2_eq_2)
  from printed_append [OF head printed_append [OF cs printed_append [OF ctx printed_append [OF rem docs]]]]
  show ?thesis unfolding render_def rendered_lines_def by (simp only: add.assoc)
qed

text \<open>A rendered error has exactly the lines its fields call for, whatever text the fields carry:
  interpolated text never adds a line, and the block holds no control character but its own line
  feeds and no layout-forging character; nor does the one-line form. Clean text is shown unchanged.\<close>

theorem render_no_forged_lines:
  "count_list (render e) 10 = rendered_lines e \<and>
   list_all (\<lambda>c. c = 10 \<or> (\<not> is_control c \<and> \<not> is_layout_forgery c)) (render e) \<and>
   list_all (\<lambda>c. \<not> is_control c \<and> \<not> is_layout_forgery c) (error_display e) \<and>
   (one_line s = s \<longleftrightarrow> list_all (\<lambda>c. \<not> is_control c \<and> \<not> is_layout_forgery c) s)"
proof -
  have "printable (error_display e)"
    by (simp add: error_display_def is_control_def is_layout_forgery_def)
  moreover have "one_line s = s \<longleftrightarrow> printable s"
    by (metis printable_one_line one_line_printable)
  ultimately show ?thesis
    using printed_count [OF printed_render [of e]] unfolding printable_def by simp
qed

lemma code_class_total: "code_class c \<noteq> None"
  by (cases c) (simp_all add: code_class_def)

end
