(* ===== verification/Semver.thy ===== *)
theory Semver
  imports Ids Errors
begin

text \<open>
  Version requirements of \<open>qqq-pkg/src/semver.rs\<close>: operators, clauses and their conjunction, the
  parser of the requirement syntax with its partial versions, matching, printing, and the check of a
  component's \<open>abi.host\<close> range. Every refusal of the parser carries the code
  \<open>VersionUnsatisfiable\<close> (\<open>QQQ-5004\<close>), built by \<open>bad\<close>.
\<close>

section \<open>Data\<close>

datatype Op = Exact | Caret | Tilde | GreaterOrEqual | Greater | LessOrEqual | Less | Any

record Clause =
  op :: Op
  version :: "Version option"

record Requirement =
  clauses :: "Clause list"

fun op_as_str :: "Op \<Rightarrow> ustr" where
  "op_as_str Exact = lit ''=''"
| "op_as_str Caret = lit ''^''"
| "op_as_str Tilde = lit ''~''"
| "op_as_str GreaterOrEqual = lit ''>=''"
| "op_as_str Greater = lit ''>''"
| "op_as_str LessOrEqual = lit ''<=''"
| "op_as_str Less = lit ''<''"
| "op_as_str Any = lit ''*''"

definition bad :: "ustr \<Rightarrow> ustr \<Rightarrow> Error" where
  "bad input detail =
     with_remediation (msg ''requirements look like `1.2.3`, `^1.2.3`, `~1.2.3`, `>=1.2.3` or `*`'')
       (with_cause detail
         (error_new VersionUnsatisfiable (ticks input @ msg '' is not a valid version requirement'')))"

definition any_clause :: Clause where
  "any_clause = \<lparr>op = Any, version = None\<rparr>"

section \<open>Parsing\<close>

text \<open>The loop of \<open>parse_partial_version\<close>: one slot of \<open>nums\<close> per part, in order.\<close>

definition parse_slot :: "ustr \<Rightarrow> ustr \<Rightarrow> ustr \<Rightarrow> Error + u32" where
  "parse_slot rest whole part =
     (let not_a_number = bad whole (ticks part @ msg '' in '' @ ticks rest @ msg '' is not a number'') in
      if part = [] then
        Inl (bad whole (ticks rest @ msg '' has an empty component; expected `major.minor.patch`''))
      else if \<not> list_all is_ascii_digit part \<or> (1 < length part \<and> hd part = 48) then Inl not_a_number
      else (case parse_uint 32 part of None \<Rightarrow> Inl not_a_number | Some n \<Rightarrow> Inr (of_nat n)))"

fun parse_slots :: "ustr \<Rightarrow> ustr \<Rightarrow> ustr list \<Rightarrow> Error + u32 list" where
  "parse_slots rest whole [] = Inr []"
| "parse_slots rest whole (part # parts) =
     (case parse_slot rest whole part of
        Inl e \<Rightarrow> Inl e
      | Inr n \<Rightarrow> (case parse_slots rest whole parts of Inl e \<Rightarrow> Inl e | Inr ns \<Rightarrow> Inr (n # ns)))"

definition nums_of :: "u32 list \<Rightarrow> Version" where
  "nums_of ns =
     (case ns of
        [] \<Rightarrow> Version 0 0 0
      | [a] \<Rightarrow> Version a 0 0
      | [a, b] \<Rightarrow> Version a b 0
      | a # b # c # _ \<Rightarrow> Version a b c)"

definition parse_partial_version :: "ustr \<Rightarrow> ustr \<Rightarrow> Error + Version" where
  "parse_partial_version rest whole =
     (let parts = split_on 46 rest in
      if 3 < length parts then
        Inl (bad whole (ticks rest @ msg '' has '' @ show_nat (length parts) @
          msg '' components; a version has at most three (major.minor.patch)''))
      else (case parse_slots rest whole parts of Inl e \<Rightarrow> Inl e | Inr ns \<Rightarrow> Inr (nums_of ns)))"

text \<open>The operator, longest first, and what follows it.\<close>

definition lex_op :: "ustr \<Rightarrow> Op \<times> ustr" where
  "lex_op part =
     (case strip_prefix (lit ''>='') part of Some r \<Rightarrow> (GreaterOrEqual, r) | None \<Rightarrow>
     (case strip_prefix (lit ''<='') part of Some r \<Rightarrow> (LessOrEqual, r) | None \<Rightarrow>
     (case strip_prefix (lit ''^'') part of Some r \<Rightarrow> (Caret, r) | None \<Rightarrow>
     (case strip_prefix (lit ''~'') part of Some r \<Rightarrow> (Tilde, r) | None \<Rightarrow>
     (case strip_prefix (lit ''>'') part of Some r \<Rightarrow> (Greater, r) | None \<Rightarrow>
     (case strip_prefix (lit ''<'') part of Some r \<Rightarrow> (Less, r) | None \<Rightarrow>
     (case strip_prefix (lit ''='') part of Some r \<Rightarrow> (Exact, r) | None \<Rightarrow>
     (Caret, part))))))))"

definition parse_clause :: "ustr \<Rightarrow> ustr \<Rightarrow> Error + Clause" where
  "parse_clause part whole =
     (if part = lit ''*'' then Inr any_clause
      else case lex_op part of
        (o', rest0) \<Rightarrow>
          let rest = trim rest0 in
          if rest = [] then Inl (bad whole (msg ''an operator has no version after it''))
          else if 42 \<in> set rest then
            Inl (bad whole (msg ''wildcards (`*`) are not supported; write an explicit bound like `>=1.2.0`''))
          else (case parse_partial_version rest whole of
                  Inl e \<Rightarrow> Inl e
                | Inr v \<Rightarrow> Inr \<lparr>op = o', version = Some v\<rparr>))"

text \<open>The loop of \<open>Requirement::parse\<close> over the comma-separated parts: \<open>*\<close> is dropped;
  \<open>many\<close> is \<open>parts.len() > 1\<close>.\<close>

fun parse_clauses :: "ustr \<Rightarrow> bool \<Rightarrow> ustr list \<Rightarrow> Error + Clause list" where
  "parse_clauses s many [] = Inr []"
| "parse_clauses s many (part # parts) =
     (if part = [] then
        Inl (bad s (if many then msg ''a clause between commas is empty; write `>=1.0, <2.0`''
                    else msg ''a requirement cannot be empty''))
      else if part = lit ''*'' then parse_clauses s many parts
      else (case parse_clause part s of
              Inl e \<Rightarrow> Inl e
            | Inr c \<Rightarrow> (case parse_clauses s many parts of Inl e \<Rightarrow> Inl e | Inr cs \<Rightarrow> Inr (c # cs))))"

definition requirement_parse :: "ustr \<Rightarrow> Error + Requirement" where
  "requirement_parse s0 =
     (let s = trim s0 in
      if s = [] then Inl (bad s (msg ''a requirement cannot be empty''))
      else if 124 \<in> set s then
        Inl (bad s (msg ''unions (`|`) are not supported; write two dependencies instead''))
      else
        let parts = map trim (split_on 44 s) in
        if parts = [lit ''*''] then Inr \<lparr>clauses = [any_clause]\<rparr>
        else (case parse_clauses s (1 < length parts) parts of
                Inl e \<Rightarrow> Inl e
              | Inr cs \<Rightarrow> Inr \<lparr>clauses = (if cs = [] then [any_clause] else cs)\<rparr>))"

section \<open>Matching\<close>

definition clause_matches :: "Clause \<Rightarrow> Version \<Rightarrow> bool" where
  "clause_matches c candidate =
     (case version c of
        None \<Rightarrow> True
      | Some base \<Rightarrow>
          (case op c of
             Any \<Rightarrow> True
           | Exact \<Rightarrow> candidate = base
           | GreaterOrEqual \<Rightarrow> base \<le> candidate
           | Greater \<Rightarrow> base < candidate
           | LessOrEqual \<Rightarrow> candidate \<le> base
           | Less \<Rightarrow> candidate < base
           | Caret \<Rightarrow>
               if major base = 0 then
                 (if minor base = 0 then
                    major candidate = 0 \<and> minor candidate = 0 \<and> patch candidate = patch base
                  else
                    major candidate = 0 \<and> minor candidate = minor base \<and> base \<le> candidate)
               else major candidate = major base \<and> base \<le> candidate
           | Tilde \<Rightarrow>
               major candidate = major base \<and> minor candidate = minor base \<and> base \<le> candidate))"

definition requirement_matches :: "Requirement \<Rightarrow> Version \<Rightarrow> bool" where
  "requirement_matches r candidate \<longleftrightarrow> list_all (\<lambda>c. clause_matches c candidate) (clauses r)"

definition requirement_op :: "Requirement \<Rightarrow> Op" where
  "requirement_op r = (case clauses r of [] \<Rightarrow> Any | c # _ \<Rightarrow> op c)"

definition is_any :: "Requirement \<Rightarrow> bool" where
  "is_any r = (case clauses r of [c] \<Rightarrow> op c = Any | _ \<Rightarrow> False)"

section \<open>Printing and the host check\<close>

definition clause_display :: "Clause \<Rightarrow> ustr" where
  "clause_display c =
     (case (op c, version c) of
        (Any, _) \<Rightarrow> lit ''*''
      | (o', Some v) \<Rightarrow> op_as_str o' @ version_display v
      | (o', None) \<Rightarrow> op_as_str o')"

definition requirement_display :: "Requirement \<Rightarrow> ustr" where
  "requirement_display r = join (lit '', '') (map clause_display (clauses r))"

definition check_host_requirement :: "ustr \<Rightarrow> ustr \<Rightarrow> Error + unit" where
  "check_host_requirement requirement host_version =
     (case requirement_parse requirement of
        Inl e \<Rightarrow> Inl e
      | Inr req \<Rightarrow>
          (case version_from_str host_version of
             Inl _ \<Rightarrow> Inl (with_cause (msg ''a host version is `major.minor.patch`'')
               (error_new VersionUnsatisfiable (ticks host_version @ msg '' is not a valid host version'')))
           | Inr host \<Rightarrow>
               if requirement_matches req host then Inr ()
               else Inl (with_remediation
                 (msg ''run on a host satisfying the declared range, or republish the component against a wider one'')
                 (with_cause (ticks requirement @ msg '' does not admit '' @ ticks host_version)
                   (error_new VersionUnsatisfiable
                     (msg ''host version '' @ host_version @ msg '' is outside the declared `abi.host` range '' @
                      ticks requirement))))))"

section \<open>What the parser returns\<close>

definition wf_clause :: "Clause \<Rightarrow> bool" where
  "wf_clause c \<longleftrightarrow> op c \<noteq> Any \<and> version c \<noteq> None"

definition wf_requirement :: "Requirement \<Rightarrow> bool" where
  "wf_requirement r \<longleftrightarrow>
     clauses r = [any_clause] \<or> (clauses r \<noteq> [] \<and> list_all wf_clause (clauses r))"

lemma lex_op_not_Any: "fst (lex_op part) \<noteq> Any"
  by (auto simp: lex_op_def split: option.splits)

lemma parse_clause_wf: "part \<noteq> lit ''*'' \<Longrightarrow> parse_clause part whole = Inr c \<Longrightarrow> wf_clause c"
  using lex_op_not_Any [of part]
  by (auto simp: parse_clause_def wf_clause_def Let_def split: prod.splits if_splits sum.splits)

lemma parse_clauses_wf: "parse_clauses s many parts = Inr cs \<Longrightarrow> list_all wf_clause cs"
  by (induction parts arbitrary: cs)
    (auto split: if_splits sum.splits dest: parse_clause_wf simp del: lit_simps)

lemma requirement_parse_wf: "requirement_parse s = Inr r \<Longrightarrow> wf_requirement r"
  by (auto simp: requirement_parse_def wf_requirement_def Let_def
      split: if_splits sum.splits dest: parse_clauses_wf)

lemma code_bad [simp]: "code (bad input detail) = VersionUnsatisfiable"
  by (simp add: bad_def)

lemma parse_slot_code: "parse_slot rest whole p = Inl e \<Longrightarrow> code e = VersionUnsatisfiable"
  by (auto simp: parse_slot_def Let_def split: if_splits option.splits)

lemma parse_slots_code: "parse_slots rest whole ps = Inl e \<Longrightarrow> code e = VersionUnsatisfiable"
  by (induction ps) (auto split: sum.splits dest: parse_slot_code)

lemma parse_clause_code: "parse_clause p whole = Inl e \<Longrightarrow> code e = VersionUnsatisfiable"
  by (auto simp: parse_clause_def parse_partial_version_def Let_def
      split: if_splits sum.splits prod.splits dest: parse_slots_code)

lemma parse_clauses_code: "parse_clauses s many ps = Inl e \<Longrightarrow> code e = VersionUnsatisfiable"
  by (induction ps) (auto split: if_splits sum.splits dest: parse_clause_code)

lemma requirement_parse_code: "requirement_parse s = Inl e \<Longrightarrow> code e = VersionUnsatisfiable"
  by (auto simp: requirement_parse_def Let_def split: if_splits sum.splits dest: parse_clauses_code)

section \<open>Printing a requirement and reading it back\<close>

lemma parse_slot_show [simp]: "parse_slot rest whole (show_nat (unat (a :: u32))) = Inr a"
proof -
  have "unat a < 2 ^ 32" using unat_lt_len [of a] by simp
  then have "parse_uint 32 (show_nat (unat a)) = Some (unat a)" by (rule parse_show_nat)
  then show ?thesis
    using show_nat_digits [of "unat a"] show_nat_hd_zero [of "unat a"] by (auto simp: parse_slot_def Let_def)
qed

lemma parse_partial_version_display [simp]: "parse_partial_version (version_display v) whole = Inr v"
  by (simp add: parse_partial_version_def split_version_display nums_of_def)

lemma set_version_display: "x \<in> set (version_display v) \<Longrightarrow> is_ascii_digit x \<or> x = 46"
  using show_nat_digits by (fastforce simp: version_display_def list_all_iff)

lemma version_display_Cons:
  obtains d ds where "version_display v = d # ds" "is_ascii_digit d"
proof (cases "show_nat (unat (major v))")
  case Nil
  then show ?thesis by simp
next
  case (Cons d ds)
  with show_nat_digits [of "unat (major v)"] that show ?thesis
    by (simp add: version_display_def)
qed

lemma lex_op_display: "o' \<noteq> Any \<Longrightarrow> lex_op (op_as_str o' @ version_display v) = (o', version_display v)"
proof (rule version_display_Cons [of v])
  fix d ds
  assume "o' \<noteq> Any" "version_display v = d # ds" "is_ascii_digit d"
  then show ?thesis by (cases o') (auto simp: lex_op_def is_ascii_digit_def)
qed

lemma parse_clause_display: "wf_clause c \<Longrightarrow> parse_clause (clause_display c) whole = Inr c"
proof -
  assume wf: "wf_clause c"
  then obtain v where v: "version c = Some v" and o': "op c \<noteq> Any" by (auto simp: wf_clause_def)
  then have disp: "clause_display c = op_as_str (op c) @ version_display v"
    by (cases "op c") (simp_all add: clause_display_def)
  have "version_display v \<noteq> []" by (simp add: version_display_def)
  moreover have "42 \<notin> set (version_display v)"
    using set_version_display by (fastforce simp: is_ascii_digit_def)
  moreover have "op_as_str (op c) @ version_display v \<noteq> lit ''*''"
    using o' by (cases "op c") (auto simp: version_display_def)
  ultimately show ?thesis
    using v o' by (simp add: parse_clause_def disp lex_op_display del: lit_simps)
qed

definition clean :: "ustr \<Rightarrow> bool" where
  "clean d \<longleftrightarrow> d \<noteq> [] \<and> 44 \<notin> set d \<and> 124 \<notin> set d \<and> \<not> is_whitespace (hd d) \<and> \<not> is_whitespace (last d)"

lemma clean_clause_display: "wf_clause c \<or> c = any_clause \<Longrightarrow> clean (clause_display c)"
proof (cases "c = any_clause")
  case True
  then show ?thesis by (simp add: any_clause_def clause_display_def clean_def is_whitespace_def)
next
  case False
  assume "wf_clause c \<or> c = any_clause"
  with False obtain v where v: "version c = Some v" "op c \<noteq> Any" by (auto simp: wf_clause_def)
  have "44 \<notin> set (version_display v)" "124 \<notin> set (version_display v)"
    using set_version_display by (fastforce simp: is_ascii_digit_def)+
  moreover have "version_display v \<noteq> []" "\<not> is_whitespace (hd (version_display v))"
    "\<not> is_whitespace (last (version_display v))"
    by (simp_all add: version_display_def show_nat_ends)
  ultimately show ?thesis
    using v by (cases "op c") (simp_all add: clause_display_def clean_def is_whitespace_def)
qed

lemma trim_clean: "clean d \<Longrightarrow> trim d = d"
  by (rule trim_id) (simp_all add: clean_def)

lemma clean_join: "ds \<noteq> [] \<Longrightarrow> list_all clean ds \<Longrightarrow>
    join (lit '', '') ds \<noteq> [] \<and> 124 \<notin> set (join (lit '', '') ds) \<and>
    hd (join (lit '', '') ds) = hd (hd ds) \<and> last (join (lit '', '') ds) = last (last ds)"
  by (induction "lit '', ''" ds rule: join.induct) (auto simp: clean_def)

lemma trim_join: "ds \<noteq> [] \<Longrightarrow> list_all clean ds \<Longrightarrow> trim (join (lit '', '') ds) = join (lit '', '') ds"
  using clean_join [of ds]
  by (intro trim_id) (auto simp: list_all_iff clean_def neq_Nil_conv dest: last_in_set)

lemma split_join:
  "ds \<noteq> [] \<Longrightarrow> list_all clean ds \<Longrightarrow> map trim (split_on 44 (join (lit '', '') ds)) = ds"
proof (induction "lit '', ''" ds rule: join.induct)
  case 1
  then show ?case by simp
next
  case (2 d)
  then show ?case by (simp add: clean_def split_on_no_sep trim_clean)
next
  case (3 d e es)
  let ?j = "join (lit '', '') (e # es)"
  from 3 have "map trim (split_on 44 ?j) = e # es" by simp
  moreover obtain p ps where "split_on 44 ?j = p # ps"
    using split_on_nonempty by (meson neq_Nil_conv)
  ultimately have "map trim (split_on 44 (32 # ?j)) = e # es"
    by (simp add: is_whitespace_def)
  moreover from 3 have "44 \<notin> set d" "trim d = d" by (simp_all add: clean_def trim_clean)
  ultimately show ?case by (simp add: split_on_append)
qed

lemma parse_clauses_display:
  "list_all wf_clause cs \<Longrightarrow> parse_clauses s many (map clause_display cs) = Inr cs"
proof (induction cs)
  case Nil
  then show ?case by simp
next
  case (Cons c cs)
  then have wf: "wf_clause c" by simp
  then have "clause_display c \<noteq> []" using clean_clause_display [of c] by (simp add: clean_def)
  moreover have "clause_display c \<noteq> lit ''*''"
  proof
    assume "clause_display c = lit ''*''"
    then have "parse_clause (clause_display c) s = Inr any_clause" by (simp add: parse_clause_def)
    with wf show False by (simp add: parse_clause_display any_clause_def wf_clause_def)
  qed
  ultimately show ?case using Cons wf by (simp add: parse_clause_display del: lit_simps)
qed

lemma requirement_roundtrip: "wf_requirement r \<Longrightarrow> requirement_parse (requirement_display r) = Inr r"
proof -
  assume wf: "wf_requirement r"
  let ?ds = "map clause_display (clauses r)"
  have ne: "?ds \<noteq> []" using wf by (auto simp: wf_requirement_def)
  have clean: "list_all clean ?ds"
    using wf by (auto simp: wf_requirement_def list_all_iff intro: clean_clause_display)
  show ?thesis
  proof (cases "clauses r = [any_clause]")
    case True
    then have "requirement_display r = lit ''*''"
      by (simp add: requirement_display_def any_clause_def clause_display_def)
    moreover have "trim (lit ''*'') = lit ''*''" by (rule trim_id) (simp_all add: is_whitespace_def)
    ultimately show ?thesis using True
      by (simp add: requirement_parse_def)
  next
    case False
    with wf have cs: "clauses r \<noteq> []" "list_all wf_clause (clauses r)"
      by (auto simp: wf_requirement_def)
    from cs(2) have parsed: "parse_clauses s many ?ds = Inr (clauses r)" for s many by (rule parse_clauses_display)
    have "?ds \<noteq> [lit ''*'']"
    proof
      assume "?ds = [lit ''*'']"
      then have "parse_clauses [] False ?ds = Inr []" by simp
      with parsed [of "[]" False] cs show False by simp
    qed
    with cs parsed clean_join [OF ne clean] show ?thesis
      by (simp add: requirement_parse_def requirement_display_def trim_join [OF ne clean]
          split_join [OF ne clean] Let_def del: lit_simps)
  qed
qed

text \<open>Parsing a requirement either refuses it with \<open>QQQ-5004\<close> or yields one that prints and parses
  back to itself: \<open>Display\<close> never drops a bound, a comma list stays a comma list and \<open>*\<close> stays \<open>*\<close>.\<close>

theorem requirement_parse_display:
  "case requirement_parse s of
     Inl e \<Rightarrow> code e = VersionUnsatisfiable
   | Inr r \<Rightarrow> requirement_parse (requirement_display r) = Inr r \<and> clauses r \<noteq> []"
proof (cases "requirement_parse s")
  case (Inl e)
  then have "code e = VersionUnsatisfiable" by (rule requirement_parse_code)
  with Inl show ?thesis by simp
next
  case (Inr r)
  then have "wf_requirement r" by (rule requirement_parse_wf)
  with Inr show ?thesis by (auto simp: requirement_roundtrip wf_requirement_def)
qed

section \<open>What matching means\<close>

definition vnums :: "Version \<Rightarrow> nat \<times> nat \<times> nat" where
  "vnums v = (unat (major v), unat (minor v), unat (patch v))"

definition caret_bound :: "Version \<Rightarrow> nat \<times> nat \<times> nat" where
  "caret_bound v =
     (if major v \<noteq> 0 then (unat (major v) + 1, 0, 0)
      else if minor v \<noteq> 0 then (0, unat (minor v) + 1, 0)
      else (0, 0, unat (patch v) + 1))"

lemmas version_order =
  less_eq_Version_def less_Version_def word_le_nat_alt word_less_nat_alt vnums_def word_unat_eq_iff

lemma caret_interval:
  "clause_matches \<lparr>op = Caret, version = Some b\<rparr> c \<longleftrightarrow> vnums b \<le> vnums c \<and> vnums c < caret_bound b"
  by (auto simp: clause_matches_def caret_bound_def version_order)

lemma tilde_interval:
  "clause_matches \<lparr>op = Tilde, version = Some b\<rparr> c \<longleftrightarrow>
     vnums b \<le> vnums c \<and> vnums c < (unat (major b), unat (minor b) + 1, 0)"
  by (auto simp: clause_matches_def version_order)

text \<open>The documented expansions of the two range operators: \<open>^b\<close> admits exactly the versions from
  \<open>b\<close> up to the next breaking one (next major, next minor below 1.0, next patch below 0.1), \<open>~b\<close>
  exactly those from \<open>b\<close> up to the next minor. The bounds are read as unbounded numbers, so the
  statement also holds for components at \<open>u32::MAX\<close>.\<close>

theorem range_operators:
  "(clause_matches \<lparr>op = Caret, version = Some b\<rparr> c \<longleftrightarrow> vnums b \<le> vnums c \<and> vnums c < caret_bound b) \<and>
   (clause_matches \<lparr>op = Tilde, version = Some b\<rparr> c \<longleftrightarrow>
      vnums b \<le> vnums c \<and> vnums c < (unat (major b), unat (minor b) + 1, 0))"
  by (simp add: caret_interval tilde_interval)

text \<open>The compatibility rule of \<open>qqq-core\<close> and the caret operator of \<open>qqq-pkg\<close> agree except below
  0.1: \<open>Version::is_compatible_with\<close> accepts a later patch of a \<open>0.0.x\<close> version, which a caret
  requirement on it refuses.\<close>

theorem compatible_vs_caret:
  "is_compatible_with c b \<longleftrightarrow>
     clause_matches \<lparr>op = Caret, version = Some b\<rparr> c \<or>
     (major b = 0 \<and> minor b = 0 \<and> major c = 0 \<and> minor c = 0 \<and> patch b < patch c)"
  by (auto simp: is_compatible_with_def clause_matches_def version_order)

text \<open>The \<open>abi.host\<close> check admits a host exactly when the range parses, the host version parses and
  every clause of the range holds for it; each refusal carries \<open>QQQ-5004\<close>.\<close>

theorem check_host_requirement_spec:
  "case check_host_requirement rq h of
     Inl e \<Rightarrow> code e = VersionUnsatisfiable \<and>
       \<not> (\<exists>r v. requirement_parse rq = Inr r \<and> version_from_str h = Inr v \<and>
                list_all (\<lambda>c. clause_matches c v) (clauses r))
   | Inr _ \<Rightarrow> (\<exists>r v. requirement_parse rq = Inr r \<and> version_from_str h = Inr v \<and>
                list_all (\<lambda>c. clause_matches c v) (clauses r))"
  by (auto simp: check_host_requirement_def requirement_matches_def list_all_iff
      split: sum.splits if_splits dest: requirement_parse_code)

end
