(* ===== verification/Bytes.thy ===== *)
theory Bytes
  imports QQQ_Prelude
begin

text \<open>
  Byte order: Rust's \<open>to_le_bytes\<close>, \<open>from_le_bytes\<close>, \<open>to_be_bytes\<close> and \<open>from_be_bytes\<close>, over the digits of a
  number in base 256.
\<close>

text \<open>The bytes of an ASCII literal.\<close>

definition ascii :: "string \<Rightarrow> u8 list" where
  "ascii s = map (\<lambda>c. of_nat (of_char c)) s"

fun le_digits :: "nat \<Rightarrow> nat \<Rightarrow> nat list" where
  "le_digits 0 v = []"
| "le_digits (Suc k) v = v mod 256 # le_digits k (v div 256)"

fun le_value :: "nat list \<Rightarrow> nat" where
  "le_value [] = 0"
| "le_value (d # ds) = d + 256 * le_value ds"

definition le_bytes :: "nat \<Rightarrow> nat \<Rightarrow> u8 list" where
  "le_bytes k v = map of_nat (le_digits k v)"

definition be_bytes :: "nat \<Rightarrow> nat \<Rightarrow> u8 list" where
  "be_bytes k v = rev (le_bytes k v)"

definition le_number :: "u8 list \<Rightarrow> nat" where
  "le_number bs = le_value (map unat bs)"

definition be_number :: "u8 list \<Rightarrow> nat" where
  "be_number bs = le_number (rev bs)"

lemma length_le_digits [simp]: "length (le_digits k v) = k"
  by (induction k arbitrary: v) simp_all

lemma le_value_digits: "le_value (le_digits k v) = v mod 256 ^ k"
  by (induction k arbitrary: v) (simp_all add: mod_mult2_eq)

lemma le_digits_lt: "d \<in> set (le_digits k v) \<Longrightarrow> d < 256"
  by (induction k arbitrary: v) auto

lemma le_digits_value: "list_all (\<lambda>d. d < 256) ds \<Longrightarrow> le_digits (length ds) (le_value ds) = ds"
  by (induction ds) simp_all

lemma le_value_lt: "list_all (\<lambda>d. d < 256) ds \<Longrightarrow> le_value ds < 256 ^ length ds"
  by (induction ds) fastforce+

lemma bytes_lt: "list_all (\<lambda>d. d < 256) (map unat (bs :: u8 list))"
  using unat_lt_len [where 'a = 8] by (auto simp: list_all_iff)

lemma length_bytes [simp]: "length (le_bytes k v) = k" "length (be_bytes k v) = k"
  by (simp_all add: le_bytes_def be_bytes_def)

lemma le_number_bytes: "v < 256 ^ k \<Longrightarrow> le_number (le_bytes k v) = v"
proof -
  have "map (unat \<circ> (of_nat :: nat \<Rightarrow> u8)) (le_digits k v) = le_digits k v"
    by (rule map_idI) (simp add: unat_of_nat le_digits_lt)
  then show "v < 256 ^ k \<Longrightarrow> le_number (le_bytes k v) = v"
    by (simp add: le_number_def le_bytes_def le_value_digits)
qed

lemma le_bytes_number: "le_bytes (length bs) (le_number bs) = bs"
  using le_digits_value [OF bytes_lt, of bs] by (simp add: le_bytes_def le_number_def comp_def)

lemma be_number_bytes: "v < 256 ^ k \<Longrightarrow> be_number (be_bytes k v) = v"
  by (simp add: be_number_def be_bytes_def le_number_bytes)

lemma be_bytes_number: "be_bytes (length bs) (be_number bs) = bs"
  using le_bytes_number [of "rev bs"] by (simp add: be_number_def be_bytes_def)

lemma le_number_lt: "le_number bs < 256 ^ length bs"
  using le_value_lt [OF bytes_lt, of bs] by (simp add: le_number_def)

lemma be_number_lt: "be_number bs < 256 ^ length bs"
  using le_number_lt [of "rev bs"] by (simp add: be_number_def)

end
