(* ===== verification/Token.thy ===== *)
theory Token
  imports Bytes
begin

text \<open>
  Attenuable capability tokens of \<open>qqq-cap/src/token.rs\<close>: the caveat codec, the signature chain and
  verification. HMAC-SHA-256 comes from the \<open>hmac\<close> and \<open>sha2\<close> crates and is the parameter \<open>hmac\<close> (key,
  message); nothing is assumed about it.
\<close>

section \<open>Caveats\<close>

datatype Caveat = Expiry u64 | MaxCalls u64

fun evaluate_caveat :: "Caveat \<Rightarrow> u64 \<Rightarrow> u64 \<Rightarrow> bool" where
  "evaluate_caveat (Expiry unix_ms) now_ms calls_used = (now_ms < unix_ms)"
| "evaluate_caveat (MaxCalls mx) now_ms calls_used = (calls_used \<le> mx)"

definition to_le_bytes :: "u64 \<Rightarrow> u8 list" where
  "to_le_bytes v = le_bytes 8 (unat v)"

definition from_le_bytes :: "u8 list \<Rightarrow> u64" where
  "from_le_bytes bs = of_nat (le_number bs)"

definition encode_caveat :: "Caveat \<Rightarrow> u8 list" where
  "encode_caveat c =
     (case c of Expiry unix_ms \<Rightarrow> ascii ''exp'' @ ascii '':'' @ to_le_bytes unix_ms
              | MaxCalls mx \<Rightarrow> ascii ''calls'' @ ascii '':'' @ to_le_bytes mx)"

text \<open>\<open>split_at_checked\<close> fails when the slice is shorter than the index.\<close>

definition split_at_checked :: "nat \<Rightarrow> 'a list \<Rightarrow> ('a list \<times> 'a list) option" where
  "split_at_checked n xs = (if n \<le> length xs then Some (take n xs, drop n xs) else None)"

definition parse_caveat :: "u8 list \<Rightarrow> Caveat option" where
  "parse_caveat bytes =
     (case split_at_checked 4 bytes of
        None \<Rightarrow> None
      | Some (tag, payload) \<Rightarrow>
          if tag = ascii ''exp:'' \<and> length payload = 8 then Some (Expiry (from_le_bytes payload))
          else (case split_at_checked 6 bytes of
                  None \<Rightarrow> None
                | Some (tag, payload) \<Rightarrow>
                    if tag = ascii ''calls:'' \<and> length payload = 8 then Some (MaxCalls (from_le_bytes payload))
                    else None))"

section \<open>The chain\<close>

type_synonym hmac_fn = "u8 list \<Rightarrow> u8 list \<Rightarrow> u8 list"

definition mint :: "hmac_fn \<Rightarrow> u8 list \<Rightarrow> u8 list \<Rightarrow> u8 list" where
  "mint hmac root_key capability_id = hmac root_key capability_id"

definition attenuate :: "hmac_fn \<Rightarrow> u8 list \<Rightarrow> u8 list \<Rightarrow> u8 list" where
  "attenuate hmac sig caveat = hmac sig caveat"

definition verify_chain :: "hmac_fn \<Rightarrow> u8 list \<Rightarrow> u8 list \<Rightarrow> u8 list list \<Rightarrow> u8 list \<Rightarrow> bool" where
  "verify_chain hmac root_key capability_id caveats sig =
     (foldl (attenuate hmac) (mint hmac root_key capability_id) caveats = sig)"

definition verify_and_evaluate ::
    "hmac_fn \<Rightarrow> u8 list \<Rightarrow> u8 list \<Rightarrow> u8 list list \<Rightarrow> u8 list \<Rightarrow> u64 \<Rightarrow> u64 \<Rightarrow> bool" where
  "verify_and_evaluate hmac root_key capability_id caveats sig now_ms calls_used =
     (if \<not> verify_chain hmac root_key capability_id caveats sig then False
      else list_all (\<lambda>bytes. case parse_caveat bytes of None \<Rightarrow> False
                                | Some c \<Rightarrow> evaluate_caveat c now_ms calls_used) caveats)"

section \<open>The codec\<close>

lemma from_to_le [simp]: "from_le_bytes (to_le_bytes v) = v"
  using le_number_bytes [of "unat v" 8] unat_lt_len [of v] by (simp add: to_le_bytes_def from_le_bytes_def)

lemma to_from_le: "length bs = 8 \<Longrightarrow> to_le_bytes (from_le_bytes bs) = bs"
  using le_number_lt [of bs] le_bytes_number [of bs]
  by (simp add: to_le_bytes_def from_le_bytes_def unat_of_nat)

lemma length_to_le [simp]: "length (to_le_bytes v) = 8"
  by (simp add: to_le_bytes_def)

lemma parse_encode: "parse_caveat (encode_caveat c) = Some c"
  by (cases c) (simp_all add: encode_caveat_def parse_caveat_def split_at_checked_def ascii_def)

lemma encode_parse: "parse_caveat bs = Some c \<Longrightarrow> bs = encode_caveat c"
proof -
  assume p: "parse_caveat bs = Some c"
  then consider "take 4 bs = ascii ''exp:''" "length (drop 4 bs) = 8" "c = Expiry (from_le_bytes (drop 4 bs))"
    | "take 6 bs = ascii ''calls:''" "length (drop 6 bs) = 8" "c = MaxCalls (from_le_bytes (drop 6 bs))"
    by (auto simp: parse_caveat_def split_at_checked_def split: if_splits option.splits)
  then show ?thesis
  proof cases
    case 1
    then have "bs = ascii ''exp:'' @ drop 4 bs" by (metis append_take_drop_id)
    with 1 show ?thesis by (simp add: encode_caveat_def to_from_le ascii_def)
  next
    case 2
    then have "bs = ascii ''calls:'' @ drop 6 bs" by (metis append_take_drop_id)
    with 2 show ?thesis by (simp add: encode_caveat_def to_from_le ascii_def)
  qed
qed

text \<open>The caveat codec is exact: the bytes that parse to a caveat are its encoding and nothing else,
  so no unknown kind, wrong length or trailing byte is accepted and two caveats never share bytes.\<close>

theorem parse_caveat_exact: "parse_caveat bs = Some c \<longleftrightarrow> bs = encode_caveat c"
  using parse_encode encode_parse by blast

lemma encode_inj: "encode_caveat c = encode_caveat d \<longleftrightarrow> c = d"
  by (metis parse_encode option.inject)

section \<open>Attenuation\<close>

lemma evaluate_antimono:
  "evaluate_caveat c now' calls' \<Longrightarrow> now \<le> now' \<Longrightarrow> calls \<le> calls' \<Longrightarrow> evaluate_caveat c now calls"
  by (cases c) auto

text \<open>C35. Attenuation only narrows, and only the chain opens a token. A token is accepted exactly when its signature is the
  HMAC chain over the root key, the capability and every caveat in its order, and every caveat is a well-formed expiry that
  lies ahead or call budget that is not used up. What \<open>mint\<close> and \<open>attenuate\<close> issue carries that signature; a token narrowed
  by one more caveat is accepted only when the caveat is well formed and the token it was narrowed from is accepted; the
  narrowed signature presented with the caveat stripped is refused, unless HMAC maps the previous signature to itself; and a
  token refused for its caveats stays refused as the clock and the call count grow.\<close>

theorem attenuation_narrows:
  "(verify_and_evaluate hmac key cap raw sig now calls \<longleftrightarrow>
      sig = foldl hmac (hmac key cap) raw \<and>
      (\<forall>bs \<in> set raw. \<exists>c. bs = encode_caveat c \<and>
         (case c of Expiry t \<Rightarrow> now < t | MaxCalls n \<Rightarrow> calls \<le> n))) \<and>
   foldl (attenuate hmac) (mint hmac key cap) raw = foldl hmac (hmac key cap) raw \<and>
   (verify_and_evaluate hmac key cap (raw @ [x]) (attenuate hmac (foldl hmac (hmac key cap) raw) x) now calls \<longrightarrow>
      parse_caveat x \<noteq> None \<and> verify_and_evaluate hmac key cap raw (foldl hmac (hmac key cap) raw) now calls) \<and>
   (hmac (foldl hmac (hmac key cap) raw) x \<noteq> foldl hmac (hmac key cap) raw \<longrightarrow>
      \<not> verify_and_evaluate hmac key cap raw (attenuate hmac (foldl hmac (hmac key cap) raw) x) now calls) \<and>
   (verify_and_evaluate hmac key cap raw sig now' calls' \<and> now \<le> now' \<and> calls \<le> calls' \<longrightarrow>
      verify_and_evaluate hmac key cap raw sig now calls)"
proof (intro conjI impI)
  have issued: "foldl (attenuate hmac) s r = foldl hmac s r" for s r
    by (induction r arbitrary: s) (simp_all add: attenuate_def)
  have exact: "verify_and_evaluate hmac key cap r sg n k \<longleftrightarrow>
      sg = foldl hmac (hmac key cap) r \<and> (\<forall>bs \<in> set r. \<exists>c. bs = encode_caveat c \<and> evaluate_caveat c n k)" for r sg n k
    by (auto simp: verify_and_evaluate_def verify_chain_def issued mint_def list_all_iff parse_caveat_exact encode_inj
        split: option.splits)
  have meaning: "evaluate_caveat c n k \<longleftrightarrow> (case c of Expiry t \<Rightarrow> n < t | MaxCalls m \<Rightarrow> k \<le> m)" for c n k
    by (cases c) simp_all
  show "verify_and_evaluate hmac key cap raw sig now calls \<longleftrightarrow>
      sig = foldl hmac (hmac key cap) raw \<and>
      (\<forall>bs \<in> set raw. \<exists>c. bs = encode_caveat c \<and> (case c of Expiry t \<Rightarrow> now < t | MaxCalls n \<Rightarrow> calls \<le> n))"
    unfolding exact meaning ..
  show "foldl (attenuate hmac) (mint hmac key cap) raw = foldl hmac (hmac key cap) raw"
    by (simp add: issued mint_def)
  show "\<not> verify_and_evaluate hmac key cap raw (attenuate hmac (foldl hmac (hmac key cap) raw) x) now calls"
    if "hmac (foldl hmac (hmac key cap) raw) x \<noteq> foldl hmac (hmac key cap) raw"
    using that by (simp add: exact attenuate_def)
  assume narrowed: "verify_and_evaluate hmac key cap (raw @ [x]) (attenuate hmac (foldl hmac (hmac key cap) raw) x) now calls"
  then show "parse_caveat x \<noteq> None" "verify_and_evaluate hmac key cap raw (foldl hmac (hmac key cap) raw) now calls"
    by (auto simp: exact parse_encode)
next
  assume "verify_and_evaluate hmac key cap raw sig now' calls' \<and> now \<le> now' \<and> calls \<le> calls'"
  then show "verify_and_evaluate hmac key cap raw sig now calls"
    by (auto simp: verify_and_evaluate_def list_all_iff split: if_splits option.splits intro: evaluate_antimono)
qed

text \<open>The narrowing at a concrete chain, with concatenation as HMAC: the narrowed token opens within its budget, and its
  signature does not open the token it was narrowed from.\<close>

theorem attenuation_narrows_witness:
  "verify_and_evaluate (@) [9] [1] [encode_caveat (Expiry 2000)] ([9, 1] @ encode_caveat (Expiry 2000)) 1999 7 \<and>
   verify_and_evaluate (@) [9] [1] [encode_caveat (Expiry 2000)] ([9, 1] @ encode_caveat (Expiry 2000)) 1000 1 \<and>
   \<not> verify_and_evaluate (@) [9] [1] [encode_caveat (Expiry 2000)]
       ([9, 1] @ encode_caveat (Expiry 2000) @ encode_caveat (MaxCalls 1)) 1000 1"
proof -
  let ?e = "encode_caveat (Expiry 2000)" and ?m = "encode_caveat (MaxCalls 1)"
  have ne: "encode_caveat c \<noteq> []" for c by (cases c) (simp_all add: encode_caveat_def ascii_def)
  have late: "verify_and_evaluate (@) [9] [1] [?e] ([9, 1] @ ?e) 1999 7"
    using attenuation_narrows(1) [of "(@)" "[9]" "[1]" "[?e]" "[9, 1] @ ?e" 1999 7] by auto
  then have "verify_and_evaluate (@) [9] [1] [?e] ([9, 1] @ ?e) 1000 1"
    using attenuation_narrows [of "(@)" "[9]" "[1]" "[?e]" "[9, 1] @ ?e" 1000 1 ?m 1999 7] by (simp add: encode_inj)
  moreover have "\<not> verify_and_evaluate (@) [9] [1] [?e] ([9, 1] @ ?e @ ?m) 1000 1"
    using attenuation_narrows [of "(@)" "[9]" "[1]" "[?e]" "[9, 1] @ ?e" 1000 1 ?m 1999 7] ne
    by (simp add: attenuate_def encode_inj)
  ultimately show ?thesis using late by blast
qed

end
