(* ===== verification/Machines.thy ===== *)
theory Machines
  imports Main
begin

text \<open>
  Step machines. A stateful component of the sources is an object with mutating methods; the model
  gives one state transformer per method and one \<open>step\<close> function from a datatype of calls. This
  theory holds what does not depend on the component: runs over a sequence of calls, reachable
  states, and the locales that lift a one-call invariant, a monotone measure or a stable condition
  to every run. Each stateful theory interprets them on its own \<open>step\<close>.
\<close>

named_theorems step_inv_rules \<comment> \<open>invariant preservation, one rule per operation\<close>

definition run :: "('s \<Rightarrow> 'e \<Rightarrow> 's) \<Rightarrow> 's \<Rightarrow> 'e list \<Rightarrow> 's" where
  "run step s es = foldl step s es"

lemma run_simps [simp]:
  "run step s [] = s" "run step s (e # es) = run step (step s e) es"
  by (simp_all add: run_def)

lemma run_append [simp]: "run step s (es @ es') = run step (run step s es) es'"
  by (simp add: run_def)

inductive reachable :: "('s \<Rightarrow> 'e \<Rightarrow> 's) \<Rightarrow> 's \<Rightarrow> 's \<Rightarrow> bool" for step s0 where
  reach_start: "reachable step s0 s0"
| reach_step: "reachable step s0 s \<Longrightarrow> reachable step s0 (step s e)"

lemma reachable_run_from: "reachable step s0 s \<Longrightarrow> reachable step s0 (run step s es)"
  by (induction es arbitrary: s) (auto intro: reach_step)

lemma reachable_iff_run: "reachable step s0 s \<longleftrightarrow> (\<exists>es. s = run step s0 es)"
proof
  assume "reachable step s0 s"
  then show "\<exists>es. s = run step s0 es"
  proof (induction rule: reachable.induct)
    case reach_start
    have "s0 = run step s0 []" by simp
    then show ?case by blast
  next
    case (reach_step s e)
    then obtain es where "s = run step s0 es" by blast
    then have "step s e = run step s0 (es @ [e])" by simp
    then show ?case by blast
  qed
next
  assume "\<exists>es. s = run step s0 es"
  then show "reachable step s0 s" by (auto intro: reachable_run_from reach_start)
qed

locale invariant_machine =
  fixes step :: "'s \<Rightarrow> 'e \<Rightarrow> 's" and inv :: "'s \<Rightarrow> bool"
  assumes step_inv: "inv s \<Longrightarrow> inv (step s e)"
begin

lemma run_inv: "inv s \<Longrightarrow> inv (run step s es)"
  by (induction es arbitrary: s) (auto intro: step_inv)

lemma reachable_inv: "reachable step s0 s \<Longrightarrow> inv s0 \<Longrightarrow> inv s"
  by (induction rule: reachable.induct) (auto intro: step_inv)

end

locale monotone_machine = invariant_machine step inv
  for step :: "'s \<Rightarrow> 'e \<Rightarrow> 's" and inv :: "'s \<Rightarrow> bool" +
  fixes m :: "'s \<Rightarrow> nat"
  assumes step_mono: "inv s \<Longrightarrow> m s \<le> m (step s e)"
begin

lemma run_mono: "inv s \<Longrightarrow> m s \<le> m (run step s es)"
proof (induction es arbitrary: s)
  case Nil
  show ?case by simp
next
  case (Cons e es)
  have "m s \<le> m (step s e)" by (rule step_mono [OF Cons.prems])
  also have "\<dots> \<le> m (run step (step s e) es)" by (rule Cons.IH [OF step_inv [OF Cons.prems]])
  finally show ?case by simp
qed

end

locale stable_machine = invariant_machine step inv
  for step :: "'s \<Rightarrow> 'e \<Rightarrow> 's" and inv :: "'s \<Rightarrow> bool" +
  fixes stable :: "'k \<Rightarrow> 's \<Rightarrow> bool"
  assumes step_stable: "inv s \<Longrightarrow> stable k s \<Longrightarrow> stable k (step s e)"
begin

lemma run_stable: "inv s \<Longrightarrow> stable k s \<Longrightarrow> stable k (run step s es)"
  by (induction es arbitrary: s) (auto intro: step_inv step_stable)

end

end
