(* ===== verification/Handles.thy ===== *)
theory Handles
  imports Errors Machines
begin

text \<open>
  The per-instance handle table of \<open>qqq-host/src/handles.rs\<close>. A handle packs a slot index and a generation
  into a \<open>u64\<close>; a slot is live with the generation its handle carries, or free with the generation the
  next handle will carry. Operations on \<open>&mut self\<close> return the new table with their result. \<open>get_mut\<close>
  hands out a mutable reference; its model takes what the caller does with it as a function.
\<close>

section \<open>Handles\<close>

unbundle bit_operations_syntax

type_synonym Handle = u64

definition GENERATION_BITS :: nat where
  "GENERATION_BITS = 32"

definition SLOT_MASK :: u64 where
  "SLOT_MASK = push_bit GENERATION_BITS 1 - 1"

definition pack :: "u32 \<Rightarrow> u32 \<Rightarrow> Handle" where
  "pack slt gen = push_bit GENERATION_BITS (ucast gen) OR ucast slt"

definition handle_slot :: "Handle \<Rightarrow> u32" where
  "handle_slot h = ucast (h AND SLOT_MASK)"

definition handle_generation :: "Handle \<Rightarrow> u32" where
  "handle_generation h = ucast (drop_bit GENERATION_BITS h)"

definition handle_display :: "Handle \<Rightarrow> ustr" where
  "handle_display h = show_nat (unat (handle_slot h)) @ lit '':'' @ show_nat (unat (handle_generation h))"

section \<open>The table\<close>

datatype 'a Slot = Live 'a u32 | Free u32

record HandleStats =
  opened :: nat
  closed :: nat
  refused :: nat
  invalid :: nat
  generations_exhausted :: nat

record 'a HandleTable =
  slots :: "'a Slot list"
  live :: nat
  limit :: u32
  stats :: HandleStats

definition handle_table_new :: "u32 \<Rightarrow> 'a HandleTable" where
  "handle_table_new l = \<lparr>slots = [], live = 0, limit = l,
     stats = \<lparr>opened = 0, closed = 0, refused = 0, invalid = 0, generations_exhausted = 0\<rparr>\<rparr>"

definition invalid_handle_message :: "Handle \<Rightarrow> Error" where
  "invalid_handle_message h =
     with_remediation (msg ''a handle is valid only between the call that created it and the call that closed it; a forged or stale handle is rejected by design'')
       (with_context (msg ''handle'') (handle_display h)
         (error_new InvalidResourceHandle (msg ''the handle names no live resource'')))"

text \<open>The four refusals of \<open>insert\<close>.\<close>

definition limit_error :: "'a HandleTable \<Rightarrow> Error" where
  "limit_error t =
     with_remediation (msg ''close handles when they are no longer needed, or raise `limits.max_open_handles` in `qqq.toml`'')
       (with_context (msg ''live'') (show_nat (live t))
         (with_context (msg ''limit'') (show_nat (unat (limit t)))
           (error_new InvalidResourceHandle (msg ''the open-handle limit for this instance has been reached''))))"

definition no_slot_error :: "'a HandleTable \<Rightarrow> Error" where
  "no_slot_error t =
     with_remediation (msg ''close handles that are no longer needed, or raise `limits.max_open_handles` in `qqq.toml'')
       (with_context (msg ''live'') (show_nat (live t))
         (with_context (msg ''limit'') (show_nat (unat (limit t)))
           (error_new InvalidResourceHandle (msg ''no reusable handle slot remains''))))"

definition slot_count_error :: Error where
  "slot_count_error =
     with_remediation (msg ''this is a QQQ bug; please report it'')
       (error_new InternalInvariantViolated (msg ''the handle table exceeded its representable slot count''))"

text \<open>The scan of \<open>insert\<close>: the first free slot that is not retired, with its generation.\<close>

fun scan_free :: "nat \<Rightarrow> 'a Slot list \<Rightarrow> (nat \<times> u32) option" where
  "scan_free i [] = None"
| "scan_free i (Live v g # ss) = scan_free (i + 1) ss"
| "scan_free i (Free n # ss) = (if n = umax then scan_free (i + 1) ss else Some (i, n))"

definition refuse :: "'a HandleTable \<Rightarrow> 'a HandleTable" where
  "refuse t = t\<lparr>stats := (stats t)\<lparr>refused := refused (stats t) + 1\<rparr>\<rparr>"

definition place :: "'a Slot list \<Rightarrow> nat \<Rightarrow> u32 \<Rightarrow> 'a HandleTable \<Rightarrow> 'a HandleTable \<times> (Error + Handle)" where
  "place ss i gen t =
     (t\<lparr>slots := ss, live := live t + 1, stats := (stats t)\<lparr>opened := opened (stats t) + 1\<rparr>\<rparr>,
      if i < 2 ^ 32 then Inr (pack (of_nat i) gen) else Inl slot_count_error)"

definition handle_insert :: "'a HandleTable \<Rightarrow> 'a \<Rightarrow> 'a HandleTable \<times> (Error + Handle)" where
  "handle_insert t v =
     (if unat (limit t) \<le> live t then (refuse t, Inl (limit_error t))
      else case (if live t < length (slots t) then scan_free 0 (slots t) else None) of
        Some (i, gen) \<Rightarrow> place ((slots t)[i := Live v gen]) i gen t
      | None \<Rightarrow>
          if unat (limit t) \<le> length (slots t) then (refuse t, Inl (no_slot_error t))
          else place (slots t @ [Live v 0]) (length (slots t)) 0 t)"

text \<open>\<open>Vec::get\<close>, and the liveness test every lookup makes.\<close>

definition slot_at :: "'a HandleTable \<Rightarrow> nat \<Rightarrow> 'a Slot option" where
  "slot_at t i = (if i < length (slots t) then Some (slots t ! i) else None)"

definition handle_get :: "'a HandleTable \<Rightarrow> Handle \<Rightarrow> Error + 'a" where
  "handle_get t h =
     (case slot_at t (unat (handle_slot h)) of
        Some (Live v g) \<Rightarrow> if g = handle_generation h then Inr v else Inl (invalid_handle_message h)
      | _ \<Rightarrow> Inl (invalid_handle_message h))"

definition is_live :: "'a HandleTable \<Rightarrow> Handle \<Rightarrow> bool" where
  "is_live t h \<longleftrightarrow> (case slot_at t (unat (handle_slot h)) of
     Some (Live v g) \<Rightarrow> g = handle_generation h | _ \<Rightarrow> False)"

definition count_invalid :: "'a HandleTable \<Rightarrow> 'a HandleTable" where
  "count_invalid t = t\<lparr>stats := (stats t)\<lparr>invalid := invalid (stats t) + 1\<rparr>\<rparr>"

definition get_mut :: "'a HandleTable \<Rightarrow> Handle \<Rightarrow> ('a \<Rightarrow> 'a) \<Rightarrow> 'a HandleTable \<times> (Error + 'a)" where
  "get_mut t h f =
     (if \<not> is_live t h then (count_invalid t, Inl (invalid_handle_message h))
      else case slots t ! unat (handle_slot h) of
        Live v g \<Rightarrow> (t\<lparr>slots := (slots t)[unat (handle_slot h) := Live (f v) g]\<rparr>, Inr v)
      | Free n \<Rightarrow> (t, Inl (invalid_handle_message h)))"

definition get_counted :: "'a HandleTable \<Rightarrow> Handle \<Rightarrow> 'a HandleTable \<times> (Error + 'a)" where
  "get_counted t h =
     (if \<not> is_live t h then (count_invalid t, Inl (invalid_handle_message h)) else (t, handle_get t h))"

definition handle_remove :: "'a HandleTable \<Rightarrow> Handle \<Rightarrow> 'a HandleTable \<times> (Error + 'a)" where
  "handle_remove t h =
     (if \<not> is_live t h then (count_invalid t, Inl (invalid_handle_message h))
      else let gen = handle_generation h; i = unat (handle_slot h);
               s = stats t; s' = (if gen = umax then s\<lparr>generations_exhausted := generations_exhausted s + 1\<rparr> else s)
           in (t\<lparr>slots := (slots t)[i := Free (sat_add gen 1)], live := live t - 1,
                 stats := s'\<lparr>closed := closed s' + 1\<rparr>\<rparr>,
               case slots t ! i of Live v g \<Rightarrow> Inr v | Free n \<Rightarrow> Inl (invalid_handle_message h)))"

definition reusable :: "'a Slot \<Rightarrow> bool" where
  "reusable s = (case s of Free n \<Rightarrow> n \<noteq> umax | Live v g \<Rightarrow> False)"

definition is_full :: "'a HandleTable \<Rightarrow> bool" where
  "is_full t =
     (if unat (limit t) \<le> live t then True
      else unat (limit t) \<le> length (slots t) \<and> \<not> list_ex reusable (slots t))"

section \<open>Calls\<close>

datatype 'a HandleCall = Insert 'a | GetMut Handle "'a \<Rightarrow> 'a" | GetCounted Handle | Remove Handle

fun handle_step :: "'a HandleTable \<Rightarrow> 'a HandleCall \<Rightarrow> 'a HandleTable" where
  "handle_step t (Insert v) = fst (handle_insert t v)"
| "handle_step t (GetMut h f) = fst (get_mut t h f)"
| "handle_step t (GetCounted h) = fst (get_counted t h)"
| "handle_step t (Remove h) = fst (handle_remove t h)"

section \<open>Packing\<close>

lemma SLOT_MASK_mask: "SLOT_MASK = mask 32"
  by (simp add: SLOT_MASK_def GENERATION_BITS_def mask_eq_exp_minus_1)

lemma pack_handle [simp]:
  "handle_slot (pack s g) = s" "handle_generation (pack s g) = g" "pack (handle_slot h) (handle_generation h) = h"
proof -
  show "handle_slot (pack s g) = s"
    by (rule bit_word_eqI)
      (auto simp: handle_slot_def pack_def SLOT_MASK_mask GENERATION_BITS_def bit_simps)
  show "handle_generation (pack s g) = g"
    by (rule bit_word_eqI) (auto simp: handle_generation_def pack_def GENERATION_BITS_def bit_simps
        dest: bit_imp_le_length)
  show "pack (handle_slot h) (handle_generation h) = h"
    by (rule bit_word_eqI) (auto simp: handle_slot_def handle_generation_def pack_def SLOT_MASK_mask
        GENERATION_BITS_def bit_simps)
qed

text \<open>A handle is exactly its slot and generation: packing loses nothing, and every raw \<open>u64\<close> a guest
  can present is the handle of one slot and one generation.\<close>

theorem pack_bijective:
  "handle_slot (pack s g) = s \<and> handle_generation (pack s g) = g \<and>
   pack (handle_slot h) (handle_generation h) = h"
  by simp

section \<open>How the table moves\<close>

text \<open>What a call may do to the slots and the live count, whatever its arguments.\<close>

inductive table_move :: "nat \<Rightarrow> 'a Slot list \<times> nat \<Rightarrow> 'a Slot list \<times> nat \<Rightarrow> bool" for lim where
  stay: "table_move lim (ss, n) (ss, n)"
| reuse: "i < length ss \<Longrightarrow> ss ! i = Free g \<Longrightarrow> g \<noteq> umax \<Longrightarrow>
    table_move lim (ss, n) (ss[i := Live v g], Suc n)"
| grow: "length ss < lim \<Longrightarrow> table_move lim (ss, n) (ss @ [Live v 0], Suc n)"
| modify: "i < length ss \<Longrightarrow> ss ! i = Live v g \<Longrightarrow> table_move lim (ss, n) (ss[i := Live w g], n)"
| shut: "i < length ss \<Longrightarrow> ss ! i = Live v g \<Longrightarrow>
    table_move lim (ss, n) (ss[i := Free (sat_add g 1)], n - Suc 0)"

lemma scan_free_Some:
  "scan_free k ss = Some (j, n) \<Longrightarrow> \<exists>i. j = k + i \<and> i < length ss \<and> ss ! i = Free n \<and> n \<noteq> umax"
proof (induction k ss rule: scan_free.induct)
  case (2 k v g ss)
  then obtain i where "j = k + 1 + i" "i < length ss" "ss ! i = Free n" "n \<noteq> umax" by auto
  then show ?case by (intro exI [of _ "Suc i"]) simp
next
  case (3 k m ss)
  show ?case
  proof (cases "m = umax")
    case True
    with 3 obtain i where "j = k + 1 + i" "i < length ss" "ss ! i = Free n" "n \<noteq> umax" by auto
    then show ?thesis by (intro exI [of _ "Suc i"]) simp
  next
    case False
    with 3 show ?thesis by (intro exI [of _ 0]) simp
  qed
qed simp

lemma scan_free_None: "scan_free k ss = None \<longleftrightarrow> \<not> list_ex reusable ss"
  by (induction k ss rule: scan_free.induct) (auto simp: reusable_def)

lemma is_live_iff: "is_live t h \<longleftrightarrow>
    unat (handle_slot h) < length (slots t) \<and> (\<exists>v. slots t ! unat (handle_slot h) = Live v (handle_generation h))"
  by (auto simp: is_live_def slot_at_def split: Slot.splits)

lemma get_live: "handle_get t h = (if is_live t h
    then (case slots t ! unat (handle_slot h) of Live v g \<Rightarrow> Inr v | Free n \<Rightarrow> Inl (invalid_handle_message h))
    else Inl (invalid_handle_message h))"
  by (auto simp: handle_get_def is_live_def slot_at_def split: Slot.splits)

lemma insert_cases:
  obtains (full) e where "handle_insert t v = (refuse t, Inl e)" "code e = InvalidResourceHandle"
      "unat (limit t) \<le> live t \<or> unat (limit t) \<le> length (slots t) \<and>
        (live t < length (slots t) \<longrightarrow> \<not> list_ex reusable (slots t))"
  | (old) i g where "handle_insert t v = place ((slots t)[i := Live v g]) i g t" "live t < unat (limit t)"
      "i < length (slots t)" "slots t ! i = Free g" "g \<noteq> umax"
  | (new) "handle_insert t v = place (slots t @ [Live v 0]) (length (slots t)) 0 t"
      "live t < unat (limit t)" "length (slots t) < unat (limit t)"
proof (cases "unat (limit t) \<le> live t")
  case True
  then show ?thesis by (intro full [of "limit_error t"]) (simp_all add: handle_insert_def limit_error_def)
next
  case room: False
  show ?thesis
  proof (cases "if live t < length (slots t) then scan_free 0 (slots t) else None")
    case None
    then have none: "live t < length (slots t) \<longrightarrow> \<not> list_ex reusable (slots t)"
      by (auto simp: scan_free_None split: if_splits)
    show ?thesis
    proof (cases "unat (limit t) \<le> length (slots t)")
      case True
      with room None none show ?thesis
        by (intro full [of "no_slot_error t"]) (simp_all add: handle_insert_def no_slot_error_def)
    next
      case False
      with room None show ?thesis by (intro new) (simp_all add: handle_insert_def)
    qed
  next
    case (Some p)
    obtain i g where p: "p = (i, g)" by (cases p)
    with Some have "scan_free 0 (slots t) = Some (i, g)" by (simp split: if_splits)
    from scan_free_Some [OF this] room Some p show ?thesis
      by (intro old [of i g]) (auto simp: handle_insert_def)
  qed
qed

lemma place_simps [simp]:
  "slots (fst (place ss i g t)) = ss" "live (fst (place ss i g t)) = live t + 1"
  "limit (fst (place ss i g t)) = limit t"
  "generations_exhausted (stats (fst (place ss i g t))) = generations_exhausted (stats t)"
  by (simp_all add: place_def)

lemma step_limit [simp]: "limit (handle_step t c) = limit t"
  by (cases c) (auto simp: handle_insert_def refuse_def get_mut_def count_invalid_def get_counted_def
      handle_remove_def Let_def split: option.splits Slot.splits)

lemma step_moves: "table_move (unat (limit t)) (slots t, live t) (slots (handle_step t c), live (handle_step t c))"
proof (cases c)
  case (Insert v)
  show ?thesis
    by (cases rule: insert_cases [of t v])
      (auto simp: Insert refuse_def intro: stay reuse grow)
next
  case (GetMut h f)
  then show ?thesis
    by (auto simp: get_mut_def count_invalid_def is_live_iff intro: stay modify)
next
  case (GetCounted h)
  then show ?thesis by (simp add: get_counted_def count_invalid_def stay)
next
  case (Remove h)
  then show ?thesis
    by (auto simp: handle_remove_def count_invalid_def is_live_iff Let_def intro: stay shut)
qed

section \<open>The invariant\<close>

definition slot_live :: "'a Slot \<Rightarrow> bool" where
  "slot_live s = (case s of Live v g \<Rightarrow> True | Free n \<Rightarrow> False)"

definition slots_inv :: "nat \<Rightarrow> 'a Slot list \<times> nat \<Rightarrow> bool" where
  "slots_inv lim st \<longleftrightarrow> snd st = length (filter slot_live (fst st)) \<and> length (fst st) \<le> lim \<and>
     (\<forall>i < length (fst st). \<forall>v. fst st ! i \<noteq> Live v umax)"

definition table_inv :: "'a HandleTable \<Rightarrow> bool" where
  "table_inv t \<longleftrightarrow> slots_inv (unat (limit t)) (slots t, live t) \<and> generations_exhausted (stats t) = 0"

lemma length_filter_update:
  "i < length xs \<Longrightarrow> length (filter P (xs[i := y])) + (if P (xs ! i) then 1 else 0) =
     length (filter P xs) + (if P y then 1 else 0)"
proof (induction xs arbitrary: i)
  case (Cons x xs)
  then show ?case by (cases i) (use Cons.IH [of "i - 1"] in simp_all)
qed simp

lemma move_inv: "table_move lim st st' \<Longrightarrow> slots_inv lim st \<Longrightarrow> slots_inv lim st'"
proof (induction rule: table_move.induct)
  case (reuse i ss g n v)
  then show ?case using length_filter_update [of i ss slot_live "Live v g"]
    by (auto simp: slots_inv_def slot_live_def nth_list_update)
next
  case (grow ss n v)
  then show ?case by (auto simp: slots_inv_def slot_live_def nth_append umax_def)
next
  case (modify i ss v g n w)
  then show ?case using length_filter_update [of i ss slot_live "Live w g"]
    by (auto simp: slots_inv_def slot_live_def nth_list_update)
next
  case (shut i ss v g n)
  then show ?case using length_filter_update [of i ss slot_live "Free (sat_add g 1)"]
    by (auto simp: slots_inv_def slot_live_def nth_list_update)
qed simp

lemma step_exhausted: "slots_inv (unat (limit t)) (slots t, live t) \<Longrightarrow>
    generations_exhausted (stats (handle_step t c)) = generations_exhausted (stats t)"
proof (cases c)
  case (Insert v)
  show ?thesis by (cases rule: insert_cases [of t v]) (simp_all add: Insert refuse_def)
qed (auto simp: get_mut_def get_counted_def handle_remove_def count_invalid_def is_live_iff slots_inv_def Let_def)

lemma step_table_inv: "table_inv t \<Longrightarrow> table_inv (handle_step t c)"
  unfolding table_inv_def using move_inv [OF step_moves] step_exhausted by fastforce

lemma table_inv_new: "table_inv (handle_table_new l)"
  by (simp add: table_inv_def slots_inv_def handle_table_new_def)

text \<open>A handle is dead when its slot has moved past its generation.\<close>

definition past :: "u32 \<Rightarrow> 'a Slot \<Rightarrow> bool" where
  "past gen s = (case s of Live v g \<Rightarrow> gen < g | Free n \<Rightarrow> gen < n)"

definition dead :: "Handle \<Rightarrow> 'a HandleTable \<Rightarrow> bool" where
  "dead h t \<longleftrightarrow> unat (handle_slot h) < length (slots t) \<and>
     past (handle_generation h) (slots t ! unat (handle_slot h))"

lemma sat_add_1_gt: "g \<noteq> umax \<Longrightarrow> g < sat_add g (1 :: u32)"
  using unat_eq_umax [of g] unat_lt_len [of g] by (simp add: word_less_nat_alt unat_sat_add)

lemma move_past:
  "table_move lim st st' \<Longrightarrow> slots_inv lim st \<Longrightarrow> i < length (fst st) \<and> past gen (fst st ! i) \<Longrightarrow>
     i < length (fst st') \<and> past gen (fst st' ! i)"
proof (induction rule: table_move.induct)
  case (shut j ss v g n)
  then have "g < sat_add g 1" by (auto simp: slots_inv_def intro: sat_add_1_gt)
  with shut show ?case by (auto simp: past_def nth_list_update)
qed (auto simp: past_def nth_list_update nth_append split: Slot.splits)

lemma step_dead: "table_inv t \<Longrightarrow> dead h t \<Longrightarrow> dead h (handle_step t c)"
  using move_past [OF step_moves] by (fastforce simp: dead_def table_inv_def)

interpretation handles: stable_machine handle_step table_inv dead
  by unfold_locales (rule step_table_inv, assumption, rule step_dead)

lemma handles_run: "table_inv (run handle_step (handle_table_new l) cs)"
  by (rule handles.run_inv [OF table_inv_new])

lemma limit_run [simp]: "limit (run handle_step t cs) = limit t"
  by (induction cs arbitrary: t) simp_all

section \<open>Properties\<close>

lemma no_reusable_when_full:
  "table_inv t \<Longrightarrow> live t \<ge> length (slots t) \<Longrightarrow> \<not> list_ex reusable (slots t)"
proof -
  assume "table_inv t" "live t \<ge> length (slots t)"
  then have "length (filter slot_live (slots t)) = length (slots t)"
    using length_filter_le [of slot_live "slots t"] by (simp add: table_inv_def slots_inv_def)
  then have "\<forall>s \<in> set (slots t). slot_live s" by (metis length_filter_less less_irrefl)
  then show ?thesis by (auto simp: list_ex_iff slot_live_def reusable_def split: Slot.splits)
qed

lemma index_fits: "table_inv t \<Longrightarrow> i < unat (limit t) \<Longrightarrow> i < 2 ^ 32"
  using unat_lt_len [of "limit t"] by simp

lemma index_of_nat: "i < 2 ^ 32 \<Longrightarrow> unat (of_nat i :: u32) = i"
  by (simp add: unat_of_nat)

text \<open>A slot list where one slot is live with a new value, and nothing else changed.\<close>

lemma get_placed:
  assumes "i < 2 ^ 32" "slot_at t' i = Some (Live v g)"
    and same: "\<And>j. j \<noteq> i \<Longrightarrow> slot_at t' j = slot_at t j"
    and before: "case slot_at t i of Some (Live w k) \<Rightarrow> False | _ \<Rightarrow> True"
  shows "handle_get t' h = (if h = pack (of_nat i) g then Inr v else handle_get t h)"
proof (cases "unat (handle_slot h) = i")
  case True
  then have "handle_slot h = of_nat i" by (metis of_nat_unat ucast_id)
  then have "h = pack (of_nat i) g \<longleftrightarrow> handle_generation h = g" by (metis pack_handle(2,3))
  with True assms(2) before show ?thesis
    by (auto simp: handle_get_def split: Slot.splits option.splits)
next
  case False
  then have "h \<noteq> pack (of_nat i) g" using assms(1) by (auto simp: index_of_nat)
  with same [OF False] show ?thesis by (simp add: handle_get_def)
qed

lemma insert_spec:
  assumes "table_inv t"
  shows "case handle_insert t v of
     (t', Inl e) \<Rightarrow> is_full t \<and> code e = InvalidResourceHandle \<and> slots t' = slots t \<and> live t' = live t
   | (t', Inr h) \<Rightarrow> \<not> is_full t \<and> \<not> is_live t h \<and>
       (\<forall>h'. handle_get t' h' = (if h' = h then Inr v else handle_get t h'))"
proof (cases rule: insert_cases [of t v])
  case (full e)
  then show ?thesis
    using no_reusable_when_full [OF assms] by (auto simp: is_full_def refuse_def not_less)
next
  case (old i g)
  then have "i < unat (limit t)" using assms by (simp add: table_inv_def slots_inv_def)
  then have i: "i < 2 ^ 32" by (rule index_fits [OF assms])
  moreover have "list_ex reusable (slots t)" using old by (auto simp: list_ex_length reusable_def)
  moreover have "handle_get (fst (place ((slots t)[i := Live v g]) i g t)) h =
      (if h = pack (of_nat i) g then Inr v else handle_get t h)" for h
    by (rule get_placed [of i]) (use old i in \<open>auto simp: slot_at_def\<close>)
  ultimately show ?thesis using old
    by (auto simp: is_full_def place_def is_live_iff index_of_nat)
next
  case new
  let ?i = "length (slots t)"
  have i: "?i < 2 ^ 32" using new index_fits [OF assms] by simp
  moreover have "handle_get (fst (place (slots t @ [Live v 0]) ?i 0 t)) h =
      (if h = pack (of_nat ?i) 0 then Inr v else handle_get t h)" for h
    by (rule get_placed [of ?i]) (use i in \<open>auto simp: slot_at_def nth_append\<close>)
  ultimately show ?thesis using new
    by (auto simp: is_full_def place_def is_live_iff index_of_nat)
qed

lemma remove_spec:
  assumes "table_inv t"
  shows "case handle_remove t h of
     (t', Inl e) \<Rightarrow> handle_get t h = Inl e \<and> slots t' = slots t
   | (t', Inr v) \<Rightarrow> handle_get t h = Inr v \<and> dead h t' \<and> live t = live t' + 1"
proof (cases "is_live t h")
  case True
  then obtain v where v: "unat (handle_slot h) < length (slots t)"
      "slots t ! unat (handle_slot h) = Live v (handle_generation h)" by (auto simp: is_live_iff)
  then have "handle_generation h < sat_add (handle_generation h) 1"
    using assms by (auto simp: table_inv_def slots_inv_def intro!: sat_add_1_gt)
  moreover have "Live v (handle_generation h) \<in> set (slots t)" using v by (metis nth_mem)
  then have "filter slot_live (slots t) \<noteq> []" by (force simp: filter_empty_conv slot_live_def)
  then have "0 < live t" using assms by (simp add: table_inv_def slots_inv_def)
  ultimately show ?thesis
    using True v by (auto simp: handle_remove_def get_live dead_def past_def Let_def)
next
  case False
  then show ?thesis by (simp add: handle_remove_def get_live count_invalid_def)
qed

lemma dead_not_live: "dead h t \<Longrightarrow> handle_get t h = Inl (invalid_handle_message h)"
  by (auto simp: dead_def get_live is_live_iff past_def)

text \<open>Insertion and lookup, on every table a sequence of calls can build: a refusal happens exactly
  when \<open>is_full\<close> says so and changes no slot; otherwise the new handle was not valid before, names the
  inserted value afterwards, and every other handle answers as before. The internal-invariant error is
  unreachable.\<close>

theorem insert_lookup:
  "case handle_insert (run handle_step (handle_table_new l) cs) v of
     (t', Inl e) \<Rightarrow> is_full (run handle_step (handle_table_new l) cs) \<and> code e = InvalidResourceHandle \<and>
       slots t' = slots (run handle_step (handle_table_new l) cs)
   | (t', Inr h) \<Rightarrow> \<not> is_full (run handle_step (handle_table_new l) cs) \<and>
       \<not> is_live (run handle_step (handle_table_new l) cs) h \<and>
       (\<forall>h'. handle_get t' h' =
          (if h' = h then Inr v else handle_get (run handle_step (handle_table_new l) cs) h'))"
  using insert_spec [OF handles_run [of l cs], of v] by (auto split: prod.splits sum.splits)

text \<open>C7. A closed handle is dead for ever: after a successful \<open>remove\<close> no further sequence of calls, of any
  length and with any number of reuses of its slot, makes the handle valid again. A refused \<open>remove\<close>
  returns the error of \<open>get\<close> and changes no slot.\<close>

theorem closed_handle_stays_dead:
  "case handle_remove (run handle_step (handle_table_new l) cs) h of
     (t', Inl e) \<Rightarrow> handle_get (run handle_step (handle_table_new l) cs) h = Inl e \<and>
       slots t' = slots (run handle_step (handle_table_new l) cs)
   | (t', Inr v) \<Rightarrow> handle_get (run handle_step (handle_table_new l) cs) h = Inr v \<and>
       (\<forall>more. handle_get (run handle_step t' more) h = Inl (invalid_handle_message h))"
proof -
  let ?t = "run handle_step (handle_table_new l) cs"
  have "table_inv (fst (handle_remove ?t h))"
    using step_table_inv [OF handles_run [of l cs], of "Remove h"] by simp
  then have "dead h (fst (handle_remove ?t h)) \<Longrightarrow>
      handle_get (run handle_step (fst (handle_remove ?t h)) more) h = Inl (invalid_handle_message h)" for more
    by (intro dead_not_live handles.run_stable)
  then show ?thesis
    using remove_spec [OF handles_run [of l cs], of h] by (auto split: prod.splits sum.splits)
qed

text \<open>The bounds of the table: whatever the calls, the live count is the number of live slots, neither
  it nor the slot vector exceeds the limit, and the counter of retired generations stays zero: a slot is
  retired when generation \<open>u32::MAX - 1\<close> is closed, and \<open>remove\<close> counts only \<open>u32::MAX\<close>.\<close>

theorem handle_table_bounds:
  "live (run handle_step (handle_table_new l) cs) =
     length (filter slot_live (slots (run handle_step (handle_table_new l) cs))) \<and>
   length (slots (run handle_step (handle_table_new l) cs)) \<le> unat l \<and>
   generations_exhausted (stats (run handle_step (handle_table_new l) cs)) = 0"
  using handles_run [of l cs] by (simp add: table_inv_def slots_inv_def handle_table_new_def)

end
