(* ===== verification/Edit_Distance.thy ===== *)
theory Edit_Distance
  imports Main
begin

text \<open>
  The reference notion of edit distance that the suggestion of capability names is checked against:
  an inductive relation of edit scripts, the textbook recursion, and the fact that the recursion
  computes the length of a shortest script.
\<close>

text \<open>Reference: \<open>edits n a b\<close> holds when \<open>n\<close> insertions, deletions and substitutions turn \<open>a\<close> into \<open>b\<close>.\<close>

inductive edits :: "nat \<Rightarrow> 'a list \<Rightarrow> 'a list \<Rightarrow> bool" where
  edits_Nil: "edits 0 [] []"
| edits_keep: "edits n a b \<Longrightarrow> edits n (x # a) (x # b)"
| edits_subst: "edits n a b \<Longrightarrow> edits (n + 1) (x # a) (y # b)"
| edits_ins: "edits n a b \<Longrightarrow> edits (n + 1) a (y # b)"
| edits_del: "edits n a b \<Longrightarrow> edits (n + 1) (x # a) b"

text \<open>The textbook recursion.\<close>

fun ed :: "'a list \<Rightarrow> 'a list \<Rightarrow> nat" where
  "ed [] ys = length ys"
| "ed (x # xs) [] = length (x # xs)"
| "ed (x # xs) (y # ys) =
     min (min (ed xs (y # ys) + 1) (ed (x # xs) ys + 1)) (ed xs ys + (if x \<noteq> y then 1 else 0))"

lemma ed_Nil2 [simp]: "ed xs [] = length xs"
  by (cases xs) simp_all

lemma edits_ins_many: "edits (length b) [] b"
  by (induction b) (auto intro: edits_Nil dest: edits_ins)

lemma edits_del_many: "edits (length a) a []"
  by (induction a) (auto intro: edits_Nil dest: edits_del)

lemma edits_ed: "edits (ed a b) a b"
proof (induction a b rule: ed.induct)
  case (3 x xs y ys)
  have "edits (ed xs (y # ys) + 1) (x # xs) (y # ys)" by (rule edits_del [OF "3"(1)])
  moreover have "edits (ed (x # xs) ys + 1) (x # xs) (y # ys)" by (rule edits_ins [OF "3"(2)])
  moreover have "edits (ed xs ys + (if x \<noteq> y then 1 else 0)) (x # xs) (y # ys)"
    using edits_subst [OF "3"(3), of x y] edits_keep [OF "3"(3), of y] by simp
  ultimately show ?case by (simp add: min_def)
next
  case (2 x xs)
  then show ?case using edits_del_many [of "x # xs"] by simp
qed (simp add: edits_ins_many)

lemma edits_append: "edits m a b \<Longrightarrow> edits n c d \<Longrightarrow> edits (m + n) (a @ c) (b @ d)"
proof (induction rule: edits.induct)
  case (edits_subst n' a b x y)
  then show ?case using edits.edits_subst [of "n' + n" "a @ c" "b @ d" x y] by simp
next
  case (edits_ins n' a b y)
  then show ?case using edits.edits_ins [of "n' + n" "a @ c" "b @ d" y] by simp
next
  case (edits_del n' a b x)
  then show ?case using edits.edits_del [of "n' + n" "a @ c" "b @ d" x] by simp
qed (auto intro: edits_keep)

lemma edits_rev: "edits n a b \<Longrightarrow> edits n (rev a) (rev b)"
proof (induction rule: edits.induct)
  case (edits_keep n a b x)
  then show ?case using edits_append [of n "rev a" "rev b" 0 "[x]" "[x]"]
    by (simp add: edits_Nil edits.edits_keep)
next
  case (edits_subst n a b x y)
  then show ?case using edits_append [of n "rev a" "rev b" 1 "[x]" "[y]"]
      edits.edits_subst [OF edits_Nil, of x y] by simp
next
  case (edits_ins n a b y)
  then show ?case using edits_append [of n "rev a" "rev b" 1 "[]" "[y]"]
      edits.edits_ins [OF edits_Nil, of y] by simp
next
  case (edits_del n a b x)
  then show ?case using edits_append [of n "rev a" "rev b" 1 "[x]" "[]"]
      edits.edits_del [OF edits_Nil, of x] by simp
qed (auto intro: edits_Nil)

lemma ed_minimal: "edits n a b \<Longrightarrow> ed a b \<le> n"
proof (induction rule: edits.induct)
  case (edits_ins n a b y)
  then show ?case by (cases a) auto
next
  case (edits_del n a b x)
  then show ?case by (cases b) auto
qed auto

lemma ed_Least: "ed (rev a) (rev b) = (LEAST n. edits n a b)"
proof (rule Least_equality [symmetric])
  show "edits (ed (rev a) (rev b)) a b" using edits_rev [OF edits_ed, of "rev a" "rev b"] by simp
  show "ed (rev a) (rev b) \<le> n" if "edits n a b" for n using ed_minimal [OF edits_rev [OF that]] .
qed

end
