(* ===== verification/Capability.thy ===== *)
theory Capability
  imports Utf8 Edit_Distance "HOL-Library.List_Lexorder"
begin

text \<open>
  The closed capability vocabulary of \<open>qqq-cap/src/capability.rs\<close>: the enum with its declaration
  order, the stable dotted names, kinds, namespaces, selectors (\<open>sql.*\<close>), parsing from a name and the
  nearest-name suggestion with its two-row Levenshtein distance.
\<close>

section \<open>The enum\<close>

datatype CapabilityKind = Resource | Operation | Ambient

datatype Capability =
    ClockWall | ClockMonotonic | CryptoRandom | FsRead
  | FsWrite | FsWatch | HttpServer | HttpClient
  | SqlQuery | SqlExecute | KvRead | KvWrite
  | QueuePublish | QueueSubscribe | CryptoHash | CryptoHmac
  | CryptoAead | CryptoSign | SecretUse | DnsResolve
  | LogWrite | TraceWrite | EnvRead | AiInfer

text \<open>The variants in declaration order, which is the derived \<open>Ord\<close> and so the order of a \<open>BTreeSet\<close>.\<close>

definition declared_order :: "Capability list" where
  "declared_order =
    [ClockWall, ClockMonotonic, CryptoRandom, FsRead,
     FsWrite, FsWatch, HttpServer, HttpClient,
     SqlQuery, SqlExecute, KvRead, KvWrite,
     QueuePublish, QueueSubscribe, CryptoHash, CryptoHmac,
     CryptoAead, CryptoSign, SecretUse, DnsResolve,
     LogWrite, TraceWrite, EnvRead, AiInfer]"

text \<open>\<open>Capability::all\<close>, sorted by namespace and name.\<close>

definition all_capabilities :: "Capability list" where
  "all_capabilities =
    [AiInfer, ClockMonotonic, ClockWall, CryptoAead,
     CryptoHash, CryptoHmac, CryptoRandom, CryptoSign,
     DnsResolve, EnvRead, FsRead, FsWatch,
     FsWrite, HttpClient, HttpServer, KvRead,
     KvWrite, LogWrite, QueuePublish, QueueSubscribe,
     SecretUse, SqlExecute, SqlQuery, TraceWrite]"

primrec name :: "Capability \<Rightarrow> ustr" where
  "name ClockWall = lit ''clock.wall''"
| "name ClockMonotonic = lit ''clock.monotonic''"
| "name CryptoRandom = lit ''crypto.random''"
| "name CryptoHash = lit ''crypto.hash''"
| "name CryptoHmac = lit ''crypto.hmac''"
| "name CryptoAead = lit ''crypto.aead''"
| "name CryptoSign = lit ''crypto.sign''"
| "name FsRead = lit ''fs.read''"
| "name FsWrite = lit ''fs.write''"
| "name FsWatch = lit ''fs.watch''"
| "name HttpServer = lit ''http.server''"
| "name HttpClient = lit ''http.client''"
| "name SqlQuery = lit ''sql.query''"
| "name SqlExecute = lit ''sql.execute''"
| "name KvRead = lit ''kv.read''"
| "name KvWrite = lit ''kv.write''"
| "name QueuePublish = lit ''queue.publish''"
| "name QueueSubscribe = lit ''queue.subscribe''"
| "name SecretUse = lit ''secret.use''"
| "name DnsResolve = lit ''dns.resolve''"
| "name LogWrite = lit ''log.write''"
| "name TraceWrite = lit ''trace.write''"
| "name EnvRead = lit ''env.read''"
| "name AiInfer = lit ''ai.infer''"

text \<open>\<open>str::split_once('.')\<close> takes the part before the first dot.\<close>

definition namespace :: "Capability \<Rightarrow> ustr" where
  "namespace c = (if 46 \<in> set (name c) then takeWhile (\<lambda>x. x \<noteq> 46) (name c) else name c)"

definition kind :: "Capability \<Rightarrow> CapabilityKind" where
  "kind c =
     (if c \<in> {ClockWall, ClockMonotonic, CryptoRandom, LogWrite, TraceWrite} then Ambient
      else if c \<in> {FsRead, FsWrite, FsWatch} then Resource
      else Operation)"

definition is_covert_channel :: "Capability \<Rightarrow> bool" where
  "is_covert_channel c \<longleftrightarrow> c \<in> {ClockWall, CryptoRandom, DnsResolve, HttpClient, EnvRead}"

definition from_name :: "ustr \<Rightarrow> Capability option" where
  "from_name s = find (\<lambda>c. name c = s) all_capabilities"

section \<open>Edit distance\<close>

text \<open>
  One pass of the inner loop: given the previous row from column \<open>j\<close> on and \<open>cur[j]\<close>, the entries
  \<open>cur[j + 1]\<close> onwards. The source keeps both rows at length \<open>b.len() + 1\<close>.
\<close>

fun lev_row :: "nat \<Rightarrow> ustr \<Rightarrow> nat list \<Rightarrow> nat \<Rightarrow> nat list" where
  "lev_row ca (cb # bs) (p0 # p1 # ps) left =
     (let v = min (min (p1 + 1) (left + 1)) (p0 + (if ca \<noteq> cb then 1 else 0))
      in v # lev_row ca bs (p1 # ps) v)"
| "lev_row ca bs ps left = []"

text \<open>The outer loop: \<open>prev\<close> is the row of the \<open>i\<close> characters already read.\<close>

fun lev_rows :: "nat \<Rightarrow> ustr \<Rightarrow> ustr \<Rightarrow> nat list \<Rightarrow> nat list" where
  "lev_rows i [] b prev = prev"
| "lev_rows i (ca # as) b prev = lev_rows (i + 1) as b ((i + 1) # lev_row ca b prev (i + 1))"

definition levenshtein :: "ustr \<Rightarrow> ustr \<Rightarrow> nat" where
  "levenshtein a b =
     (if a = [] then length b
      else if b = [] then length a
      else last (lev_rows 0 a b [0..<length b + 1]))"

definition suggest_limit :: "ustr \<Rightarrow> nat" where
  "suggest_limit input =
     (let n = sum_list (map len_utf8 input) in if n \<le> 4 then 1 else if n \<le> 8 then 2 else 3)"

text \<open>The loop of \<open>suggest\<close>: a later candidate replaces the best only when strictly closer.\<close>

definition better :: "ustr \<Rightarrow> (nat \<times> Capability) option \<Rightarrow> Capability \<Rightarrow> (nat \<times> Capability) option" where
  "better input best c =
     (let d = levenshtein input (name c) in
      if d \<le> suggest_limit input \<and> (case best of None \<Rightarrow> True | Some (bd, _) \<Rightarrow> d < bd)
      then Some (d, c) else best)"

definition suggest :: "ustr \<Rightarrow> Capability option" where
  "suggest input =
     (if 64 < length input then None
      else map_option snd (foldl (better input) None all_capabilities))"

section \<open>Parsing names and selectors\<close>

record UnknownCapability =
  input :: ustr
  suggestion :: "Capability option"

definition capability_from_str :: "ustr \<Rightarrow> UnknownCapability + Capability" where
  "capability_from_str s =
     (case from_name s of
        Some c \<Rightarrow> Inr c
      | None \<Rightarrow> Inl \<lparr>input = s, suggestion = suggest s\<rparr>)"

datatype CapabilitySelector = One Capability | Namespace ustr

definition namespace_all :: "ustr list" where
  "namespace_all = remdups_adj (sort (map namespace all_capabilities))"

definition namespace_from_str_strict :: "ustr \<Rightarrow> ustr option" where
  "namespace_from_str_strict s = find (\<lambda>n. n = s) namespace_all"

definition selector_from_str :: "ustr \<Rightarrow> UnknownCapability + CapabilitySelector" where
  "selector_from_str s =
     (case strip_suffix (lit ''.*'') s of
        Some ns \<Rightarrow>
          (case namespace_from_str_strict ns of
             Some n \<Rightarrow> Inr (Namespace n)
           | None \<Rightarrow> Inl \<lparr>input = s, suggestion = None\<rparr>)
      | None \<Rightarrow>
          (case capability_from_str s of Inl e \<Rightarrow> Inl e | Inr c \<Rightarrow> Inr (One c)))"

fun selector_display :: "CapabilitySelector \<Rightarrow> ustr" where
  "selector_display (One c) = name c"
| "selector_display (Namespace n) = n @ lit ''.*''"

fun selector_matches :: "CapabilitySelector \<Rightarrow> Capability \<Rightarrow> bool" where
  "selector_matches (One sel) c = (sel = c)"
| "selector_matches (Namespace ns) c = (ns = namespace c)"

section \<open>The order of the enum\<close>

primrec cap_index :: "Capability \<Rightarrow> nat" where
  "cap_index ClockWall = 0"
| "cap_index ClockMonotonic = 1"
| "cap_index CryptoRandom = 2"
| "cap_index FsRead = 3"
| "cap_index FsWrite = 4"
| "cap_index FsWatch = 5"
| "cap_index HttpServer = 6"
| "cap_index HttpClient = 7"
| "cap_index SqlQuery = 8"
| "cap_index SqlExecute = 9"
| "cap_index KvRead = 10"
| "cap_index KvWrite = 11"
| "cap_index QueuePublish = 12"
| "cap_index QueueSubscribe = 13"
| "cap_index CryptoHash = 14"
| "cap_index CryptoHmac = 15"
| "cap_index CryptoAead = 16"
| "cap_index CryptoSign = 17"
| "cap_index SecretUse = 18"
| "cap_index DnsResolve = 19"
| "cap_index LogWrite = 20"
| "cap_index TraceWrite = 21"
| "cap_index EnvRead = 22"
| "cap_index AiInfer = 23"

lemma declared_order_nth: "declared_order ! cap_index c = c"
  by (cases c) (simp_all add: declared_order_def)

instantiation Capability :: linorder
begin

definition less_eq_Capability :: "Capability \<Rightarrow> Capability \<Rightarrow> bool" where
  "less_eq_Capability a b \<longleftrightarrow> cap_index a \<le> cap_index b"

definition less_Capability :: "Capability \<Rightarrow> Capability \<Rightarrow> bool" where
  "less_Capability a b \<longleftrightarrow> cap_index a < cap_index b"

instance
proof
  fix a b :: Capability
  assume "a \<le> b" "b \<le> a"
  then have "cap_index a = cap_index b" by (simp add: less_eq_Capability_def)
  then show "a = b" by (metis declared_order_nth)
qed (auto simp: less_eq_Capability_def less_Capability_def)

end

lemma declared_order_complete: "c \<in> set declared_order"
  by (cases c) (simp_all add: declared_order_def)

lemma declared_order_sorted: "sorted_wrt (<) declared_order"
  by (simp add: declared_order_def less_Capability_def)

lemma finite_Capability [simp]: "finite (S :: Capability set)"
  by (rule finite_subset [of _ "set declared_order"]) (auto simp: declared_order_complete)

text \<open>Iterating a \<open>BTreeSet\<close> of capabilities.\<close>

definition btree_iter :: "Capability set \<Rightarrow> Capability list" where
  "btree_iter S = filter (\<lambda>c. c \<in> S) declared_order"

lemma set_btree_iter [simp]: "set (btree_iter S) = S"
  by (auto simp: btree_iter_def declared_order_complete)

lemma btree_iter_sorted: "sorted_wrt (<) (btree_iter S)"
  by (simp add: btree_iter_def declared_order_sorted sorted_wrt_filter)

section \<open>Names\<close>

lemma all_capabilities_complete: "c \<in> set all_capabilities"
  by (cases c) (simp_all add: all_capabilities_def)

lemma distinct_names: "distinct (map name all_capabilities)"
  by (simp add: all_capabilities_def)

lemma from_name_name [simp]: "from_name (name c) = Some c"
  by (simp add: from_name_def find_distinct_key distinct_names all_capabilities_complete)

lemma from_name_Some_iff: "from_name s = Some c \<longleftrightarrow> name c = s"
proof
  assume "from_name s = Some c"
  then show "name c = s" by (auto simp: from_name_def find_Some_iff)
qed auto

lemma name_shape: "46 \<in> set (name c)" "last (name c) \<noteq> 42" "name c \<noteq> []"
  by (cases c; simp)+

lemma set_namespace_all: "set namespace_all = range namespace"
  using all_capabilities_complete by (auto simp: namespace_all_def)

lemma find_eq: "find (\<lambda>n. n = s) xs = (if s \<in> set xs then Some s else None)"
  by (induction xs) auto

lemma namespace_from_str_strict_iff:
  "namespace_from_str_strict s = (if s \<in> range namespace then Some s else None)"
  by (simp only: namespace_from_str_strict_def find_eq set_namespace_all)

lemma strip_suffix_Some: "strip_suffix suf s = Some r \<longleftrightarrow> s = r @ suf"
  by (auto simp: strip_suffix_def strip_prefix_Some)
    (metis rev_append rev_rev_ident)

lemma strip_suffix_name: "strip_suffix (lit ''.*'') (name c) = None"
proof -
  have "name c \<noteq> r @ lit ''.*''" for r
  proof
    assume "name c = r @ lit ''.*''"
    then have "last (name c) = 42" by simp
    with name_shape(2) [of c] show False by simp
  qed
  then show ?thesis by (metis not_None_eq strip_suffix_Some)
qed

lemma namespace_takeWhile: "namespace c = takeWhile (\<lambda>x. x \<noteq> 46) (name c)"
  by (simp only: namespace_def name_shape(1) if_True)

lemma name_split_dot: "46 \<in> set xs \<Longrightarrow> \<exists>ys. xs = takeWhile (\<lambda>x. x \<noteq> (46::nat)) xs @ 46 # ys"
  by (induction xs) auto

lemma namespace_prefix: "namespace d = namespace c \<longleftrightarrow> (\<exists>opn. name c = namespace d @ 46 # opn)"
proof
  assume "namespace d = namespace c"
  then show "\<exists>opn. name c = namespace d @ 46 # opn"
    using name_split_dot [OF name_shape(1), of c] by (simp only: namespace_takeWhile)
next
  assume "\<exists>opn. name c = namespace d @ 46 # opn"
  then obtain opn where eq: "name c = namespace d @ 46 # opn" ..
  have "x \<noteq> 46" if "x \<in> set (namespace d)" for x
    using that by (auto simp: namespace_takeWhile dest: set_takeWhileD)
  then have "takeWhile (\<lambda>x. x \<noteq> 46) (namespace d @ 46 # opn) = namespace d"
    by (simp add: takeWhile_append2)
  with eq show "namespace d = namespace c" by (simp only: namespace_takeWhile [of c])
qed

text \<open>Names and selectors are faithful to the enum: a name parses to its capability and to no other,
  a namespace selector prints and parses back, \<open>ns.*\<close> is accepted exactly for the namespaces in
  use, and it selects exactly the capabilities whose name starts with \<open>ns.\<close>.\<close>

theorem selector_roundtrip:
  "(from_name s = Some c \<longleftrightarrow> name c = s) \<and>
   selector_from_str (selector_display (One c)) = Inr (One c) \<and>
   selector_from_str (ns @ lit ''.*'') =
     (if ns \<in> range namespace then Inr (Namespace ns)
      else Inl \<lparr>input = ns @ lit ''.*'', suggestion = None\<rparr>) \<and>
   (selector_matches (Namespace (namespace d)) c \<longleftrightarrow> (\<exists>opn. name c = namespace d @ 46 # opn))"
proof -
  have "strip_suffix (lit ''.*'') (ns @ lit ''.*'') = Some ns" by (simp only: strip_suffix_Some)
  then show ?thesis
    by (simp add: from_name_Some_iff selector_from_str_def capability_from_str_def
        namespace_from_str_strict_iff strip_suffix_name namespace_prefix del: lit_simps)
qed

section \<open>The edit distance\<close>

text \<open>The inner loop continues a row of the table, and the outer loop steps from row to row.\<close>

lemma lev_row_correct:
  assumes "b = pre @ bs"
    and "prev = map (\<lambda>j. ed ra (rev (take j b))) [length pre..<length b + 1]"
    and "left = ed (ca # ra) (rev pre)"
  shows "lev_row ca bs prev left =
    map (\<lambda>j. ed (ca # ra) (rev (take j b))) [length pre + 1..<length b + 1]"
  using assms
proof (induction bs arbitrary: pre prev left)
  case Nil
  then show ?case by simp
next
  case (Cons cb bs)
  let ?f = "\<lambda>r j. ed r (rev (take j b))"
  let ?n = "length pre"
  have prev: "prev = ?f ra ?n # ?f ra (?n + 1) # map (?f ra) [?n + 2..<length b + 1]"
    using Cons.prems(1,2) by (simp add: upt_conv_Cons del: upt_Suc take_append)
  have tk: "take ?n b = pre" "take (?n + 1) b = pre @ [cb]" using Cons.prems(1) by simp_all
  let ?v = "ed (ca # ra) (rev (pre @ [cb]))"
  have v: "min (min (?f ra (?n + 1) + 1) (left + 1)) (?f ra ?n + (if ca \<noteq> cb then 1 else 0)) = ?v"
    using tk Cons.prems(3) by simp
  have IH: "lev_row ca bs (map (?f ra) [?n + 1..<length b + 1]) ?v =
      map (?f (ca # ra)) [?n + 2..<length b + 1]"
    using Cons.IH [of "pre @ [cb]"] Cons.prems(1) by (simp del: upt_Suc take_append)
  have "map (?f ra) [?n + 1..<length b + 1] = ?f ra (?n + 1) # map (?f ra) [?n + 2..<length b + 1]"
    using Cons.prems(1) by (simp add: upt_conv_Cons del: upt_Suc take_append)
  with IH v prev have "lev_row ca (cb # bs) prev left = ?v # map (?f (ca # ra)) [?n + 2..<length b + 1]"
    by (simp add: Let_def del: upt_Suc take_append)
  also have "\<dots> = map (?f (ca # ra)) [?n + 1..<length b + 1]"
    using tk Cons.prems(1) by (simp add: upt_conv_Cons del: upt_Suc take_append)
  finally show ?case .
qed

lemma lev_rows_correct:
  "lev_rows (length ra) as b (map (\<lambda>j. ed ra (rev (take j b))) [0..<length b + 1]) =
     map (\<lambda>j. ed (rev as @ ra) (rev (take j b))) [0..<length b + 1]"
proof (induction as arbitrary: ra)
  case Nil
  then show ?case by simp
next
  case (Cons ca as)
  let ?row = "\<lambda>r. map (\<lambda>j. ed r (rev (take j b))) [0..<length b + 1]"
  have "lev_row ca b (?row ra) (length ra + 1) =
      map (\<lambda>j. ed (ca # ra) (rev (take j b))) [1..<length b + 1]"
    using lev_row_correct [of b "[]" b "?row ra" ra "length ra + 1" ca] by (simp del: upt_Suc)
  then have "(length ra + 1) # lev_row ca b (?row ra) (length ra + 1) = ?row (ca # ra)"
    by (simp add: upt_conv_Cons del: upt_Suc)
  with Cons.IH [of "ca # ra"] show ?case by (simp del: upt_Suc)
qed

lemma levenshtein_ed: "levenshtein a b = ed (rev a) (rev b)"
proof -
  have "map (\<lambda>j. ed ([] :: nat list) (rev (take j b))) [0..<length b + 1] = [0..<length b + 1]"
    by (rule nth_equalityI) (auto simp del: upt_Suc)
  with lev_rows_correct [of "[]" a b]
  have "lev_rows 0 a b [0..<length b + 1] = map (\<lambda>j. ed (rev a) (rev (take j b))) [0..<length b + 1]"
    by (simp del: upt_Suc)
  then have "last (lev_rows 0 a b [0..<length b + 1]) = ed (rev a) (rev b)"
    by simp
  then show ?thesis by (simp add: levenshtein_def)
qed

text \<open>The rolling two-row computation is the edit distance: the least number of insertions,
  deletions and substitutions that turn one string into the other.\<close>

theorem levenshtein_is_edit_distance: "levenshtein a b = (LEAST n. edits n a b)"
  by (simp add: levenshtein_ed ed_Least)

section \<open>Suggestions\<close>

definition best_of :: "ustr \<Rightarrow> Capability list \<Rightarrow> (nat \<times> Capability) option \<Rightarrow> bool" where
  "best_of s cs best \<longleftrightarrow>
     (case best of
        None \<Rightarrow> \<forall>c \<in> set cs. suggest_limit s < levenshtein s (name c)
      | Some (d, c) \<Rightarrow> d = levenshtein s (name c) \<and> d \<le> suggest_limit s \<and>
          (\<forall>c' \<in> set cs. d \<le> levenshtein s (name c')))"

lemma best_of_step: "best_of s cs best \<Longrightarrow> best_of s (cs @ [c]) (better s best c)"
  by (auto simp: best_of_def better_def Let_def not_le split: option.splits if_splits prod.splits)

lemma best_of_foldl: "best_of s cs best \<Longrightarrow> best_of s (cs @ cs') (foldl (better s) best cs')"
proof (induction cs' arbitrary: cs best)
  case (Cons c cs')
  from Cons.IH [OF best_of_step [OF Cons.prems, of c]] show ?case by simp
qed simp

text \<open>The suggestion for a mistyped name is the nearest capability: it lies within the distance
  limit and no capability is closer; none is given only for over-long input or when every name is
  beyond the limit.\<close>

theorem suggest_nearest:
  "case suggest s of
     None \<Rightarrow> 64 < length s \<or> (\<forall>c. suggest_limit s < levenshtein s (name c))
   | Some c \<Rightarrow> levenshtein s (name c) \<le> suggest_limit s \<and>
       (\<forall>c'. levenshtein s (name c) \<le> levenshtein s (name c'))"
proof -
  have "best_of s [] None" by (simp add: best_of_def)
  then have "best_of s all_capabilities (foldl (better s) None all_capabilities)"
    using best_of_foldl by fastforce
  with all_capabilities_complete show ?thesis
    by (auto simp: suggest_def best_of_def split: option.splits if_splits)
qed

end
