(* ===== verification/Manifest.thy ===== *)
theory Manifest
  imports Capability
begin

text \<open>
  The capability tables of \<open>qqq.toml\<close> as \<open>qqq-cap/src/manifest.rs\<close> deserialises them, the grants a
  manifest declares, and the human-readable byte sizes of \<open>[limits]\<close>. The map of table names without
  a typed struct (\<open>other\<close>, values of the \<open>toml\<close> crate) grants nothing and is not part of the record.
\<close>

section \<open>Tables\<close>

record HttpCapability =
  http_server :: bool
  http_client :: "ustr list"
  http_cleartext :: bool
  http_redirects :: u8

datatype FsMode = ReadOnly | AppendOnly | ReadWrite

record FsCapability =
  fs_path :: ustr
  fs_mode :: FsMode
  fs_quota :: "ustr option"

record CryptoCapability =
  crypto_random :: bool
  crypto_hash :: "ustr list"
  crypto_hmac :: "ustr list"
  crypto_aead :: "ustr list"
  crypto_sign :: "ustr list"
  crypto_secrets :: "ustr list"

record ClockCapability =
  clock_wall :: bool
  clock_monotonic :: bool
  clock_timezone :: "ustr option"

record SqlCapability =
  sql_name :: ustr
  sql_driver :: ustr
  sql_host :: ustr
  sql_secret :: "ustr option"
  sql_execute :: bool

record KvCapability =
  kv_stores :: "ustr list"
  kv_write :: bool

datatype QueueDirection = Publish | Subscribe

record QueueCapability =
  queue_name :: ustr
  queue_direction :: QueueDirection

record AiCapability =
  ai_providers :: "ustr list"
  ai_models :: "ustr list"

record Capabilities =
  http :: "HttpCapability option"
  fs :: "FsCapability list"
  crypto :: "CryptoCapability option"
  clock :: "ClockCapability option"
  env_allow :: "ustr list option"
  dns_resolve :: "ustr list option"
  sql :: "SqlCapability list"
  queue :: "QueueCapability list"
  ai :: "AiCapability option"
  kv :: "KvCapability option"
  log_marker :: bool
  trace_marker :: bool
  secret_secrets :: "ustr list option"

text \<open>\<open>Capabilities::default()\<close>: every table absent.\<close>

definition no_tables :: Capabilities where
  "no_tables = \<lparr>http = None, fs = [], crypto = None, clock = None, env_allow = None,
     dns_resolve = None, sql = [], queue = [], ai = None, kv = None, log_marker = False,
     trace_marker = False, secret_secrets = None\<rparr>"

section \<open>File-system modes\<close>

definition can_read :: "FsMode \<Rightarrow> bool" where
  "can_read m \<longleftrightarrow> m \<in> {ReadOnly, ReadWrite}"

definition can_write :: "FsMode \<Rightarrow> bool" where
  "can_write m \<longleftrightarrow> m \<in> {AppendOnly, ReadWrite}"

definition can_watch :: "FsMode \<Rightarrow> bool" where
  "can_watch m \<longleftrightarrow> m \<in> {ReadOnly, ReadWrite}"

definition covers :: "FsMode \<Rightarrow> FsMode \<Rightarrow> bool" where
  "covers grant requested \<longleftrightarrow>
     (\<not> can_read requested \<or> can_read grant) \<and> (\<not> can_write requested \<or> can_write grant)"

section \<open>Declared capabilities\<close>

definition nonblank :: "ustr list \<Rightarrow> bool" where
  "nonblank ss = list_ex (\<lambda>s. trim s \<noteq> []) ss"

definition opt :: "bool \<Rightarrow> 'a \<Rightarrow> 'a list" where
  "opt b x = (if b then [x] else [])"

text \<open>The pushes of \<open>push_fs_grants\<close> and \<open>push_secret_grants\<close>, in order.\<close>

definition fs_grants :: "FsCapability list \<Rightarrow> Capability list" where
  "fs_grants entries = concat (map (\<lambda>e.
     if trim (fs_path e) = [] then []
     else (case fs_mode e of ReadOnly \<Rightarrow> [FsRead] | AppendOnly \<Rightarrow> [FsWrite] | ReadWrite \<Rightarrow> [FsRead, FsWrite])
       @ opt (can_watch (fs_mode e)) FsWatch) entries)"

definition secret_grants :: "Capabilities \<Rightarrow> Capability list" where
  "secret_grants m =
     opt (case crypto m of Some c \<Rightarrow> nonblank (crypto_secrets c) | None \<Rightarrow> False) SecretUse @
     opt (case secret_secrets m of Some ss \<Rightarrow> nonblank ss | None \<Rightarrow> False) SecretUse"

text \<open>Every \<open>push\<close> of \<open>declared_capabilities\<close>, in source order; the accumulator drops repeats.\<close>

definition pushes :: "Capabilities \<Rightarrow> Capability list" where
  "pushes m =
     (case http m of None \<Rightarrow> [] | Some h \<Rightarrow>
        opt (http_server h) HttpServer @ opt (nonblank (http_client h)) HttpClient) @
     fs_grants (fs m) @
     (case crypto m of None \<Rightarrow> [] | Some c \<Rightarrow>
        opt (crypto_random c) CryptoRandom @ opt (nonblank (crypto_hash c)) CryptoHash @
        opt (nonblank (crypto_hmac c)) CryptoHmac @ opt (nonblank (crypto_aead c)) CryptoAead @
        opt (nonblank (crypto_sign c)) CryptoSign) @
     secret_grants m @
     concat (map (\<lambda>db. SqlQuery # opt (sql_execute db) SqlExecute) (sql m)) @
     map (\<lambda>q. case queue_direction q of Publish \<Rightarrow> QueuePublish | Subscribe \<Rightarrow> QueueSubscribe) (queue m) @
     (case ai m of None \<Rightarrow> [] | Some a \<Rightarrow> opt (nonblank (ai_providers a @ ai_models a)) AiInfer) @
     (case kv m of None \<Rightarrow> [] | Some k \<Rightarrow>
        if nonblank (kv_stores k) then KvRead # opt (kv_write k) KvWrite else []) @
     opt (log_marker m) LogWrite @
     opt (trace_marker m) TraceWrite @
     (case clock m of None \<Rightarrow> [] | Some c \<Rightarrow>
        opt (clock_wall c) ClockWall @ opt (clock_monotonic c) ClockMonotonic) @
     opt (case env_allow m of Some a \<Rightarrow> nonblank a | None \<Rightarrow> False) EnvRead @
     opt (case dns_resolve m of Some r \<Rightarrow> nonblank r | None \<Rightarrow> False) DnsResolve"

definition push :: "Capability list \<Rightarrow> Capability \<Rightarrow> Capability list" where
  "push out c = (if c \<in> set out then out else out @ [c])"

definition declared_capabilities :: "Capabilities \<Rightarrow> Capability list" where
  "declared_capabilities m = sort (foldl push [] (pushes m))"

definition covert_channels :: "Capabilities \<Rightarrow> Capability list" where
  "covert_channels m = filter is_covert_channel (declared_capabilities m)"

section \<open>Byte sizes\<close>

text \<open>\<open>ByteSize::parse\<close>, with the description string of an \<open>Err\<close> on the left.\<close>

definition size_multiplier :: "ustr \<Rightarrow> u64 option" where
  "size_multiplier suffix =
     (if suffix \<in> {[], lit ''b''} then Some 1
      else if suffix \<in> {lit ''k'', lit ''kb'', lit ''kib''} then Some 1024
      else if suffix \<in> {lit ''m'', lit ''mb'', lit ''mib''} then Some (1024 * 1024)
      else if suffix \<in> {lit ''g'', lit ''gb'', lit ''gib''} then Some (1024 * 1024 * 1024)
      else if suffix \<in> {lit ''t'', lit ''tb'', lit ''tib''} then Some (1024 * 1024 * 1024 * 1024)
      else None)"

definition checked_mul :: "'a::len word \<Rightarrow> 'a word \<Rightarrow> 'a word option" where
  "checked_mul a b = (if unat a * unat b < 2 ^ LENGTH('a) then Some (a * b) else None)"

definition byte_size_parse :: "ustr \<Rightarrow> ustr + u64" where
  "byte_size_parse s =
     (let t = trim s in
      if t = [] then Inl (msg ''empty size'')
      else
        let num = takeWhile (\<lambda>c. is_ascii_digit c \<or> c = 95) t;
            suffix = dropWhile (\<lambda>c. is_ascii_digit c \<or> c = 95) t;
            digits = filter (\<lambda>c. c \<noteq> 95) num
        in if digits = [] then Inl (ticks t @ msg '' has no numeric part'')
           else (case parse_uint 64 digits of
                   None \<Rightarrow> Inl (ticks digits @ msg '' is not a valid number'')
                 | Some value \<Rightarrow>
                     (let sfx = map to_ascii_lowercase (trim suffix) in
                      case size_multiplier sfx of
                        None \<Rightarrow> Inl (msg ''unknown size suffix '' @ ticks sfx)
                      | Some mult \<Rightarrow>
                          (case checked_mul (of_nat value) mult of
                             None \<Rightarrow> Inl (ticks t @ msg '' overflows'')
                           | Some v \<Rightarrow> Inr v))))"

definition byte_size_display :: "u64 \<Rightarrow> ustr" where
  "byte_size_display b =
     (let n = unat b in
      if 1024 ^ 4 \<le> n \<and> n mod 1024 ^ 4 = 0 then show_nat (n div 1024 ^ 4) @ lit ''TiB''
      else if 1024 ^ 3 \<le> n \<and> n mod 1024 ^ 3 = 0 then show_nat (n div 1024 ^ 3) @ lit ''GiB''
      else if 1024 ^ 2 \<le> n \<and> n mod 1024 ^ 2 = 0 then show_nat (n div 1024 ^ 2) @ lit ''MiB''
      else if 1024 \<le> n \<and> n mod 1024 = 0 then show_nat (n div 1024) @ lit ''KiB''
      else show_nat n @ lit ''B'')"

section \<open>What a manifest grants\<close>

text \<open>The grant table read capability by capability.\<close>

primrec granted_by :: "Capabilities \<Rightarrow> Capability \<Rightarrow> bool" where
  "granted_by m ClockWall = (\<exists>c. clock m = Some c \<and> clock_wall c)"
| "granted_by m ClockMonotonic = (\<exists>c. clock m = Some c \<and> clock_monotonic c)"
| "granted_by m CryptoRandom = (\<exists>c. crypto m = Some c \<and> crypto_random c)"
| "granted_by m FsRead = (\<exists>e \<in> set (fs m). trim (fs_path e) \<noteq> [] \<and> can_read (fs_mode e))"
| "granted_by m FsWrite = (\<exists>e \<in> set (fs m). trim (fs_path e) \<noteq> [] \<and> can_write (fs_mode e))"
| "granted_by m FsWatch = (\<exists>e \<in> set (fs m). trim (fs_path e) \<noteq> [] \<and> can_read (fs_mode e))"
| "granted_by m HttpServer = (\<exists>h. http m = Some h \<and> http_server h)"
| "granted_by m HttpClient = (\<exists>h. http m = Some h \<and> nonblank (http_client h))"
| "granted_by m SqlQuery = (sql m \<noteq> [])"
| "granted_by m SqlExecute = (\<exists>d \<in> set (sql m). sql_execute d)"
| "granted_by m KvRead = (\<exists>k. kv m = Some k \<and> nonblank (kv_stores k))"
| "granted_by m KvWrite = (\<exists>k. kv m = Some k \<and> nonblank (kv_stores k) \<and> kv_write k)"
| "granted_by m QueuePublish = (\<exists>q \<in> set (queue m). queue_direction q = Publish)"
| "granted_by m QueueSubscribe = (\<exists>q \<in> set (queue m). queue_direction q = Subscribe)"
| "granted_by m CryptoHash = (\<exists>c. crypto m = Some c \<and> nonblank (crypto_hash c))"
| "granted_by m CryptoHmac = (\<exists>c. crypto m = Some c \<and> nonblank (crypto_hmac c))"
| "granted_by m CryptoAead = (\<exists>c. crypto m = Some c \<and> nonblank (crypto_aead c))"
| "granted_by m CryptoSign = (\<exists>c. crypto m = Some c \<and> nonblank (crypto_sign c))"
| "granted_by m SecretUse =
     ((\<exists>c. crypto m = Some c \<and> nonblank (crypto_secrets c)) \<or>
      (\<exists>ss. secret_secrets m = Some ss \<and> nonblank ss))"
| "granted_by m DnsResolve = (\<exists>r. dns_resolve m = Some r \<and> nonblank r)"
| "granted_by m LogWrite = log_marker m"
| "granted_by m TraceWrite = trace_marker m"
| "granted_by m EnvRead = (\<exists>a. env_allow m = Some a \<and> nonblank a)"
| "granted_by m AiInfer = (\<exists>a. ai m = Some a \<and> (nonblank (ai_providers a) \<or> nonblank (ai_models a)))"

lemma set_opt [simp]: "x \<in> set (opt b y) \<longleftrightarrow> b \<and> x = y"
  by (auto simp: opt_def)

lemma nonblank_append [simp]: "nonblank (a @ b) \<longleftrightarrow> nonblank a \<or> nonblank b"
  by (simp add: nonblank_def)

lemma set_fs_grants:
  "c \<in> set (fs_grants es) \<longleftrightarrow> (\<exists>e \<in> set es. trim (fs_path e) \<noteq> [] \<and>
     ((c = FsRead \<and> can_read (fs_mode e)) \<or> (c = FsWrite \<and> can_write (fs_mode e)) \<or>
      (c = FsWatch \<and> can_read (fs_mode e))))"
proof -
  have "c \<in> set ((case md of ReadOnly \<Rightarrow> [FsRead] | AppendOnly \<Rightarrow> [FsWrite] | ReadWrite \<Rightarrow> [FsRead, FsWrite])
      @ opt (can_watch md) FsWatch) \<longleftrightarrow>
      ((c = FsRead \<and> can_read md) \<or> (c = FsWrite \<and> can_write md) \<or> (c = FsWatch \<and> can_read md))" for md
    by (cases md) (auto simp: can_read_def can_write_def can_watch_def)
  then show ?thesis by (auto simp: fs_grants_def)
qed

lemma set_secret_grants:
  "c \<in> set (secret_grants m) \<longleftrightarrow> c = SecretUse \<and> granted_by m SecretUse"
  by (auto simp: secret_grants_def split: option.splits)

lemma set_sql_grants:
  "c \<in> set (concat (map (\<lambda>db. SqlQuery # opt (sql_execute db) SqlExecute) dbs)) \<longleftrightarrow>
     (c = SqlQuery \<and> dbs \<noteq> []) \<or> (c = SqlExecute \<and> (\<exists>d \<in> set dbs. sql_execute d))"
  by (auto simp: neq_Nil_conv)

lemma set_queue_grants:
  "c \<in> set (map (\<lambda>q. case queue_direction q of Publish \<Rightarrow> QueuePublish | Subscribe \<Rightarrow> QueueSubscribe) qs) \<longleftrightarrow>
     (c = QueuePublish \<and> (\<exists>q \<in> set qs. queue_direction q = Publish)) \<or>
     (c = QueueSubscribe \<and> (\<exists>q \<in> set qs. queue_direction q = Subscribe))"
  by (force split: QueueDirection.splits)

lemmas set_pushes_simps = set_fs_grants set_secret_grants set_sql_grants set_queue_grants

lemma set_pushes: "c \<in> set (pushes m) \<longleftrightarrow> granted_by m c"
  unfolding pushes_def set_append Un_iff set_pushes_simps set_opt
  by (cases c) (auto split: option.splits dest: sym [of "Some _"])

lemma set_push: "set (push out c) = insert c (set out)"
  by (auto simp: push_def)

lemma foldl_push: "distinct out \<Longrightarrow>
    distinct (foldl push out cs) \<and> set (foldl push out cs) = set out \<union> set cs"
  by (induction cs arbitrary: out) (auto simp: push_def)

lemma set_declared: "set (declared_capabilities m) = {c. granted_by m c}"
proof -
  have "set (declared_capabilities m) = set (pushes m)"
    using foldl_push [of "[]" "pushes m"] by (simp only: declared_capabilities_def) simp
  then show ?thesis by (simp only: set_eq_iff set_pushes mem_Collect_eq) simp
qed

lemma distinct_declared: "distinct (declared_capabilities m)"
  using foldl_push [of "[]" "pushes m"] by (simp add: declared_capabilities_def)

lemma sorted_declared: "sorted (declared_capabilities m)"
  by (simp add: declared_capabilities_def)

text \<open>What a manifest grants is decided table by table: a capability is declared exactly when its
  own table asks for it, each once and in the order of the enum, and an empty manifest grants nothing.
  In particular observing a directory follows reading it: \<open>fs.watch\<close> is declared exactly with
  \<open>fs.read\<close>, never by an append-only grant.\<close>

theorem declared_capabilities_spec:
  "sorted_wrt (<) (declared_capabilities m) \<and>
   (c \<in> set (declared_capabilities m) \<longleftrightarrow> granted_by m c) \<and>
   declared_capabilities no_tables = [] \<and>
   (FsWatch \<in> set (declared_capabilities m) \<longleftrightarrow> FsRead \<in> set (declared_capabilities m))"
proof -
  have "sorted_wrt (<) (declared_capabilities m)"
    using sorted_declared distinct_declared by (simp add: strict_sorted_iff)
  moreover have "declared_capabilities no_tables = []"
  proof -
    have "\<not> granted_by no_tables c" for c by (cases c) (simp_all add: no_tables_def)
    then have "set (declared_capabilities no_tables) = {}" unfolding set_declared by blast
    then show ?thesis by simp
  qed
  moreover have "granted_by m FsWatch \<longleftrightarrow> granted_by m FsRead" by simp
  ultimately show ?thesis unfolding set_declared by blast
qed

section \<open>Sizes print and parse\<close>

lemma takeWhile_digits_append:
  "list_all is_ascii_digit ds \<Longrightarrow> suf \<noteq> [] \<Longrightarrow> \<not> (is_ascii_digit (hd suf) \<or> hd suf = 95) \<Longrightarrow>
     takeWhile (\<lambda>c. is_ascii_digit c \<or> c = 95) (ds @ suf) = ds \<and>
     dropWhile (\<lambda>c. is_ascii_digit c \<or> c = 95) (ds @ suf) = suf"
  by (induction ds) (auto simp: neq_Nil_conv)

lemma byte_size_parse_unit:
  assumes "suf \<noteq> []" "\<not> (is_ascii_digit (hd suf) \<or> hd suf = 95)"
    and "\<not> is_whitespace (hd suf)" "\<not> is_whitespace (last suf)"
    and "size_multiplier (map to_ascii_lowercase suf) = Some mult"
    and "k < 2 ^ 64"
    and "checked_mul (of_nat k) mult = Some b"
  shows "byte_size_parse (show_nat k @ suf) = Inr b"
proof -
  let ?t = "show_nat k @ suf"
  have t: "trim ?t = ?t" using assms show_nat_ends [of k] by (intro trim_id) simp_all
  have suf: "trim suf = suf" using assms by (intro trim_id) simp_all
  have "filter (\<lambda>c. c \<noteq> 95) (show_nat k) = show_nat k"
    using show_nat_digits [of k] by (auto simp: filter_id_conv list_all_iff is_ascii_digit_def)
  with assms t suf takeWhile_digits_append [OF show_nat_digits assms(1,2), of k]
  show ?thesis by (simp add: byte_size_parse_def)
qed

lemma unat_div_lt: "unat (b :: u64) div m < 2 ^ 64"
  using le_less_trans [OF div_le_dividend [of "unat b" m] unat_lt_len [of b]] by simp

lemma of_nat_div_mult:
  assumes "unat (b :: u64) mod m = 0" "unat (mw :: u64) = m"
  shows "checked_mul (of_nat (unat b div m)) mw = Some b"
proof -
  have lt: "unat b div m < 2 ^ 64" by (rule unat_div_lt)
  then have u: "unat (of_nat (unat b div m) :: u64) = unat b div m"
    by (simp add: unat_of_nat)
  have "unat b div m * m = unat b" using assms(1) by (metis add.right_neutral div_mult_mod_eq)
  then have prod: "unat (of_nat (unat b div m) :: u64) * unat mw = unat b" using u assms(2) by simp
  then have "of_nat (unat b div m) * mw = b"
    using unat_lt_len [of b] by (simp add: word_unat_eq_iff unat_word_ariths)
  with prod show ?thesis using unat_lt_len [of b] by (simp add: checked_mul_def)
qed

lemma byte_size_parse_scaled:
  assumes "unat b mod m = 0" "unat mw = m"
    and "suf \<noteq> []" "\<not> (is_ascii_digit (hd suf) \<or> hd suf = 95)"
    and "\<not> is_whitespace (hd suf)" "\<not> is_whitespace (last suf)"
    and "size_multiplier (map to_ascii_lowercase suf) = Some mw"
  shows "byte_size_parse (show_nat (unat b div m) @ suf) = Inr b"
proof -
  show ?thesis
    by (rule byte_size_parse_unit [OF assms(3-7) unat_div_lt of_nat_div_mult [OF assms(1,2)]])
qed

lemmas suffix_defs = to_ascii_lowercase_def is_ascii_digit_def is_whitespace_def

lemma suffix_multipliers:
  "size_multiplier (map to_ascii_lowercase (lit ''TiB'')) = Some (1024 * 1024 * 1024 * 1024)"
  "size_multiplier (map to_ascii_lowercase (lit ''GiB'')) = Some (1024 * 1024 * 1024)"
  "size_multiplier (map to_ascii_lowercase (lit ''MiB'')) = Some (1024 * 1024)"
  "size_multiplier (map to_ascii_lowercase (lit ''KiB'')) = Some 1024"
  "size_multiplier (map to_ascii_lowercase (lit ''B'')) = Some 1"
  by (simp_all add: size_multiplier_def to_ascii_lowercase_def)

lemma byte_size_units:
  "unat b mod 1024 ^ 4 = 0 \<Longrightarrow> byte_size_parse (show_nat (unat b div 1024 ^ 4) @ lit ''TiB'') = Inr b"
  "unat b mod 1024 ^ 3 = 0 \<Longrightarrow> byte_size_parse (show_nat (unat b div 1024 ^ 3) @ lit ''GiB'') = Inr b"
  "unat b mod 1024 ^ 2 = 0 \<Longrightarrow> byte_size_parse (show_nat (unat b div 1024 ^ 2) @ lit ''MiB'') = Inr b"
  "unat b mod 1024 = 0 \<Longrightarrow> byte_size_parse (show_nat (unat b div 1024) @ lit ''KiB'') = Inr b"
  "unat b mod 1 = 0 \<Longrightarrow> byte_size_parse (show_nat (unat b div 1) @ lit ''B'') = Inr b"
  by (erule byte_size_parse_scaled [OF _ _ _ _ _ _ suffix_multipliers(1)]
      byte_size_parse_scaled [OF _ _ _ _ _ _ suffix_multipliers(2)]
      byte_size_parse_scaled [OF _ _ _ _ _ _ suffix_multipliers(3)]
      byte_size_parse_scaled [OF _ _ _ _ _ _ suffix_multipliers(4)]
      byte_size_parse_scaled [OF _ _ _ _ _ _ suffix_multipliers(5)];
      simp add: suffix_defs; fail)+

text \<open>Every byte size survives being printed and parsed, for the whole \<open>u64\<close> range: the printer's
  choice of unit never rounds and the parser's multiplication never overflows on printed text.\<close>

theorem byte_size_roundtrip: "byte_size_parse (byte_size_display b) = Inr b"
proof -
  have "byte_size_parse (show_nat (unat b) @ lit ''B'') = Inr b"
    using byte_size_units(5) [of b] by (simp only: div_by_1 mod_by_1)
  then show ?thesis
    using byte_size_units(1-4) [of b] unfolding byte_size_display_def Let_def by presburger
qed

end
