(* ===== verification/Limits.thy ===== *)
theory Limits
  imports Manifest
begin

text \<open>
  The \<open>[limits]\<close> table of \<open>qqq-cap/src/manifest.rs\<close>: its record and defaults, the bounds the host can
  enforce (module \<open>limit_bounds\<close>), and \<open>validate_limits\<close>, which checks the fields in source order and
  reports the first one out of range.
\<close>

record Limits =
  memory :: ustr
  fuel :: u64
  epoch_deadline_ms :: u64
  max_instances :: u32
  max_open_handles :: u32
  max_subrequests :: u32
  max_poll_per_tick :: u32

definition limits_default :: Limits where
  "limits_default = \<lparr>memory = lit ''128MiB'', fuel = 50000000, epoch_deadline_ms = 5000,
     max_instances = 200, max_open_handles = 256, max_subrequests = 32, max_poll_per_tick = 10\<rparr>"

definition MEMORY_MIN_BYTES :: u64 where "MEMORY_MIN_BYTES = 64 * 1024"
definition MEMORY_MAX_BYTES :: u64 where "MEMORY_MAX_BYTES = 16 * 1024 * 1024 * 1024"
definition FUEL_MIN :: u64 where "FUEL_MIN = 1000"
definition FUEL_MAX :: u64 where "FUEL_MAX = 1000000000000000"
definition EPOCH_MIN_MS :: u64 where "EPOCH_MIN_MS = 1"
definition EPOCH_MAX_MS :: u64 where "EPOCH_MAX_MS = 86400000"
definition INSTANCES_MAX :: u32 where "INSTANCES_MAX = 100000"
definition HANDLES_MAX :: u32 where "HANDLES_MAX = 100000"
definition SUBREQUESTS_MAX :: u32 where "SUBREQUESTS_MAX = 10000"
definition POLL_MAX :: u32 where "POLL_MAX = 10000"

lemmas bound_defs = MEMORY_MIN_BYTES_def MEMORY_MAX_BYTES_def FUEL_MIN_def FUEL_MAX_def EPOCH_MIN_MS_def
  EPOCH_MAX_MS_def INSTANCES_MAX_def HANDLES_MAX_def SUBREQUESTS_MAX_def POLL_MAX_def

datatype ManifestError =
    Syntax ustr "nat option"
  | MissingField ustr
  | InvalidField ustr ustr
  | OutOfRange ustr ustr ustr
  | UnknownFsMode ustr
  | InvalidPath ustr ustr

definition check_range :: "ustr \<Rightarrow> 'a::len word \<Rightarrow> 'a word \<Rightarrow> 'a word \<Rightarrow> ManifestError + unit" where
  "check_range field v mn mx =
     (if v < mn \<or> mx < v
      then Inl (OutOfRange field (show_nat (unat v)) (show_nat (unat mn) @ lit ''..='' @ show_nat (unat mx)))
      else Inr ())"

text \<open>The \<open>?\<close> operator on a check that returns nothing.\<close>

definition andalso :: "'e + unit \<Rightarrow> 'e + 'b \<Rightarrow> 'e + 'b" where
  "andalso r k = (case r of Inl e \<Rightarrow> Inl e | Inr _ \<Rightarrow> k)"

definition validate_limits :: "Limits \<Rightarrow> ManifestError + unit" where
  "validate_limits l =
     (case byte_size_parse (memory l) of
        Inl why \<Rightarrow> Inl (InvalidField (msg ''limits.memory'') why)
      | Inr mem \<Rightarrow>
          andalso (check_range (msg ''limits.memory'') mem MEMORY_MIN_BYTES MEMORY_MAX_BYTES)
         (andalso (check_range (msg ''limits.fuel'') (fuel l) FUEL_MIN FUEL_MAX)
         (andalso (check_range (msg ''limits.epoch_deadline_ms'') (epoch_deadline_ms l) EPOCH_MIN_MS EPOCH_MAX_MS)
         (andalso (check_range (msg ''limits.max_instances'') (max_instances l) 1 INSTANCES_MAX)
         (andalso (check_range (msg ''limits.max_open_handles'') (max_open_handles l) 0 HANDLES_MAX)
         (andalso (check_range (msg ''limits.max_subrequests'') (max_subrequests l) 0 SUBREQUESTS_MAX)
         (andalso (check_range (msg ''limits.max_poll_per_tick'') (max_poll_per_tick l) 1 POLL_MAX)
           (Inr ()))))))))"

lemma check_range_Inr: "check_range f v mn mx = Inr u \<longleftrightarrow> mn \<le> v \<and> v \<le> mx"
  by (auto simp: check_range_def)

lemma andalso_Inr: "andalso r k = Inr b \<longleftrightarrow> r = Inr () \<and> k = Inr b"
  by (cases r) (auto simp: andalso_def)

definition limits_ok :: "Limits \<Rightarrow> u64 \<Rightarrow> bool" where
  "limits_ok l mem \<longleftrightarrow> byte_size_parse (memory l) = Inr mem \<and>
     65536 \<le> unat mem \<and> unat mem \<le> 2 ^ 34 \<and>
     1000 \<le> unat (fuel l) \<and> unat (fuel l) \<le> 10 ^ 15 \<and>
     1 \<le> unat (epoch_deadline_ms l) \<and> unat (epoch_deadline_ms l) \<le> 86400000 \<and>
     1 \<le> unat (max_instances l) \<and> unat (max_instances l) \<le> 100000 \<and>
     unat (max_open_handles l) \<le> 100000 \<and> unat (max_subrequests l) \<le> 10000 \<and>
     1 \<le> unat (max_poll_per_tick l) \<and> unat (max_poll_per_tick l) \<le> 10000"

lemma validate_limits_iff: "validate_limits l = Inr u \<longleftrightarrow> (\<exists>mem. limits_ok l mem)"
  unfolding validate_limits_def limits_ok_def
  by (auto simp: check_range_Inr andalso_Inr bound_defs word_le_nat_alt split: sum.splits)

end
