(* ===== verification/Admission.thy ===== *)
theory Admission
  imports Limits Errors
begin

text \<open>
  Pool sizing of \<open>qqq-host/src/config.rs\<close> (\<open>PoolShape\<close>, \<open>StoreLimits\<close>) and the admission check of
  \<open>qqq-host/src/admission.rs\<close>. All totals saturate, as in the source; the theorem at the end shows that for
  limits a manifest may declare no total ever does, so admission decides by exact arithmetic.
\<close>

section \<open>Configuration\<close>

record EngineConfig =
  deterministic :: bool
  pooling :: bool
  engine_max_instances :: u32
  debug_info :: bool

definition MAX_MEMORIES_PER_COMPONENT :: u32 where "MAX_MEMORIES_PER_COMPONENT = 8"
definition MAX_TABLES_PER_COMPONENT :: u32 where "MAX_TABLES_PER_COMPONENT = 8"
definition ASYNC_STACK_BYTES :: u64 where "ASYNC_STACK_BYTES = 2 * 1024 * 1024"
definition TABLE_BYTES_PER_ELEMENT :: u64 where "TABLE_BYTES_PER_ELEMENT = 8"
definition INSTANCE_METADATA_ESTIMATE_BYTES :: u64 where "INSTANCE_METADATA_ESTIMATE_BYTES = 64 * 1024"
definition MEMORY_GUARD_BYTES :: u64 where "MEMORY_GUARD_BYTES = 2 * 1024 * 1024 * 1024"
definition MAX_TABLE_ELEMENTS :: u32 where "MAX_TABLE_ELEMENTS = 20000"
definition MAX_INNER_INSTANCES :: nat where "MAX_INNER_INSTANCES = 64"

record PoolShape =
  requested_instances :: u32
  instances :: u32
  memories_per_instance :: u32
  tables_per_instance :: u32
  core_instances_per_instance :: u32
  memory_ceiling_bytes :: u64
  table_elements :: u32

text \<open>The error for an unparsable \<open>limits.memory\<close>, built alike by the two \<open>from_manifest\<close> functions; the
  double quotes of its remediation are code point 34.\<close>

definition dquoted :: "string \<Rightarrow> ustr" where
  "dquoted s = 34 # msg s @ [34]"

definition memory_error :: "Limits \<Rightarrow> ustr \<Rightarrow> Error" where
  "memory_error l why =
     with_remediation (msg ''set `limits.memory` to a size such as '' @ dquoted ''128MiB'' @ msg '', '' @
         dquoted ''1GiB'' @ msg '' or '' @ dquoted ''65536'')
       (with_context (msg ''value'') (memory l)
         (error_new LimitOutOfRange (msg ''limits.memory is not a valid size: '' @ why)))"

definition pool_shape_from_manifest :: "Limits \<Rightarrow> EngineConfig \<Rightarrow> Error + PoolShape" where
  "pool_shape_from_manifest l cfg =
     (case byte_size_parse (memory l) of
        Inl why \<Rightarrow> Inl (memory_error l why)
      | Inr mem \<Rightarrow> Inr
          \<lparr>requested_instances = max_instances l,
           instances = min (max_instances l) (engine_max_instances cfg),
           memories_per_instance = MAX_MEMORIES_PER_COMPONENT,
           tables_per_instance = MAX_TABLES_PER_COMPONENT,
           core_instances_per_instance =
             (if MAX_INNER_INSTANCES < 2 ^ 32 then of_nat MAX_INNER_INSTANCES else umax),
           memory_ceiling_bytes = mem,
           table_elements = MAX_TABLE_ELEMENTS\<rparr>)"

definition total_memories :: "PoolShape \<Rightarrow> u32" where
  "total_memories s = sat_mul (instances s) (memories_per_instance s)"

definition total_tables :: "PoolShape \<Rightarrow> u32" where
  "total_tables s = sat_mul (instances s) (tables_per_instance s)"

definition total_core_instances :: "PoolShape \<Rightarrow> u32" where
  "total_core_instances s = sat_mul (instances s) (core_instances_per_instance s)"

definition rss_per_instance_bytes :: "PoolShape \<Rightarrow> u64" where
  "rss_per_instance_bytes s =
     (let tables = sat_mul (sat_mul (ucast (tables_per_instance s)) (ucast (table_elements s)))
                     TABLE_BYTES_PER_ELEMENT
      in sat_add (sat_add (sat_add (memory_ceiling_bytes s) ASYNC_STACK_BYTES) tables)
           INSTANCE_METADATA_ESTIMATE_BYTES)"

definition reserved_rss_bytes :: "PoolShape \<Rightarrow> u64" where
  "reserved_rss_bytes s = sat_mul (ucast (instances s)) (rss_per_instance_bytes s)"

definition virtual_reservation_bytes :: "PoolShape \<Rightarrow> u64" where
  "virtual_reservation_bytes s =
     (let per_slot = sat_add (memory_ceiling_bytes s) MEMORY_GUARD_BYTES
      in sat_mul (ucast (total_memories s)) per_slot)"

record StoreLimits =
  memory_bytes :: u64
  store_fuel :: u64
  store_epoch_deadline_ms :: u64
  store_max_open_handles :: u32
  store_max_subrequests :: u32

definition store_limits_from_manifest :: "Limits \<Rightarrow> Error + StoreLimits" where
  "store_limits_from_manifest l =
     (case byte_size_parse (memory l) of
        Inl why \<Rightarrow> Inl (memory_error l why)
      | Inr mem \<Rightarrow> Inr
          \<lparr>memory_bytes = mem, store_fuel = fuel l, store_epoch_deadline_ms = epoch_deadline_ms l,
           store_max_open_handles = max_open_handles l, store_max_subrequests = max_subrequests l\<rparr>)"

section \<open>Capacity and refusals\<close>

record HostCapacity =
  memory_budget_bytes :: u64
  host_max_instances :: u64
  resident_bytes :: u64
  max_virtual_reservation_bytes :: u64

definition host_capacity_default :: HostCapacity where
  "host_capacity_default = \<lparr>memory_budget_bytes = 2 * 1024 * 1024 * 1024, host_max_instances = 64,
     resident_bytes = 128 * 1024 * 1024, max_virtual_reservation_bytes = umax\<rparr>"

definition available_bytes :: "HostCapacity \<Rightarrow> u64" where
  "available_bytes c = sat_sub (memory_budget_bytes c) (resident_bytes c)"

definition max_memory_per_instance :: "HostCapacity \<Rightarrow> u64" where
  "max_memory_per_instance c =
     (let n = (if host_max_instances c = 0 then 1 else host_max_instances c) in available_bytes c div n)"

datatype Refusal =
    MemoryReservation u64 u64
  | TooManyInstances u64 u64
  | VirtualReservation u64 u64
  | DegenerateLimit ustr

fun refusal_as_str :: "Refusal \<Rightarrow> ustr" where
  "refusal_as_str (MemoryReservation r a) = msg ''memory_reservation''"
| "refusal_as_str (TooManyInstances r h) = msg ''too_many_instances''"
| "refusal_as_str (VirtualReservation r a) = msg ''virtual_reservation''"
| "refusal_as_str (DegenerateLimit f) = msg ''degenerate_limit''"

text \<open>\<open>to_string\<close> of an unsigned integer.\<close>

definition dec :: "'a::len word \<Rightarrow> ustr" where
  "dec w = show_nat (unat w)"

definition over_context :: "u64 \<Rightarrow> u64 \<Rightarrow> (ustr \<times> ustr) list" where
  "over_context r a = [(msg ''required_bytes'', dec r), (msg ''available_bytes'', dec a),
     (msg ''overcommit_bytes'', dec (sat_sub r a))]"

fun refusal_context :: "Refusal \<Rightarrow> (ustr \<times> ustr) list" where
  "refusal_context (MemoryReservation r a) = over_context r a"
| "refusal_context (VirtualReservation r a) = over_context r a"
| "refusal_context (TooManyInstances r h) = [(msg ''requested'', dec r), (msg ''host_max'', dec h)]"
| "refusal_context (DegenerateLimit f) = [(msg ''field'', f)]"

text \<open>The largest \<open>limits.memory\<close> the remediation of a memory refusal names.\<close>

definition fitting :: "HostCapacity \<Rightarrow> PoolShape \<Rightarrow> u64" where
  "fitting c s =
     (let overhead = sat_sub (rss_per_instance_bytes s) (memory_ceiling_bytes s)
      in sat_sub (available_bytes c div (max (ucast (instances s)) 1)) overhead)"

definition shape_note :: "PoolShape \<Rightarrow> ustr" where
  "shape_note s = msg ''(this shape reserves '' @ dec (rss_per_instance_bytes s) @
     msg '' bytes per instance across '' @ dec (instances s) @ msg '' instance(s))''"

fun refusal_remediation :: "Refusal \<Rightarrow> HostCapacity \<Rightarrow> PoolShape \<Rightarrow> ustr" where
  "refusal_remediation (MemoryReservation r a) c s =
     (if fitting c s = 0 then
        msg ''lower `limits.max_instances` '' @ shape_note s @
        msg '', or raise the host's memory budget: no positive memory limit fits this host.''
      else
        msg ''lower `limits.memory` to '' @ dec (fitting c s) @ msg '' bytes or fewer '' @ shape_note s @
        msg '', lower `limits.max_instances`, or raise the host's memory budget.'')"
| "refusal_remediation (TooManyInstances r h) c s =
     msg ''lower `limits.max_instances` to '' @ dec h @
     msg '' or fewer, or raise the host's `max_instances`. Either ceiling can refuse: the host admission capacity and the engine config's `max_instances` (which sizes the pool) '' @ 8212 #
     msg '' the effective limit is the smaller of the two. The pooling allocator reserves for the count, so a larger number costs address space whether or not the instances exist.''"
| "refusal_remediation (VirtualReservation r a) c s =
     msg ''lower `limits.memory`, lower `limits.max_instances`, or raise the host's `max_virtual_reservation_bytes`. The pool maps every slot up front: this refusal is about address space, and the machine may still have memory free.''"
| "refusal_remediation (DegenerateLimit f) c s =
     msg ''raise '' @ ticks f @
     msg '' above zero. A limit of zero is not a tight limit, it is a guest that traps before its first instruction executes''"

fun refusal_message :: "Refusal \<Rightarrow> ustr" where
  "refusal_message (MemoryReservation r a) = msg ''the component's memory reservation exceeds the host's capacity''"
| "refusal_message (TooManyInstances r h) = msg ''the component asks for more instances than this host runs''"
| "refusal_message (VirtualReservation r a) = msg ''the component's virtual-address reservation exceeds the host's cap''"
| "refusal_message (DegenerateLimit f) = msg ''the component declares a limit that traps the guest before it runs''"

definition refuse :: "Refusal \<Rightarrow> HostCapacity \<Rightarrow> PoolShape \<Rightarrow> Error" where
  "refuse r c s =
     with_remediation (refusal_remediation r c s)
       (with_context (msg ''refusal'') (refusal_as_str r)
         (foldl (\<lambda>e (k, v). with_context k v e) (error_new LimitOutOfRange (refusal_message r))
           (refusal_context r)))"

section \<open>Admission\<close>

record Admitted =
  per_instance_bytes :: u64
  reserved_bytes :: u64
  admitted_instances :: u64
  admitted_virtual_bytes :: u64

text \<open>The refusal the checks arrive at, or the receipt. \<open>admit\<close> turns the refusal into its error.\<close>

definition decide :: "StoreLimits \<Rightarrow> PoolShape \<Rightarrow> HostCapacity \<Rightarrow> Refusal + Admitted" where
  "decide l s c =
     (if available_bytes c = 0 then Inl (MemoryReservation (reserved_rss_bytes s) 0)
      else if store_fuel l = 0 then Inl (DegenerateLimit (msg ''limits.fuel''))
      else if store_epoch_deadline_ms l = 0 then Inl (DegenerateLimit (msg ''limits.epoch_deadline_ms''))
      else if memory_bytes l = 0 then Inl (DegenerateLimit (msg ''limits.memory''))
      else
        let requested = ucast (requested_instances s); clamped = ucast (instances s)
        in if host_max_instances c < requested \<or> clamped < requested
           then Inl (TooManyInstances requested (min clamped (host_max_instances c)))
           else if available_bytes c < reserved_rss_bytes s
           then Inl (MemoryReservation (reserved_rss_bytes s) (available_bytes c))
           else if max_virtual_reservation_bytes c < virtual_reservation_bytes s
           then Inl (VirtualReservation (virtual_reservation_bytes s) (max_virtual_reservation_bytes c))
           else Inr \<lparr>per_instance_bytes = memory_bytes l, reserved_bytes = reserved_rss_bytes s,
                     admitted_instances = clamped, admitted_virtual_bytes = virtual_reservation_bytes s\<rparr>)"

definition admit :: "StoreLimits \<Rightarrow> PoolShape \<Rightarrow> HostCapacity \<Rightarrow> Error + Admitted" where
  "admit l s c = (case decide l s c of Inl r \<Rightarrow> Inl (refuse r c s) | Inr a \<Rightarrow> Inr a)"

lemma code_context_fold: "code (foldl (\<lambda>e (k, v). with_context k v e) e kvs) = code e"
  by (induction kvs arbitrary: e) (auto split: prod.splits)

lemma code_refuse [simp]: "code (refuse r c s) = LimitOutOfRange"
  by (simp add: refuse_def code_context_fold)

section \<open>Exact arithmetic for declared limits\<close>

text \<open>What a component of \<open>n\<close> instances with a ceiling of \<open>m\<close> bytes needs, in unbounded arithmetic.\<close>

definition rss_need :: "nat \<Rightarrow> nat" where
  "rss_need m = m + 2 * 1024 * 1024 + 8 * 20000 * 8 + 64 * 1024"

definition virtual_need :: "nat \<Rightarrow> nat" where
  "virtual_need m = 8 * (m + 2 * 1024 * 1024 * 1024)"

lemmas pool_constants = MAX_MEMORIES_PER_COMPONENT_def MAX_TABLES_PER_COMPONENT_def ASYNC_STACK_BYTES_def
  TABLE_BYTES_PER_ELEMENT_def INSTANCE_METADATA_ESTIMATE_BYTES_def MEMORY_GUARD_BYTES_def
  MAX_TABLE_ELEMENTS_def MAX_INNER_INSTANCES_def

lemma unat_ucast_64 [simp]: "unat (ucast (w :: u32) :: u64) = unat w"
  using unat_lt_len [of w] by (simp add: unsigned_ucast_eq take_bit_nat_eq_self)

lemma unat_min: "unat (min a b :: 'a::len word) = min (unat a) (unat b)"
  by (simp add: min_def word_le_nat_alt)

definition declared_shape :: "Limits \<Rightarrow> u64 \<Rightarrow> EngineConfig \<Rightarrow> PoolShape" where
  "declared_shape l mem cfg =
     \<lparr>requested_instances = max_instances l, instances = min (max_instances l) (engine_max_instances cfg),
      memories_per_instance = 8, tables_per_instance = 8, core_instances_per_instance = 64,
      memory_ceiling_bytes = mem, table_elements = 20000\<rparr>"

lemma shape_of_ok: "limits_ok l mem \<Longrightarrow> pool_shape_from_manifest l cfg = Inr (declared_shape l mem cfg)"
  by (simp add: pool_shape_from_manifest_def limits_ok_def declared_shape_def pool_constants)

lemma rss_exact: "limits_ok l mem \<Longrightarrow> unat (rss_per_instance_bytes (declared_shape l mem cfg)) = rss_need (unat mem)"
  by (simp add: rss_per_instance_bytes_def declared_shape_def rss_need_def pool_constants limits_ok_def
      unat_sat_add unat_sat_mul)

lemma instances_le: "limits_ok l mem \<Longrightarrow> unat (instances (declared_shape l mem cfg)) \<le> 100000"
  by (auto simp: declared_shape_def limits_ok_def unat_min min_le_iff_disj)

lemma reserved_exact:
  assumes ok: "limits_ok l mem"
  shows "unat (reserved_rss_bytes (declared_shape l mem cfg)) =
    unat (instances (declared_shape l mem cfg)) * rss_need (unat mem)"
proof -
  have "rss_need (unat mem) \<le> rss_need (2 ^ 34)" using ok by (simp add: rss_need_def limits_ok_def)
  then have "unat (instances (declared_shape l mem cfg)) * rss_need (unat mem) \<le> 100000 * rss_need (2 ^ 34)"
    using instances_le [OF ok] by (rule mult_le_mono [rotated])
  also have "\<dots> < 2 ^ 64 - 1" by (simp add: rss_need_def)
  finally show ?thesis by (simp add: reserved_rss_bytes_def unat_sat_mul rss_exact [OF ok])
qed

lemma virtual_exact:
  assumes ok: "limits_ok l mem"
  shows "unat (virtual_reservation_bytes (declared_shape l mem cfg)) =
    unat (instances (declared_shape l mem cfg)) * virtual_need (unat mem)"
proof -
  let ?s = "declared_shape l mem cfg" and ?n = "unat (instances (declared_shape l mem cfg))"
  have n: "?n \<le> 100000" by (rule instances_le [OF ok])
  have "unat (total_memories ?s) = ?n * 8"
    using n by (simp add: total_memories_def unat_sat_mul declared_shape_def)
  moreover have "unat (sat_add mem MEMORY_GUARD_BYTES) = unat mem + 2 ^ 31"
    using ok by (simp add: unat_sat_add pool_constants limits_ok_def)
  moreover have "?n * 8 * (unat mem + 2 ^ 31) \<le> 100000 * 8 * (2 ^ 34 + 2 ^ 31)"
    using n ok by (intro mult_le_mono) (simp_all add: limits_ok_def)
  ultimately show ?thesis
    by (simp add: virtual_reservation_bytes_def unat_sat_mul virtual_need_def declared_shape_def)
qed

text \<open>C36. For every manifest whose limits pass validation, admission is exact and complete: the store limits
  and the pool shape can be computed, no total saturates, and the component is admitted exactly when the
  declared instance count is within both host ceilings and the unbounded products of the reservation fit
  the memory budget (less the resident baseline) and the virtual cap. The receipt carries the declared
  instance count and those products; a refusal carries \<open>QQQ-2005\<close>.\<close>

theorem admission_exact:
  "case validate_limits l of
     Inl _ \<Rightarrow> True
   | Inr _ \<Rightarrow>
       (case (store_limits_from_manifest l, pool_shape_from_manifest l cfg) of
          (Inr sl, Inr sh) \<Rightarrow>
            (let n = unat (max_instances l); m = unat (memory_bytes sl);
                 fits = (n \<le> unat (engine_max_instances cfg) \<and> n \<le> unat (host_max_instances c) \<and>
                   n * rss_need m \<le> unat (memory_budget_bytes c) - unat (resident_bytes c) \<and>
                   n * virtual_need m \<le> unat (max_virtual_reservation_bytes c))
             in case admit sl sh c of
                  Inr a \<Rightarrow> fits \<and> unat (admitted_instances a) = n \<and> unat (reserved_bytes a) = n * rss_need m \<and>
                    unat (admitted_virtual_bytes a) = n * virtual_need m
                | Inl e \<Rightarrow> \<not> fits \<and> code e = LimitOutOfRange)
        | _ \<Rightarrow> False)"
proof (cases "validate_limits l")
  case (Inr u)
  then obtain mem where ok: "limits_ok l mem" by (auto simp: validate_limits_iff)
  let ?s = "declared_shape l mem cfg"
  have inst: "unat (instances ?s) = min (unat (max_instances l)) (unat (engine_max_instances cfg))"
    by (simp add: declared_shape_def unat_min)
  have avail: "unat (available_bytes c) = unat (memory_budget_bytes c) - unat (resident_bytes c)"
    by (simp add: available_bytes_def unat_sat_sub)
  have pos: "0 < unat (max_instances l) * rss_need (unat mem)" using ok by (simp add: limits_ok_def rss_need_def)
  have nz: "fuel l \<noteq> 0" "epoch_deadline_ms l \<noteq> 0" "mem \<noteq> 0" using ok by (auto simp: limits_ok_def)
  have sl: "store_limits_from_manifest l = Inr \<lparr>memory_bytes = mem, store_fuel = fuel l,
      store_epoch_deadline_ms = epoch_deadline_ms l, store_max_open_handles = max_open_handles l,
      store_max_subrequests = max_subrequests l\<rparr>"
    using ok by (simp add: store_limits_from_manifest_def limits_ok_def)
  have req: "requested_instances ?s = max_instances l" by (simp add: declared_shape_def)
  show ?thesis
    unfolding Inr sl shape_of_ok [OF ok]
    using nz pos
    by (auto simp: admit_def decide_def Let_def word_less_nat_alt word_unat_eq_iff avail req inst
        reserved_exact [OF ok] virtual_exact [OF ok] split: if_splits)
qed simp

end
