(* ===== verification/WsFrame.thy ===== *)
theory WsFrame
  imports Bytes Utf8
begin

text \<open>
  WebSocket frames of \<open>qqq-serve/src/ws_frame.rs\<close> (RFC 6455): opcodes, frame errors and their close codes,
  the server-side decoder with its per-connection cap, the close-payload check and the encoder. Offsets
  are natural numbers: the decoder adds to them only what is within the cap of 16 MiB. The decoder's
  \<open>assert!\<close> on the cap is a panic, the result \<open>None\<close>.
\<close>

unbundle bit_operations_syntax

section \<open>Opcodes and errors\<close>

datatype Opcode = Continuation | Text | Binary | Close | Ping | Pong

fun opcode_as_u8 :: "Opcode \<Rightarrow> u8" where
  "opcode_as_u8 Continuation = 0x0"
| "opcode_as_u8 Text = 0x1"
| "opcode_as_u8 Binary = 0x2"
| "opcode_as_u8 Close = 0x8"
| "opcode_as_u8 Ping = 0x9"
| "opcode_as_u8 Pong = 0xA"

definition opcode_from_u8 :: "u8 \<Rightarrow> Opcode option" where
  "opcode_from_u8 v =
     (if v = 0x0 then Some Continuation else if v = 0x1 then Some Text else if v = 0x2 then Some Binary
      else if v = 0x8 then Some Close else if v = 0x9 then Some Ping else if v = 0xA then Some Pong else None)"

definition is_control :: "Opcode \<Rightarrow> bool" where
  "is_control op \<longleftrightarrow> opcode_as_u8 op AND 0x8 \<noteq> 0"

fun opcode_debug :: "Opcode \<Rightarrow> ustr" where
  "opcode_debug Continuation = msg ''Continuation''"
| "opcode_debug Text = msg ''Text''"
| "opcode_debug Binary = msg ''Binary''"
| "opcode_debug Close = msg ''Close''"
| "opcode_debug Ping = msg ''Ping''"
| "opcode_debug Pong = msg ''Pong''"

datatype FrameError =
    Truncated nat nat
  | ReservedOpcode u8
  | ReservedBits u8
  | UnmaskedClientFrame
  | InvalidControlFrame ustr
  | NonMinimalLength u64
  | UnexpectedContinuation ustr
  | InvalidClosePayload ustr
  | TooLarge u64 u64
  | TooManyFragments u32

fun error_close_code :: "FrameError \<Rightarrow> u16" where
  "error_close_code (InvalidClosePayload r) = 1007"
| "error_close_code (TooLarge l g) = 1009"
| "error_close_code (TooManyFragments g) = 1009"
| "error_close_code _ = 1002"

fun refused_bytes :: "FrameError \<Rightarrow> u64 option" where
  "refused_bytes (TooLarge l g) = Some g"
| "refused_bytes _ = None"

definition MAX_FRAME_BYTES :: u64 where
  "MAX_FRAME_BYTES = 1024 * 1024"

definition FRAME_BYTES_CEILING :: u64 where
  "FRAME_BYTES_CEILING = 16 * 1024 * 1024"

section \<open>Frames\<close>

record Frame =
  opcode :: Opcode
  fin :: bool
  payload :: "u8 list"

text \<open>The loop of \<open>Frame::close\<close>: characters while they fit the budget.\<close>

fun close_reason :: "nat \<Rightarrow> ustr \<Rightarrow> u8 list" where
  "close_reason budget [] = []"
| "close_reason budget (ch # cs) =
     (if budget < len_utf8 ch then [] else encode_utf8 ch @ close_reason (budget - len_utf8 ch) cs)"

definition frame_close :: "u16 \<Rightarrow> ustr \<Rightarrow> Frame" where
  "frame_close code reason = \<lparr>opcode = Close, fin = True,
     payload = be_bytes 2 (unat code) @ close_reason 123 reason\<rparr>"

definition frame_pong :: "u8 list \<Rightarrow> Frame" where
  "frame_pong p = \<lparr>opcode = Pong, fin = True, payload = p\<rparr>"

definition frame_close_code :: "Frame \<Rightarrow> u16 option" where
  "frame_close_code f =
     (if opcode f \<noteq> Close \<or> length (payload f) < 2 then None
      else (case payload f of b0 # b1 # _ \<Rightarrow> Some (of_nat (be_number [b0, b1])) | _ \<Rightarrow> None))"

section \<open>Close payloads\<close>

definition is_valid_close_code :: "u16 \<Rightarrow> bool" where
  "is_valid_close_code code \<longleftrightarrow>
     (1000 \<le> code \<and> code \<le> 1003) \<or> (1007 \<le> code \<and> code \<le> 1014) \<or> (3000 \<le> code \<and> code \<le> 4999)"

text \<open>\<open>167\<close> is the section sign of the messages.\<close>

definition validate_close_payload :: "u8 list \<Rightarrow> FrameError + unit" where
  "validate_close_payload p =
     (case p of
        [] \<Rightarrow> Inr ()
      | [_] \<Rightarrow> Inl (InvalidClosePayload (msg ''a close payload is either empty or at least two bytes, because the first two are a status code ('' @ 167 # msg ''5.5.1)''))
      | b0 # b1 # reason \<Rightarrow>
          (let code = of_nat (be_number [b0, b1]) in
           if \<not> is_valid_close_code code then
             Inl (InvalidClosePayload (msg ''close code '' @ show_nat (unat code) @ msg '' is not valid on the wire ('' @ 167 #
               msg ''7.4.1): sendable codes are 1000-1003, 1007-1014 and 3000-4999''))
           else if \<not> from_utf8_ok reason then
             Inl (InvalidClosePayload (msg ''the close reason after the status code must be UTF-8''))
           else Inr ()))"

section \<open>Decoding\<close>

definition take_at :: "nat \<Rightarrow> u8 list \<Rightarrow> nat \<Rightarrow> u8 list option" where
  "take_at n bytes offset =
     (if offset + n \<le> length bytes then Some (take n (drop offset bytes)) else None)"

definition read_length_prefix :: "u8 list \<Rightarrow> u8 \<Rightarrow> nat \<Rightarrow> FrameError + (u64 \<times> nat) option" where
  "read_length_prefix bytes short_len offset =
     (if short_len = 126 then
        (case take_at 2 bytes offset of
           None \<Rightarrow> Inr None
         | Some raw \<Rightarrow>
             (let v = of_nat (be_number raw) in
              if v < 126 then Inl (NonMinimalLength v) else Inr (Some (v, offset + 2))))
      else if short_len = 127 then
        (case take_at 8 bytes offset of
           None \<Rightarrow> Inr None
         | Some raw \<Rightarrow>
             (let v = of_nat (be_number raw) in
              if v AND 0x8000000000000000 \<noteq> 0 then Inl (NonMinimalLength v)
              else if v < 65536 then Inl (NonMinimalLength v)
              else Inr (Some (v, offset + 8))))
      else Inr (Some (ucast short_len, offset)))"

text \<open>The payload XOR the cycled mask.\<close>

definition unmask :: "u8 list \<Rightarrow> u8 list \<Rightarrow> u8 list" where
  "unmask key p = map (\<lambda>(i, b). b XOR key ! (i mod 4)) (enumerate 0 p)"

text \<open>What follows the two header bytes, once the opcode is known.\<close>

definition decode_body :: "u8 list \<Rightarrow> u64 \<Rightarrow> Opcode \<Rightarrow> bool \<Rightarrow> u8 \<Rightarrow> FrameError + (Frame \<times> nat) option" where
  "decode_body bytes limit op fn short_len =
     (case read_length_prefix bytes short_len 2 of
        Inl e \<Rightarrow> Inl e
      | Inr None \<Rightarrow> Inr None
      | Inr (Some (payload_len, offset)) \<Rightarrow>
          if limit < payload_len then Inl (TooLarge limit payload_len)
          else
            (case take_at 4 bytes offset of
               None \<Rightarrow> Inr None
             | Some key \<Rightarrow>
                 (let start = offset + 4; end' = start + unat payload_len in
                  if length bytes < end' then Inr None
                  else
                    let p = unmask key (take (unat payload_len) (drop start bytes));
                        f = \<lparr>opcode = op, fin = fn, payload = p\<rparr>
                    in if op = Close then
                         (case validate_close_payload p of Inl e \<Rightarrow> Inl e | Inr _ \<Rightarrow> Inr (Some (f, end')))
                       else Inr (Some (f, end')))))"

definition decode_server_frame_with_limit :: "u8 list \<Rightarrow> u64 \<Rightarrow> (FrameError + (Frame \<times> nat) option) option" where
  "decode_server_frame_with_limit bytes limit =
     (if FRAME_BYTES_CEILING < limit then None
      else Some (case bytes of
        b0 # b1 # _ \<Rightarrow>
          (let fn = (b0 AND 0x80 \<noteq> 0); rsv = b0 AND 0x70; opcode_raw = b0 AND 0x0F;
               masked = (b1 AND 0x80 \<noteq> 0); short_len = b1 AND 0x7F
           in if rsv \<noteq> 0 then Inl (ReservedBits opcode_raw)
              else (case opcode_from_u8 opcode_raw of
                      None \<Rightarrow> Inl (ReservedOpcode opcode_raw)
                    | Some op \<Rightarrow>
                        if \<not> masked then Inl UnmaskedClientFrame
                        else if is_control op \<and> \<not> fn then
                          Inl (InvalidControlFrame (msg ''a control frame must not be fragmented ('' @ 167 # msg ''5.4)''))
                        else if is_control op \<and> 125 < short_len then
                          Inl (InvalidControlFrame (msg ''a control frame payload may not exceed 125 bytes ('' @ 167 # msg ''5.5)''))
                        else decode_body bytes limit op fn short_len))
      | _ \<Rightarrow> Inr None))"

definition decode_server_frame :: "u8 list \<Rightarrow> (FrameError + (Frame \<times> nat) option) option" where
  "decode_server_frame bytes = decode_server_frame_with_limit bytes MAX_FRAME_BYTES"

section \<open>Encoding\<close>

definition encode :: "Frame \<Rightarrow> u8 list" where
  "encode f =
     (let len = length (payload f) in
      ((if fin f then 0x80 else 0) OR opcode_as_u8 (opcode f)) #
      (if len < 126 then [of_nat len]
       else if len < 2 ^ 16 then 0x7E # be_bytes 2 len
       else 127 # be_bytes 8 len) @ payload f)"

definition text_of :: "Frame \<Rightarrow> FrameError + u8 list" where
  "text_of f =
     (if opcode f \<noteq> Text then
        Inl (InvalidClosePayload (msg ''a text payload must come from a Text frame ('' @ 167 # msg ''5.6), not '' @
          opcode_debug (opcode f)))
      else (case from_utf8_error (payload f) of
              None \<Rightarrow> Inr (payload f)
            | Some e \<Rightarrow> Inl (InvalidClosePayload (msg ''a text payload must be UTF-8 ('' @ 167 # msg ''8.1): '' @
                utf8_error_display e))))"

section \<open>Bits of the header\<close>

lemma and_all: "(b :: u8) AND 0xFF = b"
proof -
  have m: "(0xFF :: u8) = mask 8" by (simp add: mask_eq_exp_minus_1)
  show ?thesis unfolding m take_bit_eq_mask [symmetric] by (simp add: take_bit_word_eq_self)
qed

lemma header_parts:
  "(b :: u8) = (b AND 0x80) OR (b AND 0x70) OR (b AND 0x0F)" "b = (b AND 0x80) OR (b AND 0x7F)"
  by (simp_all add: and_all flip: bit.conj_disj_distrib)

lemma and_single: "(b :: 'a::len word) AND push_bit n 1 = (if bit b n then push_bit n 1 else 0)"
  by (rule bit_word_eqI) (auto simp: bit_simps)

lemma and80: "(b :: u8) AND 0x80 = (if bit b 7 then 0x80 else 0)"
  using and_single [of b 7] by simp

lemma low7: "unat (b :: u8) < 128 \<Longrightarrow> b AND 0x7F = b"
proof -
  assume n: "unat b < 128"
  have m: "(0x7F :: u8) = mask 7" by (simp add: mask_eq_exp_minus_1)
  show ?thesis unfolding m take_bit_eq_mask [symmetric] word_unat_eq_iff unsigned_take_bit_eq
    using n by (simp add: take_bit_nat_eq_self)
qed

lemma no_high_bit: "unat (b :: u8) < 128 \<Longrightarrow> b AND 0x80 = 0"
proof -
  assume "unat b < 128"
  then have "b AND 0x80 = (b AND 0x7F) AND 0x80" by (simp only: low7)
  also have "\<dots> = b AND (0x7F AND 0x80)" by (rule and.assoc)
  finally show ?thesis by simp
qed

lemma low7_lt: "unat ((b :: u8) AND 0x7F) < 128"
proof -
  have m: "(0x7F :: u8) = mask 7" by (simp add: mask_eq_exp_minus_1)
  show ?thesis unfolding m take_bit_eq_mask [symmetric] unsigned_take_bit_eq
    by (rule less_le_trans [OF take_bit_nat_less_exp]) simp
qed

lemma or80: "unat (b :: u8) < 128 \<Longrightarrow> (0x80 OR b) AND 0x7F = b" "(0x80 OR b) AND 0x80 = 0x80"
  by (simp_all only: bit.conj_disj_distrib2) (simp_all add: low7 and80)

lemma top_bit: "(v :: u64) AND 0x8000000000000000 \<noteq> 0 \<longleftrightarrow> 2 ^ 63 \<le> unat v"
proof -
  have "v AND 0x8000000000000000 \<noteq> 0 \<longleftrightarrow> bit v 63" using and_single [of v 63] by auto
  also have "\<dots> \<longleftrightarrow> bit (unat v) 63" by (simp add: bit_unsigned_iff)
  also have "\<dots> \<longleftrightarrow> odd (unat v div 2 ^ 63)" by (simp add: bit_iff_odd)
  also have "\<dots> \<longleftrightarrow> 2 ^ 63 \<le> unat v"
  proof -
    have "unat v div 2 ^ 63 < 2" using unat_lt_len [of v] by (simp add: less_mult_imp_div_less)
    then show ?thesis by (auto simp: less_2_cases_iff div_eq_0_iff)
  qed
  finally show ?thesis .
qed

lemma opcode_header:
  "((if fn then 0x80 else 0) OR opcode_as_u8 op) AND 0x70 = 0"
  "((if fn then 0x80 else 0) OR opcode_as_u8 op) AND 0x0F = opcode_as_u8 op"
  "((if fn then 0x80 else 0) OR opcode_as_u8 op) AND 0x80 \<noteq> 0 \<longleftrightarrow> fn"
  "opcode_from_u8 (opcode_as_u8 op) = Some op"
  by (cases op; cases fn; simp add: opcode_from_u8_def)+

lemma opcode_from_u8_Some: "opcode_from_u8 v = Some op \<Longrightarrow> v = opcode_as_u8 op"
  by (auto simp: opcode_from_u8_def split: if_splits)

lemma header_byte:
  "b AND 0x70 = 0 \<Longrightarrow> opcode_from_u8 (b AND 0x0F) = Some op \<Longrightarrow>
     b = (if b AND 0x80 \<noteq> 0 then 0x80 else 0) OR opcode_as_u8 op"
  using header_parts(1) [of b] and80 [of b] by (auto dest: opcode_from_u8_Some split: if_splits)

section \<open>The length field\<close>

definition short_of :: "nat \<Rightarrow> u8" where
  "short_of n = (if n < 126 then of_nat n else if n < 2 ^ 16 then 126 else 127)"

definition ext_of :: "nat \<Rightarrow> u8 list" where
  "ext_of n = (if n < 126 then [] else if n < 2 ^ 16 then be_bytes 2 n else be_bytes 8 n)"

lemma unat_short_of: "unat (short_of n) < 128"
  by (simp add: short_of_def unat_of_nat)

lemma take_at_drop: "take_at n bytes k = Some raw \<longleftrightarrow> (\<exists>r. drop k bytes = raw @ r \<and> length raw = n \<and> k \<le> length bytes)"
proof
  assume "take_at n bytes k = Some raw"
  then have "k + n \<le> length bytes" "raw = take n (drop k bytes)" by (auto simp: take_at_def split: if_splits)
  then show "\<exists>r. drop k bytes = raw @ r \<and> length raw = n \<and> k \<le> length bytes"
    by (intro exI [of _ "drop n (drop k bytes)"]) (simp del: drop_drop)
next
  assume "\<exists>r. drop k bytes = raw @ r \<and> length raw = n \<and> k \<le> length bytes"
  then obtain r where "drop k bytes = raw @ r" "length raw = n" "k \<le> length bytes" by blast
  moreover from this have "length bytes = k + length (raw @ r)"
    by (metis length_append length_drop le_add_diff_inverse)
  ultimately show "take_at n bytes k = Some raw" by (simp add: take_at_def)
qed

lemma of_nat_64: "n < 2 ^ 64 \<Longrightarrow> unat (of_nat n :: u64) = n"
  by (simp add: unat_of_nat)

lemma read_length_ext:
  assumes "n < 2 ^ 63" "drop k bytes = ext_of n @ r" "k \<le> length bytes"
  shows "read_length_prefix bytes (short_of n) k = Inr (Some (of_nat n, k + length (ext_of n)))"
proof -
  consider "n < 126" | "126 \<le> n" "n < 2 ^ 16" | "2 ^ 16 \<le> n" by linarith
  then show ?thesis
  proof cases
    case 1
    then have "short_of n \<noteq> 126" "short_of n \<noteq> 127" "ucast (short_of n) = (of_nat n :: u64)"
      by (auto simp: short_of_def word_unat_eq_iff unat_of_nat unsigned_ucast_eq take_bit_nat_eq_self)
    with 1 show ?thesis by (simp add: read_length_prefix_def ext_of_def)
  next
    case 2
    then have "take_at 2 bytes k = Some (be_bytes 2 n)" using assms by (simp add: take_at_drop ext_of_def)
    moreover have "\<not> (of_nat n :: u64) < 126" using 2 by (simp add: word_less_nat_alt of_nat_64)
    ultimately show ?thesis using 2 by (simp add: read_length_prefix_def ext_of_def short_of_def be_number_bytes)
  next
    case 3
    then have "take_at 8 bytes k = Some (be_bytes 8 n)" using assms by (simp add: take_at_drop ext_of_def)
    moreover have "\<not> (of_nat n :: u64) < 65536" "(of_nat n :: u64) AND 0x8000000000000000 = 0"
      using 3 assms(1) top_bit [of "of_nat n"] by (simp_all add: word_less_nat_alt of_nat_64)
    ultimately show ?thesis using 3 assms(1)
      by (simp add: read_length_prefix_def ext_of_def short_of_def be_number_bytes)
  qed
qed

lemma read_length_sound:
  assumes r: "read_length_prefix bytes s k = Inr (Some (v, off))" and s: "unat s < 128" and k: "k \<le> length bytes"
  shows "s = short_of (unat v) \<and> off = k + length (ext_of (unat v)) \<and> unat v < 2 ^ 63 \<and>
    (\<exists>r. drop k bytes = ext_of (unat v) @ r)"
proof -
  consider "s = 126" | "s = 127" | "s \<noteq> 126" "s \<noteq> 127" by blast
  then show ?thesis
  proof cases
    case 1
    with r obtain raw where t: "take_at 2 bytes k = Some raw" and v: "v = of_nat (be_number raw)"
      and big: "\<not> v < 126" and off: "off = k + 2"
      by (auto simp: read_length_prefix_def Let_def split: option.splits if_splits)
    from t have len: "length raw = 2" by (auto simp: take_at_drop)
    then have lt: "be_number raw < 2 ^ 16" using be_number_lt [of raw] by simp
    then have uv: "unat v = be_number raw" using v by (simp add: of_nat_64)
    moreover have "be_bytes 2 (be_number raw) = raw" using be_bytes_number [of raw] len by simp
    ultimately show ?thesis using 1 big lt off t
      by (auto simp: short_of_def ext_of_def word_less_nat_alt take_at_drop)
  next
    case 2
    with r obtain raw where t: "take_at 8 bytes k = Some raw" and v: "v = of_nat (be_number raw)"
      and top: "v AND 0x8000000000000000 = 0" and big: "\<not> v < 65536" and off: "off = k + 8"
      by (auto simp: read_length_prefix_def Let_def split: option.splits if_splits)
    from t have len: "length raw = 8" by (auto simp: take_at_drop)
    then have lt: "be_number raw < 2 ^ 64" using be_number_lt [of raw] by simp
    then have uv: "unat v = be_number raw" using v by (simp add: of_nat_64)
    moreover have "be_bytes 8 (be_number raw) = raw" using be_bytes_number [of raw] len by simp
    ultimately show ?thesis using 2 big lt off t top top_bit [of v]
      by (auto simp: short_of_def ext_of_def word_less_nat_alt take_at_drop)
  next
    case 3
    then have v: "v = ucast s" "off = k" using r by (auto simp: read_length_prefix_def)
    have uv: "unat v = unat s" using v s by (simp add: unsigned_ucast_eq take_bit_nat_eq_self)
    have "unat s \<noteq> 126" "unat s \<noteq> 127" using 3 by (auto simp: word_unat_eq_iff)
    then show ?thesis using uv v s by (auto simp: short_of_def ext_of_def)
  qed
qed

section \<open>The frame on the wire\<close>

text \<open>The one client encoding of a frame under a mask key: final bit and opcode, the mask bit with the
  shortest length form, the key, the masked payload.\<close>

definition wire :: "Frame \<Rightarrow> u8 list \<Rightarrow> u8 list" where
  "wire f key =
     ((if fin f then 0x80 else 0) OR opcode_as_u8 (opcode f)) # (0x80 OR short_of (length (payload f))) #
     ext_of (length (payload f)) @ key @ unmask key (payload f)"

text \<open>The frames the decoder admits under a cap.\<close>

definition frame_ok :: "u64 \<Rightarrow> Frame \<Rightarrow> bool" where
  "frame_ok limit f \<longleftrightarrow> length (payload f) \<le> unat limit \<and>
     (is_control (opcode f) \<longrightarrow> fin f \<and> length (payload f) \<le> 125) \<and>
     (opcode f = Close \<longrightarrow> validate_close_payload (payload f) = Inr ())"

lemma length_unmask [simp]: "length (unmask key p) = length p"
  by (simp add: unmask_def)

lemma unmask_unmask [simp]: "unmask key (unmask key p) = p"
  by (rule nth_equalityI) (simp_all add: unmask_def nth_enumerate_eq xor.assoc)

lemma short_of_control: "short_of n \<le> 125 \<longleftrightarrow> n \<le> 125"
  by (auto simp: short_of_def word_le_nat_alt unat_of_nat)

lemma length_wire: "length (wire f key) = 2 + length (ext_of (length (payload f))) + length key + length (payload f)"
  by (simp add: wire_def)

lemma body_complete:
  assumes bytes: "bytes = b0 # b1 # ext_of (length p) @ key @ unmask key p @ rest" and key: "length key = 4"
    and lim: "length p \<le> unat limit" "unat limit < 2 ^ 63"
    and close: "op = Close \<longrightarrow> validate_close_payload p = Inr ()"
  shows "decode_body bytes limit op fn (short_of (length p)) =
    Inr (Some (\<lparr>opcode = op, fin = fn, payload = p\<rparr>, 6 + length (ext_of (length p)) + length p))"
proof -
  let ?n = "length p" and ?x = "length (ext_of (length p))"
  have n: "?n < 2 ^ 63" using lim by simp
  have "read_length_prefix bytes (short_of ?n) 2 = Inr (Some (of_nat ?n, 2 + ?x))"
    by (rule read_length_ext [OF n]) (simp_all add: bytes)
  moreover have un: "unat (of_nat ?n :: u64) = ?n" using n by (simp add: of_nat_64)
  moreover have "\<not> limit < of_nat ?n" using lim un by (simp add: word_less_nat_alt)
  moreover have "take_at 4 bytes (2 + ?x) = Some key" using key by (simp add: take_at_drop bytes)
  moreover have "drop (length (b0 # b1 # ext_of ?n @ key)) bytes = unmask key p @ rest" by (simp add: bytes)
  then have "drop (2 + ?x + 4) bytes = unmask key p @ rest" using key by simp
  ultimately show ?thesis using key close by (simp add: decode_body_def Let_def bytes)
qed

lemma body_sound:
  assumes d: "decode_body bytes limit op fn s = Inr (Some (f, n))" and s: "unat s < 128" and len: "2 \<le> length bytes"
  shows "opcode f = op \<and> fin f = fn \<and> s = short_of (length (payload f)) \<and> length (payload f) \<le> unat limit \<and>
    (op = Close \<longrightarrow> validate_close_payload (payload f) = Inr ()) \<and>
    (\<exists>key rest. length key = 4 \<and> n = length (wire f key) \<and>
       drop 2 bytes = ext_of (length (payload f)) @ key @ unmask key (payload f) @ rest)"
proof -
  from d obtain v off key where
      r: "read_length_prefix bytes s 2 = Inr (Some (v, off))" and lim: "\<not> limit < v"
    and k: "take_at 4 bytes off = Some key" and short: "\<not> length bytes < off + 4 + unat v"
    and f: "f = \<lparr>opcode = op, fin = fn, payload = unmask key (take (unat v) (drop (off + 4) bytes))\<rparr>"
    and n: "n = off + 4 + unat v" and c: "op = Close \<longrightarrow> validate_close_payload (payload f) = Inr ()"
    by (auto simp: decode_body_def Let_def split: sum.splits option.splits if_splits)
  have plen: "length (payload f) = unat v" using short by (simp add: f)
  from read_length_sound [OF r s len] obtain r' where s': "s = short_of (unat v)"
    and off: "off = 2 + length (ext_of (unat v))" and r': "drop 2 bytes = ext_of (unat v) @ r'" by blast
  from k have klen: "length key = 4" and "\<exists>q. drop off bytes = key @ q" by (auto simp: take_at_drop)
  then obtain q where q: "drop off bytes = key @ q" by blast
  have "r' = key @ q" using q r' off by (metis append_eq_conv_conj drop_drop add.commute)
  moreover have "q = drop (off + 4) bytes" using q klen by (metis append_eq_conv_conj drop_drop add.commute)
  then have "unmask key (payload f) = take (unat v) q" by (simp add: f)
  ultimately have "drop 2 bytes = ext_of (unat v) @ key @ unmask key (payload f) @ drop (unat v) q"
    using r' by (metis append_take_drop_id)
  moreover have "n = length (wire f key)" using n off klen plen by (simp add: length_wire)
  ultimately show ?thesis
    using s' lim c plen klen f by (auto simp: word_less_nat_alt simp del: drop_drop)
qed

lemma ceiling_lt: "\<not> FRAME_BYTES_CEILING < limit \<Longrightarrow> unat limit < 2 ^ 63"
  by (simp add: FRAME_BYTES_CEILING_def word_less_nat_alt)

lemma decode_header:
  assumes "length bytes \<ge> 2" "bytes ! 0 = (if fn then 0x80 else 0) OR opcode_as_u8 op" "bytes ! 1 = 0x80 OR short_of n"
    and "\<not> FRAME_BYTES_CEILING < limit" "is_control op \<longrightarrow> fn \<and> n \<le> 125"
  shows "decode_server_frame_with_limit bytes limit = Some (decode_body bytes limit op fn (short_of n))"
proof -
  obtain b0 b1 r where b: "bytes = b0 # b1 # r" using assms(1) by (cases bytes; cases "tl bytes") auto
  have "(0x80 OR short_of n) AND 0x7F = short_of n" "(0x80 OR short_of n) AND 0x80 \<noteq> 0"
    using or80 [of "short_of n"] unat_short_of [of n] by simp_all
  moreover have "is_control op \<longrightarrow> \<not> 125 < short_of n" using assms(5) short_of_control [of n] by auto
  ultimately show ?thesis
    using assms opcode_header by (auto simp add: decode_server_frame_with_limit_def b Let_def)
qed

text \<open>C37. The decoder accepts exactly the canonical masked encodings: it yields a frame and a byte count
  precisely when the input starts with the one wire form of that frame under some four-byte mask, the
  count is the length of that form, and the frame obeys the cap, the control-frame rules and the
  close-payload rules. So there is one length encoding per payload, unmasked and reserved headers are
  never accepted, and decoding inverts a client's encoding whatever follows it in the buffer.\<close>

theorem decode_exact:
  "decode_server_frame_with_limit bytes limit = Some (Inr (Some (f, n))) \<longleftrightarrow>
     limit \<le> FRAME_BYTES_CEILING \<and> frame_ok limit f \<and>
     (\<exists>key rest. length key = 4 \<and> bytes = wire f key @ rest \<and> n = length (wire f key))"
proof
  assume d: "decode_server_frame_with_limit bytes limit = Some (Inr (Some (f, n)))"
  then have ceil: "\<not> FRAME_BYTES_CEILING < limit" by (auto simp: decode_server_frame_with_limit_def)
  with d obtain b0 b1 r where b: "bytes = b0 # b1 # r"
    by (auto simp: decode_server_frame_with_limit_def split: list.splits)
  from d ceil obtain op where h: "b0 AND 0x70 = 0" "opcode_from_u8 (b0 AND 0x0F) = Some op" "b1 AND 0x80 \<noteq> 0"
    and ctl: "is_control op \<longrightarrow> b0 AND 0x80 \<noteq> 0 \<and> b1 AND 0x7F \<le> 125"
    and body: "decode_body bytes limit op (b0 AND 0x80 \<noteq> 0) (b1 AND 0x7F) = Inr (Some (f, n))"
    unfolding decode_server_frame_with_limit_def b
    by (auto simp: Let_def not_less split: option.splits if_splits)
  from body_sound [OF body low7_lt] b obtain key rest where
      f: "opcode f = op" "fin f = (b0 AND 0x80 \<noteq> 0)" "b1 AND 0x7F = short_of (length (payload f))"
        "length (payload f) \<le> unat limit" "op = Close \<longrightarrow> validate_close_payload (payload f) = Inr ()"
    and key: "length key = 4" "n = length (wire f key)"
        "r = ext_of (length (payload f)) @ key @ unmask key (payload f) @ rest" by auto
  have "b0 = (if fin f then 0x80 else 0) OR opcode_as_u8 (opcode f)" using header_byte [OF h(1,2)] f by simp
  moreover have "b1 = 0x80 OR short_of (length (payload f))"
    using header_parts(2) [of b1] and80 [of b1] h(3) f(3) by (simp split: if_splits)
  ultimately have "bytes = wire f key @ rest" using b key by (simp add: wire_def)
  moreover have "frame_ok limit f" using ctl f short_of_control by (auto simp: frame_ok_def)
  ultimately show "limit \<le> FRAME_BYTES_CEILING \<and> frame_ok limit f \<and>
     (\<exists>key rest. length key = 4 \<and> bytes = wire f key @ rest \<and> n = length (wire f key))"
    using ceil key by auto
next
  assume "limit \<le> FRAME_BYTES_CEILING \<and> frame_ok limit f \<and>
     (\<exists>key rest. length key = 4 \<and> bytes = wire f key @ rest \<and> n = length (wire f key))"
  then obtain key rest where ceil: "\<not> FRAME_BYTES_CEILING < limit" and ok: "frame_ok limit f"
    and key: "length key = 4" "bytes = wire f key @ rest" "n = length (wire f key)" by auto
  have "decode_server_frame_with_limit bytes limit =
      Some (decode_body bytes limit (opcode f) (fin f) (short_of (length (payload f))))"
    by (rule decode_header) (use ceil ok key in \<open>auto simp: wire_def frame_ok_def\<close>)
  also have "decode_body bytes limit (opcode f) (fin f) (short_of (length (payload f))) =
      Inr (Some (\<lparr>opcode = opcode f, fin = fin f, payload = payload f\<rparr>,
        6 + length (ext_of (length (payload f))) + length (payload f)))"
    by (rule body_complete) (use ok key ceiling_lt [OF ceil] in \<open>auto simp: wire_def frame_ok_def\<close>)
  finally show "decode_server_frame_with_limit bytes limit = Some (Inr (Some (f, n)))"
    using key by (simp add: length_wire)
qed

section \<open>Split packets\<close>

lemma body_short:
  assumes "bytes = take (k - 2) (ext_of (length p) @ key @ unmask key p)" "2 \<le> k" "length key = 4"
    and "k < 6 + length (ext_of (length p)) + length p"
    and lim: "length p \<le> unat limit" "unat limit < 2 ^ 63"
  shows "decode_body (b0 # b1 # bytes) limit op fn (short_of (length p)) = Inr None"
proof (cases "k - 2 < length (ext_of (length p))")
  case True
  have "length bytes = k - 2" using assms by simp
  with True have "read_length_prefix (b0 # b1 # bytes) (short_of (length p)) 2 = Inr None"
    by (auto simp: read_length_prefix_def take_at_def ext_of_def short_of_def split: if_splits)
  then show ?thesis by (simp add: decode_body_def)
next
  case False
  let ?x = "length (ext_of (length p))"
  have n: "length p < 2 ^ 63" using lim by simp
  have "drop 2 (b0 # b1 # bytes) = ext_of (length p) @ take (k - 2 - ?x) (key @ unmask key p)"
    using False assms(1) by simp
  from read_length_ext [OF n this]
  have "read_length_prefix (b0 # b1 # bytes) (short_of (length p)) 2 = Inr (Some (of_nat (length p), 2 + ?x))" by simp
  moreover have "unat (of_nat (length p) :: u64) = length p" using n by (simp add: of_nat_64)
  moreover have "length bytes < 4 + ?x + length p" using assms by simp
  ultimately show ?thesis
    using lim by (auto simp: decode_body_def Let_def word_less_nat_alt split: option.splits)
qed

text \<open>A split packet is never an error: every proper prefix of an admissible frame decodes to "not
  enough bytes yet", wherever the cut falls, and the whole frame then decodes.\<close>

theorem prefix_is_incomplete:
  assumes "frame_ok limit f" "limit \<le> FRAME_BYTES_CEILING" "length key = 4" "k < length (wire f key)"
  shows "decode_server_frame_with_limit (take k (wire f key)) limit = Some (Inr None)"
proof (cases "k < 2")
  case True
  then have "k = 0 \<or> k = 1" by auto
  then show ?thesis using assms(2) by (auto simp: decode_server_frame_with_limit_def wire_def)
next
  case False
  let ?p = "payload f"
  have w: "take k (wire f key) = ((if fin f then 0x80 else 0) OR opcode_as_u8 (opcode f)) #
      (0x80 OR short_of (length ?p)) # take (k - 2) (ext_of (length ?p) @ key @ unmask key ?p)"
    using False by (simp add: wire_def take_Cons' numeral_2_eq_2)
  have "decode_server_frame_with_limit (take k (wire f key)) limit =
      Some (decode_body (take k (wire f key)) limit (opcode f) (fin f) (short_of (length ?p)))"
    by (rule decode_header) (use assms w in \<open>auto simp: frame_ok_def\<close>)
  also have "decode_body (take k (wire f key)) limit (opcode f) (fin f) (short_of (length ?p)) = Inr None"
    unfolding w
    by (rule body_short [OF refl])
      (use False assms ceiling_lt [of limit] in \<open>auto simp: frame_ok_def length_wire\<close>)
  finally show ?thesis .
qed

text \<open>A masked ping of one byte, cut before its payload.\<close>

theorem prefix_is_incomplete_witness:
  "decode_server_frame_with_limit (take 6 (wire \<lparr>opcode = Ping, fin = True, payload = [7]\<rparr> [1, 2, 3, 4])) 1024 =
     Some (Inr None)"
  by (rule prefix_is_incomplete)
    (simp_all add: frame_ok_def length_wire ext_of_def FRAME_BYTES_CEILING_def)

section \<open>What the server sends\<close>

lemma length_close_reason: "length (close_reason budget cs) \<le> budget"
  by (induction budget cs rule: close_reason.induct) auto

lemma close_reason_utf8: "list_all is_scalar cs \<Longrightarrow> from_utf8_ok (close_reason budget cs)"
proof -
  have "\<exists>k. close_reason b cs = utf8_bytes (take k cs)" for b
  proof (induction b cs rule: close_reason.induct)
    case (2 b ch cs)
    show ?case
    proof (cases "b < len_utf8 ch")
      case True
      then show ?thesis by (intro exI [of _ 0]) (simp add: utf8_bytes_def)
    next
      case False
      with 2 obtain k where "close_reason (b - len_utf8 ch) cs = utf8_bytes (take k cs)" by blast
      with False show ?thesis by (intro exI [of _ "Suc k"]) (simp add: utf8_bytes_def)
    qed
  qed (simp add: utf8_bytes_def)
  then obtain k where "close_reason budget cs = utf8_bytes (take k cs)" by blast
  moreover assume "list_all is_scalar cs"
  then have "list_all is_scalar (take k cs)" by (auto simp: list_all_iff dest: in_set_takeD)
  ultimately show ?thesis by (simp add: from_utf8_ok_utf8_bytes)
qed

text \<open>What the server sends is well-formed: for any code and any text (a list of Unicode scalar values)
  a close frame fits the 125-byte control limit, carries its code, and its payload passes the decoder's
  own check exactly when the code is sendable, the truncation never splitting a character; and no frame
  the server encodes would be accepted as a client frame, since it is not masked.\<close>

theorem close_frame_well_formed:
  assumes "list_all is_scalar reason"
  shows "length (payload (frame_close code reason)) \<le> 125 \<and>
    frame_close_code (frame_close code reason) = Some code \<and>
    (validate_close_payload (payload (frame_close code reason)) = Inr () \<longleftrightarrow> is_valid_close_code code) \<and>
    decode_server_frame (encode g) = Some (Inl UnmaskedClientFrame)"
proof -
  have "be_bytes 2 (unat code) = [of_nat (unat code div 256 mod 256), of_nat (unat code mod 256)]"
    by (simp add: be_bytes_def le_bytes_def numeral_2_eq_2)
  then obtain b0 b1 where b: "be_bytes 2 (unat code) = [b0, b1]" by blast
  have "unat code < 256 ^ 2" using unat_lt_len [of code] by simp
  then have num: "be_number [b0, b1] = unat code" using be_number_bytes [of "unat code" 2] b by simp
  have "decode_server_frame (encode g) = Some (Inl UnmaskedClientFrame)"
  proof -
    have "short_of (length (payload g)) AND 0x80 = 0" by (rule no_high_bit [OF unat_short_of])
    moreover have "encode g = ((if fin g then 0x80 else 0) OR opcode_as_u8 (opcode g)) #
        short_of (length (payload g)) # ext_of (length (payload g)) @ payload g"
      by (simp add: encode_def Let_def short_of_def ext_of_def)
    ultimately show ?thesis
      using opcode_header
      by (simp add: decode_server_frame_def decode_server_frame_with_limit_def Let_def
          MAX_FRAME_BYTES_def FRAME_BYTES_CEILING_def)
  qed
  then show ?thesis
    using length_close_reason [of 123 reason] close_reason_utf8 [OF assms, of 123] b num
    by (simp add: frame_close_def frame_close_code_def validate_close_payload_def Let_def)
qed

text \<open>A normal closure with a short reason.\<close>

theorem close_frame_well_formed_witness:
  "validate_close_payload (payload (frame_close 1000 (lit ''bye''))) = Inr ()"
  using close_frame_well_formed [of "lit ''bye''" 1000 "frame_pong []"]
  by (simp add: is_scalar_def is_valid_close_code_def)

end
