(* ===== verification/WsMessage.thy ===== *)
theory WsMessage
  imports WsFrame Machines
begin

text \<open>
  Message assembly of \<open>qqq-serve/src/ws_message.rs\<close>: the state machine that turns frames into messages,
  with the byte cap, the fragment cap and the UTF-8 check on the assembled payload.
\<close>

record Message =
  msg_kind :: Opcode
  msg_payload :: "u8 list"

definition as_text :: "Message \<Rightarrow> FrameError + u8 list" where
  "as_text m =
     (if msg_kind m \<noteq> Text then Inl (InvalidClosePayload (msg ''this is a binary message, not text''))
      else (case from_utf8_error (msg_payload m) of
              None \<Rightarrow> Inr (msg_payload m)
            | Some e \<Rightarrow> Inl (InvalidClosePayload (msg ''a text message must be UTF-8 ('' @ 167 # msg ''8.1): '' @
                utf8_error_display e))))"

datatype Progress = Complete Message | Accumulating | Control Frame

definition MAX_MESSAGE_BYTES :: nat where
  "MAX_MESSAGE_BYTES = 1024 * 1024"

definition MESSAGE_BYTES_CEILING :: nat where
  "MESSAGE_BYTES_CEILING = 64 * 1024 * 1024"

definition MAX_FRAGMENTS_PER_MESSAGE :: u32 where
  "MAX_FRAGMENTS_PER_MESSAGE = 65536"

record InProgress =
  ip_kind :: Opcode
  ip_payload :: "u8 list"
  fragments :: u32

record Assembler =
  in_progress :: "InProgress option"
  asm_limit :: nat

definition assembler_new :: Assembler where
  "assembler_new = \<lparr>in_progress = None, asm_limit = MAX_MESSAGE_BYTES\<rparr>"

text \<open>\<open>with_limit\<close> panics (\<open>None\<close>) above the ceiling.\<close>

definition with_limit :: "nat \<Rightarrow> Assembler option" where
  "with_limit l = (if MESSAGE_BYTES_CEILING < l then None else Some \<lparr>in_progress = None, asm_limit = l\<rparr>)"

definition is_accumulating :: "Assembler \<Rightarrow> bool" where
  "is_accumulating a \<longleftrightarrow> in_progress a \<noteq> None"

definition buffered :: "Assembler \<Rightarrow> nat" where
  "buffered a = (case in_progress a of None \<Rightarrow> 0 | Some m \<Rightarrow> length (ip_payload m))"

definition kind_name :: "InProgress \<Rightarrow> ustr" where
  "kind_name m = (if ip_kind m = Text then msg ''text'' else msg ''binary'')"

definition still_assembling :: "Assembler \<Rightarrow> FrameError" where
  "still_assembling a = UnexpectedContinuation
     (msg ''a `Continuation` or a control frame, because a '' @
      (case in_progress a of None \<Rightarrow> msg ''data'' | Some m \<Rightarrow> kind_name m) @
      msg '' message is still being assembled ('' @ 167 # msg ''5.4)'')"

definition nothing_started :: FrameError where
  "nothing_started = UnexpectedContinuation
     (msg ''a `Text` or `Binary` frame to start a message, because none is in progress ('' @ 167 # msg ''5.4)'')"

text \<open>The completed message, after the text check.\<close>

definition finish :: "Message \<Rightarrow> FrameError + Progress" where
  "finish m =
     (if msg_kind m = Text then (case as_text m of Inl e \<Rightarrow> Inl e | Inr _ \<Rightarrow> Inr (Complete m))
      else Inr (Complete m))"

definition push_data :: "Assembler \<Rightarrow> Frame \<Rightarrow> Assembler \<times> (FrameError + Progress)" where
  "push_data a f =
     (if in_progress a \<noteq> None then (a, Inl (still_assembling a))
      else if fin f then
        (if asm_limit a < length (payload f)
         then (a, Inl (TooLarge (of_nat (asm_limit a)) (of_nat (length (payload f)))))
         else (a, finish \<lparr>msg_kind = opcode f, msg_payload = payload f\<rparr>))
      else if asm_limit a < length (payload f)
      then (a, Inl (TooLarge (of_nat (asm_limit a)) (of_nat (length (payload f)))))
      else (a\<lparr>in_progress := Some \<lparr>ip_kind = opcode f, ip_payload = payload f, fragments = 1\<rparr>\<rparr>, Inr Accumulating))"

definition push_continuation :: "Assembler \<Rightarrow> Frame \<Rightarrow> Assembler \<times> (FrameError + Progress)" where
  "push_continuation a f =
     (case in_progress a of
        None \<Rightarrow> (a, Inl nothing_started)
      | Some m \<Rightarrow>
          (let a' = a\<lparr>in_progress := None\<rparr>; total = length (ip_payload m) + length (payload f) in
           if asm_limit a < total then (a', Inl (TooLarge (of_nat (asm_limit a)) (of_nat total)))
           else
             let n = sat_add (fragments m) 1 in
             if MAX_FRAGMENTS_PER_MESSAGE < n then (a', Inl (TooManyFragments n))
             else
               let m' = m\<lparr>fragments := n, ip_payload := ip_payload m @ payload f\<rparr> in
               if \<not> fin f then (a\<lparr>in_progress := Some m'\<rparr>, Inr Accumulating)
               else (a', finish \<lparr>msg_kind = ip_kind m', msg_payload = ip_payload m'\<rparr>)))"

definition asm_push :: "Assembler \<Rightarrow> Frame \<Rightarrow> Assembler \<times> (FrameError + Progress)" where
  "asm_push a f =
     (if is_control (opcode f) then (a, Inr (Control f))
      else (case opcode f of
              Text \<Rightarrow> push_data a f
            | Binary \<Rightarrow> push_data a f
            | Continuation \<Rightarrow> push_continuation a f
            | _ \<Rightarrow> (a, Inr (Control f))))"

definition asm_step :: "Assembler \<Rightarrow> Frame \<Rightarrow> Assembler" where
  "asm_step a f = fst (asm_push a f)"

section \<open>The invariant\<close>

definition asm_inv :: "Assembler \<Rightarrow> bool" where
  "asm_inv a \<longleftrightarrow> (case in_progress a of None \<Rightarrow> True
     | Some m \<Rightarrow> length (ip_payload m) \<le> asm_limit a \<and> unat (fragments m) \<le> 65536 \<and> ip_kind m \<in> {Text, Binary})"

lemma control_opcodes: "is_control op \<longleftrightarrow> op \<in> {Close, Ping, Pong}"
  by (cases op) (simp_all add: is_control_def)

lemma push_cases: "asm_push a f = (if opcode f \<in> {Close, Ping, Pong} then (a, Inr (Control f))
    else if opcode f = Continuation then push_continuation a f else push_data a f)"
  by (cases "opcode f") (simp_all add: asm_push_def control_opcodes)

lemma step_asm_inv: "asm_inv a \<Longrightarrow> asm_inv (asm_step a f)"
  by (cases "opcode f")
    (auto simp: asm_step_def push_cases push_data_def push_continuation_def asm_inv_def Let_def not_less
      MAX_FRAGMENTS_PER_MESSAGE_def word_le_nat_alt split: option.splits)

interpretation assembler: invariant_machine asm_step asm_inv
  by unfold_locales (rule step_asm_inv)

lemma asm_step_limit [simp]: "asm_limit (asm_step a f) = asm_limit a"
  by (auto simp: asm_step_def push_cases push_data_def push_continuation_def Let_def split: option.splits)

lemma run_limit [simp]: "asm_limit (run asm_step a fs) = asm_limit a"
  by (induction fs arbitrary: a) simp_all

lemma finish_Complete: "finish m = Inr p \<longleftrightarrow> p = Complete m \<and> (msg_kind m = Text \<longrightarrow> from_utf8_ok (msg_payload m))"
  using from_utf8_error_None [of "msg_payload m"]
  by (auto simp: finish_def as_text_def split: option.splits sum.splits if_splits)

lemma push_bounds:
  assumes "asm_inv a"
  shows "case asm_push a f of
     (a', Inr (Complete m)) \<Rightarrow> length (msg_payload m) \<le> asm_limit a \<and> msg_kind m \<in> {Text, Binary} \<and>
       (msg_kind m = Text \<longrightarrow> from_utf8_ok (msg_payload m)) \<and> in_progress a' = None
   | (a', Inr (Control g)) \<Rightarrow> g = f \<and> a' = a
   | (a', Inr Accumulating) \<Rightarrow> in_progress a' \<noteq> None
   | (a', Inl e) \<Rightarrow> a' = a \<or> in_progress a' = None"
  using assms
  by (cases "opcode f"; cases "in_progress a"; cases "fin f")
    (auto simp: push_cases push_data_def push_continuation_def asm_inv_def Let_def finish_Complete
      split: option.splits sum.splits Progress.splits if_splits)

text \<open>For any cap within the ceiling and any sequence of frames a peer sends, the assembler never holds
  more than the cap, and what the next frame produces is sound: a completed message fits the cap, is text
  or binary, is valid UTF-8 when it is text, and leaves nothing in progress; a control frame is handed
  over and changes nothing; a refusal leaves the state as it was or abandons the message.\<close>

theorem assembler_bounded:
  "case with_limit l of
     None \<Rightarrow> 64 * 1024 * 1024 < l
   | Some a0 \<Rightarrow>
       buffered (run asm_step a0 fs) \<le> l \<and>
       (case asm_push (run asm_step a0 fs) f of
          (a', Inr (Complete m)) \<Rightarrow> length (msg_payload m) \<le> l \<and> msg_kind m \<in> {Text, Binary} \<and>
            (if msg_kind m = Text then from_utf8_ok (msg_payload m) else True) \<and> in_progress a' = None
        | (a', Inr (Control g)) \<Rightarrow> g = f \<and> a' = run asm_step a0 fs
        | (a', Inr Accumulating) \<Rightarrow> in_progress a' \<noteq> None
        | (a', Inl e) \<Rightarrow> a' = run asm_step a0 fs \<or> in_progress a' = None)"
proof (cases "with_limit l")
  case None
  then show ?thesis by (simp add: with_limit_def MESSAGE_BYTES_CEILING_def split: if_splits)
next
  case (Some a0)
  then have a0: "asm_inv a0" "asm_limit a0 = l" by (auto simp: with_limit_def asm_inv_def split: if_splits)
  then have inv: "asm_inv (run asm_step a0 fs)" by (intro assembler.run_inv)
  then have "buffered (run asm_step a0 fs) \<le> l"
    using a0 by (auto simp: asm_inv_def buffered_def split: option.splits)
  with push_bounds [OF inv, of f] a0 Some show ?thesis
    by (auto split: prod.splits sum.splits Progress.splits)
qed

section \<open>Fragmented messages\<close>

definition middle :: "Frame \<Rightarrow> bool" where
  "middle f \<longleftrightarrow> opcode f \<in> {Close, Ping, Pong} \<or> (opcode f = Continuation \<and> \<not> fin f)"

definition fragments_of :: "Frame list \<Rightarrow> u8 list list" where
  "fragments_of fs = map payload (filter (\<lambda>f. opcode f = Continuation) fs)"

lemma run_middle:
  assumes "in_progress a = Some \<lparr>ip_kind = k, ip_payload = p, fragments = of_nat n\<rparr>" "list_all middle fs"
    and "length p + length (concat (fragments_of fs)) \<le> asm_limit a" "n + length (fragments_of fs) \<le> 65536"
  shows "run asm_step a fs = a\<lparr>in_progress := Some \<lparr>ip_kind = k, ip_payload = p @ concat (fragments_of fs),
      fragments = of_nat (n + length (fragments_of fs))\<rparr>\<rparr>"
  using assms
proof (induction fs arbitrary: a p n)
  case Nil
  then show ?case by (simp add: fragments_of_def)
next
  case (Cons f fs)
  show ?case
  proof (cases "opcode f = Continuation")
    case True
    have "unat (of_nat n :: u32) = n" using Cons.prems(4) by (simp add: unat_of_nat)
    then have sat: "sat_add (of_nat n) 1 = (of_nat (Suc n) :: u32)" using Cons.prems(4) by (simp add: sat_add_def)
    have n: "\<not> MAX_FRAGMENTS_PER_MESSAGE < of_nat (Suc n)" using Cons.prems(4) True
      by (simp add: MAX_FRAGMENTS_PER_MESSAGE_def word_less_nat_alt unat_of_nat fragments_of_def del: of_nat_Suc)
    have "asm_step a f = a\<lparr>in_progress := Some \<lparr>ip_kind = k, ip_payload = p @ payload f, fragments = of_nat (Suc n)\<rparr>\<rparr>"
      using True Cons.prems sat n
      by (simp add: asm_step_def push_cases push_continuation_def Let_def middle_def fragments_of_def del: of_nat_Suc)
    with Cons.IH [of "asm_step a f" "p @ payload f" "Suc n"] Cons.prems True show ?thesis
      by (simp add: fragments_of_def del: of_nat_Suc)
  next
    case False
    then have "asm_step a f = a" using Cons.prems(2) by (auto simp: asm_step_def push_cases middle_def)
    with Cons.IH [of a p n] Cons.prems False show ?thesis by (simp add: fragments_of_def)
  qed
qed

text \<open>C38. Fragmentation is transparent: a message sent as a first frame, any mixture of continuations and
  interleaved control frames, and a final continuation is delivered as one message of the first frame's
  kind whose payload is the concatenation of the fragments in order, provided it is within the byte and
  fragment caps; a text message is refused with 1007 exactly when the whole is not UTF-8, however its
  characters were split. Either way nothing stays in progress.\<close>

theorem fragmented_message:
  assumes "in_progress a = None" "k \<in> {Text, Binary}" "list_all middle mid"
    and "length (p @ concat (fragments_of mid) @ q) \<le> asm_limit a" "length (fragments_of mid) + 2 \<le> 65536"
  shows "fst (asm_push (run asm_step a (\<lparr>opcode = k, fin = False, payload = p\<rparr> # mid))
            \<lparr>opcode = Continuation, fin = True, payload = q\<rparr>) = a \<and>
    (let answer = snd (asm_push (run asm_step a (\<lparr>opcode = k, fin = False, payload = p\<rparr> # mid))
                    \<lparr>opcode = Continuation, fin = True, payload = q\<rparr>);
         whole = p @ concat (fragments_of mid) @ q in
     if k = Text \<and> \<not> from_utf8_ok whole then \<exists>e. answer = Inl e \<and> error_close_code e = 1007
     else answer = Inr (Complete \<lparr>msg_kind = k, msg_payload = whole\<rparr>))"
proof -
  let ?m = "\<lparr>ip_kind = k, ip_payload = p @ concat (fragments_of mid), fragments = of_nat (1 + length (fragments_of mid))\<rparr>"
  let ?n = "1 + length (fragments_of mid)"
  have first: "asm_step a \<lparr>opcode = k, fin = False, payload = p\<rparr> =
      a\<lparr>in_progress := Some \<lparr>ip_kind = k, ip_payload = p, fragments = of_nat 1\<rparr>\<rparr>"
    using assms by (auto simp: asm_step_def push_cases push_data_def)
  have run: "run asm_step a (\<lparr>opcode = k, fin = False, payload = p\<rparr> # mid) = a\<lparr>in_progress := Some ?m\<rparr>"
    using run_middle [of "asm_step a \<lparr>opcode = k, fin = False, payload = p\<rparr>" k p 1 mid] assms by (simp add: first)
  have un: "unat (of_nat ?n :: u32) = ?n" using assms(5) by (simp add: unat_of_nat del: of_nat_Suc of_nat_add)
  then have n: "\<not> MAX_FRAGMENTS_PER_MESSAGE < sat_add (of_nat ?n) 1"
    using assms(5) unfolding MAX_FRAGMENTS_PER_MESSAGE_def word_less_nat_alt unat_sat_add un by simp
  let ?w = "\<lparr>msg_kind = k, msg_payload = p @ concat (fragments_of mid) @ q\<rparr>"
  have push: "asm_push (a\<lparr>in_progress := Some ?m\<rparr>) \<lparr>opcode = Continuation, fin = True, payload = q\<rparr> = (a, finish ?w)"
    using assms(1,4) n by (simp add: push_cases push_continuation_def Let_def del: of_nat_Suc of_nat_add)
  have "if k = Text \<and> \<not> from_utf8_ok (msg_payload ?w) then \<exists>e. finish ?w = Inl e \<and> error_close_code e = 1007
     else finish ?w = Inr (Complete ?w)"
    using from_utf8_error_None [of "msg_payload ?w"]
    by (auto simp: finish_def as_text_def split: option.splits sum.splits)
  then show ?thesis unfolding run push by (simp add: Let_def)
qed

text \<open>A character split across two fragments with a ping in between.\<close>

theorem fragmented_message_witness:
  "snd (asm_push (run asm_step assembler_new
      (\<lparr>opcode = Text, fin = False, payload = [0xC3]\<rparr> # [\<lparr>opcode = Ping, fin = True, payload = []\<rparr>]))
      \<lparr>opcode = Continuation, fin = True, payload = [0xA9]\<rparr>) =
    Inr (Complete \<lparr>msg_kind = Text, msg_payload = [0xC3, 0xA9]\<rparr>)"
proof -
  have "from_utf8_ok [0xC3, 0xA9]" by (simp add: from_utf8_ok_def is_cont_def)
  then show ?thesis
    using fragmented_message [of assembler_new Text "[\<lparr>opcode = Ping, fin = True, payload = []\<rparr>]" "[0xC3]" "[0xA9]"]
    by (simp add: assembler_new_def middle_def fragments_of_def MAX_MESSAGE_BYTES_def split: sum.splits)
qed

end
