(* ===== verification/Conn.thy ===== *)
theory Conn
  imports QQQ_Prelude Machines
begin

text \<open>
  The connection lifecycle of \<open>qqq-serve/src/conn.rs\<close>: the keep-alive state machine of one connection and the
  per-tenant connection ledger. An \<open>Instant\<close> and a \<open>Duration\<close> are natural numbers of nanoseconds;
  \<open>saturating_duration_since\<close> is truncated subtraction. The parse error handed to \<open>on_parse_error\<close> is
  ignored by the source and not part of the call. A tenant key is any type with equality.
\<close>

section \<open>Connections\<close>

record ConnectionConfig =
  idle_timeout :: nat
  header_timeout :: nat
  max_requests :: u32
  drain_timeout :: nat

definition connection_config_default :: ConnectionConfig where
  "connection_config_default = \<lparr>idle_timeout = 75 * 10 ^ 9, header_timeout = 10 * 10 ^ 9,
     max_requests = 1000, drain_timeout = 30 * 10 ^ 9\<rparr>"

datatype CloseReason = ClientRequested | ServerRequested | IdleTimeout | HeaderTimeout | ProtocolError
  | RequestLimit | ShutdownIdle | DrainDeadline

datatype Action = ReadRequest | WriteResponse | Close CloseReason

definition is_healthy :: "CloseReason \<Rightarrow> bool" where
  "is_healthy r \<longleftrightarrow> r \<in> {ClientRequested, ServerRequested, RequestLimit, ShutdownIdle}"

record Connection =
  config :: ConnectionConfig
  idle_since :: "nat option"
  head_started :: "nat option"
  served :: u32
  client_wants_keep_alive :: bool
  draining :: bool
  drain_deadline :: "nat option"
  in_flight :: bool
  closed :: "CloseReason option"

definition conn_new :: "ConnectionConfig \<Rightarrow> nat \<Rightarrow> Connection" where
  "conn_new cfg now = \<lparr>config = cfg, idle_since = None, head_started = Some now, served = 0,
     client_wants_keep_alive = True, draining = False, drain_deadline = None, in_flight = False,
     closed = None\<rparr>"

definition is_open :: "Connection \<Rightarrow> bool" where
  "is_open c \<longleftrightarrow> closed c = None"

definition begin_request :: "Connection \<Rightarrow> nat \<Rightarrow> Connection" where
  "begin_request c now =
     (if closed c \<noteq> None then c
      else (if head_started c = None then c\<lparr>head_started := Some now\<rparr> else c)\<lparr>idle_since := None\<rparr>)"

definition on_request_parsed :: "Connection \<Rightarrow> bool \<Rightarrow> Connection" where
  "on_request_parsed c wants =
     (if closed c \<noteq> None then c
      else c\<lparr>head_started := None, in_flight := True, client_wants_keep_alive := wants\<rparr>)"

definition will_keep_alive :: "Connection \<Rightarrow> bool \<Rightarrow> bool" where
  "will_keep_alive c server_wants_close =
     (if server_wants_close \<or> \<not> client_wants_keep_alive c then False
      else if closed c \<noteq> None \<or> draining c then False
      else sat_add (served c) 1 < max_requests (config c))"

definition on_response_sent :: "Connection \<Rightarrow> nat \<Rightarrow> bool \<Rightarrow> Connection" where
  "on_response_sent c now server_wants_close =
     (if closed c \<noteq> None then c
      else
        let c1 = c\<lparr>in_flight := False, served := sat_add (served c) 1\<rparr>
        in if server_wants_close \<or> \<not> client_wants_keep_alive c1
           then c1\<lparr>closed := Some (if server_wants_close then ServerRequested else ClientRequested)\<rparr>
           else if max_requests (config c1) \<le> served c1 then c1\<lparr>closed := Some RequestLimit\<rparr>
           else if draining c1 then c1\<lparr>closed := Some ShutdownIdle\<rparr>
           else c1\<lparr>idle_since := Some now\<rparr>)"

definition on_parse_error :: "Connection \<Rightarrow> Connection" where
  "on_parse_error c =
     (if closed c \<noteq> None then c
      else c\<lparr>head_started := None, in_flight := False, closed := Some ProtocolError\<rparr>)"

definition begin_drain :: "Connection \<Rightarrow> nat \<Rightarrow> Connection" where
  "begin_drain c now =
     (let c1 = c\<lparr>draining := True, drain_deadline := Some (now + drain_timeout (config c))\<rparr>
      in if \<not> in_flight c1 \<and> closed c1 = None then c1\<lparr>closed := Some ShutdownIdle\<rparr> else c1)"

definition poll :: "Connection \<Rightarrow> nat \<Rightarrow> Action" where
  "poll c now =
     (case closed c of
        Some r \<Rightarrow> Close r
      | None \<Rightarrow>
          if (case drain_deadline c of Some d \<Rightarrow> d \<le> now | None \<Rightarrow> False) then Close DrainDeadline
          else if in_flight c then WriteResponse
          else (case head_started c of
                  Some started \<Rightarrow>
                    if header_timeout (config c) \<le> now - started then Close HeaderTimeout else ReadRequest
                | None \<Rightarrow>
                    if (case idle_since c of Some i \<Rightarrow> idle_timeout (config c) \<le> now - i | None \<Rightarrow> False)
                    then Close IdleTimeout
                    else if draining c then Close ShutdownIdle
                    else ReadRequest))"

datatype ConnCall = BeginRequest nat | RequestParsed bool | ResponseSent nat bool | ParseError | BeginDrain nat

fun conn_step :: "Connection \<Rightarrow> ConnCall \<Rightarrow> Connection" where
  "conn_step c (BeginRequest now) = begin_request c now"
| "conn_step c (RequestParsed wants) = on_request_parsed c wants"
| "conn_step c (ResponseSent now close) = on_response_sent c now close"
| "conn_step c ParseError = on_parse_error c"
| "conn_step c (BeginDrain now) = begin_drain c now"

lemmas conn_ops = begin_request_def on_request_parsed_def on_response_sent_def on_parse_error_def begin_drain_def

section \<open>The ledger\<close>

record 't ConnectionLedger =
  ceilings :: "'t \<rightharpoonup> u32"
  per_tenant :: u32
  counts :: "'t \<rightharpoonup> u32"

definition ledger_new :: "u32 \<Rightarrow> 't ConnectionLedger" where
  "ledger_new n = \<lparr>ceilings = Map.empty, per_tenant = max n 1, counts = Map.empty\<rparr>"

text \<open>\<open>collect\<close> into a map keeps the last entry of a key.\<close>

definition with_limits :: "('t \<times> u32) list \<Rightarrow> u32 \<Rightarrow> 't ConnectionLedger" where
  "with_limits cs fallback =
     \<lparr>ceilings = map_of (rev (map (\<lambda>(t, n). (t, max n 1)) cs)), per_tenant = max fallback 1, counts = Map.empty\<rparr>"

definition ceiling_for :: "'t ConnectionLedger \<Rightarrow> 't \<Rightarrow> u32" where
  "ceiling_for l t = (case ceilings l t of Some n \<Rightarrow> n | None \<Rightarrow> per_tenant l)"

definition ledger_admit :: "'t ConnectionLedger \<Rightarrow> 't \<Rightarrow> 't ConnectionLedger \<times> bool" where
  "ledger_admit l t =
     (let ceiling = (case ceilings l t of Some n \<Rightarrow> n | None \<Rightarrow> per_tenant l);
          count = (case counts l t of Some n \<Rightarrow> n | None \<Rightarrow> 0)
      in if ceiling \<le> count then (l\<lparr>counts := (counts l)(t \<mapsto> count)\<rparr>, False)
         else (l\<lparr>counts := (counts l)(t \<mapsto> count + 1)\<rparr>, True))"

definition ledger_release :: "'t ConnectionLedger \<Rightarrow> 't \<Rightarrow> 't ConnectionLedger" where
  "ledger_release l t =
     (case counts l t of
        None \<Rightarrow> l
      | Some n \<Rightarrow>
          (let n' = sat_sub n 1 in
           if n' = 0 then l\<lparr>counts := (counts l)(t := None)\<rparr> else l\<lparr>counts := (counts l)(t \<mapsto> n')\<rparr>))"

definition open_for :: "'t ConnectionLedger \<Rightarrow> 't \<Rightarrow> u32" where
  "open_for l t = (case counts l t of Some n \<Rightarrow> n | None \<Rightarrow> 0)"

definition tenants :: "'t ConnectionLedger \<Rightarrow> nat" where
  "tenants l = card (dom (counts l))"

datatype 't LedgerCall = Admit 't | Release 't

fun ledger_step :: "'t ConnectionLedger \<Rightarrow> 't LedgerCall \<Rightarrow> 't ConnectionLedger" where
  "ledger_step l (Admit t) = fst (ledger_admit l t)"
| "ledger_step l (Release t) = ledger_release l t"

section \<open>Lifecycle invariants\<close>

definition conn_inv :: "Connection \<Rightarrow> bool" where
  "conn_inv c \<longleftrightarrow>
     unat (served c) \<le> max 1 (unat (max_requests (config c))) \<and>
     (draining c \<longleftrightarrow> drain_deadline c \<noteq> None) \<and>
     (closed c = None \<longrightarrow>
        (unat (served c) = 0 \<or> unat (served c) < unat (max_requests (config c))) \<and>
        (in_flight c \<or> head_started c \<noteq> None \<or> idle_since c \<noteq> None) \<and>
        (draining c \<longrightarrow> in_flight c))"

definition closed_with :: "CloseReason \<Rightarrow> Connection \<Rightarrow> bool" where
  "closed_with r c \<longleftrightarrow> closed c = Some r"

lemma step_conn_inv: "conn_inv c \<Longrightarrow> conn_inv (conn_step c e)"
proof (cases e)
  case (ResponseSent now close)
  assume "conn_inv c"
  moreover have "unat (sat_add (served c) 1) \<le> unat (served c) + 1" by (simp add: unat_sat_add)
  ultimately show ?thesis
    using ResponseSent by (auto simp: conn_inv_def on_response_sent_def Let_def word_le_nat_alt)
qed (auto simp: conn_inv_def conn_ops Let_def)

lemma step_closed: "closed_with r c \<Longrightarrow> closed_with r (conn_step c e)"
  by (cases e) (auto simp: closed_with_def conn_ops Let_def)

interpretation conn: stable_machine conn_step conn_inv closed_with
  by unfold_locales (rule step_conn_inv, assumption, rule step_closed)

lemma conn_inv_new: "conn_inv (conn_new cfg t0)"
  by (simp add: conn_inv_def conn_new_def)

lemma conn_run: "conn_inv (run conn_step (conn_new cfg t0) cs)"
  by (rule conn.run_inv [OF conn_inv_new])

lemma step_config [simp]: "config (conn_step c e) = config c"
  by (cases e) (auto simp: conn_ops Let_def)

lemma run_config [simp]: "config (run conn_step c cs) = config c"
  by (induction cs arbitrary: c) simp_all

text \<open>The first close wins: once a connection has closed, no later sequence of calls reopens it or
  changes its reason, and every poll answers with that reason.\<close>

theorem first_close_wins:
  "case closed (run conn_step (conn_new cfg t0) cs) of
     None \<Rightarrow> True
   | Some r \<Rightarrow> closed (run conn_step (conn_new cfg t0) (cs @ later)) = Some r \<and>
       poll (run conn_step (conn_new cfg t0) (cs @ later)) now = Close r"
proof (cases "closed (run conn_step (conn_new cfg t0) cs)")
  case (Some r)
  then have "closed_with r (run conn_step (run conn_step (conn_new cfg t0) cs) later)"
    by (intro conn.run_stable [OF conn_run]) (simp add: closed_with_def)
  with Some show ?thesis by (simp add: closed_with_def poll_def)
qed simp

text \<open>The header and the lifecycle agree: the connection is open after a response exactly when
  \<open>will_keep_alive\<close> said so before it, for every state, time and response; and a connection serves at
  most its request cap.\<close>

theorem keep_alive_agrees:
  "(will_keep_alive c close \<longleftrightarrow> is_open (on_response_sent c now close)) \<and>
   unat (served (run conn_step (conn_new cfg t0) cs)) \<le> max 1 (unat (max_requests cfg))"
proof -
  have "config (run conn_step (conn_new cfg t0) cs) = cfg" by (simp add: conn_new_def)
  then have "unat (served (run conn_step (conn_new cfg t0) cs)) \<le> max 1 (unat (max_requests cfg))"
    using conn_run [of cfg t0 cs] by (simp add: conn_inv_def)
  then show ?thesis
    by (auto simp: will_keep_alive_def is_open_def on_response_sent_def Let_def not_le)
qed

lemma drained_by_response: "draining c \<Longrightarrow> \<not> is_open (on_response_sent c now close)"
  by (auto simp: is_open_def on_response_sent_def Let_def)

text \<open>C39. No connection is ungoverned. Whatever the calls so far, an open connection is either handling a
  request, or waiting for a head with the header deadline running, or idle with the idle deadline running,
  and poll closes it with the matching reason as soon as that deadline has passed and not before. A
  draining connection that is still open has a request in flight; poll closes it at the drain deadline at
  the latest and its response closes it before.\<close>

theorem every_connection_governed:
  "let c = run conn_step (conn_new cfg t0) cs in
   case closed c of Some r \<Rightarrow> poll c now = Close r
   | None \<Rightarrow>
       (if draining c then in_flight c \<and> \<not> is_open (on_response_sent c now close) \<and>
          (\<exists>d. drain_deadline c = Some d \<and> poll c now = (if d \<le> now then Close DrainDeadline else WriteResponse))
        else if in_flight c then poll c now = WriteResponse
        else (\<exists>t. (head_started c = Some t \<and>
                     poll c now = (if header_timeout cfg \<le> now - t then Close HeaderTimeout else ReadRequest)) \<or>
                  (head_started c = None \<and> idle_since c = Some t \<and>
                     poll c now = (if idle_timeout cfg \<le> now - t then Close IdleTimeout else ReadRequest))))"
proof -
  let ?c = "run conn_step (conn_new cfg t0) cs"
  have inv: "conn_inv ?c" by (rule conn_run)
  have cfg: "config ?c = cfg" by (simp add: conn_new_def)
  show ?thesis
    using inv cfg drained_by_response [of ?c now close]
    by (auto simp: Let_def conn_inv_def poll_def split: option.splits)
qed

section \<open>The ledger\<close>

definition ledger_inv :: "'t ConnectionLedger \<Rightarrow> bool" where
  "ledger_inv l \<longleftrightarrow> (\<forall>t. 1 \<le> unat (ceiling_for l t)) \<and>
     (\<forall>t n. counts l t = Some n \<longrightarrow> 1 \<le> unat n \<and> unat n \<le> unat (ceiling_for l t))"

lemma ceiling_step [simp]: "ceiling_for (ledger_step l e) t = ceiling_for l t"
  by (cases e) (auto simp: ceiling_for_def ledger_admit_def ledger_release_def Let_def split: option.splits)

lemma ceiling_run [simp]: "ceiling_for (run ledger_step l es) t = ceiling_for l t"
  by (induction es arbitrary: l) simp_all

lemma admit_open_for:
  assumes "ledger_inv l"
  shows "snd (ledger_admit l t) \<longleftrightarrow> unat (open_for l t) < unat (ceiling_for l t)"
    and "unat (open_for (fst (ledger_admit l t)) u) =
      unat (open_for l u) + (if u = t \<and> snd (ledger_admit l t) then 1 else 0)"
proof -
  show "snd (ledger_admit l t) \<longleftrightarrow> unat (open_for l t) < unat (ceiling_for l t)"
    by (auto simp: ledger_admit_def open_for_def ceiling_for_def Let_def word_le_nat_alt not_le split: option.splits)
  have "unat (n + 1) = unat n + 1" if "n < (m :: u32)" for n m
    using that unat_lt_len [of m] by (simp add: word_less_nat_alt unat_word_ariths)
  then show "unat (open_for (fst (ledger_admit l t)) u) =
      unat (open_for l u) + (if u = t \<and> snd (ledger_admit l t) then 1 else 0)"
    by (auto simp: ledger_admit_def open_for_def Let_def not_le split: option.splits)
qed

lemma release_open_for: "unat (open_for (ledger_release l t) u) = unat (open_for l u) - (if u = t then 1 else 0)"
proof -
  have "unat n - 1 = 0" if "sat_sub n 1 = (0 :: u32)" for n
    using that unat_sat_sub [of n 1] by simp
  then show ?thesis
    by (auto simp: ledger_release_def open_for_def Let_def unat_sat_sub split: option.splits)
qed

lemma counts_admit: "counts (fst (ledger_admit l t)) =
    (counts l)(t \<mapsto> (if ceiling_for l t \<le> open_for l t then open_for l t else open_for l t + 1))"
  by (simp add: ledger_admit_def ceiling_for_def open_for_def Let_def)

lemma counts_release: "counts (ledger_release l t) =
    (counts l)(t := (if unat (open_for l t) \<le> 1 then None else Some (sat_sub (open_for l t) 1)))"
proof -
  have "sat_sub n 1 = (0 :: u32) \<longleftrightarrow> unat n \<le> 1" for n by (simp add: word_unat_eq_iff unat_sat_sub)
  then show ?thesis by (auto simp: ledger_release_def open_for_def Let_def split: option.splits)
qed

lemma open_for_le: "ledger_inv l \<Longrightarrow> unat (open_for l t) \<le> unat (ceiling_for l t)"
  by (auto simp: ledger_inv_def open_for_def split: option.splits)

lemma step_ledger_inv: "ledger_inv l \<Longrightarrow> ledger_inv (ledger_step l e)"
proof -
  assume inv: "ledger_inv l"
  have "1 \<le> unat n \<and> unat n \<le> unat (ceiling_for l u)" if n: "counts (ledger_step l e) u = Some n" for u n
  proof (cases e)
    case (Admit t)
    have "unat (open_for l t + 1) = unat (open_for l t) + 1" if "\<not> ceiling_for l t \<le> open_for l t"
      using that unat_lt_len [of "ceiling_for l t"] by (simp add: word_le_nat_alt unat_word_ariths)
    then show ?thesis
      using n inv open_for_le [OF inv, of t] Admit
      by (auto simp: counts_admit ledger_inv_def word_le_nat_alt split: if_splits) metis
  next
    case (Release t)
    then show ?thesis
      using n inv open_for_le [OF inv, of t]
      by (auto simp: counts_release ledger_inv_def unat_sat_sub split: if_splits)
  qed
  with inv show ?thesis by (simp add: ledger_inv_def)
qed

interpretation ledger: invariant_machine ledger_step ledger_inv
  by unfold_locales (rule step_ledger_inv)

lemma ledger_inv_limits: "ledger_inv (with_limits cs fallback)"
proof -
  have "1 \<le> unat (max n (1 :: u32))" for n by (simp add: max_def word_le_nat_alt)
  moreover have "map_of (rev (map (\<lambda>(t, n). (t, max n 1)) cs)) t = Some m \<Longrightarrow> 1 \<le> unat m" for t m
    by (auto dest!: map_of_SomeD simp: max_def word_le_nat_alt)
  ultimately show ?thesis by (auto simp: ledger_inv_def with_limits_def ceiling_for_def split: option.splits)
qed

text \<open>C40. The per-tenant ceiling holds and tenants do not interfere: after any admissions and releases a
  tenant holds at most its ceiling (its own if the manifest names it, else the fallback, never zero), an
  admission succeeds exactly below the ceiling and counts one connection for that tenant and none for any
  other, a release gives one back, and a tenant holding nothing has no entry in the map.\<close>

theorem ledger_ceiling:
  "let l = run ledger_step (with_limits cs fallback) es in
   1 \<le> unat (ceiling_for l t) \<and> unat (open_for l t) \<le> unat (ceiling_for l t) \<and>
   ceiling_for l t = ceiling_for (with_limits cs fallback) t \<and>
   (snd (ledger_admit l t) \<longleftrightarrow> unat (open_for l t) < unat (ceiling_for l t)) \<and>
   unat (open_for (fst (ledger_admit l t)) u) =
     unat (open_for l u) + (if u = t \<and> snd (ledger_admit l t) then 1 else 0) \<and>
   unat (open_for (ledger_release l t) u) = unat (open_for l u) - (if u = t then 1 else 0) \<and>
   (open_for l t = 0 \<longleftrightarrow> t \<notin> dom (counts l))"
proof -
  let ?l = "run ledger_step (with_limits cs fallback) es"
  have inv: "ledger_inv ?l" by (rule ledger.run_inv [OF ledger_inv_limits])
  have "open_for ?l t = 0 \<longleftrightarrow> t \<notin> dom (counts ?l)"
    using inv by (force simp: ledger_inv_def open_for_def split: option.splits)
  moreover have "1 \<le> unat (ceiling_for ?l t)" "unat (open_for ?l t) \<le> unat (ceiling_for ?l t)"
    using inv by (auto simp: ledger_inv_def open_for_def split: option.splits)
  ultimately show ?thesis
    unfolding Let_def
    using admit_open_for(1) [OF inv, of t] admit_open_for(2) [OF inv, of t u] release_open_for [of ?l t u]
    by - (intro conjI; (assumption | rule ceiling_run))
qed

end
