(* ===== verification/BTree.thy ===== *)
theory BTree
  imports QQQ_Prelude "HOL-Library.Multiset" "HOL-Library.List_Lexorder"
begin

text \<open>
  \<open>BTreeMap<K, V>\<close> of the Rust standard library as an association list in the order of its keys. Code points compare
  as the UTF-8 bytes do, so for strings the lexicographic order is that of Rust's \<open>str\<close>. The queue, the generation
  registry and the route table iterate over such maps, so the order is part of the model.
\<close>

text \<open>\<open>BTreeMap::insert\<close> and \<open>BTreeMap::remove\<close> on the ordered association list; \<open>get\<close> is \<open>map_of\<close>.\<close>

fun btree_insert :: "'k :: linorder \<Rightarrow> 'v \<Rightarrow> ('k \<times> 'v) list \<Rightarrow> ('k \<times> 'v) list" where
  "btree_insert k v [] = [(k, v)]"
| "btree_insert k v ((k', v') # m) =
     (if k < k' then (k, v) # (k', v') # m
      else if k = k' then (k, v) # m
      else (k', v') # btree_insert k v m)"

definition btree_remove :: "'k :: linorder \<Rightarrow> ('k \<times> 'v) list \<Rightarrow> ('k \<times> 'v) list" where
  "btree_remove k m = filter (\<lambda>kv. fst kv \<noteq> k) m"

text \<open>The order invariant of a \<open>BTreeMap\<close>.\<close>

definition btree_ordered :: "('k :: linorder \<times> 'v) list \<Rightarrow> bool" where
  "btree_ordered m \<longleftrightarrow> sorted_wrt (\<lambda>x y. fst x < fst y) m"

lemma set_btree_insert: "set (btree_insert k v m) \<subseteq> insert (k, v) (set m)"
  by (induction k v m rule: btree_insert.induct) auto

lemma keys_btree_insert: "fst ` set (btree_insert k v m) = insert k (fst ` set m)"
  by (induction k v m rule: btree_insert.induct) auto

lemma map_of_btree_insert [simp]: "map_of (btree_insert k v m) = (map_of m)(k \<mapsto> v)"
  by (induction k v m rule: btree_insert.induct) (auto simp: fun_eq_iff)

lemma length_btree_insert_le: "length (btree_insert k v m) \<le> Suc (length m)"
  by (induction k v m rule: btree_insert.induct) auto

lemma btree_ordered_distinct: "btree_ordered m \<Longrightarrow> distinct (map fst m)"
  by (induction m) (force simp: btree_ordered_def)+

lemma btree_ordered_insert: "btree_ordered m \<Longrightarrow> btree_ordered (btree_insert k v m)"
proof (induction k v m rule: btree_insert.induct)
  case (2 k v k' v' m)
  have "\<forall>x \<in> set (btree_insert k v m). k' < fst x" if "k' < k" "\<forall>x \<in> set m. k' < fst x"
    using that set_btree_insert [of k v m] by fastforce
  with 2 show ?case by (auto simp: btree_ordered_def intro: less_trans)
qed (simp add: btree_ordered_def)

lemma btree_ordered_filter: "btree_ordered m \<Longrightarrow> btree_ordered (filter P m)"
  by (simp add: btree_ordered_def sorted_wrt_filter)

lemma mset_btree_insert: "k \<notin> fst ` set m \<Longrightarrow> mset (btree_insert k v m) = add_mset (k, v) (mset m)"
  by (induction k v m rule: btree_insert.induct) auto

lemma length_btree_insert: "k \<notin> fst ` set m \<Longrightarrow> length (btree_insert k v m) = Suc (length m)"
  using mset_btree_insert [of k m v] by (metis size_add_mset size_mset)

lemma btree_remove_absent: "k \<notin> fst ` set m \<Longrightarrow> btree_remove k m = m"
  by (auto simp: btree_remove_def filter_id_conv)

lemma mset_btree_remove:
  "distinct (map fst m) \<Longrightarrow> map_of m k = Some v \<Longrightarrow> mset m = add_mset (k, v) (mset (btree_remove k m))"
proof (induction m)
  case (Cons kv m)
  show ?case
  proof (cases "fst kv = k")
    case True
    with Cons.prems have "btree_remove k m = m" "kv = (k, v)"
      by (auto intro!: btree_remove_absent simp: prod_eq_iff)
    with True show ?thesis by (simp add: btree_remove_def)
  next
    case False
    with Cons show ?thesis by (cases kv) (simp add: btree_remove_def)
  qed
qed simp

lemma remove_all: "foldl (\<lambda>m (i, _). btree_remove i m) m ex = filter (\<lambda>kv. fst kv \<notin> fst ` set ex) m"
proof (induction ex arbitrary: m)
  case (Cons kv ex)
  then show ?case by (cases kv) (auto simp: btree_remove_def intro: filter_cong)
qed simp

lemma remove_keys_of:
  "distinct (map fst m) \<Longrightarrow> filter (\<lambda>kv. fst kv \<notin> fst ` set (filter P m)) m = filter (\<lambda>kv. \<not> P kv) m"
proof (rule filter_cong)
  fix kv assume d: "distinct (map fst m)" and kv: "kv \<in> set m"
  have "kv' = kv" if "kv' \<in> set m" "fst kv' = fst kv" for kv'
    using d kv that by (meson distinct_map inj_onD)
  then have "fst kv \<in> fst ` set (filter P m) \<longleftrightarrow> P kv"
    using kv by (metis (no_types, lifting) imageE imageI mem_Collect_eq set_filter)
  then show "(fst kv \<notin> fst ` set (filter P m)) \<longleftrightarrow> \<not> P kv" by simp
qed simp

section \<open>The contract of a keyed map\<close>

text \<open>What a client of \<open>BTreeMap\<close> relies on: lookup after insertion and removal, and the map's own invariant.\<close>

locale keyed_map =
  fixes look :: "'m \<Rightarrow> 'k \<Rightarrow> 'v option"
    and ins :: "'k \<Rightarrow> 'v \<Rightarrow> 'm \<Rightarrow> 'm"
    and del :: "'k \<Rightarrow> 'm \<Rightarrow> 'm"
    and wf :: "'m \<Rightarrow> bool"
  assumes look_ins: "look (ins k v m) = (look m)(k \<mapsto> v)"
    and look_del: "look (del k m) = (look m)(k := None)"
    and wf_ins: "wf m \<Longrightarrow> wf (ins k v m)"
    and wf_del: "wf m \<Longrightarrow> wf (del k m)"
begin

text \<open>A property of every stored value survives an insertion of a value that has it, and any removal.\<close>

definition values_sat :: "('k \<Rightarrow> 'v \<Rightarrow> bool) \<Rightarrow> 'm \<Rightarrow> bool" where
  "values_sat P m \<longleftrightarrow> (\<forall>k v. look m k = Some v \<longrightarrow> P k v)"

lemma values_ins: "values_sat P m \<Longrightarrow> P k v \<Longrightarrow> values_sat P (ins k v m)"
  by (simp add: values_sat_def look_ins)

lemma values_del: "values_sat P m \<Longrightarrow> values_sat P (del k m)"
  by (simp add: values_sat_def look_del)

lemma values_mono: "values_sat P m \<Longrightarrow> (\<And>k v. P k v \<Longrightarrow> Q k v) \<Longrightarrow> values_sat Q m"
  by (auto simp: values_sat_def)

lemma values_at: "values_sat P m \<Longrightarrow> look m k = Some v \<Longrightarrow> P k v"
  by (simp add: values_sat_def)

end

lemma map_of_btree_remove [simp]: "map_of (btree_remove k m) = (map_of m)(k := None)"
  by (induction m) (auto simp: btree_remove_def fun_eq_iff)

lemma btree_ordered_remove: "btree_ordered m \<Longrightarrow> btree_ordered (btree_remove k m)"
  by (simp add: btree_remove_def btree_ordered_filter)

interpretation btree: keyed_map map_of btree_insert btree_remove btree_ordered
  by unfold_locales (simp_all add: btree_ordered_insert btree_ordered_remove)

end
