(* ===== verification/Queue.thy ===== *)
theory Queue
  imports Manifest Errors Machines Utf8 BTree
begin

text \<open>
  The in-memory message queue of \<open>qqq-host/src/host_queue.rs\<close>: publish, lease, acknowledge, reject and the
  return of expired leases. The map of leased messages is a \<open>BTreeMap\<close> keyed by delivery id: an association
  list kept in the lexicographic order of its keys. The error type is the \<open>queue-error\<close> variant of the WIT
  interface. Times are monotonic nanoseconds (\<open>u64\<close>).
\<close>

section \<open>Data\<close>

datatype QueueError =
    NotGranted | QueueNotConfigured | MessageTooLarge | QuotaExceeded | BackendFailed ustr | LeaseExpired

definition MAX_QUEUE_MESSAGE_BYTES :: nat where "MAX_QUEUE_MESSAGE_BYTES = 64 * 1024"
definition MAX_DELIVERY_ID_BYTES :: nat where "MAX_DELIVERY_ID_BYTES = 256 + 1 + 20"
definition MAX_QUEUE_DEPTH :: nat where "MAX_QUEUE_DEPTH = 1024"
definition QUEUE_LEASE_SECS :: u64 where "QUEUE_LEASE_SECS = 30"

record QueueConfig =
  config_queues :: "(ustr \<times> QueueDirection) list"

definition allows_publish :: "QueueConfig \<Rightarrow> ustr \<Rightarrow> bool" where
  "allows_publish c q = list_ex (\<lambda>(nm, d). nm = q \<and> d = Publish) (config_queues c)"

definition allows_subscribe :: "QueueConfig \<Rightarrow> ustr \<Rightarrow> bool" where
  "allows_subscribe c q = list_ex (\<lambda>(nm, d). nm = q \<and> d = Subscribe) (config_queues c)"

record QueuedMessage =
  qm_id :: ustr
  qm_body :: "u8 list"
  qm_deliveries :: u32

record InFlight =
  fl_queue :: ustr
  fl_body :: "u8 list"
  fl_deliveries :: u32
  fl_deadline :: u64

record QueueState =
  pending :: "QueuedMessage list"
  in_flight :: "(ustr \<times> InFlight) list"

record QueueBackend =
  queues :: "ustr \<rightharpoonup> QueueState"
  next_id :: u64

record Delivery =
  del_id :: ustr
  del_body :: "u8 list"
  delivery_count :: u32

definition backend_new :: QueueBackend where
  "backend_new = \<lparr>queues = Map.empty, next_id = 0\<rparr>"

definition default_state :: QueueState where
  "default_state = \<lparr>pending = [], in_flight = []\<rparr>"

definition delivery_id :: "ustr \<Rightarrow> nat \<Rightarrow> ustr" where
  "delivery_id q n = q @ lit '':'' @ show_padded 20 n"

section \<open>Operations\<close>

definition state_for :: "QueueBackend \<Rightarrow> ustr \<Rightarrow> QueueState" where
  "state_for b q = (case queues b q of Some st \<Rightarrow> st | None \<Rightarrow> default_state)"

definition publish :: "QueueBackend \<Rightarrow> ustr \<Rightarrow> u8 list \<Rightarrow> QueueBackend \<times> (QueueError + ustr)" where
  "publish b q body =
     (if MAX_QUEUE_MESSAGE_BYTES < length body then (b, Inl MessageTooLarge)
      else
        let st = state_for b q; b1 = b\<lparr>queues := (queues b)(q \<mapsto> st)\<rparr>
        in if MAX_QUEUE_DEPTH \<le> length (pending st) + length (in_flight st) then (b1, Inl QuotaExceeded)
           else
             let n = next_id b + 1; i = delivery_id q (unat n)
             in (b\<lparr>next_id := n, queues := (queues b)(q \<mapsto>
                   st\<lparr>pending := pending st @ [\<lparr>qm_id = i, qm_body = body, qm_deliveries = 0\<rparr>]\<rparr>)\<rparr>,
                 Inr i))"

text \<open>The loop of \<open>reap_expired\<close> that mints a fresh id for every expired lease.\<close>

fun mint_fresh :: "u64 \<Rightarrow> (ustr \<times> InFlight) list \<Rightarrow> u64 \<times> QueuedMessage list" where
  "mint_fresh n [] = (n, [])"
| "mint_fresh n ((_, f) # fls) =
     (let (n', ms) = mint_fresh (n + 1) fls
      in (n', \<lparr>qm_id = delivery_id (fl_queue f) (unat (n + 1)), qm_body = fl_body f,
               qm_deliveries = fl_deliveries f\<rparr> # ms))"

definition reap_expired :: "QueueBackend \<Rightarrow> ustr \<Rightarrow> u64 \<Rightarrow> QueueBackend" where
  "reap_expired b q now =
     (case queues b q of
        None \<Rightarrow> b
      | Some st \<Rightarrow>
          let expired = filter (\<lambda>(_, f). fl_deadline f \<le> now) (in_flight st)
          in if expired = [] then b
             else
               let (n, fresh) = mint_fresh (next_id b) expired
               in b\<lparr>next_id := n, queues := (queues b)(q \<mapsto>
                    \<lparr>pending = foldl (\<lambda>p m. m # p) (pending st) (rev fresh),
                     in_flight = foldl (\<lambda>m (i, _). btree_remove i m) (in_flight st) expired\<rparr>)\<rparr>)"

definition receive :: "QueueBackend \<Rightarrow> ustr \<Rightarrow> u64 \<Rightarrow> QueueBackend \<times> Delivery option" where
  "receive b0 q now =
     (let b = reap_expired b0 q now in
      case queues b q of
        None \<Rightarrow> (b, None)
      | Some st \<Rightarrow>
          (case pending st of
             [] \<Rightarrow> (b, None)
           | m # rest \<Rightarrow>
               let d = sat_add (qm_deliveries m) 1;
                   f = \<lparr>fl_queue = q, fl_body = qm_body m, fl_deliveries = d,
                        fl_deadline = sat_add now (sat_mul QUEUE_LEASE_SECS 1000000000)\<rparr>
               in (b\<lparr>queues := (queues b)(q \<mapsto>
                     \<lparr>pending = rest, in_flight = btree_insert (qm_id m) f (in_flight st)\<rparr>)\<rparr>,
                   Some \<lparr>del_id = qm_id m, del_body = qm_body m, delivery_count = d\<rparr>)))"

text \<open>The lease an id names: \<open>in_flight.get(id)\<close> with the queue check.\<close>

definition lease_of :: "QueueBackend \<Rightarrow> ustr \<Rightarrow> ustr \<Rightarrow> (QueueState \<times> InFlight) option" where
  "lease_of b q i =
     (case queues b q of
        None \<Rightarrow> None
      | Some st \<Rightarrow>
          (case map_of (in_flight st) i of
             None \<Rightarrow> None
           | Some f \<Rightarrow> if fl_queue f = q then Some (st, f) else None))"

definition acknowledge :: "QueueBackend \<Rightarrow> ustr \<Rightarrow> ustr \<Rightarrow> u64 \<Rightarrow> QueueBackend \<times> (QueueError + unit)" where
  "acknowledge b0 q i now =
     (if MAX_DELIVERY_ID_BYTES < length (utf8_bytes i) then (b0, Inl LeaseExpired)
      else
        let b = reap_expired b0 q now in
        case lease_of b q i of
          None \<Rightarrow> (b, Inl LeaseExpired)
        | Some (st, f) \<Rightarrow>
            (b\<lparr>queues := (queues b)(q \<mapsto> st\<lparr>in_flight := btree_remove i (in_flight st)\<rparr>)\<rparr>, Inr ()))"

definition reject :: "QueueBackend \<Rightarrow> ustr \<Rightarrow> ustr \<Rightarrow> u64 \<Rightarrow> QueueBackend \<times> (QueueError + unit)" where
  "reject b0 q i now =
     (if MAX_DELIVERY_ID_BYTES < length (utf8_bytes i) then (b0, Inl LeaseExpired)
      else
        let b = reap_expired b0 q now in
        case lease_of b q i of
          None \<Rightarrow> (b, Inl LeaseExpired)
        | Some (st, f) \<Rightarrow>
            (b\<lparr>queues := (queues b)(q \<mapsto>
               \<lparr>pending = \<lparr>qm_id = i, qm_body = fl_body f, qm_deliveries = fl_deliveries f\<rparr> # pending st,
                in_flight = btree_remove i (in_flight st)\<rparr>)\<rparr>, Inr ()))"

definition pending_count :: "QueueBackend \<Rightarrow> ustr \<Rightarrow> nat" where
  "pending_count b q = (case queues b q of None \<Rightarrow> 0 | Some st \<Rightarrow> length (pending st))"

definition in_flight_count :: "QueueBackend \<Rightarrow> ustr \<Rightarrow> nat" where
  "in_flight_count b q = (case queues b q of None \<Rightarrow> 0 | Some st \<Rightarrow> length (in_flight st))"

datatype QueueCall = Pub ustr "u8 list" | Recv ustr u64 | Ack ustr ustr u64 | Rej ustr ustr u64

fun queue_step :: "QueueBackend \<Rightarrow> QueueCall \<Rightarrow> QueueBackend" where
  "queue_step b (Pub q body) = fst (publish b q body)"
| "queue_step b (Recv q now) = fst (receive b q now)"
| "queue_step b (Ack q i now) = fst (acknowledge b q i now)"
| "queue_step b (Rej q i now) = fst (reject b q i now)"

section \<open>Delivery ids\<close>

lemma digits_val_zeros: "digits_val (replicate k 48 @ s) = digits_val s"
proof -
  have "foldl (\<lambda>a d. a * 10 + (d - 48)) 0 (replicate k (48 :: nat)) = 0" by (induction k) simp_all
  then show ?thesis by (simp add: digits_val_def)
qed

lemma digits_val_padded [simp]: "digits_val (show_padded w n) = n"
  by (simp add: show_padded_def digits_val_zeros)

lemma delivery_id_inj: "delivery_id q m = delivery_id q n \<longleftrightarrow> m = n"
  by (simp add: delivery_id_def) (metis digits_val_padded)

section \<open>What a queue holds\<close>

definition held_ids :: "QueueState \<Rightarrow> ustr list" where
  "held_ids st = map qm_id (pending st) @ map fst (in_flight st)"

definition bodies :: "QueueState \<Rightarrow> u8 list multiset" where
  "bodies st = mset (map qm_body (pending st)) + mset (map (fl_body \<circ> snd) (in_flight st))"

definition contents :: "QueueBackend \<Rightarrow> ustr \<Rightarrow> u8 list multiset" where
  "contents b q = (case queues b q of None \<Rightarrow> {#} | Some st \<Rightarrow> bodies st)"

definition state_ok :: "ustr \<Rightarrow> nat \<Rightarrow> QueueState \<Rightarrow> bool" where
  "state_ok q n st \<longleftrightarrow> distinct (held_ids st) \<and> set (held_ids st) \<subseteq> delivery_id q ` {..n} \<and>
     length (held_ids st) \<le> 1024 \<and> list_all (\<lambda>(_, f). fl_queue f = q) (in_flight st)"

definition backend_ok :: "QueueBackend \<Rightarrow> bool" where
  "backend_ok b \<longleftrightarrow> (\<forall>q st. queues b q = Some st \<longrightarrow> state_ok q (unat (next_id b)) st)"

lemma state_ok_mono: "state_ok q n st \<Longrightarrow> n \<le> m \<Longrightarrow> state_ok q m st"
  unfolding state_ok_def by fastforce

lemma fresh_id: "state_ok q n st \<Longrightarrow> n < m \<Longrightarrow> delivery_id q m \<notin> set (held_ids st)"
  unfolding state_ok_def by (auto simp: delivery_id_inj dest!: subsetD)

lemma foldl_push_front: "foldl (\<lambda>p m. m # p) p (rev fresh) = fresh @ p"
  by (induction fresh) simp_all

lemma mint_fresh_spec:
  "mint_fresh n ex = (n', ms) \<Longrightarrow> list_all (\<lambda>(_, f). fl_queue f = q) ex \<Longrightarrow> unat n + length ex < 2 ^ 64 \<Longrightarrow>
     unat n' = unat n + length ex \<and> map qm_body ms = map (fl_body \<circ> snd) ex \<and>
     map qm_id ms = map (delivery_id q) [Suc (unat n)..<Suc (unat n + length ex)]"
proof (induction n ex arbitrary: n' ms rule: mint_fresh.induct)
  case (2 n i f fls)
  obtain k ms' where rec: "mint_fresh (n + 1) fls = (k, ms')" by fastforce
  have "unat (n + 1) = Suc (unat n)" using 2(4) by (simp add: unat_word_ariths)
  with 2 rec show ?case by (auto simp: upt_conv_Cons simp del: upt_Suc)
qed simp

lemma mint_fresh_bodies: "map qm_body (snd (mint_fresh n ex)) = map (fl_body \<circ> snd) ex"
  by (induction n ex rule: mint_fresh.induct) (auto simp: case_prod_unfold Let_def)

section \<open>Returning expired leases\<close>

definition live_part :: "u64 \<Rightarrow> QueueState \<Rightarrow> (ustr \<times> InFlight) list" where
  "live_part now st = filter (\<lambda>(_, f). \<not> fl_deadline f \<le> now) (in_flight st)"

lemma reap_form:
  assumes dist: "distinct (map fst (in_flight st))" and st: "queues b q = Some st"
    and mint: "mint_fresh (next_id b) (filter (\<lambda>(_, f). fl_deadline f \<le> now) (in_flight st)) = (k, fresh)"
  shows "reap_expired b q now = b\<lparr>next_id := k, queues := (queues b)(q \<mapsto>
      \<lparr>pending = fresh @ pending st, in_flight = live_part now st\<rparr>)\<rparr>"
    "length fresh + length (live_part now st) = length (in_flight st)"
    "map qm_body fresh = map (fl_body \<circ> snd) (filter (\<lambda>(_, f). fl_deadline f \<le> now) (in_flight st))"
proof -
  let ?ex = "filter (\<lambda>(_, f). fl_deadline f \<le> now) (in_flight st)"
  show bodies: "map qm_body fresh = map (fl_body \<circ> snd) ?ex"
    using mint_fresh_bodies [of "next_id b" ?ex] by (simp add: mint)
  then have "length fresh = length ?ex" by (metis length_map)
  then show "length fresh + length (live_part now st) = length (in_flight st)"
    using sum_length_filter_compl [of "\<lambda>(_, f). fl_deadline f \<le> now" "in_flight st"]
    by (simp add: live_part_def case_prod_unfold)
  have rem: "filter (\<lambda>kv. fst kv \<notin> fst ` set ?ex) (in_flight st) = live_part now st"
    using remove_keys_of [OF dist, of "\<lambda>(_, f). fl_deadline f \<le> now"]
    by (simp add: live_part_def case_prod_unfold)
  show "reap_expired b q now = b\<lparr>next_id := k, queues := (queues b)(q \<mapsto>
      \<lparr>pending = fresh @ pending st, in_flight = live_part now st\<rparr>)\<rparr>"
  proof (cases "?ex = []")
    case True
    then have "live_part now st = in_flight st"
      by (simp add: live_part_def filter_empty_conv case_prod_unfold filter_id_conv)
    moreover have "k = next_id b" "fresh = []" using mint by (simp_all add: True)
    ultimately show ?thesis using True st by (simp add: reap_expired_def fun_upd_idem)
  next
    case False
    then show ?thesis
      using st by (simp add: reap_expired_def Let_def mint foldl_push_front remove_all rem del: set_filter)
  qed
qed

lemma reap_state:
  assumes ok: "backend_ok b" and st: "queues b q = Some st" and room: "unat (next_id b) + 1024 < 2 ^ 64"
  obtains fresh and k where "reap_expired b q now =
      b\<lparr>next_id := k, queues := (queues b)(q \<mapsto> \<lparr>pending = fresh @ pending st, in_flight = live_part now st\<rparr>)\<rparr>"
    "unat k = unat (next_id b) + length fresh" "length fresh + length (live_part now st) = length (in_flight st)"
    "map qm_id fresh = map (delivery_id q) [Suc (unat (next_id b))..<Suc (unat k)]"
    "mset (map qm_body fresh) + mset (map (fl_body \<circ> snd) (live_part now st)) = mset (map (fl_body \<circ> snd) (in_flight st))"
proof -
  let ?ex = "filter (\<lambda>(_, f). fl_deadline f \<le> now) (in_flight st)"
  have sok: "state_ok q (unat (next_id b)) st" using ok st by (simp add: backend_ok_def)
  then have dist: "distinct (map fst (in_flight st))" by (simp add: state_ok_def held_ids_def)
  obtain k fresh where mint: "mint_fresh (next_id b) ?ex = (k, fresh)" by fastforce
  note form = reap_form [OF dist st mint]
  have ms: "mset (map (fl_body \<circ> snd) ?ex) + mset (map (fl_body \<circ> snd) (live_part now st)) =
      mset (map (fl_body \<circ> snd) (in_flight st))"
    by (simp add: live_part_def case_prod_unfold flip: image_mset_union mset_filter)
      (simp add: multiset_partition [symmetric])
  have "list_all (\<lambda>(_, f). fl_queue f = q) ?ex" using sok by (auto simp: state_ok_def list_all_iff)
  moreover have "length (in_flight st) \<le> 1024" using sok by (simp add: state_ok_def held_ids_def)
  then have "length ?ex \<le> 1024" using length_filter_le order_trans by blast
  ultimately have spec: "unat k = unat (next_id b) + length ?ex"
      "map qm_id fresh = map (delivery_id q) [Suc (unat (next_id b))..<Suc (unat (next_id b) + length ?ex)]"
    using mint_fresh_spec [OF mint] room by auto
  have "length fresh = length ?ex" using form(3) by (metis length_map)
  with form spec ms show ?thesis by (intro that [of fresh k]) simp_all
qed

section \<open>Bounded memory, on every run\<close>

definition state_small :: "QueueState \<Rightarrow> bool" where
  "state_small st \<longleftrightarrow> btree_ordered (in_flight st) \<and> length (pending st) + length (in_flight st) \<le> 1024 \<and>
     list_all (\<lambda>m. length (qm_body m) \<le> 65536) (pending st) \<and>
     list_all (\<lambda>(_, f). length (fl_body f) \<le> 65536) (in_flight st)"

definition backend_small :: "QueueBackend \<Rightarrow> bool" where
  "backend_small b \<longleftrightarrow> (\<forall>q st. queues b q = Some st \<longrightarrow> state_small st)"

lemma backend_small_upd:
  "backend_small b \<Longrightarrow> state_small st \<Longrightarrow> backend_small (b\<lparr>next_id := n, queues := (queues b)(q \<mapsto> st)\<rparr>)"
  "backend_small b \<Longrightarrow> state_small st \<Longrightarrow> backend_small (b\<lparr>queues := (queues b)(q \<mapsto> st)\<rparr>)"
  by (auto simp: backend_small_def split: if_splits)

lemma reap_small_state:
  assumes "state_small st" "queues b q = Some st"
  shows "\<exists>n st'. reap_expired b q now = b\<lparr>next_id := n, queues := (queues b)(q \<mapsto> st')\<rparr> \<and> state_small st'"
proof -
  let ?ex = "filter (\<lambda>(_, f). fl_deadline f \<le> now) (in_flight st)"
  obtain n fresh where mint: "mint_fresh (next_id b) ?ex = (n, fresh)" by fastforce
  have "distinct (map fst (in_flight st))" using assms(1) by (simp add: state_small_def btree_ordered_distinct)
  note form = reap_form [OF this assms(2) mint]
  have "list_all (\<lambda>l. length l \<le> 65536) (map qm_body fresh)"
    unfolding form(3) using assms(1) by (auto simp: state_small_def list_all_iff)
  then have "list_all (\<lambda>m. length (qm_body m) \<le> 65536) fresh" by (simp add: list_all_iff)
  moreover have "list_all (\<lambda>(_, f). length (fl_body f) \<le> 65536) (live_part now st)"
    using assms(1) by (auto simp: state_small_def list_all_iff live_part_def)
  ultimately have "state_small \<lparr>pending = fresh @ pending st, in_flight = live_part now st\<rparr>"
    using assms(1) form(2) by (simp add: state_small_def live_part_def btree_ordered_filter)
  with form(1) show ?thesis by blast
qed

lemma reap_small: "backend_small b \<Longrightarrow> backend_small (reap_expired b q now)"
proof (cases "queues b q")
  case None
  moreover assume "backend_small b"
  ultimately show ?thesis by (simp add: reap_expired_def)
next
  case (Some st)
  moreover assume "backend_small b"
  ultimately show ?thesis
    using reap_small_state [of st b q now] backend_small_upd(1) by (metis backend_small_def)
qed

lemma backend_smallD: "backend_small b \<Longrightarrow> queues b q = Some st \<Longrightarrow> state_small st"
  by (simp add: backend_small_def)

lemma lease_of_Some: "lease_of b q i = Some (st, f) \<longleftrightarrow>
    queues b q = Some st \<and> map_of (in_flight st) i = Some f \<and> fl_queue f = q"
  by (auto simp: lease_of_def split: option.splits if_splits)

lemma publish_small: "backend_small b \<Longrightarrow> backend_small (fst (publish b q body))"
  by (auto simp: publish_def Let_def state_for_def default_state_def state_small_def btree_ordered_def
      MAX_QUEUE_MESSAGE_BYTES_def MAX_QUEUE_DEPTH_def dest: backend_smallD
      intro!: backend_small_upd split: option.splits)

lemma receive_small: "backend_small b \<Longrightarrow> backend_small (fst (receive b q now))"
proof -
  assume "backend_small b"
  then have r: "backend_small (reap_expired b q now)" by (rule reap_small)
  have "state_small \<lparr>pending = rest, in_flight = btree_insert (qm_id m) f (in_flight st)\<rparr>"
    if "state_small st" "pending st = m # rest" "fl_body f = qm_body m" for st m rest f
    using that length_btree_insert_le [of "qm_id m" f "in_flight st"] set_btree_insert [of "qm_id m" f "in_flight st"]
    by (fastforce simp: state_small_def list_all_iff intro: btree_ordered_insert)
  with r show ?thesis
    by (auto simp: receive_def Let_def dest: backend_smallD intro!: backend_small_upd split: option.splits list.splits)
qed

lemma drop_lease_small:
  assumes "state_small st" "map_of (in_flight st) i = Some f"
  shows "state_small (st\<lparr>in_flight := btree_remove i (in_flight st)\<rparr>)"
    "state_small \<lparr>pending = \<lparr>qm_id = i, qm_body = fl_body f, qm_deliveries = d\<rparr> # pending st,
       in_flight = btree_remove i (in_flight st)\<rparr>"
proof -
  have "mset (in_flight st) = add_mset (i, f) (mset (btree_remove i (in_flight st)))"
    using assms by (intro mset_btree_remove btree_ordered_distinct) (simp_all add: state_small_def)
  then have "length (in_flight st) = Suc (length (btree_remove i (in_flight st)))"
    by (metis size_add_mset size_mset)
  moreover have "length (fl_body f) \<le> 65536"
    using assms by (auto simp: state_small_def list_all_iff dest!: map_of_SomeD)
  moreover have "btree_ordered (btree_remove i (in_flight st))"
    using assms(1) by (simp add: state_small_def btree_remove_def btree_ordered_filter)
  moreover have "set (btree_remove i (in_flight st)) \<subseteq> set (in_flight st)" by (auto simp: btree_remove_def)
  ultimately show "state_small (st\<lparr>in_flight := btree_remove i (in_flight st)\<rparr>)"
    "state_small \<lparr>pending = \<lparr>qm_id = i, qm_body = fl_body f, qm_deliveries = d\<rparr> # pending st,
       in_flight = btree_remove i (in_flight st)\<rparr>"
    using assms(1) by (auto simp: state_small_def list_all_iff)
qed

lemma acknowledge_small: "backend_small b \<Longrightarrow> backend_small (fst (acknowledge b q i now))"
  by (auto simp: acknowledge_def Let_def lease_of_Some dest: backend_smallD
      intro!: backend_small_upd drop_lease_small intro: reap_small split: option.splits)
    (meson backend_smallD reap_small)

lemma reject_small: "backend_small b \<Longrightarrow> backend_small (fst (reject b q i now))"
  by (auto simp: reject_def Let_def lease_of_Some dest: backend_smallD
      intro!: backend_small_upd drop_lease_small intro: reap_small split: option.splits)
    (meson backend_smallD reap_small)

interpretation queue_memory: invariant_machine queue_step backend_small
proof
  fix b c assume "backend_small b"
  then show "backend_small (queue_step b c)"
    by (cases c) (simp_all add: publish_small receive_small acknowledge_small reject_small)
qed

section \<open>Every operation keeps ids unique and counts every message once\<close>

lemma distinct_iff_count: "distinct xs \<longleftrightarrow> (\<forall>a. count (mset xs) a \<le> 1)"
proof
  assume "\<forall>a. count (mset xs) a \<le> 1"
  then have "count (mset xs) a = (if a \<in> set xs then 1 else 0)" for a
    by (metis One_nat_def Suc_leI count_greater_zero_iff le_antisym not_gr_zero set_mset_mset)
  then show "distinct xs" by (simp add: distinct_count_atmost_1)
qed (simp add: distinct_count_atmost_1)

lemma state_ok_held:
  assumes "state_ok q n st" "mset (held_ids st') \<subseteq># mset (held_ids st)" "list_all (\<lambda>(_, f). fl_queue f = q) (in_flight st')"
  shows "state_ok q n st'"
proof -
  have "distinct (held_ids st')"
    using assms(1) mset_subset_eq_count [OF assms(2)] unfolding state_ok_def distinct_iff_count
    by (meson order_trans)
  moreover have "length (held_ids st') \<le> length (held_ids st)" using size_mset_mono [OF assms(2)] by simp
  moreover have "set (held_ids st') \<subseteq> set (held_ids st)" using set_mset_mono [OF assms(2)] by simp
  ultimately show ?thesis using assms unfolding state_ok_def by auto
qed

lemma backend_ok_upd:
  assumes "backend_ok b" "state_ok q (unat n) st" "unat (next_id b) \<le> unat n"
  shows "backend_ok (b\<lparr>next_id := n, queues := (queues b)(q \<mapsto> st)\<rparr>)"
  using assms by (auto simp: backend_ok_def intro: state_ok_mono)

lemma backend_okD: "backend_ok b \<Longrightarrow> queues b q = Some st \<Longrightarrow> state_ok q (unat (next_id b)) st"
  by (simp add: backend_ok_def)

lemma backend_ok_upd_queue:
  "backend_ok b \<Longrightarrow> state_ok q (unat (next_id b)) st \<Longrightarrow> backend_ok (b\<lparr>queues := (queues b)(q \<mapsto> st)\<rparr>)"
  by (auto simp: backend_ok_def)

lemma contents_upd [simp]:
  "contents (b\<lparr>next_id := n, queues := (queues b)(q \<mapsto> st)\<rparr>) = (contents b)(q := bodies st)"
  "contents (b\<lparr>queues := (queues b)(q \<mapsto> st)\<rparr>) = (contents b)(q := bodies st)"
  by (auto simp: contents_def fun_eq_iff)

lemma contents_at: "queues b q = Some st \<Longrightarrow> contents b q = bodies st"
  by (simp add: contents_def)

lemma distinct_replaced:
  "distinct f \<Longrightarrow> set f \<inter> set (p @ l) = {} \<Longrightarrow> distinct (p @ l) \<Longrightarrow> distinct l' \<Longrightarrow> set l' \<subseteq> set l \<Longrightarrow>
    distinct (f @ p @ l')"
  by auto

lemma reap_ok:
  assumes "backend_ok b" "unat (next_id b) + 1024 < 2 ^ 64"
  shows "backend_ok (reap_expired b q now)" "contents (reap_expired b q now) = contents b"
    "unat (next_id b) \<le> unat (next_id (reap_expired b q now))"
    "unat (next_id (reap_expired b q now)) \<le> unat (next_id b) + 1024"
proof -
  have "backend_ok (reap_expired b q now) \<and> contents (reap_expired b q now) = contents b \<and>
    unat (next_id b) \<le> unat (next_id (reap_expired b q now)) \<and>
    unat (next_id (reap_expired b q now)) \<le> unat (next_id b) + 1024"
  proof (cases "queues b q")
    case None
    then show ?thesis using assms(1) by (simp add: reap_expired_def)
  next
    case (Some st)
    have sok: "state_ok q (unat (next_id b)) st" by (rule backend_okD [OF assms(1) Some])
    obtain fresh k where r: "reap_expired b q now = b\<lparr>next_id := k, queues := (queues b)(q \<mapsto>
          \<lparr>pending = fresh @ pending st, in_flight = live_part now st\<rparr>)\<rparr>"
        "unat k = unat (next_id b) + length fresh" "length fresh + length (live_part now st) = length (in_flight st)"
        "map qm_id fresh = map (delivery_id q) [Suc (unat (next_id b))..<Suc (unat k)]"
        "mset (map qm_body fresh) + mset (map (fl_body \<circ> snd) (live_part now st)) = mset (map (fl_body \<circ> snd) (in_flight st))"
      by (rule reap_state [OF assms(1) Some assms(2)])
    have live: "set (live_part now st) \<subseteq> set (in_flight st)" "distinct (map fst (live_part now st))"
      using sok by (auto simp: live_part_def state_ok_def held_ids_def intro: distinct_map_filter)
    have ids: "set (map qm_id fresh) = delivery_id q ` {unat (next_id b)<..unat k}"
      unfolding r(4) by (auto simp del: upt_Suc)
    have dp: "distinct (map qm_id (pending st) @ map fst (in_flight st))"
      using sok by (simp only: state_ok_def held_ids_def)
    have "distinct (map qm_id fresh)"
      unfolding r(4) by (auto simp: distinct_map inj_on_def delivery_id_inj simp del: upt_Suc)
    moreover have "set (map qm_id fresh) \<inter> set (held_ids st) = {}"
      unfolding ids using fresh_id [OF sok] by auto
    ultimately have "distinct (held_ids \<lparr>pending = fresh @ pending st, in_flight = live_part now st\<rparr>)"
      using dp live(2) image_mono [OF live(1), of fst]
        distinct_replaced [of "map qm_id fresh" "map qm_id (pending st)" "map fst (in_flight st)" "map fst (live_part now st)"]
      by (simp only: held_ids_def set_map map_append QueueState.simps append_assoc)
    moreover have "set (held_ids \<lparr>pending = fresh @ pending st, in_flight = live_part now st\<rparr>) \<subseteq>
        set (map qm_id fresh) \<union> set (held_ids st)" using live(1) by (auto simp: held_ids_def)
    then have "set (held_ids \<lparr>pending = fresh @ pending st, in_flight = live_part now st\<rparr>) \<subseteq> delivery_id q ` {..unat k}"
      using sok r(2) unfolding ids state_ok_def by fastforce
    moreover have "list_all (\<lambda>(_, f). fl_queue f = q) (live_part now st)"
      using sok by (auto simp: state_ok_def live_part_def list_all_iff)
    ultimately have "state_ok q (unat k) \<lparr>pending = fresh @ pending st, in_flight = live_part now st\<rparr>"
      using sok r(3) by (simp add: state_ok_def held_ids_def)
    then have "backend_ok (reap_expired b q now)" unfolding r(1) using assms(1) r(2) by (intro backend_ok_upd) auto
    moreover have "contents (reap_expired b q now) = contents b"
      using r(5) Some by (auto simp: r(1) bodies_def contents_def fun_eq_iff ac_simps)
    moreover have "length fresh \<le> 1024" using r(3) sok by (simp add: state_ok_def held_ids_def)
    ultimately show ?thesis using r(2) by (simp add: r(1))
  qed
  then show "backend_ok (reap_expired b q now)" "contents (reap_expired b q now) = contents b"
    "unat (next_id b) \<le> unat (next_id (reap_expired b q now))"
    "unat (next_id (reap_expired b q now)) \<le> unat (next_id b) + 1024" by blast+
qed

text \<open>The lease that \<open>id\<close> names at time \<open>now\<close>, if it has not expired.\<close>

definition live_lease :: "QueueBackend \<Rightarrow> ustr \<Rightarrow> ustr \<Rightarrow> u64 \<Rightarrow> InFlight option" where
  "live_lease b q i now = (case queues b q of None \<Rightarrow> None | Some st \<Rightarrow> map_of (live_part now st) i)"

lemma map_of_filter_distinct:
  "distinct (map fst m) \<Longrightarrow> map_of (filter (\<lambda>(_, v). P v) m) k =
     (case map_of m k of None \<Rightarrow> None | Some v \<Rightarrow> if P v then Some v else None)"
  by (induction m) (auto simp: map_of_eq_None_iff image_iff split: option.splits if_splits)

lemma lease_after_reap:
  assumes "backend_ok b" "unat (next_id b) + 1024 < 2 ^ 64"
  shows "lease_of (reap_expired b q now) q i =
    (case live_lease b q i now of None \<Rightarrow> None | Some f \<Rightarrow> Some (the (queues (reap_expired b q now) q), f))"
proof (cases "queues b q")
  case None
  then show ?thesis by (simp add: reap_expired_def lease_of_def live_lease_def)
next
  case (Some st)
  have "list_all (\<lambda>(_, f). fl_queue f = q) (live_part now st)"
    using backend_okD [OF assms(1) Some] by (auto simp: state_ok_def live_part_def list_all_iff)
  then show ?thesis
    by (rule_tac reap_state [OF assms(1) Some assms(2), of now])
      (auto simp: lease_of_def live_lease_def Some list_all_iff split: option.splits dest!: map_of_SomeD)
qed

lemma state_ok_push:
  assumes "state_ok q n st" "length (pending st) + length (in_flight st) < 1024" "qm_id m = delivery_id q (Suc n)"
  shows "state_ok q (Suc n) (st\<lparr>pending := pending st @ [m]\<rparr>)"
proof -
  let ?st = "st\<lparr>pending := pending st @ [m]\<rparr>"
  have "delivery_id q (Suc n) \<notin> set (held_ids st)" by (rule fresh_id [OF assms(1)]) simp
  moreover have "mset (held_ids ?st) = add_mset (delivery_id q (Suc n)) (mset (held_ids st))"
    using assms(3) by (simp add: held_ids_def)
  moreover have "distinct (held_ids st)" "set (held_ids st) \<subseteq> delivery_id q ` {..Suc n}"
    using assms(1) state_ok_mono [OF assms(1), of "Suc n"] by (simp_all add: state_ok_def)
  ultimately have "distinct (held_ids ?st)" "set (held_ids ?st) \<subseteq> delivery_id q ` {..Suc n}"
    by (simp_all add: distinct_iff_count flip: set_mset_mset)
  then show ?thesis using assms(1,2) by (simp add: state_ok_def held_ids_def)
qed

lemma publish_ok:
  assumes "backend_ok b" "unat (next_id b) + 1024 < 2 ^ 64"
  shows "backend_ok (fst (publish b q body))"
    "unat (next_id b) \<le> unat (next_id (fst (publish b q body)))"
    "unat (next_id (fst (publish b q body))) \<le> unat (next_id b) + 1024"
    "contents (fst (publish b q body)) = (case snd (publish b q body) of
       Inl _ \<Rightarrow> contents b | Inr _ \<Rightarrow> (contents b)(q := add_mset body (contents b q)))"
proof -
  have n: "unat (next_id b + 1) = Suc (unat (next_id b))" using assms(2) by (simp add: unat_word_ariths)
  have sok: "state_ok q (unat (next_id b)) (state_for b q)"
    using assms(1) by (auto simp: state_for_def backend_ok_def default_state_def state_ok_def held_ids_def split: option.splits)
  have c: "bodies (state_for b q) = contents b q"
    by (simp add: state_for_def contents_def default_state_def bodies_def split: option.splits)
  let ?m = "\<lparr>qm_id = delivery_id q (unat (next_id b + 1)), qm_body = body, qm_deliveries = 0\<rparr>"
  let ?st = "(state_for b q)\<lparr>pending := pending (state_for b q) @ [?m]\<rparr>"
  have "state_ok q (unat (next_id b + 1)) ?st"
    if "length (pending (state_for b q)) + length (in_flight (state_for b q)) < 1024"
    using state_ok_push [OF sok that] n by simp
  then have "backend_ok (b\<lparr>next_id := next_id b + 1, queues := (queues b)(q \<mapsto> ?st)\<rparr>)"
    if "length (pending (state_for b q)) + length (in_flight (state_for b q)) < 1024"
    using that n assms(1) by (intro backend_ok_upd) simp_all
  moreover have "backend_ok (b\<lparr>queues := (queues b)(q \<mapsto> state_for b q)\<rparr>)"
    using backend_ok_upd [OF assms(1) sok] by simp
  ultimately show "backend_ok (fst (publish b q body))"
    using assms(1) by (auto simp: publish_def Let_def MAX_QUEUE_DEPTH_def)
  show "unat (next_id b) \<le> unat (next_id (fst (publish b q body)))"
    "unat (next_id (fst (publish b q body))) \<le> unat (next_id b) + 1024"
    using n by (auto simp: publish_def Let_def)
  show "contents (fst (publish b q body)) = (case snd (publish b q body) of
       Inl _ \<Rightarrow> contents b | Inr _ \<Rightarrow> (contents b)(q := add_mset body (contents b q)))"
    using c by (auto simp: publish_def Let_def fun_eq_iff bodies_def)
qed

lemma receive_state_ok:
  assumes "state_ok q n st" "pending st = m # rest" "fl_queue f = q" "fl_body f = qm_body m"
  shows "state_ok q n \<lparr>pending = rest, in_flight = btree_insert (qm_id m) f (in_flight st)\<rparr>"
    "bodies \<lparr>pending = rest, in_flight = btree_insert (qm_id m) f (in_flight st)\<rparr> = bodies st"
proof -
  have new: "qm_id m \<notin> fst ` set (in_flight st)" and dist: "distinct (held_ids st)"
    using assms(1,2) by (simp_all add: state_ok_def held_ids_def)
  note ms = mset_btree_insert [OF new, of f]
  have held: "mset (held_ids \<lparr>pending = rest, in_flight = btree_insert (qm_id m) f (in_flight st)\<rparr>) = mset (held_ids st)"
    using assms(2) ms by (simp add: held_ids_def)
  have "list_all (\<lambda>(_, f). fl_queue f = q) (btree_insert (qm_id m) f (in_flight st))"
    using assms(1,3) set_btree_insert [of "qm_id m" f "in_flight st"] by (fastforce simp: state_ok_def list_all_iff)
  then show "state_ok q n \<lparr>pending = rest, in_flight = btree_insert (qm_id m) f (in_flight st)\<rparr>"
    by (intro state_ok_held [OF assms(1)]) (simp_all only: held QueueState.simps subset_mset.order_refl)
  show "bodies \<lparr>pending = rest, in_flight = btree_insert (qm_id m) f (in_flight st)\<rparr> = bodies st"
    using assms(2,4) ms by (simp add: bodies_def)
qed

lemma receive_ok:
  assumes "backend_ok b" "unat (next_id b) + 1024 < 2 ^ 64"
  shows "backend_ok (fst (receive b q now))" "contents (fst (receive b q now)) = contents b"
    "next_id (fst (receive b q now)) = next_id (reap_expired b q now)"
proof -
  note r = reap_ok [OF assms, of q now]
  show "backend_ok (fst (receive b q now))"
    using r(1) by (auto simp: receive_def Let_def intro!: backend_ok_upd_queue receive_state_ok
        dest: backend_okD split: option.splits list.splits)
  show "contents (fst (receive b q now)) = contents b"
    using contents_at [of "reap_expired b q now" q] receive_state_ok(2) [OF backend_okD [OF r(1)]]
    by (auto simp: receive_def Let_def r(2) fun_upd_idem_iff split: option.splits list.splits)
  show "next_id (fst (receive b q now)) = next_id (reap_expired b q now)"
    by (auto simp: receive_def Let_def split: option.splits list.splits)
qed

lemma drop_lease_ok:
  assumes "state_ok q n st" "map_of (in_flight st) i = Some f"
  shows "state_ok q n (st\<lparr>in_flight := btree_remove i (in_flight st)\<rparr>)"
    "state_ok q n \<lparr>pending = \<lparr>qm_id = i, qm_body = fl_body f, qm_deliveries = d\<rparr> # pending st,
       in_flight = btree_remove i (in_flight st)\<rparr>"
    "bodies st = add_mset (fl_body f) (bodies (st\<lparr>in_flight := btree_remove i (in_flight st)\<rparr>))"
proof -
  have dist: "distinct (map fst (in_flight st))" using assms(1) by (simp add: state_ok_def held_ids_def)
  note ms = mset_btree_remove [OF dist assms(2)]
  have "list_all (\<lambda>(_, f). fl_queue f = q) (btree_remove i (in_flight st))"
    using assms(1) by (auto simp: state_ok_def btree_remove_def list_all_iff)
  then show "state_ok q n (st\<lparr>in_flight := btree_remove i (in_flight st)\<rparr>)"
    "state_ok q n \<lparr>pending = \<lparr>qm_id = i, qm_body = fl_body f, qm_deliveries = d\<rparr> # pending st,
       in_flight = btree_remove i (in_flight st)\<rparr>"
    by (auto intro!: state_ok_held [OF assms(1)] simp: held_ids_def ms)
  show "bodies st = add_mset (fl_body f) (bodies (st\<lparr>in_flight := btree_remove i (in_flight st)\<rparr>))"
    using ms by (simp add: bodies_def)
qed

lemma leased_state:
  assumes "backend_ok b" "unat (next_id b) + 1024 < 2 ^ 64" "live_lease b q i now = Some f"
  obtains st where "lease_of (reap_expired b q now) q i = Some (st, f)"
    "queues (reap_expired b q now) q = Some st"
    "contents b q = add_mset (fl_body f) (bodies (st\<lparr>in_flight := btree_remove i (in_flight st)\<rparr>))"
proof -
  define st where "st = the (queues (reap_expired b q now) q)"
  have l: "lease_of (reap_expired b q now) q i = Some (st, f)"
    using lease_after_reap [OF assms(1,2), of q now i] assms(3) by (simp add: st_def)
  then have st: "queues (reap_expired b q now) q = Some st" "map_of (in_flight st) i = Some f"
    by (simp_all add: lease_of_Some)
  note r = reap_ok [OF assms(1,2), of q now]
  have "contents b q = bodies st" using contents_at [OF st(1)] by (simp add: r(2))
  then show ?thesis using that l st(1) drop_lease_ok(3) [OF backend_okD [OF r(1) st(1)] st(2)] by simp
qed

lemma acknowledge_ok:
  assumes "backend_ok b" "unat (next_id b) + 1024 < 2 ^ 64"
  shows "backend_ok (fst (acknowledge b q i now))"
    "next_id (fst (acknowledge b q i now)) \<in> {next_id b, next_id (reap_expired b q now)}"
    "case (if length (utf8_bytes i) \<le> 277 then live_lease b q i now else None) of
       None \<Rightarrow> snd (acknowledge b q i now) = Inl LeaseExpired \<and> contents (fst (acknowledge b q i now)) = contents b
     | Some f \<Rightarrow> snd (acknowledge b q i now) = Inr () \<and>
         contents b = (contents (fst (acknowledge b q i now)))
           (q := add_mset (fl_body f) (contents (fst (acknowledge b q i now)) q))"
proof -
  note r = reap_ok [OF assms, of q now]
  note lease = lease_after_reap [OF assms, of q now i]
  show "backend_ok (fst (acknowledge b q i now))"
    using r(1) assms(1) by (auto simp: acknowledge_def Let_def lease_of_Some
        intro!: backend_ok_upd_queue drop_lease_ok(1) dest: backend_okD split: option.splits)
  show "next_id (fst (acknowledge b q i now)) \<in> {next_id b, next_id (reap_expired b q now)}"
    by (auto simp: acknowledge_def Let_def split: option.splits)
  show "case (if length (utf8_bytes i) \<le> 277 then live_lease b q i now else None) of
       None \<Rightarrow> snd (acknowledge b q i now) = Inl LeaseExpired \<and> contents (fst (acknowledge b q i now)) = contents b
     | Some f \<Rightarrow> snd (acknowledge b q i now) = Inr () \<and>
         contents b = (contents (fst (acknowledge b q i now)))
           (q := add_mset (fl_body f) (contents (fst (acknowledge b q i now)) q))"
  proof (cases "live_lease b q i now")
    case None
    then show ?thesis using lease by (simp add: acknowledge_def MAX_DELIVERY_ID_BYTES_def r(2))
  next
    case (Some f)
    then show ?thesis
      by (rule_tac leased_state [OF assms Some])
        (auto simp: acknowledge_def Let_def MAX_DELIVERY_ID_BYTES_def r(2) fun_eq_iff)
  qed
qed

lemma reject_ok:
  assumes "backend_ok b" "unat (next_id b) + 1024 < 2 ^ 64"
  shows "backend_ok (fst (reject b q i now))"
    "next_id (fst (reject b q i now)) \<in> {next_id b, next_id (reap_expired b q now)}"
    "contents (fst (reject b q i now)) = contents b"
    "isl (snd (reject b q i now)) \<longleftrightarrow> 277 < length (utf8_bytes i) \<or> live_lease b q i now = None"
proof -
  note r = reap_ok [OF assms, of q now]
  note lease = lease_after_reap [OF assms, of q now i]
  show "backend_ok (fst (reject b q i now))"
    using r(1) assms(1) by (auto simp: reject_def Let_def lease_of_Some
        intro!: backend_ok_upd_queue drop_lease_ok(2) dest: backend_okD split: option.splits)
  show "next_id (fst (reject b q i now)) \<in> {next_id b, next_id (reap_expired b q now)}"
    by (auto simp: reject_def Let_def split: option.splits)
  have "contents (fst (reject b q i now)) = contents b \<and>
    (isl (snd (reject b q i now)) \<longleftrightarrow> 277 < length (utf8_bytes i) \<or> live_lease b q i now = None)"
  proof (cases "live_lease b q i now")
    case None
    then show ?thesis using lease by (simp add: reject_def MAX_DELIVERY_ID_BYTES_def r(2))
  next
    case (Some f)
    then show ?thesis
      by (rule_tac leased_state [OF assms Some])
        (auto simp: reject_def Let_def MAX_DELIVERY_ID_BYTES_def r(2) fun_eq_iff bodies_def)
  qed
  then show "contents (fst (reject b q i now)) = contents b"
    "isl (snd (reject b q i now)) \<longleftrightarrow> 277 < length (utf8_bytes i) \<or> live_lease b q i now = None" by simp_all
qed

lemmas queue_ops_ok = publish_ok receive_ok acknowledge_ok reject_ok reap_ok

lemma queue_step_ok:
  assumes "backend_ok b" "unat (next_id b) + 1024 < 2 ^ 64"
  shows "backend_ok (queue_step b c)" "unat (next_id b) \<le> unat (next_id (queue_step b c))"
    "unat (next_id (queue_step b c)) \<le> unat (next_id b) + 1024"
proof -
  show "backend_ok (queue_step b c)" by (cases c) (simp_all add: queue_ops_ok [OF assms])
  show "unat (next_id b) \<le> unat (next_id (queue_step b c))"
    using publish_ok(2) [OF assms] reap_ok(3) [OF assms] acknowledge_ok(2) [OF assms] reject_ok(2) [OF assms]
    by (cases c) (auto simp: receive_ok(3) [OF assms], metis order_refl, metis order_refl)
  show "unat (next_id (queue_step b c)) \<le> unat (next_id b) + 1024"
    using publish_ok(3) [OF assms] reap_ok(4) [OF assms] acknowledge_ok(2) [OF assms] reject_ok(2) [OF assms]
    by (cases c) (auto simp: receive_ok(3) [OF assms], metis le_add1, metis le_add1)
qed

section \<open>Runs\<close>

text \<open>A call mints at most 1024 ids, so the counter cannot wrap within \<open>2 ^ 53\<close> calls.\<close>

lemma queue_run_ok:
  "length cs < 2 ^ 53 \<Longrightarrow> backend_ok (run queue_step backend_new cs) \<and>
     unat (next_id (run queue_step backend_new cs)) \<le> 1024 * length cs"
proof (induction cs rule: rev_induct)
  case Nil
  then show ?case by (simp add: backend_new_def backend_ok_def)
next
  case (snoc c cs)
  then have ok: "backend_ok (run queue_step backend_new cs)"
    and n: "unat (next_id (run queue_step backend_new cs)) \<le> 1024 * length cs" by simp_all
  then have "unat (next_id (run queue_step backend_new cs)) + 1024 < 2 ^ 64" using snoc.prems by simp
  with ok n queue_step_ok [OF ok this, of c] show ?case by simp
qed

lemma queue_run_room:
  assumes "length cs < 2 ^ 53"
  shows "backend_ok (run queue_step backend_new cs)" "unat (next_id (run queue_step backend_new cs)) + 1024 < 2 ^ 64"
  using queue_run_ok [OF assms] assms by simp_all

section \<open>Ids are never issued twice\<close>

definition held :: "QueueBackend \<Rightarrow> ustr \<Rightarrow> ustr set" where
  "held b q = (case queues b q of None \<Rightarrow> {} | Some st \<Rightarrow> set (held_ids st))"

text \<open>An id that was issued and is no longer held.\<close>

definition spent_id :: "QueueBackend \<Rightarrow> ustr \<Rightarrow> ustr \<Rightarrow> bool" where
  "spent_id b q i \<longleftrightarrow> i \<in> delivery_id q ` {..unat (next_id b)} \<and> i \<notin> held b q"

lemma held_upd [simp]:
  "held (b\<lparr>next_id := n, queues := (queues b)(q \<mapsto> st)\<rparr>) = (held b)(q := set (held_ids st))"
  "held (b\<lparr>queues := (queues b)(q \<mapsto> st)\<rparr>) = (held b)(q := set (held_ids st))"
  by (auto simp: held_def fun_eq_iff)

lemma held_at: "queues b q = Some st \<Longrightarrow> held b q = set (held_ids st)"
  by (simp add: held_def)

lemma held_reap:
  assumes "backend_ok b" "unat (next_id b) + 1024 < 2 ^ 64"
  shows "held (reap_expired b p now) q \<subseteq> held b q \<union> delivery_id q ` {unat (next_id b)<..}"
proof (cases "queues b p")
  case None
  then show ?thesis by (simp add: reap_expired_def)
next
  case (Some st)
  show ?thesis
  proof (rule reap_state [OF assms(1) Some assms(2), of now])
    fix fresh k
    assume r: "reap_expired b p now = b\<lparr>next_id := k, queues := (queues b)(p \<mapsto>
        \<lparr>pending = fresh @ pending st, in_flight = live_part now st\<rparr>)\<rparr>"
      and ids: "map qm_id fresh = map (delivery_id p) [Suc (unat (next_id b))..<Suc (unat k)]"
    have "set (map qm_id fresh) \<subseteq> delivery_id p ` {unat (next_id b)<..}"
      unfolding ids by (auto simp del: upt_Suc)
    moreover have "fst ` set (live_part now st) \<subseteq> fst ` set (in_flight st)"
      by (auto simp: live_part_def)
    ultimately show ?thesis using held_at [OF Some] by (auto simp: r held_ids_def)
  qed
qed

lemma held_publish:
  assumes "unat (next_id b) + 1024 < 2 ^ 64"
  shows "held (fst (publish b p body)) q \<subseteq> held b q \<union> delivery_id q ` {unat (next_id b)<..}"
proof -
  have "unat (next_id b + 1) = Suc (unat (next_id b))" using assms by (simp add: unat_word_ariths)
  moreover have "set (held_ids (state_for b p)) = held b p"
    by (simp add: held_def state_for_def default_state_def held_ids_def split: option.splits)
  ultimately show ?thesis by (auto simp: publish_def Let_def held_ids_def)
qed

lemma held_receive:
  assumes "backend_ok b" "unat (next_id b) + 1024 < 2 ^ 64"
  shows "held (fst (receive b p now)) q = held (reap_expired b p now) q"
  by (auto simp: receive_def Let_def held_at held_ids_def keys_btree_insert split: option.splits list.splits)

lemma held_settle:
  "held (fst (acknowledge b p i now)) q \<subseteq> held b q \<union> held (reap_expired b p now) q"
  "held (fst (reject b p i now)) q \<subseteq> held b q \<union> held (reap_expired b p now) q"
  by (auto simp: acknowledge_def reject_def Let_def lease_of_Some held_at held_ids_def btree_remove_def image_iff
      split: option.splits dest!: map_of_SomeD) force

lemma queue_step_spent:
  assumes "backend_ok b" "unat (next_id b) + 1024 < 2 ^ 64" "spent_id b q i"
  shows "spent_id (queue_step b c) q i"
proof -
  have "held (queue_step b c) q \<subseteq> held b q \<union> delivery_id q ` {unat (next_id b)<..}"
    using held_publish [OF assms(2)] held_receive [OF assms(1,2)] held_reap [OF assms(1,2)]
      order_trans [OF held_settle(1) Un_least [OF Un_upper1 held_reap [OF assms(1,2)]]]
      order_trans [OF held_settle(2) Un_least [OF Un_upper1 held_reap [OF assms(1,2)]]]
    by (cases c) simp_all
  then show ?thesis
    using queue_step_ok(2) [OF assms(1,2), of c] assms(3) by (auto simp: spent_id_def delivery_id_inj)
qed

lemma queue_run_spent:
  "backend_ok b \<Longrightarrow> unat (next_id b) + 1024 * length cs < 2 ^ 64 \<Longrightarrow> spent_id b q i \<Longrightarrow>
    backend_ok (run queue_step b cs) \<and> spent_id (run queue_step b cs) q i"
proof (induction cs arbitrary: b)
  case (Cons c cs)
  then have room: "unat (next_id b) + 1024 < 2 ^ 64" by simp
  show ?case
    using Cons.IH [OF queue_step_ok(1) [OF Cons.prems(1) room] _ queue_step_spent [OF Cons.prems(1) room Cons.prems(3)]]
      queue_step_ok(3) [OF Cons.prems(1) room, of c] Cons.prems(2) by simp
qed simp

lemma spent_settle_fails:
  assumes "backend_ok b" "unat (next_id b) + 1024 < 2 ^ 64" "spent_id b q i"
  shows "snd (acknowledge b q i now) = Inl LeaseExpired" "snd (reject b q i now) = Inl LeaseExpired"
proof -
  have "live_lease b q i now = None"
    using assms(3) by (force simp: spent_id_def held_def held_ids_def live_lease_def live_part_def map_of_eq_None_iff
        split: option.splits)
  then have "lease_of (reap_expired b q now) q i = None" by (simp add: lease_after_reap [OF assms(1,2)])
  then show "snd (acknowledge b q i now) = Inl LeaseExpired" "snd (reject b q i now) = Inl LeaseExpired"
    by (simp_all add: acknowledge_def reject_def)
qed

text \<open>Whichever way an acknowledgement of a lease ends, the id is spent_id.\<close>

lemma acknowledged_spent:
  assumes "backend_ok b" "unat (next_id b) + 1024 < 2 ^ 64" "queues b q = Some st"
    "map_of (in_flight st) i = Some f" "length (utf8_bytes i) \<le> 277"
  shows "spent_id (fst (acknowledge b q i now)) q i"
    "snd (acknowledge b q i now) = (if now < fl_deadline f then Inr () else Inl LeaseExpired)"
proof -
  note r = reap_ok [OF assms(1,2), of q now]
  have sok: "state_ok q (unat (next_id b)) st" by (rule backend_okD [OF assms(1,3)])
  have "i \<in> fst ` set (in_flight st)" using map_of_SomeD [OF assms(4)] by (metis fst_conv imageI)
  then have i: "i \<in> delivery_id q ` {..unat (next_id b)}" "i \<notin> qm_id ` set (pending st)"
    using sok by (auto simp only: state_ok_def held_ids_def set_append set_map distinct_append)
  have dist: "distinct (map fst (in_flight st))" using sok by (simp add: state_ok_def held_ids_def)
  have live: "live_lease b q i now = (if now < fl_deadline f then Some f else None)"
    using assms(3,4) map_of_filter_distinct [OF dist, of "\<lambda>f. \<not> fl_deadline f \<le> now" i]
    by (simp add: live_lease_def live_part_def not_le)
  show "snd (acknowledge b q i now) = (if now < fl_deadline f then Inr () else Inl LeaseExpired)"
    using acknowledge_ok(3) [OF assms(1,2), of q i now] assms(5) live by (simp split: if_splits)
  have le: "unat (next_id b) \<le> unat (next_id (fst (acknowledge b q i now)))"
    using acknowledge_ok(2) [OF assms(1,2), of q i now] r(3) by auto
  have "i \<notin> held (fst (acknowledge b q i now)) q"
  proof (rule reap_state [OF assms(1,3,2), of now])
    fix fresh k
    assume rb: "reap_expired b q now = b\<lparr>next_id := k, queues := (queues b)(q \<mapsto>
        \<lparr>pending = fresh @ pending st, in_flight = live_part now st\<rparr>)\<rparr>"
      and ids: "map qm_id fresh = map (delivery_id q) [Suc (unat (next_id b))..<Suc (unat k)]"
    have "i \<notin> set (map qm_id fresh)" unfolding ids using i(1) by (auto simp: delivery_id_inj simp del: upt_Suc)
    moreover have "i \<notin> fst ` set (btree_remove i m)" for m :: "(ustr \<times> InFlight) list" by (auto simp: btree_remove_def)
    moreover have "i \<notin> fst ` set (live_part now st)" if "live_lease b q i now = None"
      using that assms(3) by (simp add: live_lease_def map_of_eq_None_iff)
    ultimately show ?thesis
      using i(2) assms(5) lease_after_reap [OF assms(1,2), of q now i]
      by (auto simp: acknowledge_def MAX_DELIVERY_ID_BYTES_def rb Let_def held_ids_def split: option.splits)
  qed
  with i(1) le show "spent_id (fst (acknowledge b q i now)) q i" by (auto simp: spent_id_def)
qed

text \<open>The longest id of a queue with a name of at most 256 bytes fits \<open>MAX_DELIVERY_ID_BYTES\<close>.\<close>

lemma length_show_nat: "n < 10 ^ Suc k \<Longrightarrow> length (show_nat n) \<le> Suc k"
proof (induction k arbitrary: n)
  case 0
  then show ?case by (subst show_nat.simps) simp
next
  case (Suc k)
  then have "n div 10 < 10 ^ Suc k" by (simp add: less_mult_imp_div_less mult.commute)
  from Suc.IH [OF this] show ?case by (subst show_nat.simps) simp
qed

lemma length_utf8_append [simp]: "length (utf8_bytes (s @ t)) = length (utf8_bytes s) + length (utf8_bytes t)"
  by (simp add: utf8_bytes_def)

lemma length_utf8_ascii: "list_all (\<lambda>c. c < 128) s \<Longrightarrow> length (utf8_bytes s) = length s"
  by (induction s) (simp_all add: length_utf8_bytes len_utf8_def)

lemma delivery_id_fits:
  assumes "length (utf8_bytes q) \<le> 256" "n < 2 ^ 64"
  shows "length (utf8_bytes (delivery_id q n)) \<le> 277"
proof -
  have "n < 10 ^ Suc 19" using assms(2) by simp
  then have "length (show_nat n) \<le> 20" using length_show_nat [of n 19] by simp
  then have "length (show_padded 20 n) = 20" by (simp add: show_padded_def)
  moreover have "list_all (\<lambda>c. c < 128) (show_padded 20 n)"
    using show_nat_digits [of n] by (auto simp: show_padded_def list_all_iff is_ascii_digit_def)
  ultimately show ?thesis using assms(1) by (simp add: delivery_id_def length_utf8_ascii)
qed

lemma received_lease:
  assumes "receive b q t = (b1, Some d)"
  obtains st f where "queues b1 q = Some st" "map_of (in_flight st) (del_id d) = Some f"
    "fl_deadline f = sat_add t 30000000000"
proof -
  have "(30 :: u64) * 1000000000 = 30000000000" by simp
  then have "sat_mul QUEUE_LEASE_SECS 1000000000 = (30000000000 :: u64)"
    by (simp add: sat_mul_def QUEUE_LEASE_SECS_def)
  with assms have "\<exists>st f. queues b1 q = Some st \<and> map_of (in_flight st) (del_id d) = Some f \<and>
      fl_deadline f = sat_add t 30000000000"
    by (auto simp: receive_def Let_def split: option.splits list.splits)
  with that show ?thesis by blast
qed

section \<open>Properties\<close>

text \<open>However long the backend runs, a queue never holds more than 1024 messages, waiting and leased together,
  and no stored body is longer than 65536 bytes: the memory of a queue is bounded whatever guests do.\<close>

theorem queue_memory_bounded:
  "pending_count (run queue_step backend_new cs) q + in_flight_count (run queue_step backend_new cs) q \<le> 1024 \<and>
   (case queues (run queue_step backend_new cs) q of
      None \<Rightarrow> True
    | Some st \<Rightarrow> list_all (\<lambda>m. length (qm_body m) \<le> 65536) (pending st) \<and>
        list_all (\<lambda>(_, f). length (fl_body f) \<le> 65536) (in_flight st))"
proof -
  have "backend_small backend_new" by (simp add: backend_small_def backend_new_def)
  then have "backend_small (run queue_step backend_new cs)" by (rule queue_memory.run_inv)
  then show ?thesis
    by (auto simp: pending_count_def in_flight_count_def backend_small_def state_small_def split: option.splits)
qed

text \<open>C34. Messages are neither lost nor duplicated. At every state reached by fewer than \<open>2 ^ 53\<close> calls, \<open>publish\<close>
  adds exactly its body when it returns an id and nothing when it refuses; \<open>receive\<close> (with the return of expired
  leases it performs) and \<open>reject\<close> keep what each queue holds; \<open>acknowledge\<close> removes exactly the body of the lease
  its id names when that lease has not expired, and otherwise fails with \<open>lease-expired\<close> and removes nothing.\<close>

theorem messages_conserved:
  assumes "length cs < 2 ^ 53"
  shows "let b = run queue_step backend_new cs; (b', r) = acknowledge b q i now in
    contents (fst (publish b q body)) =
      (if isl (snd (publish b q body)) then contents b else (contents b)(q := add_mset body (contents b q))) \<and>
    contents (fst (receive b q now)) = contents b \<and>
    contents (fst (reject b q i now)) = contents b \<and>
    (case (if length (utf8_bytes i) \<le> 277 then live_lease b q i now else None) of
       None \<Rightarrow> r = Inl LeaseExpired \<and> contents b' = contents b
     | Some f \<Rightarrow> r = Inr () \<and> contents b = (contents b')(q := add_mset (fl_body f) (contents b' q)))"
  using publish_ok(4) [OF queue_run_room [OF assms], of q body] receive_ok(2) [OF queue_run_room [OF assms], of q now]
    reject_ok(3) [OF queue_run_room [OF assms], of q i now] acknowledge_ok(3) [OF queue_run_room [OF assms], of q i now]
  by (simp add: Let_def case_prod_unfold split: sum.splits)

theorem messages_conserved_witness:
  "length [Pub [113] [104, 105], Recv [113] 0] < 2 ^ 53 \<and>
   (let b = run queue_step backend_new [Pub [113] [104, 105], Recv [113] 0];
        (b', r) = acknowledge b [113] (delivery_id [113] 1) 5 in
    contents (fst (publish b [113] [7])) = (if isl (snd (publish b [113] [7])) then contents b
      else (contents b)([113] := add_mset [7] (contents b [113]))) \<and>
    contents (fst (receive b [113] 5)) = contents b \<and>
    contents (fst (reject b [113] (delivery_id [113] 1) 5)) = contents b \<and>
    (case (if length (utf8_bytes (delivery_id [113] 1)) \<le> 277 then live_lease b [113] (delivery_id [113] 1) 5 else None) of
       None \<Rightarrow> r = Inl LeaseExpired \<and> contents b' = contents b
     | Some f \<Rightarrow> r = Inr () \<and> contents b = (contents b')([113] := add_mset (fl_body f) (contents b' [113]))))"
  by (rule conjI [OF _ messages_conserved]) simp_all

text \<open>C8. A delivery is settled at most once. Take any state reached by \<open>cs\<close>, and a delivery \<open>d\<close> that \<open>receive\<close> hands
  out at time \<open>t\<close> on a queue whose name has at most 256 bytes. Acknowledging it succeeds exactly when the clock has
  not reached \<open>t\<close> plus thirty seconds (saturating), and whether it succeeded or came too late, every later
  acknowledgement or rejection of that id fails with \<open>lease-expired\<close>, whatever calls come in between: the message, if
  it is redelivered, comes back under another id.\<close>

theorem delivery_settled_once:
  assumes "length cs + length cs' + 3 < 2 ^ 53" "length (utf8_bytes q) \<le> 256"
    and "receive (run queue_step backend_new cs) q t = (b1, Some d)" "acknowledge b1 q (del_id d) now = (b2, r)"
  shows "r = (if now < sat_add t 30000000000 then Inr () else Inl LeaseExpired) \<and>
    snd (acknowledge (run queue_step b2 cs') q (del_id d) now') = Inl LeaseExpired \<and>
    snd (reject (run queue_step b2 cs') q (del_id d) now') = Inl LeaseExpired"
proof (intro conjI)
  have "b1 = run queue_step backend_new (cs @ [Recv q t])" using assms(3) by simp
  then have ok1: "backend_ok b1" "unat (next_id b1) \<le> 1024 * Suc (length cs)"
    using queue_run_ok [of "cs @ [Recv q t]"] assms(1) by simp_all
  then have room1: "unat (next_id b1) + 1024 < 2 ^ 64" using assms(1) by simp
  obtain st f where l: "queues b1 q = Some st" "map_of (in_flight st) (del_id d) = Some f"
    "fl_deadline f = sat_add t 30000000000" by (rule received_lease [OF assms(3)])
  have "del_id d \<in> fst ` set (in_flight st)" using map_of_SomeD [OF l(2)] by (metis fst_conv imageI)
  then obtain n where n: "del_id d = delivery_id q n" "n \<le> unat (next_id b1)"
    using backend_okD [OF ok1(1) l(1)] by (auto simp: state_ok_def held_ids_def)
  then have "length (utf8_bytes (del_id d)) \<le> 277"
    using delivery_id_fits [OF assms(2)] room1 by simp
  note a = acknowledged_spent [OF ok1(1) room1 l(1,2) this, of now]
  show "r = (if now < sat_add t 30000000000 then Inr () else Inl LeaseExpired)" using a(2) assms(4) l(3) by simp
  have b2: "b2 = queue_step b1 (Ack q (del_id d) now)" using assms(4) by simp
  have ok2: "backend_ok b2" "unat (next_id b2) \<le> unat (next_id b1) + 1024"
    unfolding b2 by (rule queue_step_ok [OF ok1(1) room1])+
  have "run queue_step b2 cs' = run queue_step backend_new (cs @ [Recv q t, Ack q (del_id d) now] @ cs')"
    using assms(3) by (simp add: b2)
  then have ok3: "backend_ok (run queue_step b2 cs')" "unat (next_id (run queue_step b2 cs')) + 1024 < 2 ^ 64"
    using queue_run_room [of "cs @ [Recv q t, Ack q (del_id d) now] @ cs'"] assms(1) by simp_all
  have "spent_id (run queue_step b2 cs') q (del_id d)"
    using queue_run_spent [OF ok2(1), of cs' q "del_id d"] a(1) assms(1,4) ok1(2) ok2(2) by simp
  then show "snd (acknowledge (run queue_step b2 cs') q (del_id d) now') = Inl LeaseExpired"
    "snd (reject (run queue_step b2 cs') q (del_id d) now') = Inl LeaseExpired"
    using spent_settle_fails [OF ok3] by simp_all
qed

theorem delivery_settled_once_witness:
  "\<exists>b1 d b2 r. receive (run queue_step backend_new [Pub [113] [104, 105]]) [113] 0 = (b1, Some d) \<and>
     acknowledge b1 [113] (del_id d) 5 = (b2, r) \<and> r = Inr () \<and>
     snd (acknowledge (run queue_step b2 [Recv [113] 6]) [113] (del_id d) 7) = Inl LeaseExpired"
proof -
  have "\<exists>b1 d. receive (run queue_step backend_new [Pub [113] [104, 105]]) [113] 0 = (b1, Some d)"
    by (simp add: publish_def receive_def reap_expired_def Let_def state_for_def default_state_def backend_new_def
        MAX_QUEUE_MESSAGE_BYTES_def MAX_QUEUE_DEPTH_def)
  then obtain b1 d where b1: "receive (run queue_step backend_new [Pub [113] [104, 105]]) [113] 0 = (b1, Some d)" by blast
  obtain b2 r where b2: "acknowledge b1 [113] (del_id d) 5 = (b2, r)" by fastforce
  have "(5 :: u64) < sat_add 0 30000000000" by (simp add: sat_add_def)
  with delivery_settled_once [OF _ _ b1 b2, of "[Recv [113] 6]" 7] b1 b2 show ?thesis
    by (auto simp: utf8_bytes_def encode_utf8_def encode_utf8_nat_def)
qed

end
