(* ===== verification/Quota.thy ===== *)
theory Quota
  imports Errors Machines
begin

text \<open>
  The per-instance quotas of \<open>qqq-host/src/quota.rs\<close>: the subrequest budget with its poisoning, the handle
  quota, and the verdict of a boundary check.
\<close>

section \<open>The subrequest budget\<close>

definition WARN_THRESHOLD_PERCENT :: u64 where
  "WARN_THRESHOLD_PERCENT = 80"

record SubrequestBudget =
  limit :: u32
  spent :: u32
  poisoned :: bool
  amplification_attempts :: u64
  warned :: bool

datatype Charge = Allowed | AllowedWithWarning | Refused | RefusedRepeatedly

definition is_allowed :: "Charge \<Rightarrow> bool" where
  "is_allowed c \<longleftrightarrow> c \<in> {Allowed, AllowedWithWarning}"

definition is_refused :: "Charge \<Rightarrow> bool" where
  "is_refused c \<longleftrightarrow> c \<in> {Refused, RefusedRepeatedly}"

definition budget_new :: "u32 \<Rightarrow> SubrequestBudget" where
  "budget_new l = \<lparr>limit = l, spent = 0, poisoned = False, amplification_attempts = 0, warned = False\<rparr>"

definition charge :: "SubrequestBudget \<Rightarrow> SubrequestBudget \<times> Charge" where
  "charge b =
     (if poisoned b then
        (b\<lparr>amplification_attempts := sat_add (amplification_attempts b) 1\<rparr>, RefusedRepeatedly)
      else if limit b \<le> spent b then
        (b\<lparr>poisoned := True, amplification_attempts := sat_add (amplification_attempts b) 1\<rparr>, Refused)
      else
        let b1 = b\<lparr>spent := spent b + 1\<rparr>
        in if \<not> warned b1 \<and> ucast (limit b1) * WARN_THRESHOLD_PERCENT \<le> ucast (spent b1) * 100
           then (b1\<lparr>warned := True\<rparr>, AllowedWithWarning)
           else (b1, Allowed))"

definition refusal :: "SubrequestBudget \<Rightarrow> Error" where
  "refusal b =
     with_remediation (msg ''this guest drives more outbound requests than `limits.max_subrequests` allows; raise the limit in `qqq.toml` if the fan-out is intended, or fix the guest's loop if it is not'')
       (with_context (msg ''spent'') (show_nat (unat (spent b)))
         (with_context (msg ''limit'') (show_nat (unat (limit b)))
           (error_new SubrequestLimitExceeded (msg ''the subrequest budget for this instance is exhausted''))))"

definition remaining :: "SubrequestBudget \<Rightarrow> u32" where
  "remaining b = sat_sub (limit b) (spent b)"

definition is_exhausted :: "SubrequestBudget \<Rightarrow> bool" where
  "is_exhausted b \<longleftrightarrow> limit b \<le> spent b"

section \<open>The handle quota\<close>

record HandleQuota =
  quota_limit :: u32
  exhaustion_attempts :: u64

definition quota_new :: "u32 \<Rightarrow> HandleQuota" where
  "quota_new l = \<lparr>quota_limit = l, exhaustion_attempts = 0\<rparr>"

definition count_exhaustion :: "HandleQuota \<Rightarrow> HandleQuota" where
  "count_exhaustion q = q\<lparr>exhaustion_attempts := sat_add (exhaustion_attempts q) 1\<rparr>"

definition quota_remediation :: ustr where
  "quota_remediation = msg ''close handles that are no longer needed, or raise `limits.max_open_handles` in `qqq.toml`''"

definition held_error :: "HandleQuota \<Rightarrow> u32 \<Rightarrow> Error" where
  "held_error q table_len = with_remediation quota_remediation
     (error_new LimitOutOfRange (msg ''the guest holds '' @ show_nat (unat table_len) @
        msg '' handles against a limit of '' @ show_nat (unat (quota_limit q))))"

definition batch_error :: "HandleQuota \<Rightarrow> u32 \<Rightarrow> u32 \<Rightarrow> Error" where
  "batch_error q table_len additional = with_remediation quota_remediation
     (error_new LimitOutOfRange (msg ''the guest holds '' @ show_nat (unat table_len) @
        msg '' handles and asked for '' @ show_nat (unat additional) @
        msg '' more against a limit of '' @ show_nat (unat (quota_limit q))))"

definition try_open :: "HandleQuota \<Rightarrow> u32 \<Rightarrow> HandleQuota \<times> (Error + unit)" where
  "try_open q table_len =
     (if quota_limit q \<le> table_len then (count_exhaustion q, Inl (held_error q table_len)) else (q, Inr ()))"

definition try_open_batch :: "HandleQuota \<Rightarrow> u32 \<Rightarrow> u32 \<Rightarrow> HandleQuota \<times> (Error + unit)" where
  "try_open_batch q table_len additional =
     (if quota_limit q \<le> table_len then (count_exhaustion q, Inl (held_error q table_len))
      else if (ucast (quota_limit q) :: u64) < ucast table_len + ucast additional
      then (count_exhaustion q, Inl (batch_error q table_len additional))
      else (q, Inr ()))"

section \<open>Verdicts\<close>

datatype Verdict = Accept | Reject ustr

fun with_field :: "Verdict \<Rightarrow> ustr \<Rightarrow> Verdict" where
  "with_field Accept field = Accept"
| "with_field (Reject why) field = Reject (ticks field @ msg '' '' @ why)"

fun verdict_reason :: "Verdict \<Rightarrow> ustr option" where
  "verdict_reason Accept = None"
| "verdict_reason (Reject why) = Some why"

fun into_result :: "Verdict \<Rightarrow> ustr \<Rightarrow> Error + unit" where
  "into_result Accept field = Inr ()"
| "into_result (Reject why) field =
     Inl (with_remediation (msg ''the guest must validate its own inputs; a host call that rejects an argument is a guest bug, not a host fault'')
       (with_context (msg ''argument'') field
         (error_new McpArgumentInvalid (msg ''the guest passed an invalid '' @ ticks field @ msg '': '' @ why))))"

section \<open>The budget, charge by charge\<close>

definition charged :: "u32 \<Rightarrow> nat \<Rightarrow> SubrequestBudget" where
  "charged l n = run (\<lambda>b _. fst (charge b)) (budget_new l) (replicate n ())"

definition budget_at :: "u32 \<Rightarrow> nat \<Rightarrow> SubrequestBudget" where
  "budget_at l n =
     \<lparr>limit = l, spent = of_nat (min n (unat l)), poisoned = (unat l < n),
      amplification_attempts = of_nat (min (n - unat l) (2 ^ 64 - 1)),
      warned = (0 < unat l \<and> 80 * unat l \<le> 100 * min n (unat l))\<rparr>"

lemma unat_times_small: "k \<le> 100 \<Longrightarrow> unat (ucast (w :: u32) * of_nat k :: u64) = unat w * k"
proof -
  assume k: "k \<le> 100"
  have w: "unat (ucast w :: u64) = unat w"
    using unat_lt_len [of w] by (simp add: unsigned_ucast_eq take_bit_nat_eq_self)
  have "unat w * k \<le> (2 ^ 32 - 1) * 100" using k unat_lt_len [of w] by (intro mult_le_mono) simp_all
  then show ?thesis using k by (simp add: unat_word_ariths w unat_of_nat)
qed

lemma warn_test: "ucast (a :: u32) * WARN_THRESHOLD_PERCENT \<le> ucast (b :: u32) * (100 :: u64) \<longleftrightarrow>
    80 * unat a \<le> 100 * unat b"
  using unat_times_small [of 80 a] unat_times_small [of 100 b]
  by (simp add: WARN_THRESHOLD_PERCENT_def word_le_nat_alt mult.commute)

lemma spent_at: "unat (spent (budget_at l n)) = min n (unat l)"
proof -
  have "min n (unat l) < 2 ^ 32" using unat_lt_len [of l] by simp
  then show ?thesis by (simp add: budget_at_def unat_of_nat)
qed

lemma attempts_at: "unat (amplification_attempts (budget_at l n)) = min (n - unat l) (2 ^ 64 - 1)"
  by (simp add: budget_at_def unat_of_nat)

definition outcome_at :: "u32 \<Rightarrow> nat \<Rightarrow> Charge" where
  "outcome_at l n =
     (if n < unat l then
        (if 100 * n < 80 * unat l \<and> 80 * unat l \<le> 100 * (n + 1) then AllowedWithWarning else Allowed)
      else if n = unat l then Refused else RefusedRepeatedly)"

lemma attempts_step: "unat l \<le> n \<Longrightarrow>
    sat_add (amplification_attempts (budget_at l n)) 1 = amplification_attempts (budget_at l (Suc n))"
  unfolding word_unat_eq_iff unat_sat_add attempts_at by (simp add: min_def Suc_diff_le)

lemma spent_step: "n < unat l \<Longrightarrow> spent (budget_at l n) + 1 = spent (budget_at l (Suc n))"
  by (simp add: budget_at_def)

lemma charge_at: "charge (budget_at l n) = (budget_at l (Suc n), outcome_at l n)"
proof (cases "n < unat l")
  case True
  then have "\<not> limit (budget_at l n) \<le> spent (budget_at l n)"
    using spent_at [of l n] by (simp add: budget_at_def word_le_nat_alt)
  moreover have "spent (budget_at l n) + 1 = spent (budget_at l (Suc n))" by (rule spent_step [OF True])
  moreover have "unat (1 + word_of_nat n :: u32) = Suc n" "unat (word_of_nat n + 1 :: u32) = Suc n"
    using True spent_at [of l "Suc n"] by (simp_all add: budget_at_def add.commute)
  ultimately show ?thesis
    using True by (auto simp: charge_def warn_test Let_def budget_at_def outcome_at_def)
next
  case False
  then have "limit (budget_at l n) \<le> spent (budget_at l n)"
    using spent_at [of l n] by (simp add: budget_at_def word_le_nat_alt)
  with False attempts_step [of l n] show ?thesis
    by (cases "unat l = 0") (auto simp: charge_def outcome_at_def budget_at_def min_absorb2)
qed

lemma charged_at: "charged l n = budget_at l n"
proof (induction n)
  case 0
  show ?case by (auto simp: charged_def budget_new_def budget_at_def)
next
  case (Suc n)
  have "charged l (Suc n) = fst (charge (charged l n))"
    unfolding charged_def replicate_Suc replicate_append_same [symmetric] run_append by simp
  with Suc show ?case by (simp add: charge_at)
qed

text \<open>The budget, charge by charge, for every limit and any number of charges: the first \<open>limit\<close>
  charges are allowed and no other; exactly the charge that reaches 80 percent carries the warning; the
  next one is the only plain refusal, after which every charge is refused repeatedly, for ever. A limit
  of zero refuses the first charge. The attempt counter counts every refusal, the repeated ones too.\<close>

theorem subrequest_budget_exact:
  "snd (charge (charged l n)) = outcome_at l n \<and>
   (is_allowed (snd (charge (charged l n))) \<longleftrightarrow> n < unat l) \<and>
   unat (spent (charged l n)) = min n (unat l) \<and>
   unat (remaining (charged l n)) = unat l - n \<and>
   unat (amplification_attempts (charged l n)) = min (n - unat l) (2 ^ 64 - 1) \<and>
   length (filter (\<lambda>k. snd (charge (charged l k)) = AllowedWithWarning) [0..<n]) \<le> 1"
proof -
  let ?warns = "filter (\<lambda>k. snd (charge (charged l k)) = AllowedWithWarning) [0..<n]"
  have "j = k" if "outcome_at l j = AllowedWithWarning" "outcome_at l k = AllowedWithWarning" for j k
    using that by (auto simp: outcome_at_def split: if_splits)
  then have "card (set ?warns) \<le> 1" by (auto simp: card_le_Suc0_iff_eq charged_at charge_at)
  moreover have "distinct ?warns" by simp
  ultimately have "length ?warns \<le> 1" by (metis distinct_card)
  moreover have "unat (remaining (charged l n)) = unat l - n"
    using spent_at [of l n] by (simp add: remaining_def charged_at unat_sat_sub) (simp add: budget_at_def)
  moreover have "is_allowed (outcome_at l n) \<longleftrightarrow> n < unat l" by (simp add: is_allowed_def outcome_at_def)
  ultimately show ?thesis by (simp add: charged_at charge_at spent_at attempts_at)
qed

section \<open>The handle quota\<close>

lemma unat_sum_64: "unat (ucast (a :: u32) + ucast (b :: u32) :: u64) = unat a + unat b"
proof -
  have w: "unat (ucast w :: u64) = unat w" for w :: u32
    using unat_lt_len [of w] by (simp add: unsigned_ucast_eq take_bit_nat_eq_self)
  then show ?thesis using unat_lt_len [of a] unat_lt_len [of b] by (simp add: unat_word_ariths)
qed

lemma batch_test: "(ucast (l :: u32) :: u64) < ucast (a :: u32) + ucast b \<longleftrightarrow> unat l < unat a + unat (b :: u32)"
  using unat_sum_64 [of l 0] unat_sum_64 [of a b] by (simp add: word_less_nat_alt)

text \<open>The handle quota decides by exact arithmetic and counts what it refuses: a batch is granted
  exactly when the table is below its limit and stays within it, even where a 32-bit sum would wrap;
  each refusal, and nothing else, raises the counter by one; a single open is a batch of one.\<close>

theorem handle_quota_exact:
  "(case try_open_batch q table_len additional of
      (q', Inr _) \<Rightarrow> unat table_len < unat (quota_limit q) \<and>
        unat table_len + unat additional \<le> unat (quota_limit q) \<and> q' = q
    | (q', Inl e) \<Rightarrow> (unat (quota_limit q) \<le> unat table_len \<or>
        unat (quota_limit q) < unat table_len + unat additional) \<and> code e = LimitOutOfRange \<and>
        quota_limit q' = quota_limit q \<and>
        unat (exhaustion_attempts q') = min (unat (exhaustion_attempts q) + 1) (2 ^ 64 - 1)) \<and>
   fst (try_open q table_len) = fst (try_open_batch q table_len 1) \<and>
   isl (snd (try_open q table_len)) = isl (snd (try_open_batch q table_len 1))"
proof -
  have "unat (quota_limit q) < unat table_len + 1 \<longleftrightarrow> unat (quota_limit q) \<le> unat table_len" by auto
  then show ?thesis
    using batch_test [of "quota_limit q" table_len 1]
    by (auto simp: try_open_batch_def try_open_def batch_test word_le_nat_alt count_exhaustion_def
        held_error_def batch_error_def unat_sat_add not_less not_le)
qed

end
