(* ===== verification/Resolve.thy ===== *)
theory Resolve
  imports Manifest Errors Utf8 "HOL-Library.Multiset"
begin

text \<open>
  Capability resolution of \<open>qqq-cap/src/resolve.rs\<close>: the layers, the narrowing overlays, the grant set,
  the resolution with its \<open>why\<close> trace, the explanation of one capability and the denial error. A
  \<open>BTreeSet<Capability>\<close> is a set, iterated by \<open>btree_iter\<close> in the order of the enum. SHA-256 comes from
  the \<open>sha2\<close> crate and is a parameter (\<open>sha\<close>) of the digest.

  The locale \<open>narrowing\<close> is the contract of every operation that applies overlays: what is granted
  afterwards is what was granted before and is kept by the overlay. Its lemmas are what the module
  documentation promises (never widen, order and repetition irrelevant); it is interpreted on
  \<open>GrantSet::narrow\<close> and on \<open>Resolution::apply\<close>.
\<close>

section \<open>Layers and overlays\<close>

datatype Layer = LManifest | Developer | Organization | Platform

fun layer_order :: "Layer \<Rightarrow> u8" where
  "layer_order LManifest = 0"
| "layer_order Developer = 1"
| "layer_order Organization = 2"
| "layer_order Platform = 3"

definition may_grant :: "Layer \<Rightarrow> bool" where
  "may_grant l \<longleftrightarrow> l = LManifest"

fun layer_as_str :: "Layer \<Rightarrow> ustr" where
  "layer_as_str LManifest = msg ''manifest''"
| "layer_as_str Developer = msg ''developer''"
| "layer_as_str Organization = msg ''organization''"
| "layer_as_str Platform = msg ''platform''"

definition is_production_safe :: "Layer \<Rightarrow> bool" where
  "is_production_safe l \<longleftrightarrow> l \<noteq> Developer"

datatype NarrowMode = Intersect | Subtract

record Overlay =
  layer :: Layer
  overlay_capabilities :: "Capability set"
  mode :: NarrowMode
  reason :: ustr

definition allow_only :: "Layer \<Rightarrow> Capability list \<Rightarrow> ustr \<Rightarrow> Overlay" where
  "allow_only l cs r = \<lparr>layer = l, overlay_capabilities = set cs, mode = Intersect, reason = r\<rparr>"

definition deny :: "Layer \<Rightarrow> Capability list \<Rightarrow> ustr \<Rightarrow> Overlay" where
  "deny l cs r = \<lparr>layer = l, overlay_capabilities = set cs, mode = Subtract, reason = r\<rparr>"

definition noop :: "Layer \<Rightarrow> Overlay" where
  "noop l = \<lparr>layer = l, overlay_capabilities = {}, mode = Subtract, reason = msg ''no matching rule''\<rparr>"

section \<open>Grant sets\<close>

record GrantSet =
  capabilities :: "Capability set"
  applied_layers :: "Layer list"

definition grant_set_eq :: "GrantSet \<Rightarrow> GrantSet \<Rightarrow> bool" where
  "grant_set_eq g h \<longleftrightarrow> capabilities g = capabilities h"

definition grant_set_empty :: GrantSet where
  "grant_set_empty = \<lparr>capabilities = {}, applied_layers = []\<rparr>"

definition grant_set_from_manifest :: "Capabilities \<Rightarrow> GrantSet" where
  "grant_set_from_manifest m =
     \<lparr>capabilities = set (declared_capabilities m), applied_layers = [LManifest]\<rparr>"

definition grants_cap :: "GrantSet \<Rightarrow> Capability \<Rightarrow> bool" where
  "grants_cap g c \<longleftrightarrow> c \<in> capabilities g"

definition capabilities_vec :: "GrantSet \<Rightarrow> Capability list" where
  "capabilities_vec g = btree_iter (capabilities g)"

definition narrow :: "GrantSet \<Rightarrow> Overlay \<Rightarrow> GrantSet" where
  "narrow g o' =
     (let caps = (case mode o' of
                    Intersect \<Rightarrow> capabilities g \<inter> overlay_capabilities o'
                  | Subtract \<Rightarrow> capabilities g - overlay_capabilities o')
      in if \<not> caps \<subseteq> capabilities g then \<lparr>capabilities = {}, applied_layers = applied_layers g\<rparr>
         else \<lparr>capabilities = caps,
               applied_layers = (if layer o' \<in> set (applied_layers g) then applied_layers g
                                 else applied_layers g @ [layer o'])\<rparr>)"

text \<open>The bytes hashed by \<open>GrantSet::digest\<close>, and the digest in lower-case hexadecimal.\<close>

definition digest_input :: "GrantSet \<Rightarrow> u8 list" where
  "digest_input g = concat (map (\<lambda>c. utf8_bytes (name c) @ [0]) (btree_iter (capabilities g)))"

definition hex_digit :: "nat \<Rightarrow> nat" where
  "hex_digit n = (if n < 10 then 48 + n else 87 + n)"

definition hex :: "u8 list \<Rightarrow> ustr" where
  "hex bs = concat (map (\<lambda>b. [hex_digit (unat b div 16), hex_digit (unat b mod 16)]) bs)"

definition digest :: "(u8 list \<Rightarrow> u8 list) \<Rightarrow> GrantSet \<Rightarrow> ustr" where
  "digest sha g = hex (sha (digest_input g))"

definition grant_set_display :: "GrantSet \<Rightarrow> ustr" where
  "grant_set_display g =
     (if capabilities g = {} then msg ''(none)'' else join (lit '', '') (map name (btree_iter (capabilities g))))"

section \<open>Resolution\<close>

record WhyNode =
  why_layer :: Layer
  why_reason :: ustr
  why_capability :: "Capability option"
  granted_after :: bool
  granted_before :: bool

definition changed :: "WhyNode \<Rightarrow> bool" where
  "changed n \<longleftrightarrow> granted_before n \<noteq> granted_after n"

record Resolution =
  grants :: GrantSet
  trace :: "WhyNode list"
  warnings :: "ustr list"

definition resolution_from_manifest :: "Capabilities \<Rightarrow> Resolution" where
  "resolution_from_manifest m =
     (let g = grant_set_from_manifest m in
      \<lparr>grants = g,
       trace = map (\<lambda>c. \<lparr>why_layer = LManifest, why_reason = msg ''declared in qqq.toml'',
                         why_capability = Some c, granted_after = True, granted_before = False\<rparr>)
                 (capabilities_vec g),
       warnings = []\<rparr>)"

text \<open>The text of the developer warning; \<open>8212\<close> is the dash of the message.\<close>

definition developer_warning :: "ustr \<Rightarrow> ustr" where
  "developer_warning r =
     msg ''developer overlay active '' @ 8212 # msg '' NOT for production ('' @ r @ msg '' rule)''"

definition resolution_apply :: "Resolution \<Rightarrow> Overlay \<Rightarrow> Resolution" where
  "resolution_apply r o' =
     (let before = set (capabilities_vec (grants r));
          narrowed = narrow (grants r) o';
          after = set (capabilities_vec narrowed);
          interesting = (before - after) \<union> (after - before);
          nodes = concat (map (\<lambda>c. if (c \<in> before) \<noteq> (c \<in> after)
             then [\<lparr>why_layer = layer o', why_reason = reason o', why_capability = Some c,
                    granted_after = c \<in> after, granted_before = c \<in> before\<rparr>]
             else []) (btree_iter interesting))
      in \<lparr>grants = narrowed,
          trace = trace r @ nodes,
          warnings = (if layer o' = Developer then warnings r @ [developer_warning (reason o')]
                      else warnings r)\<rparr>)"

definition apply_all :: "Resolution \<Rightarrow> Overlay list \<Rightarrow> Resolution" where
  "apply_all r os = foldl resolution_apply r os"

record CapabilityExplanation =
  expl_capability :: Capability
  granted :: bool
  steps :: "WhyNode list"
  never_mentioned :: bool

definition explain :: "Resolution \<Rightarrow> Capability \<Rightarrow> CapabilityExplanation option" where
  "explain r c =
     (let relevant = filter (\<lambda>n. why_capability n = Some c) (trace r) in
      if relevant = [] \<and> \<not> grants_cap (grants r) c then
        Some \<lparr>expl_capability = c, granted = False, steps = [], never_mentioned = True\<rparr>
      else
        Some \<lparr>expl_capability = c, granted = grants_cap (grants r) c, steps = relevant,
              never_mentioned = False\<rparr>)"

definition narrowed_away :: "Resolution \<Rightarrow> Capabilities \<Rightarrow> Capability list" where
  "narrowed_away r m = filter (\<lambda>c. \<not> grants_cap (grants r) c) (declared_capabilities m)"

definition denial_cause :: "WhyNode \<Rightarrow> ustr" where
  "denial_cause n =
     msg ''layer `'' @ layer_as_str (why_layer n) @ msg ''`: '' @ why_reason n @
     (if granted_after n then msg '' (granted)'' else msg '' (removed)'')"

definition denial :: "(u8 list \<Rightarrow> u8 list) \<Rightarrow> Capability \<Rightarrow> Resolution \<Rightarrow> Error" where
  "denial sha c r =
     (let err = with_context (msg ''grant-digest'') (digest sha (grants r))
            (with_context (msg ''final-grants'') (grant_set_display (grants r))
            (with_context (msg ''capability'') (name c)
            (error_new CapabilityDenied (msg ''capability `'' @ name c @ msg ''` is not granted''))))
      in with_remediation (msg ''add a [[capabilities.*]] stanza granting `'' @ name c @
             msg ''` to qqq.toml, then run `qqqai why '' @ name c @ msg ''` to confirm'')
           (foldl (\<lambda>e n. with_cause (denial_cause n) e) err
             (filter (\<lambda>n. why_capability n = Some c \<and> changed n) (trace r))))"

section \<open>The contract of narrowing\<close>

locale narrowing =
  fixes auth :: "'g \<Rightarrow> Capability set" and app :: "'g \<Rightarrow> Overlay \<Rightarrow> 'g"
    and keeps :: "Overlay \<Rightarrow> Capability \<Rightarrow> bool"
  assumes auth_app: "auth (app g o') = {c \<in> auth g. keeps o' c}"
begin

lemma auth_foldl: "auth (foldl app g os) = {c \<in> auth g. \<forall>o' \<in> set os. keeps o' c}"
  by (induction os arbitrary: g) (auto simp: auth_app)

lemma never_widens: "auth (foldl app g os) \<subseteq> auth g"
  by (auto simp: auth_foldl)

lemma order_irrelevant: "set os = set os' \<Longrightarrow> auth (foldl app g os) = auth (foldl app g os')"
  by (simp add: auth_foldl)

lemma idempotent: "auth (app (app g o') o') = auth (app g o')"
  by (auto simp: auth_app)

lemma more_overlays_less_authority: "set os \<subseteq> set os' \<Longrightarrow> auth (foldl app g os') \<subseteq> auth (foldl app g os)"
  by (auto simp: auth_foldl)

end

text \<open>What an overlay keeps.\<close>

definition keeps :: "Overlay \<Rightarrow> Capability \<Rightarrow> bool" where
  "keeps o' c \<longleftrightarrow> (case mode o' of Intersect \<Rightarrow> c \<in> overlay_capabilities o'
                                 | Subtract \<Rightarrow> c \<notin> overlay_capabilities o')"

lemma capabilities_narrow: "capabilities (narrow g o') = {c \<in> capabilities g. keeps o' c}"
  by (auto simp: narrow_def keeps_def Let_def split: NarrowMode.splits)

interpretation grant_set: narrowing capabilities narrow keeps
  by unfold_locales (rule capabilities_narrow)

lemma grants_apply: "grants (resolution_apply r o') = narrow (grants r) o'"
  by (simp add: resolution_apply_def Let_def)

interpretation resolution: narrowing "\<lambda>r. capabilities (grants r)" resolution_apply keeps
  by unfold_locales (simp add: grants_apply capabilities_narrow)

text \<open>C1. Overlays only narrow: for any base and any overlays, the authority after them is a subset of
  the authority before, two overlay lists with the same members give equal grant sets whatever their
  order and repetitions, and a capability survives exactly when every overlay keeps it.\<close>

theorem narrowing_never_widens:
  "capabilities (foldl narrow g os) \<subseteq> capabilities g \<and>
   (grants_cap (foldl narrow g os) c \<longleftrightarrow> grants_cap g c \<and> list_all (\<lambda>o'. keeps o' c) os) \<and>
   grant_set_eq (foldl narrow g (rev os)) (foldl narrow g os) \<and>
   grant_set_eq (foldl narrow g (os @ os)) (foldl narrow g os)"
  using grant_set.never_widens grant_set.auth_foldl grant_set.order_irrelevant [of "rev os" os g]
    grant_set.order_irrelevant [of "os @ os" os g]
  by (simp add: grant_set_eq_def grants_cap_def list_all_iff)

text \<open>Deploying a manifest under any overlays grants only what the manifest declares, in whatever
  order the overlays are applied; adding overlays never adds authority, and \<open>narrowed_away\<close> lists
  exactly the declared capabilities some overlay refused.\<close>

theorem resolution_pipeline:
  "mset os = mset os' \<Longrightarrow>
   grant_set_eq (grants (apply_all (resolution_from_manifest m) os))
     (grants (apply_all (resolution_from_manifest m) os')) \<and>
   capabilities (grants (apply_all (resolution_from_manifest m) os)) \<subseteq> set (declared_capabilities m) \<and>
   capabilities (grants (apply_all (resolution_from_manifest m) (os @ extra))) \<subseteq>
     capabilities (grants (apply_all (resolution_from_manifest m) os)) \<and>
   set (narrowed_away (apply_all (resolution_from_manifest m) os) m) =
     {c \<in> set (declared_capabilities m). \<exists>o' \<in> set os. \<not> keeps o' c}"
proof -
  assume "mset os = mset os'"
  then have "set os = set os'" by (metis set_mset_mset)
  moreover have "capabilities (grants (resolution_from_manifest m)) = set (declared_capabilities m)"
    by (simp add: resolution_from_manifest_def grant_set_from_manifest_def Let_def)
  ultimately show ?thesis
    using resolution.order_irrelevant [of os os' "resolution_from_manifest m"]
      resolution.never_widens [of "resolution_from_manifest m" os]
      resolution.more_overlays_less_authority [of os "os @ extra" "resolution_from_manifest m"]
    by (auto simp: apply_all_def grant_set_eq_def narrowed_away_def grants_cap_def resolution.auth_foldl)
qed

text \<open>An instance at two overlays.\<close>

theorem resolution_pipeline_witness:
  "grant_set_eq
     (grants (apply_all (resolution_from_manifest (no_tables\<lparr>log_marker := True, trace_marker := True\<rparr>))
        [deny Platform [LogWrite] [], allow_only Organization [TraceWrite] []]))
     (grants (apply_all (resolution_from_manifest (no_tables\<lparr>log_marker := True, trace_marker := True\<rparr>))
        [allow_only Organization [TraceWrite] [], deny Platform [LogWrite] []]))"
  by (rule conjunct1, rule resolution_pipeline) (simp add: add_mset_commute)

section \<open>The trace\<close>

text \<open>The two kinds of node the pipeline writes.\<close>

definition declared_node :: "Capability \<Rightarrow> WhyNode" where
  "declared_node c = \<lparr>why_layer = LManifest, why_reason = msg ''declared in qqq.toml'',
     why_capability = Some c, granted_after = True, granted_before = False\<rparr>"

definition removed_node :: "Overlay \<Rightarrow> Capability \<Rightarrow> WhyNode" where
  "removed_node o' c = \<lparr>why_layer = layer o', why_reason = reason o', why_capability = Some c,
     granted_after = False, granted_before = True\<rparr>"

definition steps_of :: "Capability \<Rightarrow> WhyNode list \<Rightarrow> WhyNode list" where
  "steps_of c ns = filter (\<lambda>n. why_capability n = Some c) ns"

lemma node_simps [simp]:
  "why_capability (declared_node c) = Some c" "why_capability (removed_node o' c) = Some c"
  "changed (declared_node c)" "changed (removed_node o' c)"
  by (simp_all add: declared_node_def removed_node_def changed_def)

lemma steps_of_map:
  "distinct cs \<Longrightarrow> (\<And>d. why_capability (f d) = Some d) \<Longrightarrow>
     steps_of c (map f cs) = (if c \<in> set cs then [f c] else [])"
  by (induction cs) (auto simp: steps_of_def)

lemma distinct_btree_iter: "distinct (btree_iter S)"
  using btree_iter_sorted [of S] by (simp add: strict_sorted_iff)

lemma trace_apply:
  "trace (resolution_apply r o') =
     trace r @ map (removed_node o') (btree_iter {c \<in> capabilities (grants r). \<not> keeps o' c})"
proof -
  let ?B = "capabilities (grants r)" and ?A = "capabilities (narrow (grants r) o')"
  have I: "(?B - ?A) \<union> (?A - ?B) = {c \<in> ?B. \<not> keeps o' c}" by (auto simp: capabilities_narrow)
  have "concat (map (\<lambda>c. if (c \<in> ?B) \<noteq> (c \<in> ?A) then [\<lparr>why_layer = layer o', why_reason = reason o',
        why_capability = Some c, granted_after = c \<in> ?A, granted_before = c \<in> ?B\<rparr>] else []) cs) =
      map (removed_node o') cs" if "set cs \<subseteq> {c \<in> ?B. \<not> keeps o' c}" for cs
    using that by (induction cs) (auto simp: capabilities_narrow removed_node_def)
  from this [of "btree_iter {c \<in> ?B. \<not> keeps o' c}"] I show ?thesis
    by (simp add: resolution_apply_def Let_def capabilities_vec_def)
qed

lemma steps_apply:
  "steps_of c (trace (resolution_apply r o')) =
     steps_of c (trace r) @ (if grants_cap (grants r) c \<and> \<not> keeps o' c then [removed_node o' c] else [])"
proof -
  have "steps_of c (map (removed_node o') (btree_iter S)) = (if c \<in> S then [removed_node o' c] else [])" for S
    by (subst steps_of_map) (simp_all add: distinct_btree_iter)
  then show ?thesis by (simp add: trace_apply steps_of_def grants_cap_def)
qed

lemma steps_apply_all:
  "steps_of c (trace (foldl resolution_apply r os)) = steps_of c (trace r) @
     (if grants_cap (grants r) c
      then (case find (\<lambda>o'. \<not> keeps o' c) os of None \<Rightarrow> [] | Some o' \<Rightarrow> [removed_node o' c]) else [])"
  by (induction os arbitrary: r)
    (auto simp: steps_apply grants_apply grants_cap_def capabilities_narrow)

lemma steps_from_manifest:
  "steps_of c (trace (resolution_from_manifest m)) =
     (if c \<in> set (declared_capabilities m) then [declared_node c] else [])"
proof -
  have "trace (resolution_from_manifest m) =
      map declared_node (btree_iter (set (declared_capabilities m)))"
    by (simp add: resolution_from_manifest_def capabilities_vec_def grant_set_from_manifest_def
        declared_node_def Let_def)
  then show ?thesis by (simp add: steps_of_map distinct_btree_iter)
qed

definition why_steps :: "Capabilities \<Rightarrow> Overlay list \<Rightarrow> Capability \<Rightarrow> WhyNode list" where
  "why_steps m os c =
     (if c \<in> set (declared_capabilities m) then declared_node c #
        (case find (\<lambda>o'. \<not> keeps o' c) os of None \<Rightarrow> [] | Some o' \<Rightarrow> [removed_node o' c])
      else [])"

lemma steps_pipeline: "steps_of c (trace (apply_all (resolution_from_manifest m) os)) = why_steps m os c"
proof -
  have "grants_cap (grants (resolution_from_manifest m)) c \<longleftrightarrow> c \<in> set (declared_capabilities m)"
    by (simp add: resolution_from_manifest_def grant_set_from_manifest_def grants_cap_def Let_def)
  then show ?thesis
    unfolding apply_all_def steps_apply_all steps_from_manifest by (simp add: why_steps_def)
qed

lemma granted_pipeline: "grants_cap (grants (apply_all (resolution_from_manifest m) os)) c \<longleftrightarrow>
    c \<in> set (declared_capabilities m) \<and> find (\<lambda>o'. \<not> keeps o' c) os = None"
  unfolding grants_cap_def apply_all_def resolution.auth_foldl
  by (simp add: resolution_from_manifest_def grant_set_from_manifest_def Let_def find_None_iff) blast

lemma cause_denial_fold: "cause (foldl (\<lambda>e n. with_cause (denial_cause n) e) e ns) = cause e @ map denial_cause ns"
  by (induction ns arbitrary: e) (simp_all add: with_cause_def)

lemma cause_denial:
  "cause (denial sha c r) = map denial_cause (filter changed (steps_of c (trace r)))"
  by (simp add: denial_def Let_def with_remediation_def cause_denial_fold with_context_def error_new_def
      steps_of_def filter_filter conj_commute)

text \<open>C29. \<open>qqqai why\<close> names what took a capability away. For a manifest under any overlays the explanation of a capability is
  never absent, its verdict is the final grant, and its steps are exactly the declaration and, when it was taken away, the one
  removal by the first overlay that refuses it (with that overlay's layer and reason). The denial error lists the same
  steps as its causes. \<open>never_mentioned\<close> is set exactly when the manifest does not declare the capability: the trace has no step
  for it then, even if an overlay lists it, so the flag says less than its name and the message printed for it.\<close>

theorem explain_names_remover:
  "explain (apply_all (resolution_from_manifest m) os) c =
     Some \<lparr>expl_capability = c,
           granted = (c \<in> set (declared_capabilities m) \<and> find (\<lambda>o'. \<not> keeps o' c) os = None),
           steps = (if c \<in> set (declared_capabilities m) then declared_node c #
                      (case find (\<lambda>o'. \<not> keeps o' c) os of None \<Rightarrow> [] | Some o' \<Rightarrow> [removed_node o' c])
                    else []),
           never_mentioned = (c \<notin> set (declared_capabilities m))\<rparr> \<and>
   cause (denial sha c (apply_all (resolution_from_manifest m) os)) =
     map denial_cause (steps (the (explain (apply_all (resolution_from_manifest m) os) c)))"
proof -
  let ?r = "apply_all (resolution_from_manifest m) os"
  have ex: "explain ?r c = Some \<lparr>expl_capability = c,
      granted = (c \<in> set (declared_capabilities m) \<and> find (\<lambda>o'. \<not> keeps o' c) os = None),
      steps = why_steps m os c, never_mentioned = (c \<notin> set (declared_capabilities m))\<rparr>"
    using steps_pipeline [of c m os, unfolded steps_of_def]
    by (simp add: explain_def Let_def granted_pipeline why_steps_def)
  moreover have "filter changed (why_steps m os c) = why_steps m os c"
    by (simp add: why_steps_def split: option.splits)
  ultimately show ?thesis by (simp add: cause_denial steps_pipeline why_steps_def)
qed

text \<open>An overlay that lists an undeclared capability leaves no step, and the explanation says that no layer mentions it.\<close>

lemma overlay_not_mentioned:
  "\<exists>m os e. (\<exists>o' \<in> set os. HttpClient \<in> overlay_capabilities o') \<and> explain (apply_all (resolution_from_manifest m) os) HttpClient = Some e \<and> never_mentioned e"
proof -
  let ?os = "[allow_only Organization [HttpClient] (lit ''policy'')]"
  have "HttpClient \<notin> set (declared_capabilities no_tables)"
    by (simp add: set_declared granted_by_def no_tables_def)
  then have "steps_of HttpClient (trace (apply_all (resolution_from_manifest no_tables) ?os)) = []"
      "\<not> grants_cap (grants (apply_all (resolution_from_manifest no_tables) ?os)) HttpClient"
    by (simp_all add: steps_pipeline why_steps_def granted_pipeline)
  then have "\<exists>e. explain (apply_all (resolution_from_manifest no_tables) ?os) HttpClient = Some e \<and> never_mentioned e"
    by (simp add: explain_def steps_of_def)
  moreover have "\<exists>o' \<in> set ?os. HttpClient \<in> overlay_capabilities o'" by (simp add: allow_only_def)
  ultimately show ?thesis by blast
qed

section \<open>The digest\<close>

lemma utf8_ascii: "list_all (\<lambda>c. c < 128) s \<Longrightarrow> map unat (utf8_bytes s) = s"
  by (induction s) (auto simp: utf8_bytes_def encode_utf8_def encode_utf8_nat_def unat_of_nat)

lemma name_ascii: "list_all (\<lambda>x. 0 < x \<and> x < 128) (name c)"
  by (cases c) simp_all

lemma name_bytes: "map unat (utf8_bytes (name c)) = name c" "0 \<notin> set (utf8_bytes (name c))"
proof -
  show eq: "map unat (utf8_bytes (name c)) = name c"
    using name_ascii [of c] by (intro utf8_ascii) (auto simp: list_all_iff)
  have "0 \<notin> set (name c)" using name_ascii [of c] by (auto simp: list_all_iff)
  then show "0 \<notin> set (utf8_bytes (name c))" using eq by (metis image_eqI list.set_map unat_0)
qed

lemma separated_inj:
  "(\<And>x. z \<notin> set (f x)) \<Longrightarrow> inj f \<Longrightarrow>
     concat (map (\<lambda>x. f x @ [z]) xs) = concat (map (\<lambda>x. f x @ [z]) ys) \<Longrightarrow> xs = ys"
proof (induction xs arbitrary: ys)
  case Nil
  then show ?case by (cases ys) simp_all
next
  case (Cons x xs)
  then obtain y ys' where ys: "ys = y # ys'" by (cases ys) simp_all
  let ?r = "\<lambda>zs. concat (map (\<lambda>x. f x @ [z]) zs)"
  have eq: "f x @ z # ?r xs = f y @ z # ?r ys'" using Cons.prems(3) ys by simp
  have "takeWhile (\<lambda>u. u \<noteq> z) (f w @ z # r) = f w" for w r
    using Cons.prems(1) [of w] by (subst takeWhile_append2) auto
  with eq have "f x = f y" by metis
  with eq Cons.prems ys Cons.IH [of ys'] show ?case by (auto dest: injD)
qed

text \<open>The audit digest covers the authority and nothing else: two grant sets feed the same bytes to
  SHA-256 exactly when they grant the same capabilities, whatever layers produced them.\<close>

theorem digest_input_faithful:
  "(digest_input g = digest_input h \<longleftrightarrow> grant_set_eq g h) \<and> digest_input grant_set_empty = []"
proof -
  have inj: "inj (\<lambda>c. utf8_bytes (name c))"
  proof (rule injI)
    fix c d assume "utf8_bytes (name c) = utf8_bytes (name d)"
    then have "name c = name d" by (metis name_bytes(1))
    then show "c = d" by (metis from_name_Some_iff option.inject)
  qed
  have "btree_iter (capabilities g) = btree_iter (capabilities h)" if "digest_input g = digest_input h"
    by (rule separated_inj [OF name_bytes(2) inj]) (use that in \<open>simp add: digest_input_def\<close>)
  then have "digest_input g = digest_input h \<longleftrightarrow> grant_set_eq g h"
    unfolding grant_set_eq_def by (metis digest_input_def set_btree_iter)
  moreover have "btree_iter {} = []" by (simp add: btree_iter_def)
  ultimately show ?thesis by (simp add: digest_input_def grant_set_empty_def)
qed

end
