(* ===== verification/QueueHost.thy ===== *)
theory QueueHost
  imports Queue Quota Resolve
begin

text \<open>
  The guest-facing half of \<open>qqq-host/src/host_queue.rs\<close>: the host implementation of \<open>qqq:queue/messaging\<close>, which
  composes the audit seam (\<open>qqq-host/src/ambient.rs\<close>, \<open>require\<close>, and \<open>AuditHandle::record\<close> of \<open>qqq-host/src/audit.rs\<close>),
  the grants, the configured queues, the two quotas and the shared backend. The backend lock is held for the whole of
  a call, so a call is one state transformer. The clock reading is an argument: the value the ambient clock returned, or
  the text of its replay error.
\<close>

section \<open>The audit seam\<close>

datatype Outcome = Granted | Failed | Denied | Attempted

record PendingRow =
  row_tenant :: "ustr option"
  row_component :: ustr
  row_grants :: ustr
  row_capability :: Capability
  row_function :: ustr
  row_outcome :: Outcome

text \<open>The handle, with the one counter of the shared stream that \<open>record\<close> touches.\<close>

record AuditHandle =
  ah_component :: ustr
  ah_grants :: ustr
  ah_tenant :: "ustr option"
  ah_pending :: "PendingRow list"
  ah_refused :: u64

definition RECORDED_FUNCTIONS :: "ustr list" where
  "RECORDED_FUNCTIONS = [
    msg ''handle_request'', msg ''hash_data'', msg ''random_get'', msg ''hmac_compute'', msg ''hmac_verify'',
    msg ''aead_encrypt'', msg ''aead_decrypt'', msg ''signing_sign'', msg ''signing_verify'',
    msg ''signing_public_key'', msg ''wall_clock_now'', msg ''wall_clock_resolution'', msg ''wall_clock_timezone'',
    msg ''monotonic_clock_now'', msg ''monotonic_clock_resolution'', msg ''wasi03_monotonic_clock_now'',
    msg ''wasi03_monotonic_clock_get_resolution'', msg ''wasi_random_get_random_bytes'',
    msg ''wasi_random_get_random_u64'', msg ''wasi_random_get_insecure_random_bytes'',
    msg ''wasi_random_get_insecure_random_u64'', msg ''wasi_random_insecure_seed'', msg ''env_get'',
    msg ''env_get_or'', msg ''env_allowed_names'', msg ''trace_start_span'', msg ''trace_child'',
    msg ''trace_current_traceparent'', msg ''trace_event'', msg ''trace_set_attributes'', msg ''trace_set_error'',
    msg ''trace_drop'', msg ''http_send'', msg ''http_incoming_authority'', msg ''dns_resolve'',
    msg ''dns_resolve_many'', msg ''dns_allowed_names'', msg ''kv_get'', msg ''kv_set'', msg ''kv_delete'',
    msg ''kv_exists'', msg ''kv_keys'', msg ''kv_get_many'', msg ''kv_stores'', msg ''sql_prepare'',
    msg ''sql_query_once'', msg ''sql_databases'', msg ''sql_statement_query'', msg ''sql_statement_execute'',
    msg ''sql_begin'', msg ''sql_txn_prepare'', msg ''sql_txn_commit'', msg ''sql_txn_rollback'',
    msg ''sql_txn_statement_query'', msg ''sql_txn_statement_execute'', msg ''log_emit'', msg ''log_emit_many'',
    msg ''log_enabled'', msg ''queue_publish'', msg ''queue_publish_many'', msg ''queue_receive'',
    msg ''queue_acknowledge'', msg ''queue_reject'', msg ''queue_queues'', msg ''secret_exists'',
    msg ''secret_permitted_operations'', msg ''secret_apply'']"

definition MAX_PENDING_ROWS :: nat where "MAX_PENDING_ROWS = 4096"

text \<open>\<open>AuditHandle::record\<close> after its assertion, which is \<open>recordable\<close>.\<close>

definition recordable :: "ustr \<Rightarrow> bool" where
  "recordable function \<longleftrightarrow> function \<in> set RECORDED_FUNCTIONS"

definition audit_record :: "AuditHandle \<Rightarrow> Capability \<Rightarrow> ustr \<Rightarrow> Outcome \<Rightarrow> AuditHandle" where
  "audit_record h c function outcome =
     (if MAX_PENDING_ROWS \<le> length (ah_pending h) then h\<lparr>ah_refused := ah_refused h + 1\<rparr>
      else h\<lparr>ah_pending := ah_pending h @
             [\<lparr>row_tenant = ah_tenant h, row_component = ah_component h, row_grants = ah_grants h,
               row_capability = c, row_function = function, row_outcome = outcome\<rparr>]\<rparr>)"

record StoreData =
  sd_grants :: GrantSet
  sd_audit :: "AuditHandle option"
  sd_config :: QueueConfig
  sd_backend :: QueueBackend
  sd_handles :: HandleQuota
  sd_subrequests :: SubrequestBudget

text \<open>\<open>require\<close>: the error names the capability that was missing.\<close>

definition require :: "StoreData \<Rightarrow> Capability \<Rightarrow> ustr \<Rightarrow> StoreData \<times> (Capability + unit)" where
  "require d c function =
     (let granted = grants_cap (sd_grants d) c;
          outcome = (if granted then Granted else Denied)
      in (d\<lparr>sd_audit := map_option (\<lambda>h. audit_record h c function outcome) (sd_audit d)\<rparr>,
          if granted then Inr () else Inl c))"

section \<open>Checks\<close>

definition valid_queue_name :: "ustr \<Rightarrow> bool" where
  "valid_queue_name q \<longleftrightarrow> q \<noteq> [] \<and> length (utf8_bytes q) \<le> 256 \<and>
     \<not> list_ex (\<lambda>b. b \<in> {9, 10, 12, 13, 32} \<or> b < 32 \<or> b = 127) (utf8_bytes q)"

definition check_publish :: "StoreData \<Rightarrow> ustr \<Rightarrow> QueueError + unit" where
  "check_publish d q =
     (if \<not> grants_cap (sd_grants d) QueuePublish then Inl NotGranted
      else if \<not> valid_queue_name q \<or> \<not> allows_publish (sd_config d) q then Inl QueueNotConfigured
      else Inr ())"

definition check_subscribe :: "StoreData \<Rightarrow> ustr \<Rightarrow> QueueError + unit" where
  "check_subscribe d q =
     (if \<not> grants_cap (sd_grants d) QueueSubscribe then Inl NotGranted
      else if \<not> valid_queue_name q \<or> \<not> allows_subscribe (sd_config d) q then Inl QueueNotConfigured
      else Inr ())"

definition now_or_fail :: "ustr + u64 \<Rightarrow> QueueError + u64" where
  "now_or_fail reading = (case reading of Inl e \<Rightarrow> Inl (BackendFailed e) | Inr n \<Rightarrow> Inr n)"

text \<open>\<open>u32::try_from(n).unwrap_or(u32::MAX)\<close>.\<close>

definition u32_or_max :: "nat \<Rightarrow> u32" where
  "u32_or_max n = (if n < 2 ^ 32 then of_nat n else umax)"

definition open_count :: "StoreData \<Rightarrow> ustr \<Rightarrow> nat" where
  "open_count d q = pending_count (sd_backend d) q + in_flight_count (sd_backend d) q"

section \<open>Host calls\<close>

definition host_publish :: "StoreData \<Rightarrow> ustr \<Rightarrow> u8 list \<Rightarrow> ustr + u64 \<Rightarrow> StoreData \<times> (QueueError + unit)" where
  "host_publish d0 q body reading =
     (let (d, r) = require d0 QueuePublish (msg ''queue_publish'') in
      case r of Inl _ \<Rightarrow> (d, Inl NotGranted) | Inr _ \<Rightarrow>
      (case check_publish d q of Inl e \<Rightarrow> (d, Inl e) | Inr _ \<Rightarrow>
      (case now_or_fail reading of Inl e \<Rightarrow> (d, Inl e) | Inr now \<Rightarrow>
      (let (h, o') = try_open (sd_handles d) (u32_or_max (open_count d q)); d1 = d\<lparr>sd_handles := h\<rparr> in
      case o' of Inl _ \<Rightarrow> (d1, Inl QuotaExceeded) | Inr _ \<Rightarrow>
      (let (s, c) = charge (sd_subrequests d1); d2 = d1\<lparr>sd_subrequests := s\<rparr> in
      if is_refused c then (d2, Inl QuotaExceeded)
      else let (b, p) = publish (sd_backend d2) q body in
        (d2\<lparr>sd_backend := b\<rparr>, case p of Inl e \<Rightarrow> Inl e | Inr _ \<Rightarrow> Inr ()))))))"

definition MAX_QUEUE_BATCH_MESSAGES :: nat where "MAX_QUEUE_BATCH_MESSAGES = 128"

text \<open>The two loops of \<open>publish_many\<close>, each left at its first refusal.\<close>

fun charge_all :: "SubrequestBudget \<Rightarrow> u8 list list \<Rightarrow> SubrequestBudget \<times> bool" where
  "charge_all s [] = (s, True)"
| "charge_all s (_ # batch) =
     (let (s1, c) = charge s in if is_refused c then (s1, False) else charge_all s1 batch)"

fun publish_all :: "QueueBackend \<Rightarrow> ustr \<Rightarrow> u8 list list \<Rightarrow> QueueBackend \<times> (QueueError + unit)" where
  "publish_all b q [] = (b, Inr ())"
| "publish_all b q (body # batch) =
     (let (b1, r) = publish b q body in
      case r of Inl e \<Rightarrow> (b1, Inl e) | Inr _ \<Rightarrow> publish_all b1 q batch)"

definition host_publish_many ::
    "StoreData \<Rightarrow> ustr \<Rightarrow> u8 list list \<Rightarrow> ustr + u64 \<Rightarrow> StoreData \<times> (QueueError + unit)" where
  "host_publish_many d0 q batch reading =
     (let (d, r) = require d0 QueuePublish (msg ''queue_publish_many'') in
      case r of Inl _ \<Rightarrow> (d, Inl NotGranted) | Inr _ \<Rightarrow>
      (case check_publish d q of Inl e \<Rightarrow> (d, Inl e) | Inr _ \<Rightarrow>
      if MAX_QUEUE_BATCH_MESSAGES < length batch then (d, Inl QuotaExceeded)
      else if list_ex (\<lambda>body. MAX_QUEUE_MESSAGE_BYTES < length body) batch then (d, Inl MessageTooLarge)
      else
      (case now_or_fail reading of Inl e \<Rightarrow> (d, Inl e) | Inr now \<Rightarrow>
      (let (h, o') = try_open_batch (sd_handles d) (u32_or_max (open_count d q)) (u32_or_max (length batch));
           d1 = d\<lparr>sd_handles := h\<rparr> in
      case o' of Inl _ \<Rightarrow> (d1, Inl QuotaExceeded) | Inr _ \<Rightarrow>
      (let (s, ok) = charge_all (sd_subrequests d1) batch; d2 = d1\<lparr>sd_subrequests := s\<rparr> in
      if \<not> ok then (d2, Inl QuotaExceeded)
      else if MAX_QUEUE_DEPTH < open_count d2 q + length batch then (d2, Inl QuotaExceeded)
      else let (b, p) = publish_all (sd_backend d2) q batch in (d2\<lparr>sd_backend := b\<rparr>, p))))))"

definition host_receive ::
    "StoreData \<Rightarrow> ustr \<Rightarrow> u64 \<Rightarrow> ustr + u64 \<Rightarrow> StoreData \<times> (QueueError + Delivery option)" where
  "host_receive d0 q timeout_ms reading =
     (let (d, r) = require d0 QueueSubscribe (msg ''queue_receive'') in
      case r of Inl _ \<Rightarrow> (d, Inl NotGranted) | Inr _ \<Rightarrow>
      (case check_subscribe d q of Inl e \<Rightarrow> (d, Inl e) | Inr _ \<Rightarrow>
      (case now_or_fail reading of Inl e \<Rightarrow> (d, Inl e) | Inr now \<Rightarrow>
      (let (b, m) = receive (sd_backend d) q now in (d\<lparr>sd_backend := b\<rparr>, Inr m)))))"

definition host_acknowledge :: "StoreData \<Rightarrow> ustr \<Rightarrow> ustr \<Rightarrow> ustr + u64 \<Rightarrow> StoreData \<times> (QueueError + unit)" where
  "host_acknowledge d0 q i reading =
     (let (d, r) = require d0 QueueSubscribe (msg ''queue_acknowledge'') in
      case r of Inl _ \<Rightarrow> (d, Inl NotGranted) | Inr _ \<Rightarrow>
      (case check_subscribe d q of Inl e \<Rightarrow> (d, Inl e) | Inr _ \<Rightarrow>
      (case now_or_fail reading of Inl e \<Rightarrow> (d, Inl e) | Inr now \<Rightarrow>
      (let (b, a) = acknowledge (sd_backend d) q i now in (d\<lparr>sd_backend := b\<rparr>, a)))))"

definition host_reject :: "StoreData \<Rightarrow> ustr \<Rightarrow> ustr \<Rightarrow> ustr + u64 \<Rightarrow> StoreData \<times> (QueueError + unit)" where
  "host_reject d0 q i reading =
     (let (d, r) = require d0 QueueSubscribe (msg ''queue_reject'') in
      case r of Inl _ \<Rightarrow> (d, Inl NotGranted) | Inr _ \<Rightarrow>
      (case check_subscribe d q of Inl e \<Rightarrow> (d, Inl e) | Inr _ \<Rightarrow>
      (case now_or_fail reading of Inl e \<Rightarrow> (d, Inl e) | Inr now \<Rightarrow>
      (let (b, a) = reject (sd_backend d) q i now in (d\<lparr>sd_backend := b\<rparr>, a)))))"

fun direction_str :: "QueueDirection \<Rightarrow> ustr" where
  "direction_str Publish = lit ''publish''"
| "direction_str Subscribe = lit ''subscribe''"

definition host_queues :: "StoreData \<Rightarrow> StoreData \<times> (ustr \<times> ustr) list" where
  "host_queues d0 =
     (let c = (if grants_cap (sd_grants d0) QueuePublish then QueuePublish else QueueSubscribe);
          (d, r) = require d0 c (msg ''queue_queues'') in
      case r of Inl _ \<Rightarrow> (d, []) | Inr _ \<Rightarrow>
      if \<not> (grants_cap (sd_grants d) QueuePublish \<or> grants_cap (sd_grants d) QueueSubscribe) then (d, [])
      else (d, map (\<lambda>(nm, dir). (nm, direction_str dir)) (config_queues (sd_config d))))"

section \<open>Calls as steps\<close>

datatype GuestCall =
    GPublish ustr "u8 list" "ustr + u64"
  | GPublishMany ustr "u8 list list" "ustr + u64"
  | GReceive ustr u64 "ustr + u64"
  | GAcknowledge ustr ustr "ustr + u64"
  | GReject ustr ustr "ustr + u64"
  | GQueues

fun guest_step :: "StoreData \<Rightarrow> GuestCall \<Rightarrow> StoreData" where
  "guest_step d (GPublish q body t) = fst (host_publish d q body t)"
| "guest_step d (GPublishMany q batch t) = fst (host_publish_many d q batch t)"
| "guest_step d (GReceive q ms t) = fst (host_receive d q ms t)"
| "guest_step d (GAcknowledge q i t) = fst (host_acknowledge d q i t)"
| "guest_step d (GReject q i t) = fst (host_reject d q i t)"
| "guest_step d GQueues = fst (host_queues d)"

text \<open>What the manifest and the grants must say for a call to have an effect on the queues.\<close>

definition may_publish :: "StoreData \<Rightarrow> ustr \<Rightarrow> bool" where
  "may_publish d q \<longleftrightarrow> grants_cap (sd_grants d) QueuePublish \<and> valid_queue_name q \<and> allows_publish (sd_config d) q"

definition may_subscribe :: "StoreData \<Rightarrow> ustr \<Rightarrow> bool" where
  "may_subscribe d q \<longleftrightarrow> grants_cap (sd_grants d) QueueSubscribe \<and> valid_queue_name q \<and> allows_subscribe (sd_config d) q"

fun call_permitted :: "StoreData \<Rightarrow> GuestCall \<Rightarrow> bool" where
  "call_permitted d (GPublish q _ _) = may_publish d q"
| "call_permitted d (GPublishMany q _ _) = may_publish d q"
| "call_permitted d (GReceive q _ _) = may_subscribe d q"
| "call_permitted d (GAcknowledge q _ _) = may_subscribe d q"
| "call_permitted d (GReject q _ _) = may_subscribe d q"
| "call_permitted d GQueues = False"

fun call_capability :: "StoreData \<Rightarrow> GuestCall \<Rightarrow> Capability" where
  "call_capability d (GPublish _ _ _) = QueuePublish"
| "call_capability d (GPublishMany _ _ _) = QueuePublish"
| "call_capability d GQueues = (if grants_cap (sd_grants d) QueuePublish then QueuePublish else QueueSubscribe)"
| "call_capability d _ = QueueSubscribe"

fun call_function :: "GuestCall \<Rightarrow> ustr" where
  "call_function (GPublish _ _ _) = msg ''queue_publish''"
| "call_function (GPublishMany _ _ _) = msg ''queue_publish_many''"
| "call_function (GReceive _ _ _) = msg ''queue_receive''"
| "call_function (GAcknowledge _ _ _) = msg ''queue_acknowledge''"
| "call_function (GReject _ _ _) = msg ''queue_reject''"
| "call_function GQueues = msg ''queue_queues''"

lemma call_function_recordable: "recordable (call_function e)"
  by (cases e) (simp_all add: recordable_def RECORDED_FUNCTIONS_def)

lemma require_simps:
  "sd_grants (fst (require d c f)) = sd_grants d" "sd_config (fst (require d c f)) = sd_config d"
  "sd_backend (fst (require d c f)) = sd_backend d" "sd_handles (fst (require d c f)) = sd_handles d"
  "sd_subrequests (fst (require d c f)) = sd_subrequests d"
  "snd (require d c f) = (if grants_cap (sd_grants d) c then Inr () else Inl c)"
  "sd_audit (fst (require d c f)) =
     map_option (\<lambda>h. audit_record h c f (if grants_cap (sd_grants d) c then Granted else Denied)) (sd_audit d)"
  by (simp_all add: require_def Let_def)

lemmas host_defs = host_publish_def host_publish_many_def host_receive_def host_acknowledge_def host_reject_def
  host_queues_def

lemma open_count_require: "open_count (fst (require d c f)) q = open_count d q"
  by (simp add: open_count_def require_simps)

text \<open>The error a call returns, if it returns one.\<close>

definition err :: "'e + 'a \<Rightarrow> 'e option" where
  "err r = (case r of Inl e \<Rightarrow> Some e | Inr _ \<Rightarrow> None)"

fun guest_error :: "StoreData \<Rightarrow> GuestCall \<Rightarrow> QueueError option" where
  "guest_error d (GPublish q body t) = err (snd (host_publish d q body t))"
| "guest_error d (GPublishMany q batch t) = err (snd (host_publish_many d q batch t))"
| "guest_error d (GReceive q ms t) = err (snd (host_receive d q ms t))"
| "guest_error d (GAcknowledge q i t) = err (snd (host_acknowledge d q i t))"
| "guest_error d (GReject q i t) = err (snd (host_reject d q i t))"
| "guest_error d GQueues = None"

lemma guest_step_frame:
  "sd_grants (guest_step d e) = sd_grants d \<and> sd_config (guest_step d e) = sd_config d \<and>
   sd_audit (guest_step d e) = map_option (\<lambda>h. audit_record h (call_capability d e) (call_function e)
      (if grants_cap (sd_grants d) (call_capability d e) then Granted else Denied)) (sd_audit d)"
  by (cases e) (simp_all add: host_defs case_prod_unfold Let_def require_simps split: sum.splits)

lemma guest_step_refused:
  "call_permitted d e \<or>
   sd_backend (guest_step d e) = sd_backend d \<and> sd_handles (guest_step d e) = sd_handles d \<and>
   sd_subrequests (guest_step d e) = sd_subrequests d \<and>
   guest_error d e = (if e = GQueues then None
     else Some (if grants_cap (sd_grants d) (call_capability d e) then QueueNotConfigured else NotGranted))"
  by (cases e) (auto simp: host_defs case_prod_unfold Let_def require_simps err_def may_publish_def may_subscribe_def
      check_publish_def check_subscribe_def split: sum.splits)

section \<open>Batches\<close>

definition backlog :: "QueueBackend \<Rightarrow> ustr \<Rightarrow> u8 list list" where
  "backlog b q = map qm_body (pending (state_for b q))"

lemma publish_room:
  assumes "length body \<le> 65536" "pending_count b q + in_flight_count b q < 1024"
  shows "snd (publish b q body) = Inr (delivery_id q (unat (next_id b + 1)))"
    "backlog (fst (publish b q body)) q = backlog b q @ [body]"
    "pending_count (fst (publish b q body)) q = Suc (pending_count b q)"
    "in_flight_count (fst (publish b q body)) q = in_flight_count b q"
    "p \<noteq> q \<Longrightarrow> queues (fst (publish b q body)) p = queues b p"
  using assms by (auto simp: publish_def Let_def MAX_QUEUE_MESSAGE_BYTES_def MAX_QUEUE_DEPTH_def backlog_def
      state_for_def default_state_def pending_count_def in_flight_count_def split: option.splits)

lemma publish_all_room:
  "list_all (\<lambda>body. length body \<le> 65536) batch \<Longrightarrow>
   pending_count b q + in_flight_count b q + length batch \<le> 1024 \<Longrightarrow>
   snd (publish_all b q batch) = Inr () \<and> backlog (fst (publish_all b q batch)) q = backlog b q @ batch \<and>
   in_flight_count (fst (publish_all b q batch)) q = in_flight_count b q \<and>
   (p = q \<or> queues (fst (publish_all b q batch)) p = queues b p)"
proof (induction batch arbitrary: b)
  case (Cons body batch)
  then have "length body \<le> 65536" "pending_count b q + in_flight_count b q < 1024" by simp_all
  note r = publish_room [OF this]
  have "queues (fst (publish b q body)) p = queues b p \<or> p = q" using r(5) by blast
  then show ?case using Cons.IH [of "fst (publish b q body)"] Cons.prems r(1-4)
    by (auto simp: case_prod_unfold Let_def)
qed simp

lemma charge_allowed:
  assumes "\<not> is_refused (snd (charge s))"
  shows "limit (fst (charge s)) = limit s" "unat (spent (fst (charge s))) = Suc (unat (spent s))"
proof -
  have "\<not> limit s \<le> spent s" "\<not> poisoned s" using assms by (auto simp: charge_def is_refused_def split: if_splits)
  then have "unat (spent s + 1) = Suc (unat (spent s))"
    using unat_lt_len [of "limit s"] by (simp add: word_le_nat_alt unat_word_ariths)
  then show "limit (fst (charge s)) = limit s" "unat (spent (fst (charge s))) = Suc (unat (spent s))"
    using \<open>\<not> limit s \<le> spent s\<close> \<open>\<not> poisoned s\<close> by (simp_all add: charge_def Let_def)
qed

lemma charge_all_spent:
  "snd (charge_all s batch) \<Longrightarrow> unat (spent (fst (charge_all s batch))) = unat (spent s) + length batch"
proof (induction s batch rule: charge_all.induct)
  case (2 s body batch)
  obtain s1 c where c: "charge s = (s1, c)" by fastforce
  then have ok: "\<not> is_refused c" using "2.prems" by (auto split: if_splits)
  then have "unat (spent s1) = Suc (unat (spent s))" using charge_allowed(2) [of s] by (simp add: c)
  with 2 c ok show ?case by simp
qed simp

lemma try_open_batch_room:
  assumes "snd (try_open_batch h (u32_or_max m) (u32_or_max n)) = Inr ()" "m + n \<le> 1024"
  shows "m + n \<le> unat (quota_limit h)"
proof -
  have mn: "u32_or_max m = of_nat m" "u32_or_max n = of_nat n" using assms(2) by (simp_all add: u32_or_max_def)
  have u: "unat (ucast (of_nat k :: u32) :: u64) = k" if "k \<le> 1024" for k
    using that by (simp add: unsigned_ucast_eq take_bit_nat_eq_self unat_of_nat)
  have "unat (ucast (of_nat m :: u32) + ucast (of_nat n :: u32) :: u64) = m + n"
    using u [of m] u [of n] assms(2) by (simp add: unat_word_ariths)
  moreover have "unat (ucast (quota_limit h) :: u64) = unat (quota_limit h)"
    using unat_lt_len [of "quota_limit h"] by (simp add: unsigned_ucast_eq take_bit_nat_eq_self)
  ultimately show ?thesis
    using assms(1) by (simp add: try_open_batch_def mn word_less_nat_alt split: if_splits)
qed

lemma open_count_backlog: "pending_count b q = length (backlog b q)"
  by (simp add: pending_count_def backlog_def state_for_def default_state_def split: option.splits)

section \<open>Properties\<close>

text \<open>C6. A guest reaches a queue only with authority. Whatever it calls, its grants and its configured queues stay as they
  are. An instance that has an audit handle with room for a row gets exactly one more row, with the handle's tenant and
  digests, the capability that was consulted, a function name the audit file accepts and whether the grant was there; with
  4096 rows pending the row is dropped and counted as refused instead, and without a handle nothing is recorded. Unless
  the grant, a valid queue name and the configured direction are all present, the call changes neither the queues nor the
  quotas and answers \<open>not-granted\<close> when the grant is missing and \<open>queue-not-configured\<close> otherwise.\<close>

theorem guest_authority:
  "let d' = guest_step d e; granted = grants_cap (sd_grants d) (call_capability d e) in
   sd_grants d' = sd_grants d \<and> sd_config d' = sd_config d \<and> recordable (call_function e) \<and>
   (case sd_audit d of
      None \<Rightarrow> sd_audit d' = None
    | Some h \<Rightarrow>
        if length (ah_pending h) < 4096
        then sd_audit d' = Some (h\<lparr>ah_pending := ah_pending h @
               [\<lparr>row_tenant = ah_tenant h, row_component = ah_component h, row_grants = ah_grants h,
                 row_capability = call_capability d e, row_function = call_function e,
                 row_outcome = (if granted then Granted else Denied)\<rparr>]\<rparr>)
        else sd_audit d' = Some (h\<lparr>ah_refused := ah_refused h + 1\<rparr>)) \<and>
   (call_permitted d e \<or>
    sd_backend d' = sd_backend d \<and> sd_handles d' = sd_handles d \<and> sd_subrequests d' = sd_subrequests d \<and>
    guest_error d e = (if e = GQueues then None else Some (if granted then QueueNotConfigured else NotGranted)))"
  using guest_step_frame [of d e] guest_step_refused [of d e] call_function_recordable [of e]
  by (auto simp: Let_def audit_record_def MAX_PENDING_ROWS_def not_less split: option.splits)

text \<open>C14. A batch is published whole or not at all. When \<open>publish-many\<close> reports an error, whatever the reason, the
  queues are untouched; when it succeeds, exactly the bodies of the batch stand at the end of the line in their order,
  no other queue changed, the subrequest budget was charged once per body, and the queue still holds no more than both
  the absolute depth and the instance's handle limit allow.\<close>

theorem publish_many_atomic:
  "let (d', r) = host_publish_many d q batch t in
   case r of
     Inl _ \<Rightarrow> sd_backend d' = sd_backend d
   | Inr _ \<Rightarrow> backlog (sd_backend d') q = backlog (sd_backend d) q @ batch \<and>
       (p = q \<or> queues (sd_backend d') p = queues (sd_backend d) p) \<and>
       unat (spent (sd_subrequests d')) = unat (spent (sd_subrequests d)) + length batch \<and>
       open_count d' q \<le> 1024 \<and> open_count d' q \<le> unat (quota_limit (sd_handles d))"
proof -
  let ?d1 = "fst (require d QueuePublish (msg ''queue_publish_many''))"
  let ?h = "try_open_batch (sd_handles d) (u32_or_max (open_count d q)) (u32_or_max (length batch))"
  let ?s = "charge_all (sd_subrequests d) batch"
  let ?b = "publish_all (sd_backend d) q batch"
  let ?guard = "grants_cap (sd_grants d) QueuePublish \<and> check_publish ?d1 q = Inr () \<and> length batch \<le> 128 \<and>
      list_all (\<lambda>body. length body \<le> 65536) batch \<and> isl (now_or_fail t) = False \<and> snd ?h = Inr () \<and> snd ?s \<and>
      open_count d q + length batch \<le> 1024"
  have form: "(if ?guard then host_publish_many d q batch t =
        (?d1\<lparr>sd_handles := fst ?h, sd_subrequests := fst ?s, sd_backend := fst ?b\<rparr>, snd ?b)
      else sd_backend (fst (host_publish_many d q batch t)) = sd_backend d \<and> isl (snd (host_publish_many d q batch t)))"
    by (auto simp: host_publish_many_def case_prod_unfold Let_def require_simps open_count_require
        MAX_QUEUE_BATCH_MESSAGES_def MAX_QUEUE_MESSAGE_BYTES_def MAX_QUEUE_DEPTH_def not_less list_ex_iff list_all_iff
        open_count_def split: sum.splits)
  show ?thesis
  proof (cases ?guard)
    case False
    obtain d' r where hp: "host_publish_many d q batch t = (d', r)" by fastforce
    with False form have "sd_backend d' = sd_backend d" "isl r" by (simp_all only: if_False fst_conv snd_conv)
    then show ?thesis by (cases r) (simp_all add: hp)
  next
    case True
    note r = publish_all_room [of batch "sd_backend d" q p]
    from True form r try_open_batch_room [of "sd_handles d" "open_count d q" "length batch"] charge_all_spent [of "sd_subrequests d" batch]
    show ?thesis by (auto simp: open_count_def open_count_backlog)
  qed
qed

end
