(* ===== verification/Generations.thy ===== *)
theory Generations
  imports Errors BTree Machines Utf8
begin

text \<open>
  The generation registry of \<open>qqq-run/src/generations.rs\<close>: reservations that order updates before the expensive
  preparation, revision-checked publication, removal, and the retired generations that callers still hold. An \<open>Arc\<close> is
  its allocation identity with the generation it owns; the strong count of an allocation is what the registry's own
  entries hold of it plus what callers hold, which the operations take as an argument. A \<open>Weak\<close> is the identity.
\<close>

section \<open>Data\<close>

record 'a Generation =
  gen_id :: nat
  gen_revision :: u64
  gen_digest :: ustr
  gen_value :: 'a

record 'a Entry =
  requested :: u64
  active :: "'a Generation option"

record 'a State =
  revision :: u64
  entries :: "(ustr \<times> 'a Entry) list"
  retired :: "nat list"

record Update =
  up_owner :: nat
  up_name :: ustr
  up_revision :: u64

text \<open>\<open>reg_addr\<close> is the identity of the shared state, \<open>poisoned\<close> that of its mutex.\<close>

record 'a Registry =
  reg_addr :: nat
  reg_state :: "'a State"
  poisoned :: bool
  capacity :: nat
  retired_limit :: nat

definition registry_new :: "nat \<Rightarrow> nat \<Rightarrow> nat \<Rightarrow> 'a Registry" where
  "registry_new addr cap lim = \<lparr>reg_addr = addr, reg_state = \<lparr>revision = 0, entries = [], retired = []\<rparr>,
     poisoned = False, capacity = cap, retired_limit = lim\<rparr>"

definition refused :: "ustr \<Rightarrow> Error" where
  "refused m = with_remediation (msg ''retain the active component and retry after inspecting reload status'')
     (error_new ComponentLoadFailed m)"

definition advance :: "'a State \<Rightarrow> Error + 'a State \<times> u64" where
  "advance st = (case checked_add (revision st) 1 of
     None \<Rightarrow> Inl (refused (msg ''component revision exhausted''))
   | Some r \<Rightarrow> Inr (st\<lparr>revision := r\<rparr>, r))"

definition lock :: "'a Registry \<Rightarrow> Error + 'a State" where
  "lock r = (if poisoned r then Inl (refused (msg ''component registry lock is poisoned'')) else Inr (reg_state r))"

text \<open>The allocation an entry owns, and the strong count of an allocation.\<close>

definition owns :: "nat \<Rightarrow> 'a Entry \<Rightarrow> bool" where
  "owns i e = (case active e of None \<Rightarrow> False | Some g \<Rightarrow> gen_id g = i)"

definition strong_count :: "'a State \<Rightarrow> (nat \<Rightarrow> nat) \<Rightarrow> nat \<Rightarrow> nat" where
  "strong_count st held i = length (filter (\<lambda>(_, e). owns i e) (entries st)) + held i"

definition retain_live :: "'a State \<Rightarrow> (nat \<Rightarrow> nat) \<Rightarrow> 'a State" where
  "retain_live st held = st\<lparr>retired := filter (\<lambda>i. strong_count st held i \<noteq> 0) (retired st)\<rparr>"

definition pinned :: "'a State \<Rightarrow> (nat \<Rightarrow> nat) \<Rightarrow> ustr \<Rightarrow> bool" where
  "pinned st held name =
     (case Option.bind (map_of (entries st) name) active of
        None \<Rightarrow> False
      | Some g \<Rightarrow> 1 < strong_count st held (gen_id g))"

section \<open>Operations\<close>

definition reserve :: "'a Registry \<Rightarrow> ustr \<Rightarrow> 'a Registry \<times> (Error + Update)" where
  "reserve r name =
     (if name = [] \<or> 256 < length (utf8_bytes name)
      then (r, Inl (refused (msg ''component name must contain 1..=256 bytes'')))
      else case lock r of Inl e \<Rightarrow> (r, Inl e) | Inr st \<Rightarrow>
      (if map_of (entries st) name = None \<and> capacity r \<le> length (entries st)
       then (r, Inl (refused (msg ''component registry is full'')))
       else case advance st of Inl e \<Rightarrow> (r, Inl e) | Inr (st1, rv) \<Rightarrow>
         (let e = (case map_of (entries st1) name of
                     Some e \<Rightarrow> e\<lparr>requested := rv\<rparr> | None \<Rightarrow> \<lparr>requested = rv, active = None\<rparr>)
          in (r\<lparr>reg_state := st1\<lparr>entries := btree_insert name e (entries st1)\<rparr>\<rparr>,
              Inr \<lparr>up_owner = reg_addr r, up_name = name, up_revision = rv\<rparr>))))"

definition validate :: "'a Registry \<Rightarrow> 'a State \<Rightarrow> Update \<Rightarrow> Error + unit" where
  "validate r st u =
     (if up_owner u \<noteq> reg_addr r \<or>
         (case map_of (entries st) (up_name u) of None \<Rightarrow> True | Some e \<Rightarrow> requested e \<noteq> up_revision u)
      then Inl (refused (msg ''stale component preparation; a newer update or removal won''))
      else Inr ())"

text \<open>\<open>publish\<close>, with the allocation identity of the new generation and what callers hold.\<close>

definition publish :: "'a Registry \<Rightarrow> (nat \<Rightarrow> nat) \<Rightarrow> nat \<Rightarrow> Update \<Rightarrow> ustr \<Rightarrow> 'a \<Rightarrow> 'a Registry \<times> (Error + u64)" where
  "publish r held i u digest v =
     (let g = \<lparr>gen_id = i, gen_revision = up_revision u, gen_digest = digest, gen_value = v\<rparr> in
      case lock r of Inl e \<Rightarrow> (r, Inl e) | Inr st0 \<Rightarrow>
      (case validate r st0 u of Inl e \<Rightarrow> (r, Inl e) | Inr _ \<Rightarrow>
      (let st = retain_live st0 held; pin = pinned st held (up_name u) in
      if pin \<and> retired_limit r \<le> length (retired st)
      then (r\<lparr>reg_state := st\<rparr>, Inl (refused (msg ''retired generation limit reached; wait for existing sessions to drain'')))
      else case advance st of Inl e \<Rightarrow> (r\<lparr>reg_state := st\<rparr>, Inl e) | Inr (st1, _) \<Rightarrow>
      (case map_of (entries st1) (up_name u) of
         None \<Rightarrow> (r\<lparr>reg_state := st1\<rparr>, Inl (refused (msg ''component was removed during preparation'')))
       | Some e \<Rightarrow>
           (let st2 = st1\<lparr>entries := btree_insert (up_name u) (e\<lparr>active := Some g\<rparr>) (entries st1)\<rparr>;
                st3 = (case active e of
                         Some old \<Rightarrow> if pin then st2\<lparr>retired := retired st2 @ [gen_id old]\<rparr> else st2
                       | None \<Rightarrow> st2)
            in (r\<lparr>reg_state := st3\<rparr>, Inr (up_revision u)))))))"

definition cancel :: "'a Registry \<Rightarrow> Update \<Rightarrow> 'a Registry \<times> (Error + unit)" where
  "cancel r u =
     (case lock r of Inl e \<Rightarrow> (r, Inl e) | Inr st \<Rightarrow>
      (case validate r st u of Inl e \<Rightarrow> (r, Inl e) | Inr _ \<Rightarrow>
      (if (case map_of (entries st) (up_name u) of None \<Rightarrow> False | Some e \<Rightarrow> active e = None)
       then (r\<lparr>reg_state := st\<lparr>entries := btree_remove (up_name u) (entries st)\<rparr>\<rparr>, Inr ())
       else case advance st of Inl e \<Rightarrow> (r, Inl e) | Inr (st1, rv) \<Rightarrow>
         (case map_of (entries st1) (up_name u) of
            Some e \<Rightarrow> (r\<lparr>reg_state := st1\<lparr>entries :=
                        btree_insert (up_name u) (e\<lparr>requested := rv\<rparr>) (entries st1)\<rparr>\<rparr>, Inr ())
          | None \<Rightarrow> (r\<lparr>reg_state := st1\<rparr>, Inr ())))))"

definition acquire :: "'a Registry \<Rightarrow> ustr \<Rightarrow> Error + 'a Generation" where
  "acquire r name =
     (case lock r of Inl e \<Rightarrow> Inl e | Inr st \<Rightarrow>
      (case Option.bind (map_of (entries st) name) active of
         Some g \<Rightarrow> Inr g
       | None \<Rightarrow> Inl (refused (msg ''component has no active generation''))))"

definition remove :: "'a Registry \<Rightarrow> (nat \<Rightarrow> nat) \<Rightarrow> ustr \<Rightarrow> 'a Registry \<times> (Error + bool)" where
  "remove r held name =
     (case lock r of Inl e \<Rightarrow> (r, Inl e) | Inr st0 \<Rightarrow>
      (let st = retain_live st0 held; pin = pinned st held name in
      if pin \<and> retired_limit r \<le> length (retired st)
      then (r\<lparr>reg_state := st\<rparr>, Inl (refused (msg ''retired generation limit reached; wait before removal'')))
      else case advance st of Inl e \<Rightarrow> (r\<lparr>reg_state := st\<rparr>, Inl e) | Inr (st1, _) \<Rightarrow>
      (let old = map_of (entries st1) name;
           st2 = st1\<lparr>entries := btree_remove name (entries st1)\<rparr>;
           st3 = (case Option.bind old active of
                    Some g \<Rightarrow> if pin then st2\<lparr>retired := retired st2 @ [gen_id g]\<rparr> else st2
                  | None \<Rightarrow> st2)
       in (r\<lparr>reg_state := st3\<rparr>, Inr (old \<noteq> None)))))"

definition list_active :: "'a Registry \<Rightarrow> Error + (ustr \<times> u64 \<times> ustr) list" where
  "list_active r =
     (case lock r of Inl e \<Rightarrow> Inl e | Inr st \<Rightarrow>
      Inr (List.map_filter (\<lambda>(name, e). map_option (\<lambda>g. (name, gen_revision g, gen_digest g)) (active e)) (entries st)))"

definition registry_revision :: "'a Registry \<Rightarrow> Error + u64" where
  "registry_revision r = (case lock r of Inl e \<Rightarrow> Inl e | Inr st \<Rightarrow> Inr (revision st))"

definition draining :: "'a Registry \<Rightarrow> (nat \<Rightarrow> nat) \<Rightarrow> 'a Registry \<times> (Error + nat)" where
  "draining r held =
     (case lock r of Inl e \<Rightarrow> (r, Inl e) | Inr st0 \<Rightarrow>
      (let st = retain_live st0 held in (r\<lparr>reg_state := st\<rparr>, Inr (length (retired st)))))"

section \<open>The registry and its callers\<close>

text \<open>What callers hold: reservations, which are used up by value, and leases, which are cloned and dropped.\<close>

record 'a World =
  reg :: "'a Registry"
  tokens :: "Update list"
  leases :: "'a Generation list"
  next_alloc :: nat

datatype 'a Call =
    Reserve ustr
  | Adopt Update
  | PublishAt nat ustr 'a
  | CancelAt nat
  | Acquire ustr
  | CloneAt nat
  | DropAt nat
  | Remove ustr
  | Draining

definition world_new :: "nat \<Rightarrow> nat \<Rightarrow> nat \<Rightarrow> 'a World" where
  "world_new addr cap lim = \<lparr>reg = registry_new addr cap lim, tokens = [], leases = [], next_alloc = 0\<rparr>"

definition held :: "'a World \<Rightarrow> nat \<Rightarrow> nat" where
  "held w i = length (filter (\<lambda>g. gen_id g = i) (leases w))"

definition drop_at :: "nat \<Rightarrow> 'b list \<Rightarrow> 'b list" where
  "drop_at k xs = take k xs @ drop (Suc k) xs"

fun gstep :: "'a World \<Rightarrow> 'a Call \<Rightarrow> 'a World" where
  "gstep w (Reserve name) =
     (case reserve (reg w) name of
        (r, Inl _) \<Rightarrow> w\<lparr>reg := r\<rparr>
      | (r, Inr u) \<Rightarrow> w\<lparr>reg := r, tokens := tokens w @ [u]\<rparr>)"
| "gstep w (Adopt u) = (if up_owner u = reg_addr (reg w) then w else w\<lparr>tokens := tokens w @ [u]\<rparr>)"
| "gstep w (PublishAt k digest v) =
     (if k < length (tokens w)
      then w\<lparr>reg := fst (publish (reg w) (held w) (next_alloc w) (tokens w ! k) digest v),
             tokens := drop_at k (tokens w), next_alloc := Suc (next_alloc w)\<rparr>
      else w)"
| "gstep w (CancelAt k) =
     (if k < length (tokens w)
      then w\<lparr>reg := fst (cancel (reg w) (tokens w ! k)), tokens := drop_at k (tokens w)\<rparr> else w)"
| "gstep w (Acquire name) =
     (case acquire (reg w) name of Inl _ \<Rightarrow> w | Inr g \<Rightarrow> w\<lparr>leases := leases w @ [g]\<rparr>)"
| "gstep w (CloneAt k) = (if k < length (leases w) then w\<lparr>leases := leases w @ [leases w ! k]\<rparr> else w)"
| "gstep w (DropAt k) = (if k < length (leases w) then w\<lparr>leases := drop_at k (leases w)\<rparr> else w)"
| "gstep w (Remove name) = w\<lparr>reg := fst (remove (reg w) (held w) name)\<rparr>"
| "gstep w Draining = w\<lparr>reg := fst (draining (reg w) (held w))\<rparr>"

section \<open>Reservations\<close>

text \<open>What an operation may do to the revisions: the counter grows, and a request that changes gets a revision newer
  than any before.\<close>

definition ordered_change :: "'a Registry \<Rightarrow> 'a Registry \<Rightarrow> bool" where
  "ordered_change r r' \<longleftrightarrow> reg_addr r' = reg_addr r \<and> poisoned r' = poisoned r \<and>
     revision (reg_state r) \<le> revision (reg_state r') \<and>
     (\<forall>name e'. map_of (entries (reg_state r')) name = Some e' \<longrightarrow>
        (case map_of (entries (reg_state r)) name of Some e \<Rightarrow> requested e' = requested e | None \<Rightarrow> False) \<or>
        revision (reg_state r) < requested e' \<and> requested e' \<le> revision (reg_state r'))"

lemma advance_Inr: "advance st = Inr (st1, rv) \<longleftrightarrow>
    unat (revision st) + 1 < 2 ^ 64 \<and> rv = revision st + 1 \<and> st1 = st\<lparr>revision := rv\<rparr>"
  by (auto simp: advance_def checked_add_def split: option.splits if_splits)

lemma revision_grows: "unat (r :: u64) + 1 < 2 ^ 64 \<Longrightarrow> r < r + 1"
  by (simp add: word_less_nat_alt unat_word_ariths)

lemma ordered_refl [simp]: "ordered_change r r"
  by (auto simp: ordered_change_def split: option.splits)

lemma retain_live_simps [simp]:
  "entries (retain_live st h) = entries st" "revision (retain_live st h) = revision st"
  by (simp_all add: retain_live_def)

lemma lock_Inr [simp]: "lock r = Inr st \<longleftrightarrow> \<not> poisoned r \<and> st = reg_state r"
  by (auto simp: lock_def)

lemma lock_Inl: "lock r = Inl e \<Longrightarrow> poisoned r"
  by (simp add: lock_def split: if_splits)

lemma ordered_reserve: "ordered_change r (fst (reserve r name))"
  by (auto simp: reserve_def ordered_change_def advance_Inr Let_def revision_grows less_imp_le
      split: sum.splits option.splits)

lemma ordered_publish: "ordered_change r (fst (publish r h i u digest v))"
  by (auto simp: publish_def ordered_change_def advance_Inr Let_def revision_grows less_imp_le
      split: sum.splits option.splits)

lemma ordered_cancel: "ordered_change r (fst (cancel r u))"
  by (auto simp: cancel_def ordered_change_def advance_Inr Let_def revision_grows less_imp_le
      split: sum.splits option.splits)

lemma ordered_remove: "ordered_change r (fst (remove r h name))"
  by (auto simp: remove_def ordered_change_def advance_Inr Let_def revision_grows less_imp_le
      split: sum.splits option.splits)

lemma ordered_draining: "ordered_change r (fst (draining r h))"
  by (auto simp: draining_def ordered_change_def Let_def split: sum.splits option.splits)

lemmas ordered_ops = ordered_reserve ordered_publish ordered_cancel ordered_remove ordered_draining

lemma ordered_step: "ordered_change (reg w) (reg (gstep w c))"
proof (cases c)
  case (Reserve name)
  obtain r x where "reserve (reg w) name = (r, x)" by fastforce
  with Reserve ordered_reserve [of "reg w" name] show ?thesis by (cases x) simp_all
next
  case (Acquire name)
  then show ?thesis by (simp split: sum.splits)
qed (simp_all add: ordered_ops)

text \<open>A reservation that can no longer be used, and the invariant that ages reservations.\<close>

definition stale :: "Update \<Rightarrow> 'a World \<Rightarrow> bool" where
  "stale u w \<longleftrightarrow> up_owner u \<noteq> reg_addr (reg w) \<or>
     up_revision u \<le> revision (reg_state (reg w)) \<and>
     (case map_of (entries (reg_state (reg w))) (up_name u) of None \<Rightarrow> True | Some e \<Rightarrow> requested e \<noteq> up_revision u)"

definition aged :: "'a World \<Rightarrow> bool" where
  "aged w \<longleftrightarrow>
     (\<forall>name e. map_of (entries (reg_state (reg w))) name = Some e \<longrightarrow> requested e \<le> revision (reg_state (reg w))) \<and>
     (\<forall>u \<in> set (tokens w). up_owner u = reg_addr (reg w) \<longrightarrow> up_revision u \<le> revision (reg_state (reg w)))"

lemma set_drop_at: "set (drop_at k xs) \<subseteq> set xs"
  by (auto simp: drop_at_def dest: in_set_takeD in_set_dropD)

lemma reserve_token: "reserve r name = (r', Inr u) \<Longrightarrow>
    up_owner u = reg_addr r \<and> up_name u = name \<and> up_revision u = revision (reg_state r') \<and>
    revision (reg_state r) < revision (reg_state r') \<and>
    (\<exists>e. map_of (entries (reg_state r')) name = Some e \<and> requested e = up_revision u)"
  by (auto simp: reserve_def Let_def advance_Inr revision_grows split: if_splits sum.splits option.splits prod.splits)

lemma step_tokens: "set (tokens (gstep w c)) \<subseteq> set (tokens w) \<union>
    {u. up_owner u = reg_addr (reg w) \<longrightarrow> up_revision u \<le> revision (reg_state (reg (gstep w c)))}"
proof (cases c)
  case (Reserve name)
  obtain r x where "reserve (reg w) name = (r, x)" by fastforce
  with Reserve reserve_token [of "reg w" name r] show ?thesis by (cases x) auto
qed (auto simp: subsetD [OF set_drop_at] split: sum.splits)

lemma aged_step: "aged w \<Longrightarrow> aged (gstep w c)"
  using ordered_step [of w c] step_tokens [of w c]
  by (fastforce simp: aged_def ordered_change_def split: option.splits)

lemma stale_step: "stale u w \<Longrightarrow> stale u (gstep w c)"
  using ordered_step [of w c] by (fastforce simp: stale_def ordered_change_def split: option.splits)

interpretation reservations: stable_machine gstep aged stale
  by unfold_locales (auto intro: aged_step stale_step)

interpretation revisions: monotone_machine gstep aged "\<lambda>w. unat (revision (reg_state (reg w)))"
  by unfold_locales (use ordered_step in \<open>auto simp: ordered_change_def word_le_nat_alt\<close>)

lemma stale_refused:
  assumes "stale u w" "reg w = r"
  shows "fst (publish r h i u digest v) = r" "isl (snd (publish r h i u digest v))"
    "fst (cancel r u) = r" "isl (snd (cancel r u))"
  using assms by (auto simp: publish_def cancel_def validate_def stale_def split: sum.splits option.splits)

section \<open>Retired generations\<close>

definition act :: "'a Registry \<Rightarrow> ustr \<Rightarrow> 'a Generation option" where
  "act r name = Option.bind (map_of (entries (reg_state r)) name) active"

definition keep :: "'a Registry \<Rightarrow> (nat \<Rightarrow> nat) \<Rightarrow> nat list" where
  "keep r h = filter (\<lambda>i. strong_count (reg_state r) h i \<noteq> 0) (retired (reg_state r))"

text \<open>A quiet operation keeps the active generations and at most forgets dead retired ones.\<close>

definition quiet :: "'a Registry \<Rightarrow> (nat \<Rightarrow> nat) \<Rightarrow> 'a Registry \<Rightarrow> bool" where
  "quiet r h r' \<longleftrightarrow> act r' = act r \<and> retired (reg_state r') \<in> {retired (reg_state r), keep r h} \<and>
     retired_limit r' = retired_limit r \<and>
     (btree_ordered (entries (reg_state r)) \<longrightarrow> btree_ordered (entries (reg_state r')))"

text \<open>A swap gives one name a new active generation, or none, and retires the old one when it is pinned.\<close>

definition swap :: "'a Registry \<Rightarrow> (nat \<Rightarrow> nat) \<Rightarrow> ustr \<Rightarrow> 'a Generation option \<Rightarrow> 'a Registry \<Rightarrow> bool" where
  "swap r h name x r' \<longleftrightarrow> act r' = (act r)(name := x) \<and> retired_limit r' = retired_limit r \<and>
     (btree_ordered (entries (reg_state r)) \<longrightarrow> btree_ordered (entries (reg_state r'))) \<and>
     (if pinned (reg_state r) h name
      then length (keep r h) < retired_limit r \<and>
        (\<exists>old. act r name = Some old \<and> retired (reg_state r') = keep r h @ [gen_id old])
      else retired (reg_state r') = keep r h)"

lemma strong_count_retain [simp]: "strong_count (retain_live st h) h' i = strong_count st h' i"
  by (simp add: strong_count_def)

lemma pinned_retain [simp]: "pinned (retain_live st h) h name = pinned st h name"
  by (simp add: pinned_def split: option.splits)

lemma retired_retain [simp]: "retired (retain_live (reg_state r) h) = keep r h"
  by (simp add: retain_live_def keep_def)

lemma quiet_reserve: "quiet r h (fst (reserve r name))"
  by (auto simp: reserve_def quiet_def act_def advance_Inr Let_def fun_eq_iff btree_ordered_insert
      split: sum.splits option.splits)

lemma quiet_cancel: "quiet r h (fst (cancel r u))"
  by (auto simp: cancel_def quiet_def act_def advance_Inr Let_def fun_eq_iff btree_ordered_insert btree_ordered_remove
      split: sum.splits option.splits)

lemma quiet_draining: "quiet r h (fst (draining r h))"
  by (auto simp: draining_def quiet_def act_def Let_def split: sum.splits)

lemma swap_publish:
  "quiet r h (fst (publish r h i u digest v)) \<or>
   swap r h (up_name u) (Some \<lparr>gen_id = i, gen_revision = up_revision u, gen_digest = digest, gen_value = v\<rparr>)
     (fst (publish r h i u digest v))"
  by (auto simp: publish_def quiet_def swap_def act_def advance_Inr Let_def fun_eq_iff btree_ordered_insert pinned_def
      split: sum.splits option.splits)

lemma swap_remove: "quiet r h (fst (remove r h name)) \<or> swap r h name None (fst (remove r h name))"
  by (auto simp: remove_def quiet_def swap_def act_def advance_Inr Let_def fun_eq_iff btree_ordered_remove pinned_def
      split: sum.splits option.splits)

definition is_active :: "'a Registry \<Rightarrow> nat \<Rightarrow> bool" where
  "is_active r i \<longleftrightarrow> (\<exists>name g. act r name = Some g \<and> gen_id g = i)"

definition act_ok :: "'a Registry \<Rightarrow> nat \<Rightarrow> bool" where
  "act_ok r n \<longleftrightarrow> btree_ordered (entries (reg_state r)) \<and>
     (\<forall>name g. act r name = Some g \<longrightarrow> gen_id g < n) \<and>
     (\<forall>name name' g g'. act r name = Some g \<and> act r name' = Some g' \<and> gen_id g = gen_id g' \<longrightarrow> name = name')"

definition retired_ok :: "'a Registry \<Rightarrow> nat \<Rightarrow> bool" where
  "retired_ok r n \<longleftrightarrow> distinct (retired (reg_state r)) \<and> length (retired (reg_state r)) \<le> retired_limit r \<and>
     (\<forall>i \<in> set (retired (reg_state r)). i < n \<and> \<not> is_active r i)"

definition leases_ok :: "'a World \<Rightarrow> bool" where
  "leases_ok w \<longleftrightarrow> (\<forall>g \<in> set (leases w). gen_id g < next_alloc w \<and>
     (is_active (reg w) (gen_id g) \<or> gen_id g \<in> set (retired (reg_state (reg w)))))"

definition pool_inv :: "'a World \<Rightarrow> bool" where
  "pool_inv w \<longleftrightarrow> act_ok (reg w) (next_alloc w) \<and> retired_ok (reg w) (next_alloc w) \<and> leases_ok w"

lemma filter_set_mem: "filter Q m = ys \<Longrightarrow> y \<in> set ys \<Longrightarrow> y \<in> set m \<and> Q y"
  by auto

lemma single_match:
  assumes "distinct (map fst m)" "\<And>k k' v v'. (k, v) \<in> set m \<Longrightarrow> P v \<Longrightarrow> (k', v') \<in> set m \<Longrightarrow> P v' \<Longrightarrow> k = k'"
  shows "length (filter (\<lambda>(_, v). P v) m) = (if \<exists>k v. (k, v) \<in> set m \<and> P v then 1 else 0)"
proof (cases "filter (\<lambda>(_, v). P v) m")
  case Nil
  then show ?thesis by (auto simp: filter_empty_conv)
next
  case (Cons x xs)
  then have in_m: "y \<in> set m" "P (snd y)" if "y \<in> set (x # xs)" for y
    using that filter_set_mem [OF Cons] by (auto simp: case_prod_unfold)
  have "distinct (map fst (x # xs))" using assms(1) Cons by (metis distinct_map_filter)
  moreover have "fst y = fst x" if "y \<in> set xs" for y
    using in_m [of x] in_m [of y] that assms(2) [of "fst x" "snd x" "fst y" "snd y"] by simp
  ultimately have "xs = []" by (cases xs) (simp, metis distinct.simps(2) list.map(2) list.set_intros(1))
  moreover have "\<exists>k v. (k, v) \<in> set m \<and> P v" using in_m [of x] by (metis list.set_intros(1) prod.collapse)
  ultimately show ?thesis using Cons by simp
qed

lemma strong_count_active:
  assumes "act_ok r n"
  shows "strong_count (reg_state r) h i = (if is_active r i then 1 else 0) + h i"
proof -
  let ?m = "entries (reg_state r)"
  have d: "distinct (map fst ?m)" using assms by (simp add: act_ok_def btree_ordered_distinct)
  have own: "(k, e) \<in> set ?m \<and> owns i e \<longleftrightarrow> (\<exists>g. act r k = Some g \<and> gen_id g = i \<and> map_of ?m k = Some e)" for k e
    unfolding map_of_eq_Some_iff [OF d, symmetric]
    by (auto simp: owns_def act_def bind_eq_Some_conv split: option.splits)
  have "length (filter (\<lambda>(_, e). owns i e) ?m) = (if \<exists>k e. (k, e) \<in> set ?m \<and> owns i e then 1 else 0)"
    using assms own by (intro single_match [OF d]) (metis act_ok_def)
  moreover have "(\<exists>k e. (k, e) \<in> set ?m \<and> owns i e) \<longleftrightarrow> is_active r i"
    unfolding own is_active_def by (auto simp: act_def bind_eq_Some_conv)
  ultimately show ?thesis by (simp add: strong_count_def)
qed

lemma pinned_active:
  assumes "act_ok r n"
  shows "pinned (reg_state r) h name \<longleftrightarrow> (\<exists>g. act r name = Some g \<and> 0 < h (gen_id g))"
  using strong_count_active [OF assms, of h] by (auto simp: pinned_def is_active_def act_def split: option.splits)

lemma set_keep:
  assumes "act_ok r n" "retired_ok r n"
  shows "set (keep r h) = {i \<in> set (retired (reg_state r)). 0 < h i}"
  using assms(2) by (auto simp: keep_def strong_count_active [OF assms(1)] retired_ok_def)

lemma keep_ok:
  assumes "act_ok r n" "retired_ok r n"
  shows "distinct (keep r h)" "length (keep r h) \<le> retired_limit r" "i \<in> set (keep r h) \<Longrightarrow> i < n \<and> \<not> is_active r i"
  using assms(2) le_trans [OF length_filter_le] set_keep [OF assms, of h] by (auto simp: retired_ok_def keep_def)

lemma held_pos: "0 < held w i \<longleftrightarrow> (\<exists>g \<in> set (leases w). gen_id g = i)"
  by (auto simp: held_def filter_empty_conv)

lemma pool_quiet:
  assumes "pool_inv w" "quiet (reg w) (held w) r'" "next_alloc w \<le> n"
  shows "pool_inv (w\<lparr>reg := r', tokens := ts, next_alloc := n\<rparr>)"
proof -
  have act: "act r' = act (reg w)" and lim: "retired_limit r' = retired_limit (reg w)"
    and ret: "retired (reg_state r') \<in> {retired (reg_state (reg w)), keep (reg w) (held w)}"
    using assms(2) by (simp_all add: quiet_def)
  have ok: "act_ok (reg w) (next_alloc w)" "retired_ok (reg w) (next_alloc w)" "leases_ok w"
    using assms(1) by (simp_all add: pool_inv_def)
  have same: "is_active r' = is_active (reg w)" by (simp add: is_active_def act fun_eq_iff)
  have "act_ok r' n" using ok(1) assms(2,3) by (auto simp: act_ok_def act quiet_def intro: less_le_trans)
  moreover have kept: "set (keep (reg w) (held w)) = {i \<in> set (retired (reg_state (reg w))). 0 < held w i}"
    by (rule set_keep [OF ok(1,2)])
  have kb: "i \<in> set (keep (reg w) (held w)) \<Longrightarrow> i < n \<and> \<not> is_active (reg w) i" for i
    using keep_ok(3) [OF ok(1,2)] assms(3) less_le_trans by blast
  have "retired_ok r' n"
    using ok(2) ret lim assms(3) keep_ok(1,2) [OF ok(1,2), where h = "held w"] kb
    by (auto simp: retired_ok_def same intro: less_le_trans)
  moreover have "leases_ok (w\<lparr>reg := r', tokens := ts, next_alloc := n\<rparr>)"
    using ok(3) ret kept assms(3) by (auto simp: leases_ok_def same held_pos intro: less_le_trans)
  ultimately show ?thesis by (simp add: pool_inv_def)
qed

lemma pool_swap:
  assumes "pool_inv w" "swap (reg w) (held w) name x r'" "next_alloc w \<le> n"
    and new: "\<And>g. x = Some g \<Longrightarrow> next_alloc w \<le> gen_id g \<and> gen_id g < n"
  shows "pool_inv (w\<lparr>reg := r', tokens := ts, next_alloc := n\<rparr>)"
proof -
  have act: "act r' = (act (reg w))(name := x)" and lim: "retired_limit r' = retired_limit (reg w)"
    using assms(2) by (simp_all add: swap_def)
  have ok: "act_ok (reg w) (next_alloc w)" "retired_ok (reg w) (next_alloc w)" "leases_ok w"
    using assms(1) by (simp_all add: pool_inv_def)
  have kept: "set (keep (reg w) (held w)) = {i \<in> set (retired (reg_state (reg w))). 0 < held w i}"
    by (rule set_keep [OF ok(1,2)])
  have old_id: "\<not> is_active r' (gen_id g)" "gen_id g < next_alloc w" if "act (reg w) name = Some g" for g
  proof -
    show lt: "gen_id g < next_alloc w" using ok(1) that by (simp add: act_ok_def)
    have "name' = name" if "act (reg w) name' = Some g'" "gen_id g' = gen_id g" for name' g'
      using ok(1) that \<open>act (reg w) name = Some g\<close> unfolding act_ok_def by metis
    then show "\<not> is_active r' (gen_id g)" using lt new by (auto simp: is_active_def act split: if_splits)
  qed
  have kb: "i \<in> set (keep (reg w) (held w)) \<Longrightarrow> i < next_alloc w \<and> i < n \<and> \<not> is_active (reg w) i" for i
    using keep_ok(3) [OF ok(1,2)] assms(3) less_le_trans by blast
  have inactive: "\<not> is_active r' i" if "\<not> is_active (reg w) i" "i < next_alloc w" for i
    using that new by (auto simp: is_active_def act split: if_splits)
  have lt: "act (reg w) m = Some g \<Longrightarrow> gen_id g < next_alloc w" for m g using ok(1) by (simp add: act_ok_def)
  have "act_ok r' n"
    unfolding act_ok_def
  proof (intro conjI allI impI)
    show "btree_ordered (entries (reg_state r'))" using ok(1) assms(2) by (simp add: act_ok_def swap_def)
    show "gen_id g < n" if "act r' m = Some g" for m g
      using that lt new assms(3) by (cases "m = name") (auto simp: act intro: less_le_trans)
    show "m = m'" if "act r' m = Some g \<and> act r' m' = Some g' \<and> gen_id g = gen_id g'" for m m' g g'
      using that lt [of m g] lt [of m' g'] new ok(1) unfolding act_ok_def
      by (cases "m = name"; cases "m' = name") (auto simp: act dest!: new)
  qed
  moreover have "retired_ok r' n"
  proof (cases "pinned (reg_state (reg w)) (held w) name")
    case True
    then obtain old where old: "act (reg w) name = Some old"
        "retired (reg_state r') = keep (reg w) (held w) @ [gen_id old]" "length (keep (reg w) (held w)) < retired_limit (reg w)"
      using assms(2) by (auto simp: swap_def)
    have "is_active (reg w) (gen_id old)" using old(1) by (auto simp: is_active_def)
    then show ?thesis
      using old old_id [OF old(1)] keep_ok(1,2) [OF ok(1,2), where h = "held w"] kb inactive lim assms(3)
      by (auto simp: retired_ok_def)
  next
    case False
    then show ?thesis
      using assms(2) keep_ok(1,2) [OF ok(1,2), where h = "held w"] kb inactive lim by (auto simp: retired_ok_def swap_def)
  qed
  moreover have "is_active r' (gen_id g) \<or> gen_id g \<in> set (retired (reg_state r'))" if g: "g \<in> set (leases w)" for g
  proof -
    have pos: "0 < held w (gen_id g)" using g held_pos by blast
    consider "gen_id g \<in> set (retired (reg_state (reg w)))" | name' g' where "act (reg w) name' = Some g'" "gen_id g' = gen_id g"
      using ok(3) g by (auto simp: leases_ok_def is_active_def)
    then show ?thesis
    proof cases
      case 1
      then have "gen_id g \<in> set (keep (reg w) (held w))" using kept pos by simp
      then show ?thesis using assms(2) by (auto simp: swap_def split: if_splits)
    next
      case 2
      show ?thesis
      proof (cases "name' = name")
        case True
        then have "pinned (reg_state (reg w)) (held w) name" using 2 pos pinned_active [OF ok(1)] by auto
        then show ?thesis using assms(2) 2 True by (auto simp: swap_def)
      qed (use 2 act in \<open>auto simp: is_active_def\<close>)
    qed
  qed
  then have "leases_ok (w\<lparr>reg := r', tokens := ts, next_alloc := n\<rparr>)"
    using ok(3) assms(3) by (auto simp: leases_ok_def)
  ultimately show ?thesis by (simp add: pool_inv_def)
qed

lemma pool_leases:
  assumes "pool_inv w" "set ls \<subseteq> set (leases w) \<union> {g. is_active (reg w) (gen_id g)}"
  shows "pool_inv (w\<lparr>leases := ls\<rparr>)"
proof -
  have "gen_id g < next_alloc w" if "is_active (reg w) (gen_id g)" for g :: "'a Generation"
    using that assms(1) unfolding pool_inv_def act_ok_def is_active_def by metis
  with assms have "leases_ok (w\<lparr>leases := ls\<rparr>)" unfolding leases_ok_def pool_inv_def by (simp, blast)
  with assms(1) show ?thesis by (simp add: pool_inv_def)
qed

lemma acquire_active: "acquire r name = Inr g \<Longrightarrow> is_active r (gen_id g)"
  unfolding acquire_def is_active_def act_def by (auto split: sum.splits option.splits)

lemma pool_step:
  assumes "pool_inv w"
  shows "pool_inv (gstep w c)"
proof (cases c)
  case (Reserve name)
  obtain r x where "reserve (reg w) name = (r, x)" by fastforce
  with Reserve pool_quiet [OF assms quiet_reserve [of "reg w" "held w" name] order_refl] show ?thesis
    by (cases x) (simp_all, metis World.surjective World.update_convs(2))
next
  case (PublishAt k digest v)
  let ?r = "fst (publish (reg w) (held w) (next_alloc w) (tokens w ! k) digest v)"
  have "pool_inv (w\<lparr>reg := ?r, tokens := ts, next_alloc := Suc (next_alloc w)\<rparr>)" for ts
    using swap_publish [of "reg w" "held w" "next_alloc w" "tokens w ! k" digest v]
  proof
    assume "quiet (reg w) (held w) ?r"
    then show ?thesis by (rule pool_quiet [OF assms]) simp
  next
    assume "swap (reg w) (held w) (up_name (tokens w ! k)) (Some \<lparr>gen_id = next_alloc w,
        gen_revision = up_revision (tokens w ! k), gen_digest = digest, gen_value = v\<rparr>) ?r"
    then show ?thesis by (rule pool_swap [OF assms]) auto
  qed
  with PublishAt assms show ?thesis by simp
next
  case (CancelAt k)
  then show ?thesis using assms pool_quiet [OF assms quiet_cancel order_refl] by (auto simp: )
next
  case (Acquire name)
  then show ?thesis using assms
    by (auto simp: acquire_active intro!: pool_leases split: sum.splits)
next
  case (CloneAt k)
  then show ?thesis using assms by (auto intro!: pool_leases)
next
  case (DropAt k)
  then show ?thesis using assms subsetD [OF set_drop_at, of _ k "leases w"] by (auto intro!: pool_leases)
next
  case (Remove name)
  then show ?thesis
    using swap_remove [of "reg w" "held w" name] pool_quiet [OF assms _ order_refl, where ts = "tokens w"]
      pool_swap [OF assms _ order_refl, where ts = "tokens w"] by auto
next
  case Draining
  then show ?thesis using pool_quiet [OF assms quiet_draining order_refl, where ts = "tokens w"] by simp
qed (use assms in \<open>auto simp: pool_inv_def leases_ok_def\<close>)

interpretation pool: invariant_machine gstep pool_inv
  by unfold_locales (rule pool_step)

section \<open>Properties\<close>

lemma world_new_inv: "aged (world_new a cap lim)" "pool_inv (world_new a cap lim)"
  by (simp_all add: world_new_def registry_new_def aged_def pool_inv_def act_ok_def retired_ok_def leases_ok_def act_def
      btree_ordered_def)

lemma step_frame: "poisoned (reg (gstep w c)) = poisoned (reg w)" "retired_limit (reg (gstep w c)) = retired_limit (reg w)"
proof -
  show "poisoned (reg (gstep w c)) = poisoned (reg w)" using ordered_step [of w c] by (simp add: ordered_change_def)
  have "retired_limit (fst (publish r h i u d v)) = retired_limit r" "retired_limit (fst (remove r h n)) = retired_limit r"
    for r :: "'a Registry" and h i u d v n
    using swap_publish [of r h i u d v] swap_remove [of r h n] by (auto simp: quiet_def swap_def)
  moreover have "retired_limit (fst (reserve r n)) = retired_limit r" "retired_limit (fst (cancel r u)) = retired_limit r"
      "retired_limit (fst (draining r h)) = retired_limit r" for r :: "'a Registry" and h u n
    using quiet_reserve [of r h n] quiet_cancel [of r h u] quiet_draining [of r h] by (simp_all add: quiet_def)
  ultimately show "retired_limit (reg (gstep w c)) = retired_limit (reg w)"
    by (cases c) (simp_all split: sum.splits prod.splits, metis fst_conv)
qed

lemma run_frame:
  "poisoned (reg (run gstep w cs)) = poisoned (reg w) \<and> retired_limit (reg (run gstep w cs)) = retired_limit (reg w)"
  by (induction cs arbitrary: w) (simp_all add: step_frame)

text \<open>A call that wins over the reservation \<open>u\<close>: a newer reservation, a removal or a cancellation of its name.\<close>

fun supersedes :: "'a World \<Rightarrow> 'a Call \<Rightarrow> Update \<Rightarrow> bool" where
  "supersedes w (Reserve name) u = (name = up_name u \<and> \<not> isl (snd (reserve (reg w) name)))"
| "supersedes w (Remove name) u = (name = up_name u \<and> \<not> isl (snd (remove (reg w) (held w) name)))"
| "supersedes w (CancelAt k) u = (k < length (tokens w) \<and> up_name (tokens w ! k) = up_name u \<and>
     \<not> isl (snd (cancel (reg w) (tokens w ! k))))"
| "supersedes w _ u = False"

lemma remove_gone: "\<not> isl (snd (remove r h name)) \<Longrightarrow> map_of (entries (reg_state (fst (remove r h name)))) name = None"
  by (auto simp: remove_def Let_def advance_Inr dest: lock_Inl split: sum.splits if_splits option.splits)

lemma cancel_moves:
  "\<not> isl (snd (cancel r u)) \<Longrightarrow> map_of (entries (reg_state (fst (cancel r u)))) (up_name u) = Some e \<Longrightarrow>
     revision (reg_state r) < requested e"
  by (auto simp: cancel_def Let_def advance_Inr revision_grows split: sum.splits if_splits option.splits)

lemma superseded_stale:
  assumes "aged w" "u \<in> set (tokens w)" "supersedes w c u"
  shows "stale u (gstep w c)"
proof (cases "up_owner u = reg_addr (reg w)")
  case True
  then have old: "up_revision u \<le> revision (reg_state (reg w))" using assms(1,2) by (simp add: aged_def)
  have le: "revision (reg_state (reg w)) \<le> revision (reg_state (reg (gstep w c)))"
    using ordered_step [of w c] by (simp add: ordered_change_def)
  have "case map_of (entries (reg_state (reg (gstep w c)))) (up_name u) of None \<Rightarrow> True | Some e \<Rightarrow> requested e \<noteq> up_revision u"
  proof (cases c)
    case (Reserve name)
    obtain r x where r: "reserve (reg w) name = (r, x)" by fastforce
    with assms(3) Reserve obtain u' where "x = Inr u'" "name = up_name u" by (cases x) auto
    with r Reserve reserve_token [of "reg w" name r u'] old show ?thesis by (auto split: option.splits)
  next
    case (CancelAt k)
    with assms(3) old cancel_moves [of "reg w" "tokens w ! k"] show ?thesis by (fastforce split: option.splits)
  next
    case (Remove name)
    with assms(3) remove_gone [of "reg w" "held w" name] show ?thesis by auto
  qed (use assms(3) in simp_all)
  with order_trans [OF old le] show ?thesis by (simp add: stale_def)
next
  case False
  then show ?thesis using ordered_step [of w c] by (simp add: stale_def ordered_change_def)
qed

text \<open>C9. The latest reservation wins, for ever. Take any history of a registry and its callers, and any reservation \<open>u\<close> a
  caller still holds. Once a newer reservation, a removal or a cancellation of the same name succeeds, every later
  attempt to publish or cancel \<open>u\<close>, after any further history, is refused and leaves the registry exactly as it is, and
  the revision counter never went back. A removed and re-added name therefore never runs code prepared before.\<close>

theorem latest_reservation_wins:
  assumes "u \<in> set (tokens (run gstep (world_new a cap lim) cs))"
    and "supersedes (run gstep (world_new a cap lim) cs) c u"
  shows "let w = run gstep (world_new a cap lim) cs; r = reg (run gstep (gstep w c) later) in
    fst (publish r h i u digest v) = r \<and> isl (snd (publish r h i u digest v)) \<and>
    fst (cancel r u) = r \<and> isl (snd (cancel r u)) \<and>
    unat (revision (reg_state (reg w))) \<le> unat (revision (reg_state r))"
proof -
  define w where "w = run gstep (world_new a cap lim) cs"
  have aged: "aged w" unfolding w_def by (rule reservations.run_inv [OF world_new_inv(1)])
  then have st: "stale u (run gstep (gstep w c) later)"
    using assms by (intro reservations.run_stable aged_step superseded_stale) (simp_all add: w_def)
  have "unat (revision (reg_state (reg w))) \<le> unat (revision (reg_state (reg (run gstep (gstep w c) later))))"
    using revisions.run_mono [OF aged, of "c # later"] by simp
  then show ?thesis using stale_refused [OF st refl] by (simp add: Let_def flip: w_def)
qed

theorem latest_reservation_wins_witness:
  "let w = run gstep (world_new 0 4 4) [Reserve [112], Reserve [112]];
       u = \<lparr>up_owner = 0, up_name = [112], up_revision = 1\<rparr>; r = reg w in
    isl (snd (publish r (held w) 7 u [] (5 :: nat)))"
proof -
  have t: "tokens (run gstep (world_new 0 4 4 :: nat World) [Reserve [112]]) =
      [\<lparr>up_owner = 0, up_name = [112], up_revision = 1\<rparr>]"
    "supersedes (run gstep (world_new 0 4 4 :: nat World) [Reserve [112]]) (Reserve [112])
      \<lparr>up_owner = 0, up_name = [112], up_revision = 1\<rparr>"
    by (simp_all add: world_new_def registry_new_def reserve_def lock_def advance_def checked_add_def utf8_bytes_def
        encode_utf8_def encode_utf8_nat_def Let_def)
  show ?thesis
    using latest_reservation_wins [of "\<lparr>up_owner = 0, up_name = [112], up_revision = 1\<rparr>" 0 4 4 "[Reserve [112]]"
        "Reserve [112] :: nat Call" "[]"] t by (simp add: Let_def del: gstep.simps)
qed

text \<open>C33. Replaced code is accounted for. After any history, what \<open>draining\<close> reports is exactly the number of replaced or
  removed generations that some caller still holds, and it never exceeds the registry's limit: code that is neither
  active nor held is not kept, code that is held is never forgotten, and a publication or removal that would exceed the
  limit is refused instead.\<close>

theorem draining_exact:
  "let w = run gstep (world_new a cap lim) cs in
   case draining (reg w) (held w) of
     (_, Inl _) \<Rightarrow> False
   | (r', Inr n) \<Rightarrow> n \<le> lim \<and> act r' = act (reg w) \<and>
       n = card (gen_id ` {g \<in> set (leases w). \<not> is_active (reg w) (gen_id g)})"
proof -
  define w where "w = run gstep (world_new a cap lim) cs"
  have inv: "act_ok (reg w) (next_alloc w)" "retired_ok (reg w) (next_alloc w)" "leases_ok w"
    using pool.run_inv [OF world_new_inv(2), of a cap lim cs] by (simp_all add: pool_inv_def w_def)
  have fr: "\<not> poisoned (reg w)" "retired_limit (reg w) = lim"
    using run_frame [of "world_new a cap lim" cs] by (simp_all add: w_def world_new_def registry_new_def)
  have "set (keep (reg w) (held w)) = gen_id ` {g \<in> set (leases w). \<not> is_active (reg w) (gen_id g)}"
    using set_keep [OF inv(1,2), of "held w"] inv(2,3) by (auto simp: held_pos retired_ok_def leases_ok_def)
  then have "length (keep (reg w) (held w)) = card (gen_id ` {g \<in> set (leases w). \<not> is_active (reg w) (gen_id g)})"
    using keep_ok(1) [OF inv(1,2), of "held w"] distinct_card by metis
  moreover have "length (keep (reg w) (held w)) \<le> lim" using keep_ok(2) [OF inv(1,2), of "held w"] fr(2) by simp
  ultimately show ?thesis
    using fr(1) quiet_draining [of "reg w" "held w"]
    by (simp add: draining_def lock_def Let_def quiet_def flip: w_def)
qed

end
