(* ===== verification/Methods.thy ===== *)
theory Methods
  imports Bytes
begin

text \<open>
  The HTTP methods of \<open>qqq-serve/src/route.rs\<close> and the operations on \<open>str\<close> the parser and the router use. A Rust
  \<open>str\<close> is its UTF-8 bytes here: every test of these modules is a test on ASCII bytes.
\<close>

type_synonym bstr = "u8 list"

section \<open>Methods\<close>

datatype Method = Get | Head | Post | Put | Patch | Delete | Options | Trace | Connect | Extension

fun method_as_str :: "Method \<Rightarrow> bstr" where
  "method_as_str Get = ascii ''GET''"
| "method_as_str Head = ascii ''HEAD''"
| "method_as_str Post = ascii ''POST''"
| "method_as_str Put = ascii ''PUT''"
| "method_as_str Patch = ascii ''PATCH''"
| "method_as_str Delete = ascii ''DELETE''"
| "method_as_str Options = ascii ''OPTIONS''"
| "method_as_str Trace = ascii ''TRACE''"
| "method_as_str Connect = ascii ''CONNECT''"
| "method_as_str Extension = ascii ''<extension>''"

definition all_methods :: "Method list" where
  "all_methods = [Get, Head, Post, Put, Patch, Delete, Options, Trace, Connect]"

text \<open>\<open>trim_matches\<close> on space and tab, and ASCII case.\<close>

definition ows :: "u8 \<Rightarrow> bool" where
  "ows b \<longleftrightarrow> b = 32 \<or> b = 9"

definition trim_ows :: "bstr \<Rightarrow> bstr" where
  "trim_ows s = rev (dropWhile ows (rev (dropWhile ows s)))"

definition upper :: "u8 \<Rightarrow> u8" where
  "upper b = (if 97 \<le> b \<and> b \<le> 122 then b - 32 else b)"

definition lower :: "u8 \<Rightarrow> u8" where
  "lower b = (if 65 \<le> b \<and> b \<le> 90 then b + 32 else b)"

definition eq_ignore_ascii_case :: "bstr \<Rightarrow> bstr \<Rightarrow> bool" where
  "eq_ignore_ascii_case s t \<longleftrightarrow> map lower s = map lower t"

definition method_parse :: "bstr \<Rightarrow> Method option" where
  "method_parse s = (let up = map upper (trim_ows s) in find (\<lambda>m. method_as_str m = up) all_methods)"

definition is_safe :: "Method \<Rightarrow> bool" where
  "is_safe m \<longleftrightarrow> m \<in> {Get, Head, Options, Trace}"

definition is_idempotent :: "Method \<Rightarrow> bool" where
  "is_idempotent m \<longleftrightarrow> m \<in> {Get, Head, Options, Trace, Put, Delete}"

section \<open>Strings\<close>

text \<open>\<open>str::split\<close> on one byte, \<open>starts_with\<close>, and \<open>join\<close>.\<close>

fun split_byte :: "u8 \<Rightarrow> bstr \<Rightarrow> bstr list" where
  "split_byte c [] = [[]]"
| "split_byte c (x # xs) =
     (if x = c then [] # split_byte c xs
      else (case split_byte c xs of [] \<Rightarrow> [[x]] | p # ps \<Rightarrow> (x # p) # ps))"

definition starts_with :: "bstr \<Rightarrow> bstr \<Rightarrow> bool" where
  "starts_with p s \<longleftrightarrow> take (length p) s = p"

fun join_byte :: "u8 \<Rightarrow> bstr list \<Rightarrow> bstr" where
  "join_byte c [] = []"
| "join_byte c [s] = s"
| "join_byte c (s # ss) = s @ c # join_byte c ss"

lemma split_byte_nonempty [simp]: "split_byte c s \<noteq> []"
  by (cases s) (auto split: list.splits)

lemma split_byte_plain: "c \<notin> set s \<Longrightarrow> split_byte c s = [s]"
  by (induction s) auto

lemma split_byte_append: "c \<notin> set s \<Longrightarrow> split_byte c (s @ c # r) = s # split_byte c r"
  by (induction s) auto

lemma split_byte_join: "ss \<noteq> [] \<Longrightarrow> \<forall>s \<in> set ss. c \<notin> set s \<Longrightarrow> split_byte c (join_byte c ss) = ss"
  by (induction c ss rule: join_byte.induct) (simp_all add: split_byte_plain split_byte_append)

lemma join_split_byte: "join_byte c (split_byte c s) = s"
proof (induction s)
  case (Cons x s)
  then show ?case by (cases "split_byte c s") (auto split: list.splits, (cases "tl (split_byte c s)"; auto)+)
qed simp

lemma split_byte_clean: "p \<in> set (split_byte c s) \<Longrightarrow> c \<notin> set p"
  by (induction s arbitrary: p) (auto split: if_splits list.splits)

section \<open>The order of methods\<close>

text \<open>The derived \<open>Ord\<close>: declaration order.\<close>

fun method_index :: "Method \<Rightarrow> nat" where
  "method_index Get = 0"
| "method_index Head = 1"
| "method_index Post = 2"
| "method_index Put = 3"
| "method_index Patch = 4"
| "method_index Delete = 5"
| "method_index Options = 6"
| "method_index Trace = 7"
| "method_index Connect = 8"
| "method_index Extension = 9"

lemma method_index_inj: "method_index m = method_index m' \<longleftrightarrow> m = m'"
  by (cases m; cases m') simp_all

instantiation Method :: linorder
begin

definition less_eq_Method :: "Method \<Rightarrow> Method \<Rightarrow> bool" where
  "less_eq_Method m m' \<longleftrightarrow> method_index m \<le> method_index m'"

definition less_Method :: "Method \<Rightarrow> Method \<Rightarrow> bool" where
  "less_Method m m' \<longleftrightarrow> method_index m < method_index m'"

instance
  by standard (auto simp: less_eq_Method_def less_Method_def method_index_inj)

end

lemma method_parse_known: "method_parse s = Some m \<Longrightarrow> m \<noteq> Extension"
proof -
  assume "method_parse s = Some m"
  then have "m \<in> set all_methods" unfolding method_parse_def Let_def find_Some_iff by (metis nth_mem)
  then show ?thesis by (auto simp: all_methods_def)
qed

end
