(* ===== verification/Http1.thy ===== *)
theory Http1
  imports Methods Utf8
begin

text \<open>
  The HTTP/1.1 head parser of \<open>qqq-serve/src/http1.rs\<close>. A Rust \<open>str\<close> is its UTF-8 bytes here, since every test of
  the parser is a test on bytes; the whole head is checked to be UTF-8 first, as in the source. \<open>memchr\<close> is the function
  of the crate of that name, a parameter.
\<close>

section \<open>Data\<close>

definition MAX_HEADERS :: nat where "MAX_HEADERS = 100"
definition MAX_HEADER_BYTES :: nat where "MAX_HEADER_BYTES = 8 * 1024"
definition MAX_TARGET_BYTES :: nat where "MAX_TARGET_BYTES = 8 * 1024"
definition MAX_HEAD_BYTES :: nat where "MAX_HEAD_BYTES = 64 * 1024"
definition MAX_REQUEST_BYTES :: u64 where "MAX_REQUEST_BYTES = 2 * 1024 * 1024"

lemmas http_limits = MAX_HEADERS_def MAX_HEADER_BYTES_def MAX_TARGET_BYTES_def MAX_HEAD_BYTES_def MAX_REQUEST_BYTES_def

datatype ParseError =
    Incomplete nat
  | BadRequestLine bstr
  | UnknownMethod bstr
  | UnsupportedVersion bstr
  | TooManyHeaders nat
  | HeaderTooLong bstr nat nat
  | TargetTooLong nat nat
  | HeadTooLarge nat
  | MalformedHeader bstr
  | InvalidHeaderName bstr
  | TargetNotAbsolute bstr
  | ConflictingFraming
  | DuplicateContentLength
  | InvalidContentLength bstr
  | ObsFoldedHeader
  | DuplicateTransferEncoding
  | DuplicateHost
  | InvalidUtf8
  | BodyTooLarge u64 u64
  | UnsupportedTransferEncoding bstr

fun error_status :: "ParseError \<Rightarrow> nat" where
  "error_status (TooManyHeaders _) = 431"
| "error_status (HeaderTooLong _ _ _) = 431"
| "error_status (TargetTooLong _ _) = 431"
| "error_status (HeadTooLarge _) = 431"
| "error_status (BodyTooLarge _ _) = 413"
| "error_status (UnsupportedVersion _) = 505"
| "error_status _ = 400"

datatype HttpVersion = Http10 | Http11 | Http2

fun version_as_str :: "HttpVersion \<Rightarrow> bstr" where
  "version_as_str Http10 = ascii ''HTTP/1.0''"
| "version_as_str Http11 = ascii ''HTTP/1.1''"
| "version_as_str Http2 = ascii ''HTTP/2''"

record RequestHead =
  req_method :: Method
  target :: bstr
  version :: HttpVersion
  headers :: "(bstr \<times> bstr) list"
  content_length :: "u64 option"
  chunked :: bool

record ParsedHeaders =
  ph_headers :: "(bstr \<times> bstr) list"
  ph_content_length :: "u64 option"
  ph_chunked :: bool

section \<open>Strings\<close>

fun split_once :: "u8 \<Rightarrow> bstr \<Rightarrow> (bstr \<times> bstr) option" where
  "split_once c [] = None"
| "split_once c (x # xs) =
     (if x = c then Some ([], xs) else map_option (\<lambda>(p, r). (x # p, r)) (split_once c xs))"

text \<open>\<open>split("\r\n")\<close>.\<close>

fun split_crlf :: "bstr \<Rightarrow> bstr list" where
  "split_crlf [] = [[]]"
| "split_crlf [x] = [[x]]"
| "split_crlf (x # y # r) =
     (if x = 13 \<and> y = 10 then [] # split_crlf r
      else (case split_crlf (y # r) of [] \<Rightarrow> [[x]] | p # ps \<Rightarrow> (x # p) # ps))"

definition is_char_boundary :: "bstr \<Rightarrow> nat \<Rightarrow> bool" where
  "is_char_boundary s i \<longleftrightarrow> i = 0 \<or> i = length s \<or> i < length s \<and> \<not> (128 \<le> s ! i \<and> s ! i \<le> 191)"

fun boundary_below :: "bstr \<Rightarrow> nat \<Rightarrow> nat" where
  "boundary_below s 0 = 0"
| "boundary_below s (Suc n) = (if is_char_boundary s (Suc n) then Suc n else boundary_below s n)"

definition truncate_str :: "bstr \<Rightarrow> nat \<Rightarrow> bstr" where
  "truncate_str s mx = (if length s \<le> mx then s else take (boundary_below s mx) s @ [226, 128, 166])"

definition has_control_bytes :: "bstr \<Rightarrow> bool" where
  "has_control_bytes s = list_ex (\<lambda>b. b < 32 \<and> b \<noteq> 9 \<or> b = 127) s"

definition is_alnum :: "u8 \<Rightarrow> bool" where
  "is_alnum b \<longleftrightarrow> 48 \<le> b \<and> b \<le> 57 \<or> 65 \<le> b \<and> b \<le> 90 \<or> 97 \<le> b \<and> b \<le> 122"

definition token_byte :: "u8 \<Rightarrow> bool" where
  "token_byte b \<longleftrightarrow> is_alnum b \<or> b \<in> set (ascii ''!#$%&*+-.^_`|~'') \<or> b = 39"

definition is_valid_header_name :: "bstr \<Rightarrow> bool" where
  "is_valid_header_name s \<longleftrightarrow> s \<noteq> [] \<and> list_all token_byte s"

section \<open>The head's end\<close>

definition CRLF2 :: bstr where
  "CRLF2 = [13, 10, 13, 10]"

function head_scan :: "(u8 \<Rightarrow> bstr \<Rightarrow> nat option) \<Rightarrow> bstr \<Rightarrow> nat \<Rightarrow> nat option" where
  "head_scan memchr input search =
     (if length input < search then None
      else case memchr 13 (drop search input) of
             None \<Rightarrow> None
           | Some rel \<Rightarrow>
               (let i = search + rel in
                if i \<le> length input \<and> starts_with CRLF2 (drop i input) then Some (i + 4)
                else head_scan memchr input (i + 1)))"
  by pat_completeness auto
termination
  by (relation "measure (\<lambda>(_, input, search). Suc (length input) - search)") auto

declare head_scan.simps [simp del]

definition head_end_from :: "(u8 \<Rightarrow> bstr \<Rightarrow> nat option) \<Rightarrow> bstr \<Rightarrow> nat \<Rightarrow> nat option" where
  "head_end_from memchr input from = head_scan memchr input (min from (length input))"

definition head_end :: "(u8 \<Rightarrow> bstr \<Rightarrow> nat option) \<Rightarrow> bstr \<Rightarrow> nat option" where
  "head_end memchr input = head_end_from memchr input 0"

section \<open>Parsing\<close>

definition parse_request_line :: "bstr \<Rightarrow> ParseError + Method \<times> bstr \<times> HttpVersion" where
  "parse_request_line line =
     (if 9 \<in> set line then Inl (BadRequestLine (ascii ''tab in the request line''))
      else if list_ex (\<lambda>b. 128 \<le> b) line then Inl (BadRequestLine (ascii ''non-ASCII byte in the request line''))
      else case split_once 32 line of
        None \<Rightarrow> Inl (BadRequestLine (ascii ''expected `METHOD TARGET VERSION`''))
      | Some (m, r) \<Rightarrow>
      (case split_once 32 r of
        None \<Rightarrow> Inl (BadRequestLine (ascii ''expected `METHOD TARGET VERSION`''))
      | Some (t, v) \<Rightarrow>
        (if m = [] \<or> t = [] \<or> v = [] then Inl (BadRequestLine (ascii ''one of the three parts is empty''))
         else case method_parse m of
           None \<Rightarrow> Inl (UnknownMethod (truncate_str m 32))
         | Some meth \<Rightarrow>
           (if MAX_TARGET_BYTES < length t then Inl (TargetTooLong (length t) MAX_TARGET_BYTES)
            else if \<not> (t = ascii ''*'' \<and> meth = Options) \<and> \<not> starts_with (ascii ''/'') t
            then Inl (TargetNotAbsolute (truncate_str t 64))
            else if 32 \<in> set v \<or> 9 \<in> set v then Inl (BadRequestLine (ascii ''whitespace in the version''))
            else if v = ascii ''HTTP/1.1'' then Inr (meth, t, Http11)
            else if v = ascii ''HTTP/1.0'' then Inr (meth, t, Http10)
            else Inl (UnsupportedVersion (truncate_str v 16))))))"

text \<open>The loop of \<open>parse_header_block\<close>: its state is the headers so far and the two flags.\<close>

type_synonym loop_state = "ParsedHeaders \<times> bool \<times> bool"

text \<open>The framing headers, then the push.\<close>

definition framing :: "loop_state \<Rightarrow> bstr \<Rightarrow> bstr \<Rightarrow> ParseError + loop_state" where
  "framing st nm v =
     (case st of (out, seen_host, seen_te) \<Rightarrow>
      if eq_ignore_ascii_case nm (ascii ''content-length'') then
        (if ph_content_length out \<noteq> None then Inl DuplicateContentLength
         else if v = [] \<or> \<not> list_all (\<lambda>b. 48 \<le> b \<and> b \<le> 57) v then Inl (InvalidContentLength (truncate_str v 64))
         else case parse_uint 64 (map unat v) of
           None \<Rightarrow> Inl (InvalidContentLength (truncate_str v 64))
         | Some n \<Rightarrow>
             if MAX_REQUEST_BYTES < of_nat n then Inl (BodyTooLarge (of_nat n) MAX_REQUEST_BYTES)
             else Inr (out\<lparr>ph_content_length := Some (of_nat n)\<rparr>, seen_host, seen_te))
      else if eq_ignore_ascii_case nm (ascii ''transfer-encoding'') then
        (if seen_te then Inl DuplicateTransferEncoding
         else if eq_ignore_ascii_case v (ascii ''chunked'') then Inr (out\<lparr>ph_chunked := True\<rparr>, seen_host, True)
         else Inl (UnsupportedTransferEncoding (truncate_str v 64)))
      else if eq_ignore_ascii_case nm (ascii ''host'') then
        (if seen_host then Inl DuplicateHost else Inr (out, True, seen_te))
      else Inr (out, seen_host, seen_te))"

definition header_line :: "loop_state \<Rightarrow> bstr \<Rightarrow> ParseError + loop_state" where
  "header_line st line =
     (if MAX_HEADERS \<le> length (ph_headers (fst st)) then Inl (TooManyHeaders MAX_HEADERS)
      else if has_control_bytes line then Inl (InvalidHeaderName [])
      else if MAX_HEADER_BYTES < length line then
        Inl (HeaderTooLong
               (case split_once 58 line of
                  Some (c, _) \<Rightarrow> if is_valid_header_name c then c else [] | None \<Rightarrow> [])
               (length line) MAX_HEADER_BYTES)
      else case split_once 58 line of
        None \<Rightarrow> Inl (MalformedHeader (truncate_str line 64))
      | Some (nm, raw_value) \<Rightarrow>
        (if nm = [] then Inl (InvalidHeaderName [])
         else if ows (hd line) then Inl ObsFoldedHeader
         else if \<not> is_valid_header_name nm then Inl (InvalidHeaderName (truncate_str nm 64))
         else let v = trim_ows raw_value in
           case framing st nm v of
             Inl e \<Rightarrow> Inl e
           | Inr (out, flags) \<Rightarrow> Inr (out\<lparr>ph_headers := ph_headers out @ [(nm, v)]\<rparr>, flags)))"

fun header_loop :: "loop_state \<Rightarrow> bstr list \<Rightarrow> ParseError + loop_state" where
  "header_loop st [] = Inr st"
| "header_loop st (line # lines) =
     (case header_line st line of Inl e \<Rightarrow> Inl e | Inr st' \<Rightarrow> header_loop st' lines)"

definition parse_header_block :: "bstr list \<Rightarrow> ParseError + ParsedHeaders" where
  "parse_header_block lines =
     (case header_loop (\<lparr>ph_headers = [], ph_content_length = None, ph_chunked = False\<rparr>, False, False) lines of
        Inl e \<Rightarrow> Inl e
      | Inr (out, _) \<Rightarrow>
          if ph_chunked out \<and> ph_content_length out \<noteq> None then Inl ConflictingFraming else Inr out)"

definition parse_head :: "(u8 \<Rightarrow> bstr \<Rightarrow> nat option) \<Rightarrow> bstr \<Rightarrow> ParseError + RequestHead \<times> nat" where
  "parse_head memchr input =
     (case head_end memchr input of
        None \<Rightarrow> if MAX_HEAD_BYTES < length input then Inl (HeadTooLarge MAX_HEAD_BYTES)
                else Inl (Incomplete (length input))
      | Some e \<Rightarrow>
          if MAX_HEAD_BYTES < e then Inl (HeadTooLarge MAX_HEAD_BYTES)
          else if length input < e - 4 then Inl (Incomplete (length input))
          else let head = take (e - 4) input in
            if \<not> from_utf8_ok head then Inl InvalidUtf8
            else let lines = split_crlf head; request_line = hd lines in
              if has_control_bytes request_line then Inl (BadRequestLine (ascii ''control byte in the request line''))
              else case parse_request_line request_line of
                Inl err \<Rightarrow> Inl err
              | Inr (m, t, v) \<Rightarrow>
                  (if list_ex (\<lambda>b. 128 \<le> b) t then Inl (BadRequestLine (ascii ''non-ASCII request target''))
                   else case parse_header_block (tl lines) of
                     Inl err \<Rightarrow> Inl err
                   | Inr ph \<Rightarrow> Inr (\<lparr>req_method = m, target = t, version = v, headers = ph_headers ph,
                                     content_length = ph_content_length ph, chunked = ph_chunked ph\<rparr>, e)))"

section \<open>Reading a head\<close>

definition path :: "RequestHead \<Rightarrow> bstr" where
  "path h = takeWhile (\<lambda>b. b \<noteq> 63 \<and> b \<noteq> 35) (target h)"

definition query :: "RequestHead \<Rightarrow> bstr option" where
  "query h =
     (case split_once 63 (target h) of
        None \<Rightarrow> None
      | Some (before, rest) \<Rightarrow> if 35 \<in> set before then None else Some (takeWhile (\<lambda>b. b \<noteq> 35) rest))"

definition header :: "RequestHead \<Rightarrow> bstr \<Rightarrow> bstr option" where
  "header h nm = map_option snd (find (\<lambda>(k, _). eq_ignore_ascii_case k nm) (headers h))"

definition connection_tokens :: "RequestHead \<Rightarrow> bstr list" where
  "connection_tokens h =
     concat (map (\<lambda>(_, v). map trim_ows (split_byte 44 v))
       (filter (\<lambda>(k, _). eq_ignore_ascii_case k (ascii ''connection'')) (headers h)))"

definition wants_keep_alive :: "RequestHead \<Rightarrow> bool" where
  "wants_keep_alive h =
     (if list_ex (\<lambda>t. eq_ignore_ascii_case t (ascii ''close'')) (connection_tokens h) then False
      else if list_ex (\<lambda>t. eq_ignore_ascii_case t (ascii ''keep-alive'')) (connection_tokens h) then True
      else version h \<in> {Http11, Http2})"

definition has_body :: "RequestHead \<Rightarrow> bool" where
  "has_body h \<longleftrightarrow> chunked h \<or> (case content_length h of None \<Rightarrow> False | Some n \<Rightarrow> 0 < n)"

definition host :: "RequestHead \<Rightarrow> bstr option" where
  "host h = header h (ascii ''host'')"

definition is_missing_required_host :: "RequestHead \<Rightarrow> bool" where
  "is_missing_required_host h \<longleftrightarrow> version h = Http11 \<and> host h = None"

section \<open>Finding the end\<close>

text \<open>What \<open>memchr\<close> documents: the index of the first occurrence.\<close>

definition memchr_ok :: "(u8 \<Rightarrow> bstr \<Rightarrow> nat option) \<Rightarrow> bool" where
  "memchr_ok mc \<longleftrightarrow> (\<forall>b xs. mc b xs = (if b \<in> set xs then Some (length (takeWhile (\<lambda>x. x \<noteq> b) xs)) else None))"

definition first_index :: "u8 \<Rightarrow> bstr \<Rightarrow> nat option" where
  "first_index b xs = (if b \<in> set xs then Some (length (takeWhile (\<lambda>x. x \<noteq> b) xs)) else None)"

lemma memchr_ok_first_index: "memchr_ok first_index"
  by (simp add: memchr_ok_def first_index_def)

definition ends_at :: "bstr \<Rightarrow> nat \<Rightarrow> bool" where
  "ends_at input i = starts_with CRLF2 (drop i input)"

lemma ends_at_iff: "ends_at input i \<longleftrightarrow> i + 4 \<le> length input \<and>
    input ! i = 13 \<and> input ! (i + 1) = 10 \<and> input ! (i + 2) = 13 \<and> input ! (i + 3) = 10"
proof -
  have "take 4 xs = [a, b, c, d] \<longleftrightarrow> 4 \<le> length xs \<and> xs ! 0 = a \<and> xs ! 1 = b \<and> xs ! 2 = c \<and> xs ! 3 = d" for xs :: bstr and a b c d
    by (cases xs rule: list.exhaust; cases "tl xs"; cases "tl (tl xs)"; cases "tl (tl (tl xs))")
      (auto simp: eval_nat_numeral)
  from this [of "drop i input" 13 10 13 10] show ?thesis
    by (auto simp: ends_at_def starts_with_def CRLF2_def eval_nat_numeral)
qed

lemma length_takeWhile_less: "b \<in> set xs \<Longrightarrow> length (takeWhile (\<lambda>x. x \<noteq> b) xs) < length xs"
  by (induction xs) auto

lemma memchr_Some:
  assumes "memchr_ok mc" "mc b (drop s input) = Some rel"
  shows "s + rel < length input" "\<And>j. s \<le> j \<Longrightarrow> j < s + rel \<Longrightarrow> input ! j \<noteq> b"
proof -
  let ?t = "takeWhile (\<lambda>x. x \<noteq> b) (drop s input)"
  have b: "b \<in> set (drop s input)" and rel: "rel = length ?t"
    using assms by (auto simp: memchr_ok_def split: if_splits)
  have "length ?t < length (drop s input)"
    using b by (rule length_takeWhile_less)
  then show "s + rel < length input" using rel by simp
  fix j assume "s \<le> j" "j < s + rel"
  then have lt: "j - s < length ?t" using rel by simp
  have "?t ! (j - s) \<noteq> b" using set_takeWhileD [OF nth_mem [OF lt]] by blast
  moreover have "?t ! (j - s) = drop s input ! (j - s)" using lt by (rule takeWhile_nth)
  ultimately show "input ! j \<noteq> b" using \<open>s \<le> j\<close> \<open>s + rel < length input\<close> by simp
qed

lemma memchr_None:
  assumes "memchr_ok mc" "mc b (drop s input) = None" "s \<le> j" "j < length input"
  shows "input ! j \<noteq> b"
proof -
  have "b \<notin> set (drop s input)" using assms(1,2) by (auto simp: memchr_ok_def split: if_splits)
  moreover have "drop s input ! (j - s) \<in> set (drop s input)" using assms(3,4) by (intro nth_mem) simp
  ultimately show ?thesis using assms(3,4) by auto
qed

text \<open>The first terminator at or after \<open>s\<close>.\<close>

definition first_end :: "bstr \<Rightarrow> nat \<Rightarrow> nat option \<Rightarrow> bool" where
  "first_end input s r = (case r of
      None \<Rightarrow> \<forall>j \<ge> s. \<not> ends_at input j
    | Some e \<Rightarrow> s + 4 \<le> e \<and> ends_at input (e - 4) \<and> (\<forall>j. s \<le> j \<and> j < e - 4 \<longrightarrow> \<not> ends_at input j))"

lemma first_end_later:
  assumes "first_end input t r" "s \<le> t" "\<And>j. s \<le> j \<Longrightarrow> j < t \<Longrightarrow> \<not> ends_at input j"
  shows "first_end input s r"
  using assms by (fastforce simp: first_end_def not_le split: option.splits)

lemma head_scan_first: "memchr_ok mc \<Longrightarrow> first_end input s (head_scan mc input s)"
proof (induction mc input s rule: head_scan.induct)
  case (1 mc input s)
  note scan = head_scan.simps [of mc input s]
  consider "length input < s" | "s \<le> length input" "mc 13 (drop s input) = None"
    | rel where "s \<le> length input" "mc 13 (drop s input) = Some rel" by fastforce
  then show ?case
  proof cases
    case 1
    then show ?thesis by (auto simp: scan first_end_def ends_at_iff)
  next
    case 2
    then show ?thesis
      using memchr_None [OF \<open>memchr_ok mc\<close>, of 13 s input] by (auto simp: scan first_end_def ends_at_iff)
  next
    case 3
    note m = memchr_Some [OF \<open>memchr_ok mc\<close> 3(2)]
    have before: "\<not> ends_at input j" if "s \<le> j" "j < s + rel" for j using m(2) [OF that] by (simp add: ends_at_iff)
    show ?thesis
    proof (cases "ends_at input (s + rel)")
      case True
      then show ?thesis using 3 m(1) before by (simp add: scan first_end_def ends_at_def)
    next
      case False
      have "first_end input (s + rel + 1) (head_scan mc input (s + rel + 1))"
        using "1.IH" 3 m(1) False \<open>memchr_ok mc\<close> by (simp add: ends_at_def)
      then have "first_end input s (head_scan mc input (s + rel + 1))"
        by (rule first_end_later) (use before False in \<open>auto simp: less_Suc_eq\<close>)
      then show ?thesis using 3 m(1) False by (simp add: scan ends_at_def)
    qed
  qed
qed

lemma first_end_unique: "first_end input s r \<Longrightarrow> first_end input s r' \<Longrightarrow> r = r'"
proof (cases r; cases r')
  fix e e'
  assume a: "first_end input s r" "first_end input s r'" and r: "r = Some e" "r' = Some e'"
  have lt: "\<not> e - 4 < e' - 4" "\<not> e' - 4 < e - 4" using a by (auto simp: r first_end_def)
  have "4 \<le> e" "4 \<le> e'" using a by (auto simp: r first_end_def)
  with lt show ?thesis by (simp add: r)
qed (auto simp: first_end_def)

lemma ends_at_take: "ends_at (take n input) i \<longleftrightarrow> i + 4 \<le> n \<and> ends_at input i"
  by (auto simp: ends_at_iff)

text \<open>Scanning for the end of the head is incremental and loses nothing: the result is the first blank line at or
  after the starting point, and when the first \<open>n\<close> bytes hold no complete terminator, resuming three bytes before
  \<open>n\<close> finds exactly what a scan from the beginning finds, wherever the packets were cut.\<close>

theorem head_end_resumes:
  assumes "memchr_ok mc" "head_end mc (take n input) = None"
  shows "head_end mc input = head_end_from mc input (n - 3) \<and> first_end input 0 (head_end mc input)"
proof -
  have full: "first_end input 0 (head_end mc input)"
    using head_scan_first [OF assms(1), of input 0] by (simp add: head_end_def head_end_from_def)
  have "first_end (take n input) 0 None"
    using head_scan_first [OF assms(1), of "take n input" 0] assms(2) by (simp add: head_end_def head_end_from_def)
  then have none: "\<not> ends_at input j" if "j + 4 \<le> n" for j using that by (simp add: first_end_def ends_at_take)
  have "first_end input 0 (head_end_from mc input (n - 3))"
    unfolding head_end_from_def
    by (rule first_end_later [OF head_scan_first [OF assms(1)]]) (use none in auto)
  then show ?thesis using full first_end_unique by blast
qed

theorem head_end_resumes_witness:
  "memchr_ok first_index \<and> head_end first_index (take 3 [65, 13, 10, 13, 10, 66]) = None \<and>
   head_end first_index [65, 13, 10, 13, 10, 66] = head_end_from first_index [65, 13, 10, 13, 10, 66] 0 \<and>
   head_end first_index [65, 13, 10, 13, 10, 66] = Some 5"
proof -
  have n: "head_end first_index (take 3 [65, 13, 10, 13, 10, 66]) = None"
    by (simp add: head_end_def head_end_from_def head_scan.simps first_index_def starts_with_def CRLF2_def)
  moreover have "head_end first_index [65, 13, 10, 13, 10, 66] = Some 5"
    by (simp add: head_end_def head_end_from_def head_scan.simps first_index_def starts_with_def CRLF2_def)
  ultimately show ?thesis
    using head_end_resumes [OF memchr_ok_first_index n] memchr_ok_first_index by simp
qed

section \<open>What an accepted head looks like\<close>

definition named :: "string \<Rightarrow> (bstr \<times> bstr) list \<Rightarrow> (bstr \<times> bstr) list" where
  "named nm hs = filter (\<lambda>(k, _). eq_ignore_ascii_case k (ascii nm)) hs"

definition field_ok :: "bstr \<times> bstr \<Rightarrow> bool" where
  "field_ok f \<longleftrightarrow> is_valid_header_name (fst f) \<and> \<not> has_control_bytes (snd f) \<and> trim_ows (snd f) = snd f \<and>
     length (fst f) + length (snd f) < 8192"

text \<open>The length a Content-Length value declares.\<close>

definition declared :: "bstr \<Rightarrow> nat" where
  "declared v = digits_val (map unat v)"

definition length_ok :: "(bstr \<times> bstr) list \<Rightarrow> u64 option \<Rightarrow> bool" where
  "length_ok hs n = (case named ''content-length'' hs of
      [] \<Rightarrow> n = None
    | [(_, v)] \<Rightarrow> v \<noteq> [] \<and> list_all (\<lambda>b. 48 \<le> b \<and> b \<le> 57) v \<and> declared v \<le> 2 * 1024 * 1024 \<and>
        n = Some (of_nat (declared v))
    | _ \<Rightarrow> False)"

definition coding_ok :: "(bstr \<times> bstr) list \<Rightarrow> bool \<Rightarrow> bool" where
  "coding_ok hs c = (case named ''transfer-encoding'' hs of
      [] \<Rightarrow> \<not> c
    | [(_, v)] \<Rightarrow> c \<and> eq_ignore_ascii_case v (ascii ''chunked'')
    | _ \<Rightarrow> False)"

definition loop_ok :: "loop_state \<Rightarrow> bool" where
  "loop_ok st = (case st of (out, seen_host, seen_te) \<Rightarrow>
     length (ph_headers out) \<le> 100 \<and> list_all field_ok (ph_headers out) \<and>
     length_ok (ph_headers out) (ph_content_length out) \<and> coding_ok (ph_headers out) (ph_chunked out) \<and>
     seen_te = ph_chunked out \<and> length (named ''host'' (ph_headers out)) = (if seen_host then 1 else 0))"

lemma names_distinct:
  "eq_ignore_ascii_case k (ascii ''content-length'') \<Longrightarrow> \<not> eq_ignore_ascii_case k (ascii ''transfer-encoding'')"
  "eq_ignore_ascii_case k (ascii ''content-length'') \<Longrightarrow> \<not> eq_ignore_ascii_case k (ascii ''host'')"
  "eq_ignore_ascii_case k (ascii ''transfer-encoding'') \<Longrightarrow> \<not> eq_ignore_ascii_case k (ascii ''host'')"
  by (simp_all add: eq_ignore_ascii_case_def ascii_def lower_def)

lemma hd_dropWhile_not: "dropWhile P xs \<noteq> [] \<Longrightarrow> \<not> P (hd (dropWhile P xs))"
  by (induction xs) auto

lemma last_dropWhile: "dropWhile P xs \<noteq> [] \<Longrightarrow> last (dropWhile P xs) = last xs"
  by (induction xs) (auto split: if_splits)

lemma dropWhile_hd_id: "xs = [] \<or> \<not> P (hd xs) \<Longrightarrow> dropWhile P xs = xs"
  by (cases xs) auto

lemma trim_ends: "trim_ows s = [] \<or> \<not> ows (hd (trim_ows s)) \<and> \<not> ows (last (trim_ows s))"
proof (cases "trim_ows s = []")
  case False
  define t where "t = dropWhile ows s"
  define u where "u = dropWhile ows (rev t)"
  have u: "u \<noteq> []" using False by (simp add: trim_ows_def u_def t_def)
  then have t: "t \<noteq> []" by (auto simp: u_def)
  have "last u = hd t" using last_dropWhile [of ows "rev t"] u t by (simp add: u_def last_rev)
  moreover have "\<not> ows (hd t)" using hd_dropWhile_not t unfolding t_def by blast
  moreover have "\<not> ows (hd u)" using hd_dropWhile_not u unfolding u_def by blast
  ultimately show ?thesis using u by (simp add: trim_ows_def flip: t_def u_def) (simp add: hd_rev last_rev)
qed simp

lemma trim_id_iff: "s = [] \<or> \<not> ows (hd s) \<and> \<not> ows (last s) \<Longrightarrow> trim_ows s = s"
  by (auto simp: trim_ows_def dropWhile_hd_id hd_rev)

lemma trim_trim [simp]: "trim_ows (trim_ows s) = trim_ows s"
  by (rule trim_id_iff) (use trim_ends in blast)

lemma set_dropWhile_subset: "set (dropWhile P xs) \<subseteq> set xs"
  using set_dropWhileD by fastforce

lemma set_trim: "set (trim_ows s) \<subseteq> set s"
  using set_dropWhile_subset [of ows "rev (dropWhile ows s)"] set_dropWhile_subset [of ows s]
  by (simp add: trim_ows_def)

lemma length_trim: "length (trim_ows s) \<le> length s"
  using length_dropWhile_le [of ows "rev (dropWhile ows s)"] length_dropWhile_le [of ows s] by (simp add: trim_ows_def)

lemma split_once_append [simp]: "c \<notin> set p \<Longrightarrow> split_once c (p @ c # r) = Some (p, r)"
  by (induction p) auto

lemma split_once_SomeD: "split_once c s = Some (p, r) \<Longrightarrow> s = p @ c # r \<and> c \<notin> set p"
  by (induction s arbitrary: p) (auto split: if_splits)

lemma has_control_append [simp]: "has_control_bytes (s @ t) \<longleftrightarrow> has_control_bytes s \<or> has_control_bytes t"
  by (simp add: has_control_bytes_def)

lemma has_control_mono: "has_control_bytes s \<Longrightarrow> set s \<subseteq> set t \<Longrightarrow> has_control_bytes t"
  by (auto simp: has_control_bytes_def list_ex_iff)

lemma parse_digits:
  assumes "list_all (\<lambda>b. 48 \<le> b \<and> b \<le> 57) v" "v \<noteq> []"
  shows "parse_uint 64 (map unat v) = (if declared v < 2 ^ 64 then Some (declared v) else None)"
proof -
  have d: "list_all is_ascii_digit (map unat v)"
    using assms(1) by (auto simp: list_all_iff is_ascii_digit_def word_le_nat_alt)
  moreover have "strip_prefix (lit ''+'') (map unat v) = None"
    using assms by (cases v) (auto simp: word_le_nat_alt)
  ultimately show ?thesis using assms(2) by (simp add: parse_uint_def declared_def)
qed

lemma named_snoc: "named nm (hs @ [(k, v)]) = named nm hs @ (if eq_ignore_ascii_case k (ascii nm) then [(k, v)] else [])"
  by (simp add: named_def)

lemma length_ok_None: "length_ok hs None \<longleftrightarrow> named ''content-length'' hs = []"
  by (auto simp: length_ok_def split: list.splits)

lemma coding_ok_False: "coding_ok hs False \<longleftrightarrow> named ''transfer-encoding'' hs = []"
  by (auto simp: coding_ok_def split: list.splits)

text \<open>What pushing a field does to the three invariants of the framing fields.\<close>

lemma push_length: "\<not> eq_ignore_ascii_case k (ascii ''content-length'') \<Longrightarrow> length_ok (hs @ [(k, v)]) n = length_ok hs n"
  by (simp add: length_ok_def named_snoc)

lemma push_coding: "\<not> eq_ignore_ascii_case k (ascii ''transfer-encoding'') \<Longrightarrow> coding_ok (hs @ [(k, v)]) c = coding_ok hs c"
  by (simp add: coding_ok_def named_snoc)

lemma framing_ok:
  assumes "framing st nm v = Inr (out', h', t')" "loop_ok st" "length (ph_headers (fst st)) < 100" "field_ok (nm, v)"
  shows "loop_ok (out'\<lparr>ph_headers := ph_headers out' @ [(nm, v)]\<rparr>, h', t')"
proof -
  obtain out h t where st: "st = (out, h, t)" by (cases st) auto
  have ok: "length_ok (ph_headers out) (ph_content_length out)" "coding_ok (ph_headers out) (ph_chunked out)"
      "t = ph_chunked out" "length (named ''host'' (ph_headers out)) = (if h then 1 else 0)"
      "list_all field_ok (ph_headers out)"
    using assms(2) by (simp_all add: st loop_ok_def)
  consider "eq_ignore_ascii_case nm (ascii ''content-length'')" | "eq_ignore_ascii_case nm (ascii ''transfer-encoding'')"
    | "\<not> eq_ignore_ascii_case nm (ascii ''content-length'')" "\<not> eq_ignore_ascii_case nm (ascii ''transfer-encoding'')"
    by blast
  then show ?thesis
  proof cases
    case 1
    then have len: "ph_content_length out = None" "v \<noteq> []" "list_all (\<lambda>b. 48 \<le> b \<and> b \<le> 57) v"
      using assms(1) by (auto simp: framing_def st split: if_splits)
    have d: "declared v < 2 ^ 64" "\<not> MAX_REQUEST_BYTES < of_nat (declared v)"
      and out': "out' = out\<lparr>ph_content_length := Some (of_nat (declared v))\<rparr>" "h' = h" "t' = t"
      using assms(1) 1 len parse_digits [OF len(3,2)] by (auto simp: framing_def st split: if_splits)
    then have "declared v \<le> 2 * 1024 * 1024"
      by (simp add: MAX_REQUEST_BYTES_def word_less_nat_alt unat_of_nat)
    moreover have "named ''content-length'' (ph_headers out) = []" using ok(1) len(1) by (simp add: length_ok_None)
    ultimately have "length_ok (ph_headers out @ [(nm, v)]) (Some (of_nat (declared v)))"
      using 1 len by (simp add: length_ok_def named_snoc)
    then show ?thesis
      using ok assms(3,4) 1 names_distinct [of nm] by (simp add: loop_ok_def out' st push_coding named_snoc)
  next
    case 2
    have ncl: "\<not> eq_ignore_ascii_case nm (ascii ''content-length'')" using 2 names_distinct by blast
    then have c: "\<not> t" "eq_ignore_ascii_case v (ascii ''chunked'')" "out' = out\<lparr>ph_chunked := True\<rparr>" "h' = h" "t'"
      using assms(1) 2 by (auto simp: framing_def st split: if_splits)
    then have "named ''transfer-encoding'' (ph_headers out) = []" using ok(2,3) by (simp add: coding_ok_False)
    then have "coding_ok (ph_headers out @ [(nm, v)]) True" using 2 c by (simp add: coding_ok_def named_snoc)
    then show ?thesis
      using ok assms(3,4) 2 ncl names_distinct [of nm] c by (simp add: loop_ok_def st push_length named_snoc)
  next
    case 3
    then show ?thesis
      using ok assms by (auto simp: framing_def loop_ok_def st push_length push_coding named_snoc split: if_splits)
  qed
qed

lemma header_line_ok:
  assumes "header_line st line = Inr st'" "loop_ok st"
  shows "loop_ok st'"
proof -
  obtain nm r where sp: "split_once 58 line = Some (nm, r)"
    and c: "length (ph_headers (fst st)) < 100" "\<not> has_control_bytes line" "length line \<le> 8192"
      "is_valid_header_name nm"
    and f: "\<exists>out flags. framing st nm (trim_ows r) = Inr (out, flags) \<and>
      st' = (out\<lparr>ph_headers := ph_headers out @ [(nm, trim_ows r)]\<rparr>, flags)"
    using assms(1) by (fastforce simp: header_line_def Let_def http_limits not_le not_less
        split: if_splits option.splits sum.splits prod.splits)
  have line: "line = nm @ 58 # r" using split_once_SomeD [OF sp] by blast
  then have "\<not> has_control_bytes (trim_ows r)"
    using c(2) has_control_mono [OF _ set_trim, of r] by (auto simp: has_control_bytes_def)
  then have "field_ok (nm, trim_ows r)" using c(3,4) length_trim [of r] by (simp add: field_ok_def line)
  then show ?thesis using f framing_ok [OF _ assms(2) c(1)] by auto
qed

lemma loop_start_ok: "loop_ok (\<lparr>ph_headers = [], ph_content_length = None, ph_chunked = False\<rparr>, False, False)"
  by (simp add: loop_ok_def length_ok_def coding_ok_def named_def)

lemma header_loop_ok: "header_loop st lines = Inr st' \<Longrightarrow> loop_ok st \<Longrightarrow> loop_ok st'"
  by (induction st lines rule: header_loop.induct) (auto intro: header_line_ok split: sum.splits)

definition target_ok :: "Method \<Rightarrow> bstr \<Rightarrow> bool" where
  "target_ok m t \<longleftrightarrow> t \<noteq> [] \<and> length t \<le> 8192 \<and> list_all (\<lambda>b. 33 \<le> b \<and> b \<le> 126) t \<and>
     (t = ascii ''*'' \<and> m = Options \<or> starts_with (ascii ''/'') t)"

definition head_ok :: "RequestHead \<Rightarrow> bool" where
  "head_ok h \<longleftrightarrow> req_method h \<noteq> Extension \<and> target_ok (req_method h) (target h) \<and> version h \<in> {Http10, Http11} \<and>
     length (headers h) \<le> 100 \<and> list_all field_ok (headers h) \<and>
     length_ok (headers h) (content_length h) \<and> coding_ok (headers h) (chunked h) \<and>
     length (named ''host'' (headers h)) \<le> 1 \<and> \<not> (chunked h \<and> content_length h \<noteq> None)"

lemma visible_byte: "\<not> (b < 32 \<and> b \<noteq> 9 \<or> b = 127) \<Longrightarrow> b \<noteq> 9 \<Longrightarrow> b \<noteq> 32 \<Longrightarrow> \<not> 128 \<le> b \<Longrightarrow> 33 \<le> b \<and> b \<le> (126 :: u8)"
proof -
  assume a: "\<not> (b < 32 \<and> b \<noteq> 9 \<or> b = 127)" "b \<noteq> 9" "b \<noteq> 32" "\<not> 128 \<le> b"
  then have "\<not> unat b < 32" "unat b \<noteq> 127" "unat b \<noteq> 32" "\<not> 128 \<le> unat b"
    by (auto simp: word_less_nat_alt word_le_nat_alt word_unat_eq_iff)
  then have "33 \<le> unat b \<and> unat b \<le> 126" by linarith
  then show ?thesis by (simp add: word_le_nat_alt)
qed

lemma request_line_ok:
  assumes "parse_request_line line = Inr (m, t, v)" "\<not> has_control_bytes line"
  shows "m \<noteq> Extension \<and> target_ok m t \<and> v \<in> {Http10, Http11}"
proof -
  obtain ms r vs where sp: "split_once 32 line = Some (ms, r)" "split_once 32 r = Some (t, vs)"
    and m: "method_parse ms = Some m" and t: "t \<noteq> []" "length t \<le> 8192"
      "t = ascii ''*'' \<and> m = Options \<or> starts_with (ascii ''/'') t" and v: "v \<in> {Http10, Http11}"
    and b: "9 \<notin> set line" "\<not> list_ex (\<lambda>b. 128 \<le> b) line"
    using assms(1) by (auto simp: parse_request_line_def http_limits split: if_splits option.splits prod.splits)
  have "set t \<subseteq> set line" "32 \<notin> set t" using split_once_SomeD [OF sp(1)] split_once_SomeD [OF sp(2)] by auto
  then have "33 \<le> b \<and> b \<le> 126" if "b \<in> set t" for b
    using that b assms(2) by (intro visible_byte) (auto simp: has_control_bytes_def list_ex_iff)
  then show ?thesis using method_parse_known [OF m] t v by (auto simp: target_ok_def list_all_iff)
qed

text \<open>C4. An accepted head is unambiguous. Whatever bytes a client sends, when the parser accepts them the head ends at the
  first blank line, within 64 KiB; the method is one HTTP defines, the target is printable ASCII without blanks,
  absolute unless it is the asterisk of OPTIONS; there are at most 100 fields, each with a token for its name and a
  trimmed value free of control bytes; at most one Host; and the body's framing is what every reader of the fields must
  conclude: at most one Content-Length, decimal digits without sign that declare at most 2 MiB and are reported exactly,
  at most one Transfer-Encoding, which is \<open>chunked\<close> and reported so, and never both.\<close>

theorem accepted_head_unambiguous:
  assumes "memchr_ok mc" "parse_head mc input = Inr (h, n)"
  shows "head_ok h \<and> first_end input 0 (Some n) \<and> n \<le> 65536 \<and> n \<le> length input"
proof -
  have scan: "head_end mc input = Some n" and lim: "n \<le> 65536"
    using assms(2) by (auto simp: parse_head_def Let_def http_limits split: option.splits if_splits sum.splits)
  have first: "first_end input 0 (Some n)"
    using head_scan_first [OF assms(1), of input 0] scan by (simp add: head_end_def head_end_from_def)
  then have "4 \<le> n" "ends_at input (n - 4)" by (simp_all add: first_end_def)
  then have "n \<le> length input" by (simp add: ends_at_iff)
  moreover
  let ?lines = "split_crlf (take (n - 4) input)"
  obtain ph where line: "parse_request_line (hd ?lines) = Inr (req_method h, target h, version h)"
      "\<not> has_control_bytes (hd ?lines)" and ph: "parse_header_block (tl ?lines) = Inr ph"
      "headers h = ph_headers ph" "content_length h = ph_content_length ph" "chunked h = ph_chunked ph"
    using assms(2) scan by (auto simp: parse_head_def Let_def split: if_splits sum.splits)
  obtain flags where "header_loop (\<lparr>ph_headers = [], ph_content_length = None, ph_chunked = False\<rparr>, False, False) (tl ?lines) =
      Inr (ph, flags)" and excl: "\<not> (ph_chunked ph \<and> ph_content_length ph \<noteq> None)"
    using ph(1) by (auto simp: parse_header_block_def split: sum.splits if_splits)
  then have "loop_ok (ph, flags)" using header_loop_ok [OF _ loop_start_ok] by blast
  then have "head_ok h"
    using request_line_ok [OF line] excl ph(2-4) by (cases flags) (auto simp: loop_ok_def head_ok_def split: if_splits)
  ultimately show ?thesis using first lim by blast
qed

section \<open>Writing a head\<close>

definition field_line :: "bstr \<times> bstr \<Rightarrow> bstr" where
  "field_line f = fst f @ 58 # snd f"

definition request_line :: "RequestHead \<Rightarrow> bstr" where
  "request_line h = method_as_str (req_method h) @ 32 # target h @ 32 # version_as_str (version h)"

fun join_crlf :: "bstr list \<Rightarrow> bstr" where
  "join_crlf [] = []"
| "join_crlf [l] = l"
| "join_crlf (l # ls) = l @ 13 # 10 # join_crlf ls"

definition head_text :: "RequestHead \<Rightarrow> bstr" where
  "head_text h = join_crlf (request_line h # map field_line (headers h))"

definition plain_line :: "bstr \<Rightarrow> bool" where
  "plain_line l \<longleftrightarrow> l \<noteq> [] \<and> 13 \<notin> set l"

lemma plain_nth: "plain_line l \<Longrightarrow> j < length l \<Longrightarrow> l ! j \<noteq> 13"
  unfolding plain_line_def by (metis nth_mem)

lemma split_crlf_line: "13 \<notin> set l \<Longrightarrow> split_crlf l = [l]"
  by (induction l rule: split_crlf.induct) auto

lemma split_crlf_append: "13 \<notin> set l \<Longrightarrow> split_crlf (l @ 13 # 10 # r) = l # split_crlf r"
proof (induction l)
  case (Cons x l)
  then show ?case by (cases l) auto
qed simp

lemma split_join_crlf: "list_all plain_line (l # ls) \<Longrightarrow> split_crlf (join_crlf (l # ls)) = l # ls"
  by (induction ls arbitrary: l) (auto simp: plain_line_def split_crlf_line split_crlf_append)

lemma ends_at_shift: "ends_at (p @ xs) (length p + j) = ends_at xs j"
  by (simp add: ends_at_def)

lemma no_early_end:
  "list_all plain_line (l # ls) \<Longrightarrow> j < length (join_crlf (l # ls)) \<Longrightarrow> \<not> ends_at (join_crlf (l # ls) @ rest) j"
proof (induction ls arbitrary: l j)
  case Nil
  then have "l ! j \<noteq> 13" using plain_nth [of l j] by simp
  with Nil show ?case by (simp add: ends_at_iff nth_append)
next
  case (Cons l' ls)
  let ?b = "join_crlf (l' # ls)"
  obtain c b where b: "?b = c # b" "c \<noteq> 13"
    using Cons.prems(1) by (cases l'; cases ls) (auto simp: plain_line_def)
  consider "j < length l" | "j = length l" | "j = Suc (length l)" | k where "j = length (l @ [13, 10]) + k" "k < length ?b"
  proof -
    assume a: "j < length l \<Longrightarrow> thesis" "j = length l \<Longrightarrow> thesis" "j = Suc (length l) \<Longrightarrow> thesis"
      "\<And>k. j = length (l @ [13, 10]) + k \<Longrightarrow> k < length ?b \<Longrightarrow> thesis"
    show thesis
    proof (cases "j < length l + 2")
      case True
      then show thesis using a(1-3) by (auto simp: less_Suc_eq)
    next
      case False
      then show thesis using a(4) [of "j - (length l + 2)"] Cons.prems(2) by simp
    qed
  qed
  then show ?case
  proof cases
    case 1
    then have "l ! j \<noteq> 13" using Cons.prems(1) plain_nth [of l j] by simp
    with 1 show ?thesis by (simp add: ends_at_iff nth_append)
  next
    case 2
    then show ?thesis using b by (simp add: ends_at_iff nth_append)
  next
    case 3
    then show ?thesis by (simp add: ends_at_iff nth_append)
  next
    case 4
    have "\<not> ends_at (?b @ rest) k" using Cons.IH [of l' k] Cons.prems(1) 4(2) by simp
    then show ?thesis using ends_at_shift [of "l @ [13, 10]" "?b @ rest" k] 4(1) by simp
  qed
qed

text \<open>The loop state after the fields \<open>hs\<close>.\<close>

definition state_after :: "(bstr \<times> bstr) list \<Rightarrow> loop_state" where
  "state_after hs =
     (\<lparr>ph_headers = hs,
       ph_content_length = (case named ''content-length'' hs of [] \<Rightarrow> None | (_, v) # _ \<Rightarrow> Some (of_nat (declared v))),
       ph_chunked = (named ''transfer-encoding'' hs \<noteq> [])\<rparr>,
      named ''host'' hs \<noteq> [], named ''transfer-encoding'' hs \<noteq> [])"

definition fields_ok :: "(bstr \<times> bstr) list \<Rightarrow> bool" where
  "fields_ok hs \<longleftrightarrow> length hs \<le> 100 \<and> list_all field_ok hs \<and> (\<exists>n. length_ok hs n) \<and> (\<exists>c. coding_ok hs c) \<and>
     length (named ''host'' hs) \<le> 1"

lemma pushed_length:
  assumes "length_ok (hs @ [(k, v)]) n" "eq_ignore_ascii_case k (ascii ''content-length'')"
  shows "named ''content-length'' hs = [] \<and> v \<noteq> [] \<and> list_all (\<lambda>b. 48 \<le> b \<and> b \<le> 57) v \<and>
    declared v \<le> 2 * 1024 * 1024 \<and> n = Some (of_nat (declared v))"
  by (cases "named ''content-length'' hs"; cases "tl (named ''content-length'' hs)")
    (use assms in \<open>auto simp: length_ok_def named_snoc\<close>)

lemma pushed_coding:
  assumes "coding_ok (hs @ [(k, v)]) c" "eq_ignore_ascii_case k (ascii ''transfer-encoding'')"
  shows "named ''transfer-encoding'' hs = [] \<and> eq_ignore_ascii_case v (ascii ''chunked'') \<and> c"
  by (cases "named ''transfer-encoding'' hs"; cases "tl (named ''transfer-encoding'' hs)")
    (use assms in \<open>auto simp: coding_ok_def named_snoc\<close>)

lemma length_ok_prefix: "length_ok (hs @ [(k, v)]) n \<Longrightarrow> \<exists>n. length_ok hs n"
  using pushed_length push_length length_ok_None by blast

lemma coding_ok_prefix: "coding_ok (hs @ [(k, v)]) c \<Longrightarrow> \<exists>c. coding_ok hs c"
  using pushed_coding push_coding coding_ok_False by blast

lemma fields_ok_prefix: "fields_ok (hs @ [f]) \<Longrightarrow> fields_ok hs"
  by (cases f) (auto simp: fields_ok_def named_snoc dest: length_ok_prefix coding_ok_prefix split: if_splits)

lemma token_plain: "token_byte b \<Longrightarrow> b \<noteq> 58 \<and> b \<noteq> 13 \<and> \<not> ows b \<and> \<not> (b < 32 \<and> b \<noteq> 9 \<or> b = 127)"
proof -
  assume "token_byte b"
  then have "33 \<le> b \<and> b < 127 \<and> b \<noteq> 58"
    by (auto simp: token_byte_def is_alnum_def ascii_def word_le_nat_alt word_less_nat_alt word_unat_eq_iff)
  then show ?thesis by (auto simp: ows_def word_le_nat_alt word_less_nat_alt word_unat_eq_iff)
qed

lemma field_line_parts:
  assumes "field_ok (k, v)"
  shows "split_once 58 (field_line (k, v)) = Some (k, v)" "\<not> has_control_bytes (field_line (k, v))"
    "k \<noteq> []" "\<not> ows (hd (field_line (k, v)))" "length (field_line (k, v)) \<le> 8192" "plain_line (field_line (k, v))"
proof -
  have k: "k \<noteq> []" "\<And>b. b \<in> set k \<Longrightarrow> token_byte b"
    using assms by (simp_all add: field_ok_def is_valid_header_name_def list_all_iff)
  have "58 \<notin> set k" "\<not> has_control_bytes k" "13 \<notin> set k"
    using token_plain [OF k(2)] by (auto simp: has_control_bytes_def list_ex_iff)
  moreover have "\<not> has_control_bytes v" using assms by (simp add: field_ok_def)
  moreover from this have "13 \<notin> set v" by (auto simp: has_control_bytes_def list_ex_iff)
  ultimately show "split_once 58 (field_line (k, v)) = Some (k, v)" "\<not> has_control_bytes (field_line (k, v))"
      "k \<noteq> []" "plain_line (field_line (k, v))"
    using k(1) by (simp_all add: field_line_def has_control_bytes_def plain_line_def)
  show "\<not> ows (hd (field_line (k, v)))"
    using k(1) token_plain [OF k(2), of "hd k"] by (simp add: field_line_def)
  show "length (field_line (k, v)) \<le> 8192" using assms by (simp add: field_ok_def field_line_def)
qed

lemma framing_replay:
  assumes "fields_ok (hs @ [(k, v)])"
  shows "\<exists>out flags. framing (state_after hs) k v = Inr (out, flags) \<and>
    (out\<lparr>ph_headers := ph_headers out @ [(k, v)]\<rparr>, flags) = state_after (hs @ [(k, v)])"
proof -
  obtain n c where ok: "length_ok (hs @ [(k, v)]) n" "coding_ok (hs @ [(k, v)]) c" "length (named ''host'' (hs @ [(k, v)])) \<le> 1"
    using assms by (auto simp: fields_ok_def)
  consider "eq_ignore_ascii_case k (ascii ''content-length'')" | "eq_ignore_ascii_case k (ascii ''transfer-encoding'')"
    | "\<not> eq_ignore_ascii_case k (ascii ''content-length'')" "\<not> eq_ignore_ascii_case k (ascii ''transfer-encoding'')"
    by blast
  then show ?thesis
  proof cases
    case 1
    have v: "named ''content-length'' hs = []" "v \<noteq> []" "list_all (\<lambda>b. 48 \<le> b \<and> b \<le> 57) v"
        "declared v \<le> 2 * 1024 * 1024"
      using pushed_length [OF ok(1) 1] by simp_all
    then have "\<not> MAX_REQUEST_BYTES < of_nat (declared v)"
      by (simp add: MAX_REQUEST_BYTES_def word_less_nat_alt unat_of_nat)
    then show ?thesis
      using 1 v names_distinct [of k] parse_digits [OF v(3,2)] by (simp add: framing_def state_after_def named_snoc)
  next
    case 2
    have v: "named ''transfer-encoding'' hs = []" "eq_ignore_ascii_case v (ascii ''chunked'')"
      using pushed_coding [OF ok(2) 2] by simp_all
    have "\<not> eq_ignore_ascii_case k (ascii ''content-length'')" using 2 names_distinct by blast
    then show ?thesis using 2 v names_distinct [of k] by (simp add: framing_def state_after_def named_snoc)
  next
    case 3
    then show ?thesis
      using ok(3) by (auto simp: framing_def state_after_def named_snoc)
  qed
qed

lemma header_line_replay:
  assumes "fields_ok (hs @ [(k, v)])"
  shows "header_line (state_after hs) (field_line (k, v)) = Inr (state_after (hs @ [(k, v)]))"
proof -
  have f: "field_ok (k, v)" "length hs < 100" using assms by (simp_all add: fields_ok_def)
  note parts = field_line_parts [OF f(1)]
  have "is_valid_header_name k" "trim_ows v = v" using f(1) by (simp_all add: field_ok_def)
  with parts f(2) framing_replay [OF assms] show ?thesis
    by (auto simp: header_line_def http_limits Let_def state_after_def)
qed

lemma header_loop_append:
  "header_loop st (ls @ ls') = (case header_loop st ls of Inl e \<Rightarrow> Inl e | Inr st' \<Rightarrow> header_loop st' ls')"
  by (induction st ls rule: header_loop.induct) (auto split: sum.splits)

lemma header_loop_replay: "fields_ok hs \<Longrightarrow> header_loop (state_after []) (map field_line hs) = Inr (state_after hs)"
proof (induction hs rule: rev_induct)
  case (snoc f hs)
  then show ?case using fields_ok_prefix [of hs f] header_line_replay [of hs "fst f" "snd f"]
    by (simp add: header_loop_append)
qed simp

section \<open>The round trip\<close>

definition printable :: "bstr \<Rightarrow> bool" where
  "printable s = list_all (\<lambda>b. 33 \<le> b \<and> b \<le> 126) s"

lemma printable_bytes:
  assumes "printable s"
  shows "9 \<notin> set s" "32 \<notin> set s" "13 \<notin> set s" "\<not> list_ex (\<lambda>b. 128 \<le> b) s" "\<not> has_control_bytes s"
proof -
  have "33 \<le> unat b \<and> unat b \<le> 126" if "b \<in> set s" for b
    using assms that by (auto simp: printable_def list_all_iff word_le_nat_alt)
  then show "9 \<notin> set s" "32 \<notin> set s" "13 \<notin> set s" "\<not> list_ex (\<lambda>b. 128 \<le> b) s" "\<not> has_control_bytes s"
    by (fastforce simp: has_control_bytes_def list_ex_iff word_le_nat_alt word_less_nat_alt)+
qed

lemma method_text: "m \<noteq> Extension \<Longrightarrow> printable (method_as_str m) \<and> method_as_str m \<noteq> [] \<and> method_parse (method_as_str m) = Some m"
  by (cases m) (simp_all add: printable_def method_parse_def trim_ows_def ows_def upper_def ascii_def all_methods_def)

lemma version_text: "printable (version_as_str v) \<and> version_as_str v \<noteq> []"
  by (cases v) (simp_all add: printable_def ascii_def)

lemma request_line_replay:
  assumes "m \<noteq> Extension" "target_ok m t" "v \<in> {Http10, Http11}"
  shows "parse_request_line (method_as_str m @ 32 # t @ 32 # version_as_str v) = Inr (m, t, v)"
proof -
  have t: "printable t" "t \<noteq> []" "length t \<le> 8192" "t = ascii ''*'' \<and> m = Options \<or> starts_with (ascii ''/'') t"
    using assms(2) by (simp_all add: target_ok_def printable_def)
  have m: "printable (method_as_str m)" "method_as_str m \<noteq> []" "method_parse (method_as_str m) = Some m"
    using method_text [OF assms(1)] by simp_all
  have v: "printable (version_as_str v)" "version_as_str v \<noteq> []" using version_text by simp_all
  have ne: "ascii ''HTTP/1.0'' \<noteq> ascii ''HTTP/1.1''" by (simp add: ascii_def)
  show ?thesis
    using t m v assms(3) printable_bytes [OF t(1)] printable_bytes [OF m(1)] printable_bytes [OF v(1)]
    by (auto simp: parse_request_line_def http_limits ne ne [symmetric])
qed

lemma request_line_plain: "head_ok h \<Longrightarrow> plain_line (request_line h) \<and> \<not> has_control_bytes (request_line h)"
proof -
  assume "head_ok h"
  then have p: "printable (target h)" "printable (method_as_str (req_method h))" "printable (version_as_str (version h))"
    using method_text version_text by (simp_all add: head_ok_def target_ok_def printable_def)
  have sp: "\<not> has_control_bytes [32]" by (simp add: has_control_bytes_def)
  show ?thesis
    using p [THEN printable_bytes(5)] p [THEN printable_bytes(3)] sp
    by (simp add: request_line_def plain_line_def has_control_bytes_def)
qed

lemma head_fields: "head_ok h \<Longrightarrow> fields_ok (headers h)"
  by (auto simp: head_ok_def fields_ok_def)

lemma state_after_head:
  assumes "head_ok h"
  shows "ph_content_length (fst (state_after (headers h))) = content_length h"
    "ph_chunked (fst (state_after (headers h))) = chunked h"
proof -
  have ok: "length_ok (headers h) (content_length h)" "coding_ok (headers h) (chunked h)"
    using assms by (simp_all add: head_ok_def)
  show "ph_content_length (fst (state_after (headers h))) = content_length h"
    using ok(1) by (cases "named ''content-length'' (headers h)"; cases "tl (named ''content-length'' (headers h))")
      (auto simp: length_ok_def state_after_def)
  show "ph_chunked (fst (state_after (headers h))) = chunked h"
    using ok(2) by (cases "named ''transfer-encoding'' (headers h)"; cases "tl (named ''transfer-encoding'' (headers h))")
      (auto simp: coding_ok_def state_after_def)
qed

lemma block_replay:
  assumes "head_ok h"
  shows "parse_header_block (map field_line (headers h)) =
    Inr \<lparr>ph_headers = headers h, ph_content_length = content_length h, ph_chunked = chunked h\<rparr>"
proof -
  have start: "state_after [] = (\<lparr>ph_headers = [], ph_content_length = None, ph_chunked = False\<rparr>, False, False)"
    by (simp add: state_after_def named_def)
  have "\<not> (chunked h \<and> content_length h \<noteq> None)" using assms by (simp add: head_ok_def)
  then show ?thesis
    using header_loop_replay [OF head_fields [OF assms]] state_after_head [OF assms]
    by (simp add: parse_header_block_def start) (auto simp: state_after_def)
qed

lemma head_lines_plain: "head_ok h \<Longrightarrow> list_all plain_line (request_line h # map field_line (headers h))"
  using request_line_plain field_line_parts(6)
  by (fastforce simp: head_ok_def list_all_iff)

lemma head_end_text:
  assumes "memchr_ok mc" "head_ok h"
  shows "head_end mc (head_text h @ CRLF2 @ rest) = Some (length (head_text h) + 4)"
proof (rule first_end_unique)
  show "first_end (head_text h @ CRLF2 @ rest) 0 (head_end mc (head_text h @ CRLF2 @ rest))"
    using head_scan_first [OF assms(1), of _ 0] by (simp add: head_end_def head_end_from_def)
  show "first_end (head_text h @ CRLF2 @ rest) 0 (Some (length (head_text h) + 4))"
    using no_early_end [OF head_lines_plain [OF assms(2)]] ends_at_shift [of "head_text h" "CRLF2 @ rest" 0]
    by (simp add: first_end_def head_text_def) (simp add: ends_at_def starts_with_def)
qed

text \<open>C32. Reading back what was written: the text of any well-formed head, its fields in order, followed by a blank line and
  whatever bytes come after, is parsed as exactly that head, and the parser reports that it consumed the head and the
  blank line and nothing of what follows. Together with the theorem before this one, the well-formed heads are
  precisely those the parser can return.\<close>

theorem parse_render:
  assumes "memchr_ok mc" "head_ok h" "from_utf8_ok (head_text h)" "length (head_text h) + 4 \<le> 65536"
  shows "parse_head mc (head_text h @ CRLF2 @ rest) = Inr (h, length (head_text h) + 4)"
proof -
  note plain = head_lines_plain [OF assms(2)]
  have lines: "split_crlf (head_text h) = request_line h # map field_line (headers h)"
    using split_join_crlf [OF plain] by (simp add: head_text_def)
  have ok: "req_method h \<noteq> Extension" "target_ok (req_method h) (target h)" "version h \<in> {Http10, Http11}"
    using assms(2) by (simp_all add: head_ok_def)
  have "parse_request_line (request_line h) = Inr (req_method h, target h, version h)"
    unfolding request_line_def using ok by (rule request_line_replay)
  moreover have "\<not> list_ex (\<lambda>b. 128 \<le> b) (target h)"
    using ok(2) printable_bytes(4) [of "target h"] by (simp add: target_ok_def printable_def)
  ultimately show ?thesis
    using head_end_text [OF assms(1,2), of rest] assms(3,4) lines request_line_plain [OF assms(2)] block_replay [OF assms(2)]
    by (simp add: parse_head_def Let_def http_limits)
qed

definition sample_head :: RequestHead where
  "sample_head = \<lparr>req_method = Put, target = ascii ''/a?b'', version = Http11,
     headers = [(ascii ''Host'', ascii ''x''), (ascii ''Content-Length'', ascii ''12'')],
     content_length = Some 12, chunked = False\<rparr>"

lemma sample_head_ok: "head_ok sample_head"
  by (simp add: sample_head_def head_ok_def target_ok_def starts_with_def field_ok_def is_valid_header_name_def token_byte_def
      is_alnum_def has_control_bytes_def trim_ows_def ows_def length_ok_def coding_ok_def named_def eq_ignore_ascii_case_def
      lower_def declared_def digits_val_def ascii_def)

theorem parse_render_witness:
  "head_ok sample_head \<and>
   parse_head first_index (head_text sample_head @ CRLF2 @ [1, 2]) = Inr (sample_head, length (head_text sample_head) + 4)"
proof -
  have "from_utf8_ok (head_text sample_head)" "length (head_text sample_head) + 4 \<le> 65536"
    by (simp_all add: sample_head_def head_text_def request_line_def field_line_def ascii_def from_utf8_ok_def)
  then show ?thesis using parse_render [OF memchr_ok_first_index sample_head_ok, of "[1, 2]"] sample_head_ok by simp
qed

text \<open>The theorem on accepted heads at a concrete request: \<open>GET / HTTP/1.0\<close> and a blank line.\<close>

definition tiny_request :: bstr where
  "tiny_request = ascii ''GET / HTTP/1.0'' @ CRLF2"

lemma tiny_request_parses:
  "parse_head first_index tiny_request =
     Inr (\<lparr>req_method = Get, target = ascii ''/'', version = Http10, headers = [], content_length = None, chunked = False\<rparr>, 18)"
  by (simp add: parse_head_def tiny_request_def head_end_def head_end_from_def head_scan.simps first_index_def starts_with_def
      CRLF2_def http_limits from_utf8_ok_def has_control_bytes_def parse_request_line_def method_parse_def trim_ows_def ows_def
      upper_def all_methods_def ascii_def parse_header_block_def)

theorem accepted_head_unambiguous_witness:
  "memchr_ok first_index \<and> (\<exists>h. parse_head first_index tiny_request = Inr (h, 18) \<and> head_ok h)"
  using accepted_head_unambiguous [OF memchr_ok_first_index tiny_request_parses] memchr_ok_first_index tiny_request_parses
  by blast

end
