(* ===== verification/Route.thy ===== *)
theory Route
  imports Methods BTree "HOL-Library.Product_Lexorder"
begin

text \<open>
  The route table of \<open>qqq-serve/src/route.rs\<close>: patterns, the segment trie, matching with its captures, and the methods a
  path allows. The trie is proved to refine a finite map from structural keys to routes, and matching to choose the most
  specific route whatever the order of registration.
\<close>

section \<open>Data\<close>

definition MAX_ROUTES :: nat where "MAX_ROUTES = 10000"
definition MAX_PARAMS :: nat where "MAX_PARAMS = 16"

datatype RouterError =
    PatternNotAbsolute bstr
  | EmptySegment bstr nat
  | UnnamedCapture bstr nat
  | DuplicateRoute bstr bstr
  | WildcardNotLast bstr
  | TooManyParams bstr nat
  | DuplicateParam bstr bstr
  | ExtensionUnsupported bstr
  | TooManyRoutes nat

datatype Segment = Literal bstr | Param bstr | Wildcard bstr

record Route =
  route_method :: Method
  pattern :: bstr
  handler :: bstr
  segments :: "Segment list"

record Match =
  match_handler :: bstr
  match_pattern :: bstr
  params :: "(bstr \<times> bstr) list"

text \<open>\<open>literals\<close> and \<open>handlers\<close> are ordered maps.\<close>

datatype Node = Node (literals: "(bstr \<times> Node) list") (param_child: "Node option") (wildcard_child: "Node option")
  (handlers: "(Method \<times> Route) list")

record RouteTable =
  root :: Node
  route_count :: nat

section \<open>Patterns\<close>

text \<open>The loop over the pieces between slashes; \<open>n\<close> is their number and \<open>index\<close> counts from 1.\<close>

fun parse_pieces :: "bstr \<Rightarrow> nat \<Rightarrow> nat \<Rightarrow> Segment list \<Rightarrow> nat \<Rightarrow> bstr set \<Rightarrow> bstr list \<Rightarrow> RouterError + Segment list \<times> nat" where
  "parse_pieces pat n index segs k seen [] = Inr (segs, k)"
| "parse_pieces pat n index segs k seen (piece # raw) =
     (case piece of
        [] \<Rightarrow> Inl (EmptySegment pat index)
      | first # rest \<Rightarrow>
          if first = 58 then
            (if rest = [] then Inl (UnnamedCapture pat index)
             else if rest \<in> seen then Inl (DuplicateParam pat rest)
             else parse_pieces pat n (index + 1) (segs @ [Param rest]) (k + 1) (insert rest seen) raw)
          else if first = 42 then
            (if rest = [] then Inl (UnnamedCapture pat index)
             else if index \<noteq> n then Inl (WildcardNotLast pat)
             else if rest \<in> seen then Inl (DuplicateParam pat rest)
             else parse_pieces pat n (index + 1) (segs @ [Wildcard rest]) (k + 1) (insert rest seen) raw)
          else parse_pieces pat n (index + 1) (segs @ [Literal piece]) k seen raw)"

definition parse_pattern :: "bstr \<Rightarrow> RouterError + Segment list" where
  "parse_pattern pat =
     (if \<not> starts_with [47] pat then Inl (PatternNotAbsolute pat)
      else if pat = [47] then Inr []
      else let raw = tl (split_byte 47 pat) in
        case parse_pieces pat (length raw) 1 [] 0 {} raw of
          Inl e \<Rightarrow> Inl e
        | Inr (segs, k) \<Rightarrow> if MAX_PARAMS < k then Inl (TooManyParams pat k) else Inr segs)"

definition route_new :: "Method \<Rightarrow> bstr \<Rightarrow> bstr \<Rightarrow> RouterError + Route" where
  "route_new m pat h =
     (case parse_pattern pat of
        Inl e \<Rightarrow> Inl e
      | Inr segs \<Rightarrow> Inr \<lparr>route_method = m, pattern = pat, handler = h, segments = segs\<rparr>)"

fun capture :: "Segment \<Rightarrow> bstr option" where
  "capture (Literal _) = None"
| "capture (Param n) = Some n"
| "capture (Wildcard n) = Some n"

definition captures :: "Route \<Rightarrow> bstr list" where
  "captures r = List.map_filter capture (segments r)"

section \<open>Building the table\<close>

definition node_default :: Node where
  "node_default = Node [] None None []"

definition or_default :: "Node option \<Rightarrow> Node" where
  "or_default c = (case c of Some n \<Rightarrow> n | None \<Rightarrow> node_default)"

text \<open>The descent of \<open>RouteTable::insert\<close>, which creates missing nodes, and the registration at its end.\<close>

fun node_insert :: "Route \<Rightarrow> Segment list \<Rightarrow> Node \<Rightarrow> Node \<times> RouterError option" where
  "node_insert r [] (Node ls p w hs) =
     (case map_of hs (route_method r) of
        Some existing \<Rightarrow> (Node ls p w hs, Some (DuplicateRoute (pattern existing) (pattern r)))
      | None \<Rightarrow> (Node ls p w (btree_insert (route_method r) r hs), None))"
| "node_insert r (Literal t # ss) (Node ls p w hs) =
     (let (c, e) = node_insert r ss (or_default (map_of ls t)) in (Node (btree_insert t c ls) p w hs, e))"
| "node_insert r (Param _ # ss) (Node ls p w hs) =
     (let (c, e) = node_insert r ss (or_default p) in (Node ls (Some c) w hs, e))"
| "node_insert r (Wildcard _ # ss) (Node ls p w hs) =
     (let (c, e) = node_insert r ss (or_default w) in (Node ls p (Some c) hs, e))"

definition table_new :: RouteTable where
  "table_new = \<lparr>root = node_default, route_count = 0\<rparr>"

definition table_insert :: "RouteTable \<Rightarrow> Route \<Rightarrow> RouteTable \<times> RouterError option" where
  "table_insert t r =
     (if route_method r = Extension then (t, Some (ExtensionUnsupported (pattern r)))
      else if MAX_ROUTES \<le> route_count t then (t, Some (TooManyRoutes MAX_ROUTES))
      else case node_insert r (segments r) (root t) of
        (n, Some e) \<Rightarrow> (t\<lparr>root := n\<rparr>, Some e)
      | (n, None) \<Rightarrow> (\<lparr>root = n, route_count = route_count t + 1\<rparr>, None))"

fun build_from :: "RouteTable \<Rightarrow> Route list \<Rightarrow> RouterError + RouteTable" where
  "build_from t [] = Inr t"
| "build_from t (r # rs) = (case table_insert t r of (_, Some e) \<Rightarrow> Inl e | (t', None) \<Rightarrow> build_from t' rs)"

definition build :: "Route list \<Rightarrow> RouterError + RouteTable" where
  "build rs = build_from table_new rs"

section \<open>Matching\<close>

definition strip_query :: "bstr \<Rightarrow> bstr" where
  "strip_query p = hd (split_byte 63 (hd (split_byte 35 p)))"

definition path_segments :: "bstr \<Rightarrow> bstr list" where
  "path_segments p = (if p = [47] then [] else tl (split_byte 47 p))"

text \<open>A candidate of \<open>walk\<close>: the route found and the captures so far. \<open>or_else\<close> tries the next one with the captures the
  failed one left; \<open>undo\<close> pops the value pushed for a failed candidate.\<close>

type_synonym attempt = "Route option \<times> bstr list"

fun or_else :: "attempt \<Rightarrow> (bstr list \<Rightarrow> attempt) \<Rightarrow> attempt" where
  "or_else (Some r, k) f = (Some r, k)"
| "or_else (None, k) f = f k"

fun undo :: "attempt \<Rightarrow> attempt" where
  "undo (Some r, k) = (Some r, k)"
| "undo (None, k) = (None, butlast k)"

text \<open>The segments from \<open>index\<close> on are the list itself; a wildcard's child is visited with none left.\<close>

function walk :: "Node \<Rightarrow> bstr list \<Rightarrow> Method \<Rightarrow> bstr list \<Rightarrow> attempt" where
  "walk n [] m k =
     (case map_of (handlers n) m of
        Some r \<Rightarrow> (Some r, k)
      | None \<Rightarrow>
          (case wildcard_child n of
             None \<Rightarrow> (None, k)
           | Some c \<Rightarrow> (case map_of (handlers c) m of Some r \<Rightarrow> (Some r, k @ [[]]) | None \<Rightarrow> (None, k))))"
| "walk n (s # ss) m k =
     or_else (case map_of (literals n) s of Some c \<Rightarrow> walk c ss m k | None \<Rightarrow> (None, k))
       (\<lambda>k. or_else
          (case param_child n of
             Some c \<Rightarrow> if s \<noteq> [] then undo (walk c ss m (k @ [s])) else (None, k)
           | None \<Rightarrow> (None, k))
          (\<lambda>k. case wildcard_child n of
             Some c \<Rightarrow> undo (walk c [] m (k @ [join_byte 47 (s # ss)]))
           | None \<Rightarrow> (None, k)))"
  by pat_completeness auto
termination
  by (relation "measure (\<lambda>(_, ss, _, _). length ss)") auto

definition bind :: "Route \<Rightarrow> bstr list \<Rightarrow> Match" where
  "bind r vs = \<lparr>match_handler = handler r, match_pattern = pattern r, params = zip (captures r) vs\<rparr>"

definition params_get :: "(bstr \<times> bstr) list \<Rightarrow> bstr \<Rightarrow> bstr option" where
  "params_get es nm = map_option snd (find (\<lambda>(k, _). k = nm) es)"

definition match_route :: "RouteTable \<Rightarrow> Method \<Rightarrow> bstr \<Rightarrow> Match option" where
  "match_route t m p =
     (let ss = path_segments (strip_query p) in
      case walk (root t) ss m [] of
        (Some r, k) \<Rightarrow> Some (bind r k)
      | (None, _) \<Rightarrow>
          if m = Head then
            (case walk (root t) ss Get [] of (Some r, k) \<Rightarrow> Some (bind r k) | (None, _) \<Rightarrow> None)
          else None)"

function collect_methods :: "Node \<Rightarrow> bstr list \<Rightarrow> Method list" where
  "collect_methods n [] =
     map fst (handlers n) @ (case wildcard_child n of Some c \<Rightarrow> map fst (handlers c) | None \<Rightarrow> [])"
| "collect_methods n (s # ss) =
     (case map_of (literals n) s of Some c \<Rightarrow> collect_methods c ss | None \<Rightarrow> []) @
     (case param_child n of Some c \<Rightarrow> if s \<noteq> [] then collect_methods c ss else [] | None \<Rightarrow> []) @
     (case wildcard_child n of Some c \<Rightarrow> collect_methods c [] | None \<Rightarrow> [])"
  by pat_completeness auto
termination
  by (relation "measure (\<lambda>(_, ss). length ss)") auto

definition allows :: "RouteTable \<Rightarrow> bstr \<Rightarrow> Method list" where
  "allows t p =
     (let out = collect_methods (root t) (path_segments (strip_query p)) in
      remdups_adj (sort (if Get \<in> set out \<and> Head \<notin> set out then out @ [Head] else out)))"

fun collect_routes :: "Node \<Rightarrow> Route list" where
  "collect_routes (Node ls p w hs) =
     map snd hs @ concat (map (\<lambda>(_, c). collect_routes c) ls) @
     (case p of Some c \<Rightarrow> collect_routes c | None \<Rightarrow> []) @
     (case w of Some c \<Rightarrow> collect_routes c | None \<Rightarrow> [])"

definition table_routes :: "RouteTable \<Rightarrow> Route list" where
  "table_routes t = sort_key (\<lambda>r. (pattern r, method_as_str (route_method r))) (collect_routes (root t))"

section \<open>What patterns parse\<close>

fun seg_text :: "Segment \<Rightarrow> bstr" where
  "seg_text (Literal t) = t"
| "seg_text (Param n) = 58 # n"
| "seg_text (Wildcard n) = 42 # n"

fun seg_valid :: "Segment \<Rightarrow> bool" where
  "seg_valid (Literal t) \<longleftrightarrow> t \<noteq> [] \<and> hd t \<noteq> 58 \<and> hd t \<noteq> 42"
| "seg_valid (Param n) \<longleftrightarrow> n \<noteq> []"
| "seg_valid (Wildcard n) \<longleftrightarrow> n \<noteq> []"

fun is_wildcard :: "Segment \<Rightarrow> bool" where
  "is_wildcard (Wildcard _) = True"
| "is_wildcard _ = False"

definition names :: "Segment list \<Rightarrow> bstr list" where
  "names ss = List.map_filter capture ss"

lemma names_simps [simp]:
  "names [] = []" "names (Literal t # ss) = names ss" "names (Param n # ss) = n # names ss" "names (Wildcard n # ss) = n # names ss"
  "names (ss @ ss') = names ss @ names ss'"
  by (simp_all add: names_def List.map_filter_def)

definition wild_last :: "Segment list \<Rightarrow> bool" where
  "wild_last ss \<longleftrightarrow> (\<forall>s \<in> set (butlast ss). \<not> is_wildcard s)"

lemma wild_last_simps [simp]:
  "wild_last []" "wild_last (Literal t # ss) = wild_last ss" "wild_last (Param n # ss) = wild_last ss"
  "wild_last (Wildcard n # ss) \<longleftrightarrow> ss = []"
  by (auto simp: wild_last_def split: if_splits)

definition valid_segments :: "Segment list \<Rightarrow> bool" where
  "valid_segments ss \<longleftrightarrow> list_all seg_valid ss \<and> list_all (\<lambda>s. 47 \<notin> set (seg_text s)) ss \<and> wild_last ss \<and>
     distinct (names ss) \<and> length (names ss) \<le> 16"

definition render_pattern :: "Segment list \<Rightarrow> bstr" where
  "render_pattern ss = (if ss = [] then [47] else concat (map (\<lambda>s. 47 # seg_text s) ss))"

lemma parse_pieces_sound:
  assumes "parse_pieces pat n i segs k seen raw = Inr (segs', k')" "n + 1 = i + length raw"
  shows "\<exists>ss. segs' = segs @ ss \<and> map seg_text ss = raw \<and> k' = k + length (names ss) \<and> list_all seg_valid ss \<and> wild_last ss \<and>
    distinct (names ss) \<and> set (names ss) \<inter> seen = {}"
  using assms
proof (induction raw arbitrary: i segs k seen)
  case (Cons piece raw)
  obtain first rest where piece: "piece = first # rest" using Cons.prems(1) by (cases piece) auto
  consider (par) "first = 58" "rest \<noteq> []" "rest \<notin> seen"
      "parse_pieces pat n (i + 1) (segs @ [Param rest]) (k + 1) (insert rest seen) raw = Inr (segs', k')"
    | (wild) "first = 42" "rest \<noteq> []" "rest \<notin> seen" "i = n"
      "parse_pieces pat n (i + 1) (segs @ [Wildcard rest]) (k + 1) (insert rest seen) raw = Inr (segs', k')"
    | (lit) "first \<noteq> 58" "first \<noteq> 42" "parse_pieces pat n (i + 1) (segs @ [Literal piece]) k seen raw = Inr (segs', k')"
    using Cons.prems(1) by (auto simp: piece split: if_splits)
  then show ?case
  proof cases
    case par
    then obtain ss where "segs' = segs @ Param rest # ss" "map seg_text ss = raw" "k' = k + 1 + length (names ss)"
        "list_all seg_valid ss" "wild_last ss" "distinct (names ss)" "set (names ss) \<inter> insert rest seen = {}"
      using Cons.IH [OF par(4)] Cons.prems(2) by auto
    with par show ?thesis by (intro exI [of _ "Param rest # ss"]) (auto simp: piece)
  next
    case wild
    then have "raw = []" using Cons.prems(2) by simp
    with wild show ?thesis by (intro exI [of _ "[Wildcard rest]"]) (auto simp: piece)
  next
    case lit
    then obtain ss where "segs' = segs @ Literal piece # ss" "map seg_text ss = raw" "k' = k + length (names ss)"
        "list_all seg_valid ss" "wild_last ss" "distinct (names ss)" "set (names ss) \<inter> seen = {}"
      using Cons.IH [OF lit(3)] Cons.prems(2) by auto
    with lit show ?thesis by (intro exI [of _ "Literal piece # ss"]) (auto simp: piece)
  qed
qed simp

lemma parse_pieces_complete:
  assumes "list_all seg_valid ss" "wild_last ss" "distinct (names ss)" "set (names ss) \<inter> seen = {}" "n + 1 = i + length ss"
  shows "parse_pieces pat n i segs k seen (map seg_text ss) = Inr (segs @ ss, k + length (names ss))"
  using assms
proof (induction ss arbitrary: i segs k seen)
  case (Cons s ss)
  show ?case
  proof (cases s)
    case (Literal t)
    then show ?thesis using Cons by (cases t) auto
  next
    case (Param nm)
    then show ?thesis using Cons.prems Cons.IH [of "insert nm seen" "i + 1"] by auto
  next
    case (Wildcard nm)
    then show ?thesis using Cons.prems by auto
  qed
qed simp

lemma concat_slashes: "ss \<noteq> [] \<Longrightarrow> concat (map (\<lambda>s. 47 # seg_text s) ss) = 47 # join_byte 47 (map seg_text ss)"
proof (induction ss)
  case (Cons s ss)
  then show ?case by (cases ss) auto
qed simp

lemma render_split:
  assumes "ss \<noteq> []" "list_all (\<lambda>s. 47 \<notin> set (seg_text s)) ss"
  shows "tl (split_byte 47 (render_pattern ss)) = map seg_text ss"
  using assms split_byte_join [of "map seg_text ss" 47] by (simp add: render_pattern_def concat_slashes list_all_iff)

lemma render_absolute: "starts_with [47] (render_pattern ss)"
  by (cases ss) (simp_all add: render_pattern_def starts_with_def)

lemma render_root: "list_all seg_valid ss \<Longrightarrow> render_pattern ss = [47] \<longleftrightarrow> ss = []"
  by (cases ss rule: seg_text.cases [of "hd ss", case_product list.exhaust]) (auto simp: render_pattern_def elim: seg_valid.elims)

lemma parse_pattern_sound: "parse_pattern pat = Inr ss \<Longrightarrow> valid_segments ss \<and> pat = render_pattern ss"
proof -
  assume parsed: "parse_pattern pat = Inr ss"
  show "valid_segments ss \<and> pat = render_pattern ss"
  proof (cases "pat = [47]")
    case True
    then show ?thesis using parsed by (auto simp: parse_pattern_def render_pattern_def valid_segments_def starts_with_def)
  next
    case False
    let ?raw = "tl (split_byte 47 pat)"
    obtain rest where pat: "pat = 47 # rest"
      using parsed by (cases pat) (auto simp: parse_pattern_def starts_with_def split: if_splits)
    then have raw: "?raw = split_byte 47 rest" by simp
    obtain k where "parse_pieces pat (length ?raw) 1 [] 0 {} ?raw = Inr (ss, k)" "k \<le> 16"
      using parsed False by (auto simp: parse_pattern_def Let_def MAX_PARAMS_def split: if_splits sum.splits)
    then obtain "map seg_text ss = ?raw" "list_all seg_valid ss" "wild_last ss" "distinct (names ss)" "length (names ss) \<le> 16"
      using parse_pieces_sound by fastforce
    moreover from this(1) have "set (map seg_text ss) = set (split_byte 47 rest)" by (simp only: raw)
    then have "list_all (\<lambda>s. 47 \<notin> set (seg_text s)) ss"
      using split_byte_clean [of _ 47 rest] by (auto simp: list_all_iff)
    moreover have "ss \<noteq> []" using calculation(1) raw split_byte_nonempty [of 47 rest] by (metis list.map_disc_iff)
    ultimately show ?thesis
      using join_split_byte [of 47 rest] by (simp add: valid_segments_def render_pattern_def concat_slashes pat)
  qed
qed

lemma parse_pattern_complete: "valid_segments ss \<and> pat = render_pattern ss \<Longrightarrow> parse_pattern pat = Inr ss"
proof -
  assume valid: "valid_segments ss \<and> pat = render_pattern ss"
  then show "parse_pattern pat = Inr ss"
  proof (cases "ss = []")
    case True
    then show ?thesis using valid by (simp add: parse_pattern_def render_pattern_def starts_with_def)
  next
    case False
    then show ?thesis
      using valid render_split [of ss] render_root [of ss] render_absolute [of ss]
        parse_pieces_complete [of ss "{}" "length ss" 1 pat "[]" 0]
      by (simp add: parse_pattern_def valid_segments_def Let_def MAX_PARAMS_def)
  qed
qed

text \<open>A pattern is accepted exactly when it is the written form of a valid list of segments, and it is parsed to that list:
  segments without slashes, each a non-empty literal that does not start with a marker or a named capture, a wildcard
  only at the end, capture names distinct and at most sixteen. So no two segment lists share a pattern, and no two
  captures of one route share a name.\<close>

theorem parse_pattern_exact: "parse_pattern pat = Inr ss \<longleftrightarrow> valid_segments ss \<and> pat = render_pattern ss"
  using parse_pattern_sound parse_pattern_complete by blast

section \<open>The trie as a map\<close>

text \<open>What a pattern means to the table once its capture names are forgotten.\<close>

datatype Key = KLit bstr | KPar | KWild

fun key_of :: "Segment \<Rightarrow> Key" where
  "key_of (Literal t) = KLit t"
| "key_of (Param _) = KPar"
| "key_of (Wildcard _) = KWild"

definition route_key :: "Route \<Rightarrow> Key list \<times> Method" where
  "route_key r = (map key_of (segments r), route_method r)"

fun child :: "Node \<Rightarrow> Key \<Rightarrow> Node option" where
  "child n (KLit t) = map_of (literals n) t"
| "child n KPar = param_child n"
| "child n KWild = wildcard_child n"

text \<open>The abstraction: the finite map from keys to routes that a trie stands for.\<close>

fun node_lookup :: "Node \<Rightarrow> Key list \<times> Method \<Rightarrow> Route option" where
  "node_lookup n ([], m) = map_of (handlers n) m"
| "node_lookup n (k # ks, m) = (case child n k of None \<Rightarrow> None | Some c \<Rightarrow> node_lookup c (ks, m))"

text \<open>What the client of an index of routes relies on: lookup after a successful insertion, and exactly when and how an
  insertion is refused.\<close>

locale route_index =
  fixes look :: "'i \<Rightarrow> Key list \<times> Method \<Rightarrow> Route option"
    and ins :: "Route \<Rightarrow> 'i \<Rightarrow> 'i \<times> RouterError option"
    and wf :: "'i \<Rightarrow> bool"
    and empty :: 'i
  assumes look_empty: "look empty = Map.empty"
    and wf_empty: "wf empty"
    and ins_new: "wf i \<Longrightarrow> look i (route_key r) = None \<Longrightarrow>
      \<exists>i'. ins r i = (i', None) \<and> look i' = (look i)(route_key r \<mapsto> r) \<and> wf i'"
    and ins_old: "wf i \<Longrightarrow> look i (route_key r) = Some old \<Longrightarrow> ins r i = (i, Some (DuplicateRoute (pattern old) (pattern r)))"
begin

fun ins_all :: "Route list \<Rightarrow> 'i \<Rightarrow> 'i option" where
  "ins_all [] i = Some i"
| "ins_all (r # rs) i = (case ins r i of (i', None) \<Rightarrow> ins_all rs i' | (_, Some _) \<Rightarrow> None)"

lemma ins_all_exact:
  assumes "wf i"
  shows "(\<exists>i'. ins_all rs i = Some i') \<longleftrightarrow> distinct (map route_key rs) \<and> route_key ` set rs \<inter> dom (look i) = {}"
    "ins_all rs i = Some i' \<Longrightarrow> wf i' \<and> look i' = look i ++ map_of (map (\<lambda>r. (route_key r, r)) rs)"
proof -
  have "((\<exists>i'. ins_all rs i = Some i') \<longleftrightarrow> distinct (map route_key rs) \<and> route_key ` set rs \<inter> dom (look i) = {}) \<and>
      (\<forall>i'. ins_all rs i = Some i' \<longrightarrow> wf i' \<and> look i' = look i ++ map_of (map (\<lambda>r. (route_key r, r)) rs))"
    using assms
  proof (induction rs arbitrary: i)
    case (Cons r rs)
    show ?case
    proof (cases "look i (route_key r)")
      case None
      then obtain j where j: "ins r i = (j, None)" "look j = (look i)(route_key r \<mapsto> r)" "wf j"
        using ins_new [OF Cons.prems] by blast
      have iff: "(\<exists>i'. ins_all rs j = Some i') \<longleftrightarrow> distinct (map route_key rs) \<and> route_key ` set rs \<inter> dom (look j) = {}"
        and eff: "\<And>i'. ins_all rs j = Some i' \<Longrightarrow> wf i' \<and> look i' = look j ++ map_of (map (\<lambda>r. (route_key r, r)) rs)"
        using Cons.IH [OF j(3)] by blast+
      have step: "ins_all (r # rs) i = ins_all rs j" by (simp add: j(1))
      have "(\<exists>i'. ins_all rs j = Some i') \<longleftrightarrow>
          distinct (map route_key (r # rs)) \<and> route_key ` set (r # rs) \<inter> dom (look i) = {}"
        unfolding iff j(2) using None by auto
      moreover have "look i' = look i ++ map_of (map (\<lambda>r. (route_key r, r)) (r # rs))" if i': "ins_all rs j = Some i'" for i'
      proof -
        have "route_key r \<notin> route_key ` set rs" using iff i' by (auto simp: j(2))
        then have "map_of (map (\<lambda>r. (route_key r, r)) rs) (route_key r) = None" by (auto simp: map_of_eq_None_iff image_image)
        then show ?thesis using eff [OF i'] j(2) by (auto simp: map_add_def fun_eq_iff split: option.splits)
      qed
      ultimately show ?thesis unfolding step using eff by blast
    next
      case (Some old)
      then show ?thesis using ins_old [OF Cons.prems Some] by (auto simp: dom_def)
    qed
  qed (simp_all add: dom_def)
  then show "(\<exists>i'. ins_all rs i = Some i') \<longleftrightarrow> distinct (map route_key rs) \<and> route_key ` set rs \<inter> dom (look i) = {}"
    "ins_all rs i = Some i' \<Longrightarrow> wf i' \<and> look i' = look i ++ map_of (map (\<lambda>r. (route_key r, r)) rs)"
    by blast+
qed

text \<open>From the empty index: the lookup of the result is membership in the list.\<close>

lemma ins_all_empty:
  "(\<exists>i. ins_all rs empty = Some i) \<longleftrightarrow> distinct (map route_key rs)"
  "ins_all rs empty = Some i \<Longrightarrow> wf i \<and> (look i k = Some r \<longleftrightarrow> r \<in> set rs \<and> route_key r = k)"
proof -
  show ex: "(\<exists>i. ins_all rs empty = Some i) \<longleftrightarrow> distinct (map route_key rs)"
    using ins_all_exact(1) [OF wf_empty] look_empty by simp
  assume i: "ins_all rs empty = Some i"
  then have d: "distinct (map fst (map (\<lambda>r. (route_key r, r)) rs))" using ex by (auto simp: comp_def)
  have "wf i" "look i = map_of (map (\<lambda>r. (route_key r, r)) rs)"
    using ins_all_exact(2) [OF wf_empty i] look_empty by simp_all
  then show "wf i \<and> (look i k = Some r \<longleftrightarrow> r \<in> set rs \<and> route_key r = k)"
    using map_of_eq_Some_iff [OF d] by auto
qed

end

section \<open>The trie refines the map\<close>

fun node_wf :: "Node \<Rightarrow> bool" where
  "node_wf (Node ls p w hs) \<longleftrightarrow> btree_ordered ls \<and> btree_ordered hs \<and> (\<forall>(_, c) \<in> set ls. node_wf c) \<and>
     (case p of None \<Rightarrow> True | Some c \<Rightarrow> node_wf c) \<and> (case w of None \<Rightarrow> True | Some c \<Rightarrow> node_wf c)"

lemma btree_insert_same: "btree_ordered m \<Longrightarrow> map_of m k = Some v \<Longrightarrow> btree_insert k v m = m"
proof (induction k v m rule: btree_insert.induct)
  case (2 k v k' v' m)
  have "k' < k" if "k \<noteq> k'" using 2(2,3) that by (auto simp: btree_ordered_def dest!: map_of_SomeD)
  then show ?case using 2 by (auto simp: btree_ordered_def)
qed simp

lemma lookup_default [simp]: "node_lookup node_default = Map.empty"
proof
  fix k show "node_lookup node_default k = None"
    by (cases "(node_default, k)" rule: node_lookup.cases; cases "hd (fst k)") (auto simp: node_default_def)
qed

lemma wf_default [simp]: "node_wf node_default"
  by (simp add: node_default_def btree_ordered_def)

lemma child_wf: "node_wf n \<Longrightarrow> node_wf (or_default (child n k))"
  by (cases n; cases k) (auto simp: or_default_def dest!: map_of_SomeD split: option.splits)

fun set_child :: "Node \<Rightarrow> Key \<Rightarrow> Node \<Rightarrow> Node" where
  "set_child (Node ls p w hs) (KLit t) c = Node (btree_insert t c ls) p w hs"
| "set_child (Node ls p w hs) KPar c = Node ls (Some c) w hs"
| "set_child (Node ls p w hs) KWild c = Node ls p (Some c) hs"

lemma node_insert_step:
  "node_insert r (s # ss) n =
     (let (c, e) = node_insert r ss (or_default (child n (key_of s))) in (set_child n (key_of s) c, e))"
  by (cases n; cases s) simp_all

lemma child_set_child [simp]: "child (set_child n k c) k' = (if k' = k then Some c else child n k')"
  by (cases n; cases k; cases k') auto

lemma handlers_set_child [simp]: "handlers (set_child n k c) = handlers n"
  by (cases n; cases k) simp_all

lemma set_child_wf: "node_wf n \<Longrightarrow> node_wf c \<Longrightarrow> node_wf (set_child n k c)"
  by (cases n; cases k) (use set_btree_insert in \<open>fastforce simp: btree_ordered_insert\<close>)+

lemma set_child_same: "node_wf n \<Longrightarrow> child n k = Some c \<Longrightarrow> set_child n k c = n"
  by (cases n; cases k) (auto simp: btree_insert_same)

lemma lookup_step: "node_lookup n (k # ks, m) = node_lookup (or_default (child n k)) (ks, m)"
  by (cases "child n k") (simp_all add: or_default_def)

lemma node_insert_new:
  assumes "node_wf n" "node_lookup n (map key_of ss, route_method r) = None"
  shows "\<exists>n'. node_insert r ss n = (n', None) \<and> node_wf n' \<and>
    node_lookup n' = (node_lookup n)((map key_of ss, route_method r) \<mapsto> r)"
  using assms
proof (induction ss arbitrary: n)
  case Nil
  then obtain ls p w hs where n: "n = Node ls p w hs" "map_of hs (route_method r) = None" by (cases n) auto
  have "node_lookup (Node ls p w (btree_insert (route_method r) r hs)) key =
      ((node_lookup n)(([], route_method r) \<mapsto> r)) key" for key
    by (cases "(n, key)" rule: node_lookup.cases; cases "hd (fst key)") (auto simp: n split: option.splits)
  then show ?case using Nil n by (auto simp: btree_ordered_insert)
next
  case (Cons s ss)
  let ?c = "or_default (child n (key_of s))"
  have "node_lookup ?c (map key_of ss, route_method r) = None"
    using Cons.prems(2) by (simp add: lookup_step del: node_lookup.simps(2))
  then obtain c where c: "node_insert r ss ?c = (c, None)" "node_wf c"
      "node_lookup c = (node_lookup ?c)((map key_of ss, route_method r) \<mapsto> r)"
    using Cons.IH [OF child_wf [OF Cons.prems(1)]] by blast
  have "node_lookup (set_child n (key_of s) c) key = ((node_lookup n)((map key_of (s # ss), route_method r) \<mapsto> r)) key" for key
  proof (cases "(n, key)" rule: node_lookup.cases)
    case (2 n' k ks m)
    then show ?thesis by (cases "k = key_of s") (auto simp: lookup_step c(3) or_default_def simp del: node_lookup.simps(2))
  qed auto
  then show ?case using c(1,2) Cons.prems(1) by (auto simp: node_insert_step set_child_wf)
qed

lemma node_insert_old:
  assumes "node_wf n" "node_lookup n (map key_of ss, route_method r) = Some old"
  shows "node_insert r ss n = (n, Some (DuplicateRoute (pattern old) (pattern r)))"
  using assms
proof (induction ss arbitrary: n)
  case Nil
  then show ?case by (cases n) auto
next
  case (Cons s ss)
  then obtain c where c: "child n (key_of s) = Some c" "node_lookup c (map key_of ss, route_method r) = Some old"
    by (auto split: option.splits)
  have "node_wf c" using child_wf [OF Cons.prems(1), of "key_of s"] c(1) by (simp add: or_default_def)
  then show ?case using Cons.IH [OF _ c(2)] c(1) set_child_same [OF Cons.prems(1) c(1)]
    by (simp add: node_insert_step or_default_def)
qed

interpretation trie: route_index node_lookup "\<lambda>r. node_insert r (segments r)" node_wf node_default
  by unfold_locales (use node_insert_new node_insert_old in \<open>simp_all add: route_key_def, blast\<close>)

section \<open>Building\<close>

definition admissible :: "Route list \<Rightarrow> bool" where
  "admissible rs \<longleftrightarrow> length rs \<le> 10000 \<and> Extension \<notin> route_method ` set rs \<and> distinct (map route_key rs)"

lemma build_ins_all:
  assumes "route_count t \<le> 10000"
  shows "build_from t rs = Inr t' \<longleftrightarrow> Extension \<notin> route_method ` set rs \<and> route_count t + length rs \<le> 10000 \<and>
    trie.ins_all rs (root t) = Some (root t') \<and> route_count t' = route_count t + length rs"
  using assms
proof (induction rs arbitrary: t)
  case (Cons r rs)
  obtain n e where ins: "node_insert r (segments r) (root t) = (n, e)" by fastforce
  show ?case
  proof (cases "route_method r \<noteq> Extension \<and> route_count t < 10000 \<and> e = None")
    case True
    then have "table_insert t r = (\<lparr>root = n, route_count = route_count t + 1\<rparr>, None)"
      by (simp add: table_insert_def MAX_ROUTES_def ins)
    then show ?thesis using Cons.IH [of "\<lparr>root = n, route_count = route_count t + 1\<rparr>"] True by (auto simp: ins)
  next
    case False
    then show ?thesis by (auto simp: table_insert_def MAX_ROUTES_def ins)
  qed
qed (auto intro: RouteTable.equality)

lemma build_iff:
  "build rs = Inr t \<longleftrightarrow> admissible rs \<and> trie.ins_all rs node_default = Some (root t) \<and> route_count t = length rs"
  using build_ins_all [of table_new rs t] trie.ins_all_empty(1) [of rs]
  by (auto simp: build_def table_new_def admissible_def)

lemma mset_concat_insert:
  "btree_ordered m \<Longrightarrow> mset (concat (map f (btree_insert k v m))) + (case map_of m k of None \<Rightarrow> {#} | Some u \<Rightarrow> mset (f (k, u))) =
     mset (concat (map f m)) + mset (f (k, v))"
proof (induction k v m rule: btree_insert.induct)
  case (2 k v k' v' m)
  have "map_of m k = None" if "k < k'"
    using 2(2) that by (fastforce simp: btree_ordered_def map_of_eq_None_iff)
  then show ?case using 2 by (auto simp: btree_ordered_def ac_simps split: option.splits)
qed simp

lemma collect_default [simp]: "collect_routes node_default = []"
  by (simp add: node_default_def)

lemma collect_set_child:
  assumes "node_wf n"
  shows "mset (collect_routes (set_child n k c)) + mset (collect_routes (or_default (child n k))) =
    mset (collect_routes n) + mset (collect_routes c)"
proof (cases k)
  case (KLit t)
  obtain ls p w hs where n: "n = Node ls p w hs" by (cases n)
  show ?thesis
    using mset_concat_insert [of ls "\<lambda>(_, c). collect_routes c" t c] assms
    by (cases "map_of ls t") (simp_all add: n KLit or_default_def ac_simps)
qed (cases n; simp add: or_default_def split: option.splits)+

lemma collect_insert:
  assumes "node_wf n" "node_insert r ss n = (n', None)"
  shows "mset (collect_routes n') = add_mset r (mset (collect_routes n))"
  using assms
proof (induction ss arbitrary: n n')
  case Nil
  obtain ls p w hs where n: "n = Node ls p w hs" by (cases n)
  have hs: "map_of hs (route_method r) = None" "n' = Node ls p w (btree_insert (route_method r) r hs)"
    using Nil.prems(2) by (auto simp: n split: option.splits)
  then show ?case by (simp add: n mset_btree_insert map_of_eq_None_iff)
next
  case (Cons s ss)
  let ?c = "or_default (child n (key_of s))"
  obtain c where c: "node_insert r ss ?c = (c, None)" "n' = set_child n (key_of s) c"
    using Cons.prems(2) by (auto simp: node_insert_step split: prod.splits)
  have "mset (collect_routes c) = add_mset r (mset (collect_routes ?c))"
    using Cons.IH [OF child_wf [OF Cons.prems(1)] c(1)] .
  then show ?case using collect_set_child [OF Cons.prems(1), of "key_of s" c] by (simp add: c(2))
qed

lemma collect_ins_all:
  "node_wf n \<Longrightarrow> trie.ins_all rs n = Some n' \<Longrightarrow> mset (collect_routes n') = mset rs + mset (collect_routes n)"
proof (induction rs arbitrary: n)
  case (Cons r rs)
  then obtain j where j: "node_insert r (segments r) n = (j, None)" "trie.ins_all rs j = Some n'"
    by (auto split: prod.splits option.splits)
  have "node_wf j" using j(1) Cons.prems(1) trie.ins_new [of n r] trie.ins_old [of n r] by (cases "node_lookup n (route_key r)") auto
  then show ?case using Cons.IH j collect_insert [OF Cons.prems(1) j(1)] by simp
qed simp

text \<open>C30. A list of routes builds a table exactly when it has at most ten thousand routes, none for an extension method, and
  no two that are the same pattern up to the names of their captures under the same method. The table then reports as
  its routes precisely those given, each once, sorted by pattern and method, and counts them.\<close>

theorem build_exact:
  "case build rs of
     Inr t \<Rightarrow> admissible rs \<and> mset (table_routes t) = mset rs \<and> route_count t = length rs \<and>
       sorted (map (\<lambda>r. (pattern r, method_as_str (route_method r))) (table_routes t))
   | Inl e \<Rightarrow> \<not> admissible rs"
proof (cases "build rs")
  case (Inl e)
  have "\<not> admissible rs"
  proof
    assume a: "admissible rs"
    then obtain n where "trie.ins_all rs node_default = Some n" using trie.ins_all_empty(1) by (auto simp: admissible_def)
    then have "build rs = Inr \<lparr>root = n, route_count = length rs\<rparr>" using a by (simp add: build_iff)
    then show False using Inl by simp
  qed
  then show ?thesis using Inl by simp
next
  case (Inr t)
  then show ?thesis using build_iff [of rs t] collect_ins_all [of node_default rs "root t"] by (simp add: table_routes_def)
qed

text \<open>The table as its users think of it: a finite map from keys to routes and its size.\<close>

type_synonym abstract_table = "(Key list \<times> Method \<Rightarrow> Route option) \<times> nat"

definition abstract :: "RouteTable \<Rightarrow> abstract_table" where
  "abstract t = (node_lookup (root t), route_count t)"

definition abstract_insert :: "abstract_table \<Rightarrow> Route \<Rightarrow> RouterError + abstract_table" where
  "abstract_insert a r = (case a of (routes, n) \<Rightarrow>
     if route_method r = Extension then Inl (ExtensionUnsupported (pattern r))
     else if 10000 \<le> n then Inl (TooManyRoutes 10000)
     else case routes (route_key r) of
       Some old \<Rightarrow> Inl (DuplicateRoute (pattern old) (pattern r))
     | None \<Rightarrow> Inr (routes(route_key r \<mapsto> r), n + 1))"

text \<open>C10. The trie refines a finite map. Inserting a route into any table that was built does exactly what inserting it into a map
  from method and structure to routes does: the same refusals in the same order, with the table left as it was, and on
  success the updated map.\<close>

theorem insert_refines:
  assumes "build rs = Inr t"
  shows "case table_insert t r of
      (t', None) \<Rightarrow> abstract_insert (abstract t) r = Inr (abstract t')
    | (t', Some e) \<Rightarrow> abstract_insert (abstract t) r = Inl e \<and> t' = t"
proof -
  have wf: "node_wf (root t)" using assms trie.ins_all_empty(2) by (auto simp: build_iff)
  show ?thesis
  proof (cases "node_lookup (root t) (route_key r)")
    case None
    then show ?thesis using trie.ins_new [OF wf None]
      by (auto simp: table_insert_def abstract_insert_def abstract_def MAX_ROUTES_def)
  next
    case (Some old)
    then show ?thesis using trie.ins_old [OF wf Some]
      by (simp add: table_insert_def abstract_insert_def abstract_def MAX_ROUTES_def)
  qed
qed

theorem insert_refines_witness:
  "build [] = Inr table_new \<and>
   (case table_insert table_new \<lparr>route_method = Get, pattern = [47], handler = [], segments = []\<rparr> of
      (t', e) \<Rightarrow> e = None \<and> abstract t' =
        ([([], Get) \<mapsto> \<lparr>route_method = Get, pattern = [47], handler = [], segments = []\<rparr>], 1))"
proof -
  let ?r = "\<lparr>route_method = Get, pattern = [47], handler = [], segments = []\<rparr>"
  have b: "build [] = Inr table_new" by (simp add: build_def)
  have a: "abstract_insert (abstract table_new) ?r = Inr ([([], Get) \<mapsto> ?r], 1)"
    by (simp add: abstract_insert_def abstract_def table_new_def route_key_def)
  show ?thesis using insert_refines [OF b, of ?r] b a by (cases "table_insert table_new ?r") (auto split: option.splits)
qed

section \<open>Matching is most specific first\<close>

text \<open>The reference: what a key and a list of segments match, and the values captured.\<close>

fun kmatch :: "Key list \<Rightarrow> bstr list \<Rightarrow> bstr list option" where
  "kmatch [] [] = Some []"
| "kmatch [KWild] ss = Some [join_byte 47 ss]"
| "kmatch (KLit t # ks) (s # ss) = (if t = s then kmatch ks ss else None)"
| "kmatch (KPar # ks) (s # ss) = (if s \<noteq> [] then map_option (\<lambda>vs. s # vs) (kmatch ks ss) else None)"
| "kmatch _ _ = None"

fun rank :: "Key \<Rightarrow> nat" where
  "rank (KLit _) = 0"
| "rank KPar = 1"
| "rank KWild = 2"

text \<open>Specificity: compare the ranks from the left; when one key ends first, it is the more specific.\<close>

definition ranks :: "Key list \<Rightarrow> nat list" where
  "ranks ks = map rank ks"

lemma ranks_simps [simp]: "ranks [] = []" "ranks (k # ks) = rank k # ranks ks"
  by (simp_all add: ranks_def)

lemma kmatch_Nil_cases:
  assumes "kmatch ks [] = Some vs"
  obtains "ks = []" "vs = []" | "ks = [KWild]" "vs = [[]]"
  using assms by (cases "(ks, [] :: bstr list)" rule: kmatch.cases) auto

lemma kmatch_Cons_cases:
  assumes "kmatch ks (s # ss) = Some vs"
  obtains ks' where "ks = KLit s # ks'" "kmatch ks' ss = Some vs"
  | ks' vs' where "ks = KPar # ks'" "s \<noteq> []" "kmatch ks' ss = Some vs'" "vs = s # vs'"
  | "ks = [KWild]" "vs = [join_byte 47 (s # ss)]"
  using assms by (cases "(ks, s # ss)" rule: kmatch.cases) (auto split: if_splits)

lemma same_ranks:
  "kmatch ks ss = Some vs \<Longrightarrow> kmatch ks' ss = Some vs' \<Longrightarrow> ranks ks = ranks ks' \<Longrightarrow> ks = ks'"
proof (induction ss arbitrary: ks ks' vs vs')
  case Nil
  then show ?case by (elim kmatch_Nil_cases) auto
next
  case (Cons s ss)
  from Cons.prems(1) show ?case
  proof (cases rule: kmatch_Cons_cases)
    case (1 k)
    from Cons.prems(2) show ?thesis by (cases rule: kmatch_Cons_cases) (use 1 Cons in auto)
  next
    case (2 k v)
    from Cons.prems(2) show ?thesis by (cases rule: kmatch_Cons_cases) (use 2 Cons in auto)
  next
    case 3
    from Cons.prems(2) show ?thesis by (cases rule: kmatch_Cons_cases) (use 3 Cons in auto)
  qed
qed

definition wild_ends :: "Node \<Rightarrow> bool" where
  "wild_ends n \<longleftrightarrow> (\<forall>ks m. node_lookup n (ks, m) \<noteq> None \<longrightarrow> KWild \<notin> set (butlast ks))"

lemma wild_ends_child: "wild_ends n \<Longrightarrow> child n k = Some c \<Longrightarrow> wild_ends c"
proof -
  assume a: "wild_ends n" "child n k = Some c"
  have "KWild \<notin> set (butlast ks)" if "node_lookup c (ks, m) \<noteq> None" for ks m
  proof -
    have "node_lookup n (k # ks, m) \<noteq> None" using that a(2) by simp
    then have "KWild \<notin> set (butlast (k # ks))" using a(1) unfolding wild_ends_def by blast
    then show ?thesis by (auto split: if_splits)
  qed
  then show ?thesis by (auto simp: wild_ends_def)
qed

lemma wild_child_leaf: "wild_ends n \<Longrightarrow> child n KWild = Some c \<Longrightarrow> node_lookup c (k # ks, m) = None"
proof (rule ccontr)
  assume a: "wild_ends n" "child n KWild = Some c" "node_lookup c (k # ks, m) \<noteq> None"
  then have "node_lookup n (KWild # k # ks, m) \<noteq> None" by simp
  then show False using a(1) unfolding wild_ends_def by fastforce
qed

text \<open>The keys of the trie that match, and the outcome of a walk in terms of them.\<close>

definition hits :: "Node \<Rightarrow> bstr list \<Rightarrow> Method \<Rightarrow> Key list set" where
  "hits n ss m = {ks. kmatch ks ss \<noteq> None \<and> node_lookup n (ks, m) \<noteq> None}"

definition outcome :: "Node \<Rightarrow> bstr list \<Rightarrow> Method \<Rightarrow> Key list set \<Rightarrow> bstr list \<Rightarrow> attempt \<Rightarrow> bool" where
  "outcome n ss m H k a = (case a of
      (None, k') \<Rightarrow> k' = k \<and> H = {}
    | (Some r, k') \<Rightarrow> \<exists>ks \<in> H. \<exists>vs. k' = k @ vs \<and> kmatch ks ss = Some vs \<and> node_lookup n (ks, m) = Some r \<and>
        (\<forall>ks' \<in> H. ranks ks \<le> ranks ks'))"

lemma outcome_simps [simp]:
  "outcome n ss m H k (None, k') \<longleftrightarrow> k' = k \<and> H = {}"
  "outcome n ss m H k (Some r, k') \<longleftrightarrow> (\<exists>ks \<in> H. \<exists>vs. k' = k @ vs \<and> kmatch ks ss = Some vs \<and>
     node_lookup n (ks, m) = Some r \<and> (\<forall>ks' \<in> H. ranks ks \<le> ranks ks'))"
  by (simp_all add: outcome_def)

text \<open>Trying one candidate before another is right when everything the first can find is at least as specific.\<close>

lemma outcome_or_else:
  assumes "outcome n ss m H k a" "\<And>k. outcome n ss m H' k (f k)" "\<And>x y. x \<in> H \<Longrightarrow> y \<in> H' \<Longrightarrow> ranks x \<le> ranks y"
  shows "outcome n ss m (H \<union> H') k (or_else a f)"
proof (cases "(a, f)" rule: or_else.cases)
  case (1 r k' g)
  then have "\<exists>ks \<in> H. \<exists>vs. k' = k @ vs \<and> kmatch ks ss = Some vs \<and> node_lookup n (ks, m) = Some r \<and>
      (\<forall>ks' \<in> H. ranks ks \<le> ranks ks')" using assms(1) by simp
  then obtain ks vs where "ks \<in> H" "k' = k @ vs" "kmatch ks ss = Some vs" "node_lookup n (ks, m) = Some r"
      "\<forall>ks' \<in> H. ranks ks \<le> ranks ks'" by blast
  moreover from this(1) have "\<forall>ks' \<in> H'. ranks ks \<le> ranks ks'" using assms(3) by blast
  ultimately show ?thesis using 1 by auto
next
  case (2 k' g)
  then show ?thesis using assms(1) assms(2) [of k] by simp
qed

text \<open>A candidate below a child, with the values it pushes first.\<close>

lemma outcome_child:
  assumes "outcome c ss' m H (k @ us) a" "child n key = Some c" "\<And>ks vs. ks \<in> H \<Longrightarrow> kmatch ks ss' = Some vs \<Longrightarrow> kmatch (key # ks) ss = Some (us @ vs)"
  shows "length us \<le> 1 \<Longrightarrow> outcome n ss m ((#) key ` H) k (if us = [] then a else undo a)"
proof (cases a rule: undo.cases)
  case (1 r k')
  then obtain ks vs where "ks \<in> H" "k' = (k @ us) @ vs" "kmatch ks ss' = Some vs" "node_lookup c (ks, m) = Some r"
      "\<forall>ks' \<in> H. ranks ks \<le> ranks ks'" using assms(1) by auto
  then show ?thesis using assms(2,3) 1 by (auto intro!: bexI [of _ ks])
next
  case (2 k')
  then show "length us \<le> 1 \<Longrightarrow> ?thesis" using assms(1) by (cases us) auto
qed

lemma hits_Cons:
  "hits n (s # ss) m =
     (case child n (KLit s) of None \<Rightarrow> {} | Some c \<Rightarrow> (#) (KLit s) ` hits c ss m) \<union>
     (case child n KPar of None \<Rightarrow> {} | Some c \<Rightarrow> if s = [] then {} else (#) KPar ` hits c ss m) \<union>
     (case child n KWild of None \<Rightarrow> {} | Some c \<Rightarrow> if node_lookup c ([], m) = None then {} else {[KWild]})"
  (is "?l = ?r")
proof
  show "?l \<subseteq> ?r"
  proof
    fix ks assume "ks \<in> ?l"
    then obtain vs where ks: "kmatch ks (s # ss) = Some vs" "node_lookup n (ks, m) \<noteq> None" by (auto simp: hits_def)
    from ks(1) show "ks \<in> ?r"
      by (cases rule: kmatch_Cons_cases) (use ks(2) in \<open>auto simp: hits_def simp del: child.simps split: option.splits\<close>)
  qed
  show "?r \<subseteq> ?l" by (auto simp: hits_def simp del: child.simps split: option.splits if_splits)
qed

lemma hits_Nil:
  "hits n [] m = (if node_lookup n ([], m) = None then {} else {[]}) \<union>
     (case child n KWild of None \<Rightarrow> {} | Some c \<Rightarrow> if node_lookup c ([], m) = None then {} else {[KWild]})"
  (is "?l = ?r")
proof
  show "?l \<subseteq> ?r"
  proof
    fix ks assume "ks \<in> ?l"
    then obtain vs where ks: "kmatch ks [] = Some vs" "node_lookup n (ks, m) \<noteq> None" by (auto simp: hits_def)
    from ks(1) show "ks \<in> ?r"
      by (cases rule: kmatch_Nil_cases) (use ks(2) in \<open>auto simp del: child.simps split: option.splits\<close>)
  qed
  show "?r \<subseteq> ?l" by (auto simp: hits_def simp del: child.simps split: option.splits if_splits)
qed

lemma hits_leaf: "wild_ends n \<Longrightarrow> child n KWild = Some c \<Longrightarrow> hits c [] m = (if node_lookup c ([], m) = None then {} else {[]})"
  using wild_child_leaf [of n c KWild "[]" m] by (auto simp: hits_Nil simp del: child.simps split: option.splits)

lemma walk_Nil: "outcome n [] m (hits n [] m) k (walk n [] m k)"
  by (auto simp: hits_Nil split: option.splits)

lemma walk_outcome: "wild_ends n \<Longrightarrow> outcome n ss m (hits n ss m) k (walk n ss m k)"
proof (induction ss arbitrary: n k)
  case Nil
  show ?case by (rule walk_Nil)
next
  case (Cons s ss)
  let ?L = "case child n (KLit s) of None \<Rightarrow> {} | Some c \<Rightarrow> (#) (KLit s) ` hits c ss m"
  let ?P = "case child n KPar of None \<Rightarrow> {} | Some c \<Rightarrow> if s = [] then {} else (#) KPar ` hits c ss m"
  let ?W = "case child n KWild of None \<Rightarrow> {} | Some c \<Rightarrow> if node_lookup c ([], m) = None then {} else {[KWild]}"
  have L: "outcome n (s # ss) m ?L k (case map_of (literals n) s of Some c \<Rightarrow> walk c ss m k | None \<Rightarrow> (None, k))" for k
  proof (cases "child n (KLit s)")
    case (Some c)
    then have "outcome c ss m (hits c ss m) (k @ []) (walk c ss m k)"
      using Cons.IH wild_ends_child [OF Cons.prems Some] by simp
    from outcome_child [OF this Some] Some show ?thesis by simp
  qed simp
  have P: "outcome n (s # ss) m ?P k
      (case param_child n of Some c \<Rightarrow> if s \<noteq> [] then undo (walk c ss m (k @ [s])) else (None, k) | None \<Rightarrow> (None, k))" for k
  proof (cases "child n KPar")
    case (Some c)
    have "outcome c ss m (hits c ss m) (k @ [s]) (walk c ss m (k @ [s]))"
      using Cons.IH wild_ends_child [OF Cons.prems Some] by simp
    from outcome_child [OF this Some, of "s # ss"] Some show ?thesis by simp
  qed simp
  have W: "outcome n (s # ss) m ?W k
      (case wildcard_child n of Some c \<Rightarrow> undo (walk c [] m (k @ [join_byte 47 (s # ss)])) | None \<Rightarrow> (None, k))" for k
  proof (cases "child n KWild")
    case (Some c)
    let ?H = "if node_lookup c ([], m) = None then {} else {[]}"
    have "outcome c [] m ?H (k @ [join_byte 47 (s # ss)]) (walk c [] m (k @ [join_byte 47 (s # ss)]))"
      using walk_Nil [of c m "k @ [join_byte 47 (s # ss)]"] hits_leaf [OF Cons.prems Some, of m] by (simp only:)
    moreover have "kmatch (KWild # ks) (s # ss) = Some ([join_byte 47 (s # ss)] @ vs)"
      if "ks \<in> ?H" "kmatch ks [] = Some vs" for ks vs using that by (simp split: if_splits)
    ultimately have "outcome n (s # ss) m ((#) KWild ` ?H) k (undo (walk c [] m (k @ [join_byte 47 (s # ss)])))"
      using outcome_child [of c "[]" m ?H k "[join_byte 47 (s # ss)]", OF _ Some, of _ "s # ss"] by simp
    moreover have "(#) KWild ` ?H = ?W" using Some by simp
    ultimately show ?thesis using Some by (simp del: walk.simps)
  qed simp
  have "outcome n (s # ss) m (?L \<union> (?P \<union> ?W)) k (walk n (s # ss) m k)"
    unfolding walk.simps(2)
    by (intro outcome_or_else L P W) (auto simp del: child.simps split: option.splits if_splits)
  then show ?case by (simp only: hits_Cons Un_assoc)
qed

lemma set_collect_methods: "wild_ends n \<Longrightarrow> m \<in> set (collect_methods n ss) \<longleftrightarrow> hits n ss m \<noteq> {}"
proof (induction ss arbitrary: n)
  case Nil
  then show ?case by (auto simp: hits_Nil map_of_eq_None_iff split: option.splits)
next
  case (Cons s ss)
  have leaf: "m \<in> set (collect_methods c []) \<longleftrightarrow> node_lookup c ([], m) \<noteq> None" if "child n KWild = Some c" for c
    using hits_leaf [OF Cons.prems that, of m] wild_child_leaf [OF Cons.prems that, of KWild "[]" m]
    by (auto simp: map_of_eq_None_iff split: option.splits)
  have IH: "m \<in> set (collect_methods c ss) \<longleftrightarrow> hits c ss m \<noteq> {}" if "child n k = Some c" for k c
    using Cons.IH wild_ends_child [OF Cons.prems that] by blast
  show ?case
    using leaf IH [of "KLit s"] IH [of KPar] by (auto simp: hits_Cons split: option.splits if_splits)
qed

section \<open>What the table promises\<close>

text \<open>A route as \<open>Route::new\<close> makes it.\<close>

definition registered :: "Route \<Rightarrow> bool" where
  "registered r \<longleftrightarrow> route_new (route_method r) (pattern r) (handler r) = Inr r"

fun seg_match :: "Segment list \<Rightarrow> bstr list \<Rightarrow> (bstr \<times> bstr) list option" where
  "seg_match [] [] = Some []"
| "seg_match [Wildcard n] ss = Some [(n, join_byte 47 ss)]"
| "seg_match (Literal t # ps) (s # ss) = (if t = s then seg_match ps ss else None)"
| "seg_match (Param n # ps) (s # ss) = (if s \<noteq> [] then map_option (\<lambda>vs. (n, s) # vs) (seg_match ps ss) else None)"
| "seg_match _ _ = None"

fun seg_rank :: "Segment \<Rightarrow> nat" where
  "seg_rank (Literal _) = 0"
| "seg_rank (Param _) = 1"
| "seg_rank (Wildcard _) = 2"

definition specificity :: "Route \<Rightarrow> nat list" where
  "specificity r = map seg_rank (segments r)"

definition matches :: "Route list \<Rightarrow> Method \<Rightarrow> bstr list \<Rightarrow> Route set" where
  "matches rs m ss = {r \<in> set rs. route_method r = m \<and> seg_match (segments r) ss \<noteq> None}"

text \<open>The route that serves a request: it matches, and every other that does is less specific.\<close>

definition serves :: "Route list \<Rightarrow> Method \<Rightarrow> bstr list \<Rightarrow> Route \<Rightarrow> bool" where
  "serves rs m ss r \<longleftrightarrow> r \<in> matches rs m ss \<and> (\<forall>r' \<in> matches rs m ss - {r}. specificity r < specificity r')"

definition answer :: "Route \<Rightarrow> bstr list \<Rightarrow> Match" where
  "answer r ss = \<lparr>match_handler = handler r, match_pattern = pattern r, params = the (seg_match (segments r) ss)\<rparr>"

lemma seg_match_kmatch: "seg_match ps ss = map_option (zip (names ps)) (kmatch (map key_of ps) ss)"
  by (induction ps ss rule: seg_match.induct) (auto simp: option.map_comp comp_def)

lemma specificity_ranks: "specificity r = ranks (map key_of (segments r))"
proof -
  have "seg_rank s = rank (key_of s)" for s by (cases s) simp_all
  then show ?thesis by (simp add: specificity_def ranks_def)
qed

lemma registered_wild_last: "registered r \<Longrightarrow> wild_last (segments r)"
proof -
  assume "registered r"
  then obtain ss where "parse_pattern (pattern r) = Inr ss"
      "r = \<lparr>route_method = route_method r, pattern = pattern r, handler = handler r, segments = ss\<rparr>"
    by (auto simp: registered_def route_new_def split: sum.splits)
  moreover from this(2) have "segments r = ss" by (metis Route.Route.select_convs(4))
  ultimately show ?thesis using parse_pattern_sound by (simp add: valid_segments_def)
qed

lemma lookup_root:
  "build rs = Inr t \<Longrightarrow> node_lookup (root t) k = Some r \<longleftrightarrow> r \<in> set rs \<and> route_key r = k"
  using trie.ins_all_empty(2) by (auto simp: build_iff)

lemma key_wild: "key_of s = KWild \<longleftrightarrow> is_wildcard s" "KWild = key_of s \<longleftrightarrow> is_wildcard s"
  by (cases s; simp)+

lemma wild_ends_root: "build rs = Inr t \<Longrightarrow> list_all registered rs \<Longrightarrow> wild_ends (root t)"
proof -
  assume a: "build rs = Inr t" "list_all registered rs"
  have "KWild \<notin> set (butlast ks)" if k: "node_lookup (root t) (ks, m) = Some r" for ks m r
  proof -
    have r: "r \<in> set rs" "ks = map key_of (segments r)" using lookup_root [OF a(1)] k by (auto simp: route_key_def)
    then have "wild_last (segments r)" using a(2) registered_wild_last by (simp add: list_all_iff)
    then show ?thesis by (auto simp: r(2) wild_last_def key_wild simp flip: map_butlast)
  qed
  then show ?thesis by (auto simp: wild_ends_def)
qed

lemma hits_matches:
  "build rs = Inr t \<Longrightarrow> hits (root t) ss m = (\<lambda>r. map key_of (segments r)) ` matches rs m ss"
  using lookup_root [of rs t] by (force simp: hits_def matches_def seg_match_kmatch route_key_def)

lemma walk_serves:
  assumes "build rs = Inr t" "list_all registered rs"
  shows "case walk (root t) ss m [] of
      (Some r, k) \<Rightarrow> serves rs m ss r \<and> bind r k = answer r ss
    | (None, _) \<Rightarrow> matches rs m ss = {}"
proof -
  note out = walk_outcome [OF wild_ends_root [OF assms], of ss m "[]"]
  note hits = hits_matches [OF assms(1), of ss m]
  obtain o' k where w: "walk (root t) ss m [] = (o', k)" by fastforce
  show ?thesis
  proof (cases o')
    case None
    then show ?thesis using out by (simp add: w hits)
  next
    case (Some r)
    then obtain ks where ks: "kmatch ks ss = Some k" "node_lookup (root t) (ks, m) = Some r"
        "\<forall>ks' \<in> hits (root t) ss m. ranks ks \<le> ranks ks'"
      using out by (auto simp: w)
    have r: "r \<in> set rs" "map key_of (segments r) = ks" "route_method r = m"
      using ks(2) lookup_root [OF assms(1)] by (auto simp: route_key_def)
    have "specificity r < specificity r'" if r': "r' \<in> matches rs m ss" "r' \<noteq> r" for r'
    proof -
      let ?ks = "map key_of (segments r')"
      have "ranks ks \<le> ranks ?ks" using ks(3) r'(1) by (simp add: hits)
      moreover have "ranks ks \<noteq> ranks ?ks"
      proof
        assume eq: "ranks ks = ranks ?ks"
        obtain vs where "kmatch ?ks ss = Some vs" using r'(1) by (auto simp: matches_def seg_match_kmatch)
        then have "route_key r' = route_key r" using same_ranks [OF ks(1) _ eq] r r'(1) by (simp add: route_key_def matches_def)
        then show False using r' r(1) lookup_root [OF assms(1)] by (metis (no_types, lifting) matches_def mem_Collect_eq option.inject)
      qed
      ultimately show ?thesis by (simp add: specificity_ranks r(2) order_less_le)
    qed
    moreover have "bind r k = answer r ss"
      using ks(1) r(2) by (simp add: bind_def answer_def seg_match_kmatch captures_def names_def)
    ultimately show ?thesis using ks(1) r Some by (simp add: w serves_def matches_def seg_match_kmatch)
  qed
qed

lemma serves_unique: "serves rs m ss r \<Longrightarrow> serves rs m ss r' \<Longrightarrow> r' = r"
  unfolding serves_def by (metis DiffI less_asym singletonD)

lemma serves_none: "matches rs m ss = {} \<Longrightarrow> \<not> serves rs m ss r"
  by (simp add: serves_def)

text \<open>The answer as a relation on the list of routes: the most specific route for the method, or for GET when the request
  is a HEAD that no route names.\<close>

definition routed :: "Route list \<Rightarrow> Method \<Rightarrow> bstr list \<Rightarrow> Match \<Rightarrow> bool" where
  "routed rs m ss a \<longleftrightarrow> (\<exists>r. serves rs m ss r \<and> a = answer r ss) \<or>
     m = Head \<and> matches rs Head ss = {} \<and> (\<exists>r. serves rs Get ss r \<and> a = answer r ss)"

lemma match_route_spec:
  assumes "build rs = Inr t" "list_all registered rs"
  shows "match_route t m p = Some a \<longleftrightarrow> routed rs m (path_segments (strip_query p)) a"
    "match_route t m p = None \<longleftrightarrow> matches rs m (path_segments (strip_query p)) = {} \<and>
       (m = Head \<longrightarrow> matches rs Get (path_segments (strip_query p)) = {})"
proof -
  let ?ss = "path_segments (strip_query p)"
  have first: "(\<exists>r k. walk (root t) ?ss m' [] = (Some r, k) \<and> serves rs m' ?ss r \<and> bind r k = answer r ?ss \<and> matches rs m' ?ss \<noteq> {}) \<or>
      (\<exists>k. walk (root t) ?ss m' [] = (None, k) \<and> matches rs m' ?ss = {})" for m'
    using walk_serves [OF assms, where ss = ?ss and m = m'] by (auto simp: serves_def split: prod.splits option.splits)
  have served: "match_route t m p = Some (answer r ?ss)" if "serves rs m ?ss r" for r
    using first [of m] that serves_unique serves_none by (fastforce simp: match_route_def)
  have head: "match_route t Head p = Some (answer r ?ss)" if "matches rs Head ?ss = {}" "serves rs Get ?ss r" for r
    using first [of Head] first [of Get] that serves_unique serves_none by (fastforce simp: match_route_def)
  show none: "match_route t m p = None \<longleftrightarrow> matches rs m ?ss = {} \<and> (m = Head \<longrightarrow> matches rs Get ?ss = {})"
    using first [of m] first [of Get] by (auto simp: match_route_def)
  have found: "\<exists>r. serves rs m' ?ss r" if "matches rs m' ?ss \<noteq> {}" for m' using first [of m'] that by blast
  show "match_route t m p = Some a \<longleftrightarrow> routed rs m ?ss a"
  proof
    assume "routed rs m ?ss a"
    then show "match_route t m p = Some a" unfolding routed_def using served head by blast
  next
    assume some: "match_route t m p = Some a"
    consider r where "serves rs m ?ss r" | r where "m = Head" "matches rs Head ?ss = {}" "serves rs Get ?ss r"
      using none found some by fastforce
    then show "routed rs m ?ss a"
      using served head some unfolding routed_def by cases (metis option.inject)+
  qed
qed

lemma sorted_remdups_adj: "sorted xs \<Longrightarrow> sorted (remdups_adj xs) \<and> distinct (remdups_adj xs)"
proof (induction xs rule: remdups_adj.induct)
  case (3 x y xs)
  then show ?case by (cases "x = y") (auto simp: order_le_less)
qed simp_all

text \<open>C3. Routing chooses the most specific route, whatever the order of registration. For every table built of registered
  routes, every method and every target, the answer is the handler, pattern and captures of the one route that matches
  and is more specific than every other route that does: compared segment by segment from the left, a literal before a
  parameter before a wildcard, and an exact end before a wildcard. A HEAD that no route names is answered by the route
  for GET. There is no answer exactly when no such route matches, and two tables with the same routes answer alike.\<close>

theorem most_specific_route:
  assumes "build rs = Inr t" "list_all registered rs"
  shows "(match_route t m p = Some a \<longleftrightarrow> routed rs m (path_segments (strip_query p)) a) \<and>
    (match_route t m p = None \<longleftrightarrow> matches rs m (path_segments (strip_query p)) = {} \<and>
       (m = Head \<longrightarrow> matches rs Get (path_segments (strip_query p)) = {})) \<and>
    (build rs' = Inr t' \<and> set rs' = set rs \<longrightarrow> match_route t' m p = match_route t m p)"
proof (intro conjI impI match_route_spec [OF assms])
  assume b: "build rs' = Inr t' \<and> set rs' = set rs"
  then have "list_all registered rs'" using assms(2) by (simp add: list_all_iff)
  moreover have "matches rs' = matches rs" using b by (simp add: matches_def fun_eq_iff)
  then have "routed rs' = routed rs" by (simp add: routed_def serves_def fun_eq_iff)
  ultimately have "match_route t' m p = Some a \<longleftrightarrow> match_route t m p = Some a" for a
    using match_route_spec(1) [OF assms] match_route_spec(1) [of rs' t'] b by simp
  then show "match_route t' m p = match_route t m p" by (metis option.exhaust)
qed

definition sample_routes :: "Route list" where
  "sample_routes =
     [\<lparr>route_method = Get, pattern = ascii ''/a/:id'', handler = ascii ''show'', segments = [Literal (ascii ''a''), Param (ascii ''id'')]\<rparr>,
      \<lparr>route_method = Get, pattern = ascii ''/a/new'', handler = ascii ''form'', segments = [Literal (ascii ''a''), Literal (ascii ''new'')]\<rparr>]"

lemma sample_routes_ok: "admissible sample_routes" "list_all registered sample_routes"
  by (simp_all add: sample_routes_def admissible_def route_key_def registered_def route_new_def parse_pattern_def starts_with_def
      MAX_PARAMS_def ascii_def)

lemma sample_table: "\<exists>t. build sample_routes = Inr t"
proof -
  obtain n where "trie.ins_all sample_routes node_default = Some n"
    using sample_routes_ok(1) trie.ins_all_empty(1) by (auto simp: admissible_def)
  then have "build sample_routes = Inr \<lparr>root = n, route_count = length sample_routes\<rparr>"
    using sample_routes_ok(1) by (simp add: build_iff)
  then show ?thesis by blast
qed

lemma sample_matches:
  "matches sample_routes Get (path_segments (strip_query (ascii ''/a/new?x''))) = set sample_routes"
  by (auto simp: sample_routes_def matches_def path_segments_def strip_query_def ascii_def)

theorem most_specific_route_witness:
  "\<exists>t. build sample_routes = Inr t \<and> list_all registered sample_routes \<and>
     match_route t Get (ascii ''/a/new?x'') =
       Some \<lparr>match_handler = ascii ''form'', match_pattern = ascii ''/a/new'', params = []\<rparr>"
proof -
  obtain t where t: "build sample_routes = Inr t" using sample_table by blast
  let ?r = "sample_routes ! 1" and ?ss = "path_segments (strip_query (ascii ''/a/new?x''))"
  have "serves sample_routes Get ?ss ?r"
    unfolding serves_def sample_matches by (auto simp: sample_routes_def specificity_def)
  moreover have "answer ?r ?ss = \<lparr>match_handler = ascii ''form'', match_pattern = ascii ''/a/new'', params = []\<rparr>"
    by (simp add: answer_def sample_routes_def path_segments_def strip_query_def ascii_def)
  ultimately have "routed sample_routes Get ?ss \<lparr>match_handler = ascii ''form'', match_pattern = ascii ''/a/new'', params = []\<rparr>"
    unfolding routed_def by metis
  then show ?thesis using most_specific_route [OF t sample_routes_ok(2)] t sample_routes_ok(2) by blast
qed

text \<open>The Allow header tells the truth: the methods a path allows are exactly those for which a request to that path is
  routed, each listed once and in order.\<close>

theorem allows_exact:
  assumes "build rs = Inr t" "list_all registered rs"
  shows "(m \<in> set (allows t p) \<longleftrightarrow> match_route t m p \<noteq> None) \<and> sorted (allows t p) \<and> distinct (allows t p)"
proof -
  let ?ss = "path_segments (strip_query p)"
  let ?out = "collect_methods (root t) ?ss"
  have "m' \<in> set ?out \<longleftrightarrow> matches rs m' ?ss \<noteq> {}" for m'
    using set_collect_methods [OF wild_ends_root [OF assms]] hits_matches [OF assms(1)] by simp
  moreover have "set (allows t p) = set (if Get \<in> set ?out \<and> Head \<notin> set ?out then ?out @ [Head] else ?out)"
    by (simp add: allows_def Let_def)
  ultimately have "m \<in> set (allows t p) \<longleftrightarrow> matches rs m ?ss \<noteq> {} \<or> m = Head \<and> matches rs Get ?ss \<noteq> {}"
    by auto
  then show ?thesis
    using match_route_spec(2) [OF assms] sorted_remdups_adj [OF sorted_sort] by (auto simp: allows_def Let_def)
qed

theorem allows_exact_witness:
  "\<exists>t. build sample_routes = Inr t \<and> list_all registered sample_routes \<and> Get \<in> set (allows t (ascii ''/a/new?x''))"
proof -
  obtain t where t: "build sample_routes = Inr t" using sample_table by blast
  have "match_route t Get (ascii ''/a/new?x'') \<noteq> None"
    using match_route_spec(2) [OF t sample_routes_ok(2), of Get] sample_matches by (simp add: sample_routes_def)
  then show ?thesis using allows_exact [OF t sample_routes_ok(2)] t sample_routes_ok(2) by blast
qed

end
