(* ===== verification/ServerRoutes.thy ===== *)
theory ServerRoutes
  imports Route
begin

text \<open>
  From the \<open>[server]\<close> table of a manifest to a running router: the validation of the declared routes
  (\<open>qqq-cap/src/server.rs\<close>), the authentication policy (\<open>qqq-serve/src/auth.rs\<close>) and the join of the two
  (\<open>qqq-run/src/serve_routes.rs\<close>). A refusal is a constructor that names its branch and carries the values its message
  shows; the wording is left out.
\<close>

section \<open>The manifest's routes\<close>

datatype AuthMode = Deny | AuthNone | BearerJwt | Mtls | SignedRequest

datatype RouteKind = KindHttp | KindWs | KindSse

record RouteEntry =
  se_path :: bstr
  se_methods :: "bstr list"
  se_handler :: bstr
  se_auth :: "AuthMode option"
  se_kind :: RouteKind

text \<open>The part of \<open>Server\<close> that concerns routing.\<close>

record Server =
  server_routes :: "RouteEntry list"
  default_auth :: AuthMode

fun auth_mode_as_str :: "AuthMode \<Rightarrow> bstr" where
  "auth_mode_as_str Deny = ascii ''deny''"
| "auth_mode_as_str AuthNone = ascii ''none''"
| "auth_mode_as_str BearerJwt = ascii ''bearer-jwt''"
| "auth_mode_as_str Mtls = ascii ''mtls''"
| "auth_mode_as_str SignedRequest = ascii ''signed-request''"

definition effective_auth :: "RouteEntry \<Rightarrow> AuthMode \<Rightarrow> AuthMode" where
  "effective_auth e d = (case se_auth e of Some mode \<Rightarrow> mode | None \<Rightarrow> d)"

definition unauthenticated_routes :: "Server \<Rightarrow> RouteEntry list" where
  "unauthenticated_routes s = filter (\<lambda>e. effective_auth e (default_auth s) = AuthNone) (server_routes s)"

definition METHODS :: "bstr list" where
  "METHODS = map ascii [''GET'', ''HEAD'', ''POST'', ''PUT'', ''PATCH'', ''DELETE'', ''OPTIONS'', ''TRACE'', ''CONNECT'']"

section \<open>Validation\<close>

definition normalized :: "bstr \<Rightarrow> bstr" where
  "normalized p = (if 1 < length p \<and> last p = 47 then butlast p else p)"

definition any_segment :: "bstr \<Rightarrow> bool" where
  "any_segment s \<longleftrightarrow> s = [42] \<or> starts_with [58] s"

fun overlap_segments :: "bstr list \<Rightarrow> bstr list \<Rightarrow> bool" where
  "overlap_segments [] [] = True"
| "overlap_segments (x # xs) (y # ys) =
     (if x \<noteq> y \<and> \<not> any_segment x \<and> \<not> any_segment y then False else overlap_segments xs ys)"
| "overlap_segments _ _ = False"

definition paths_overlap :: "bstr \<Rightarrow> bstr \<Rightarrow> bool" where
  "paths_overlap a b \<longleftrightarrow> normalized a = normalized b \<or>
     overlap_segments (split_byte 47 (normalized a)) (split_byte 47 (normalized b))"

datatype RouteProblem =
    PathEmpty nat
  | PathRelative nat bstr
  | PathHasQuery nat bstr
  | HandlerEmpty nat
  | NoMethods nat
  | NotAMethod nat bstr
  | MethodTwice nat bstr
  | AlreadyHandled nat bstr bstr
  | WsWithoutGet nat
  | WsOtherMethod nat
  | SseWithoutGet nat
  | SseOtherMethod nat

fun canonical_methods :: "nat \<Rightarrow> bstr list \<Rightarrow> RouteProblem + bstr list" where
  "canonical_methods i [] = Inr []"
| "canonical_methods i (raw # ms) =
     (case find (\<lambda>m. m = map upper raw) METHODS of
        None \<Rightarrow> Inl (NotAMethod i raw)
      | Some c \<Rightarrow> (case canonical_methods i ms of Inl e \<Rightarrow> Inl e | Inr cs \<Rightarrow> Inr (c # cs)))"

fun first_repeat :: "bstr set \<Rightarrow> bstr list \<Rightarrow> bstr option" where
  "first_repeat seen [] = None"
| "first_repeat seen (m # ms) = (if m \<in> seen then Some m else first_repeat (insert m seen) ms)"

fun declared_clash :: "(bstr \<times> bstr list) list \<Rightarrow> bstr \<Rightarrow> bstr list \<Rightarrow> bstr option" where
  "declared_clash [] p ms = None"
| "declared_clash ((q, earlier) # ds) p ms =
     (if \<not> paths_overlap q p then declared_clash ds p ms
      else case find (\<lambda>m. m \<in> set earlier) ms of Some m \<Rightarrow> Some m | None \<Rightarrow> declared_clash ds p ms)"

definition validate_stateful_methods :: "nat \<Rightarrow> RouteEntry \<Rightarrow> bstr list \<Rightarrow> RouteProblem option" where
  "validate_stateful_methods i e ms =
     (if se_kind e = KindWs \<and> ascii ''GET'' \<notin> set ms then Some (WsWithoutGet i)
      else if se_kind e = KindWs \<and> list_ex (\<lambda>m. m \<noteq> ascii ''GET'') ms then Some (WsOtherMethod i)
      else if se_kind e = KindSse \<and> ascii ''GET'' \<notin> set ms then Some (SseWithoutGet i)
      else if se_kind e = KindSse \<and> list_ex (\<lambda>m. m \<noteq> ascii ''GET'') ms then Some (SseOtherMethod i)
      else None)"

definition validate_route :: "nat \<Rightarrow> RouteEntry \<Rightarrow> (bstr \<times> bstr list) list \<Rightarrow> RouteProblem + bstr list" where
  "validate_route i e declared =
     (if se_path e = [] then Inl (PathEmpty i)
      else if \<not> starts_with [47] (se_path e) then Inl (PathRelative i (se_path e))
      else if 63 \<in> set (se_path e) \<or> 35 \<in> set (se_path e) then Inl (PathHasQuery i (se_path e))
      else if se_handler e = [] then Inl (HandlerEmpty i)
      else if se_methods e = [] then Inl (NoMethods i)
      else case canonical_methods i (se_methods e) of
        Inl p \<Rightarrow> Inl p
      | Inr ms \<Rightarrow>
          (case first_repeat {} ms of
             Some m \<Rightarrow> Inl (MethodTwice i m)
           | None \<Rightarrow>
               (case declared_clash declared (se_path e) ms of
                  Some m \<Rightarrow> Inl (AlreadyHandled i (se_path e) m)
                | None \<Rightarrow>
                    (case validate_stateful_methods i e ms of Some p \<Rightarrow> Inl p | None \<Rightarrow> Inr ms))))"

text \<open>The loop of \<open>Server::validate\<close> over the routes.\<close>

fun validate_routes :: "nat \<Rightarrow> (bstr \<times> bstr list) list \<Rightarrow> RouteEntry list \<Rightarrow> RouteProblem + unit" where
  "validate_routes i seen [] = Inr ()"
| "validate_routes i seen (e # es) =
     (case validate_route i e seen of
        Inl p \<Rightarrow> Inl p
      | Inr ms \<Rightarrow> validate_routes (i + 1) (seen @ [(se_path e, ms)]) es)"

section \<open>The authentication policy\<close>

datatype RouteAuth = Public | Refused bstr

datatype Decision = Allow | Refuse bstr

definition UNLISTED :: bstr where "UNLISTED = ascii ''unlisted''"

record AuthPolicy =
  policy_routes :: "((bstr \<times> bstr) \<times> RouteAuth) list"
  ambiguous :: "(bstr \<times> bstr) list"

definition policy_new :: AuthPolicy where
  "policy_new = \<lparr>policy_routes = [], ambiguous = []\<rparr>"

definition policy_insert :: "AuthPolicy \<Rightarrow> bstr \<Rightarrow> bstr \<Rightarrow> RouteAuth \<Rightarrow> AuthPolicy" where
  "policy_insert pol pat h a =
     (let key = (pat, h) in
      case map_of (policy_routes pol) key of
        Some existing \<Rightarrow>
          if existing \<noteq> a \<and> key \<notin> set (ambiguous pol) then pol\<lparr>ambiguous := ambiguous pol @ [key]\<rparr> else pol
      | None \<Rightarrow> pol\<lparr>policy_routes := btree_insert key a (policy_routes pol)\<rparr>)"

definition decide_auth :: "AuthPolicy \<Rightarrow> Match \<Rightarrow> Decision" where
  "decide_auth pol mt =
     (let key = (match_pattern mt, match_handler mt) in
      if key \<in> set (ambiguous pol) then Refuse (ascii ''ambiguous-auth'')
      else case map_of (policy_routes pol) key of
        Some Public \<Rightarrow> Allow
      | Some (Refused mode) \<Rightarrow> Refuse mode
      | None \<Rightarrow> Refuse UNLISTED)"

section \<open>The join\<close>

fun route_auth :: "AuthMode \<Rightarrow> RouteAuth" where
  "route_auth AuthNone = Public"
| "route_auth Deny = Refused (ascii ''deny'')"
| "route_auth BearerJwt = Refused (ascii ''bearer-jwt'')"
| "route_auth Mtls = Refused (ascii ''mtls'')"
| "route_auth SignedRequest = Refused (ascii ''signed-request'')"

definition method_from_str :: "bstr \<Rightarrow> Method option" where
  "method_from_str raw =
     (let up = map upper raw in
      if up = ascii ''GET'' then Some Get
      else if up = ascii ''HEAD'' then Some Head
      else if up = ascii ''POST'' then Some Post
      else if up = ascii ''PUT'' then Some Put
      else if up = ascii ''PATCH'' then Some Patch
      else if up = ascii ''DELETE'' then Some Delete
      else if up = ascii ''OPTIONS'' then Some Options
      else if up = ascii ''TRACE'' then Some Trace
      else if up = ascii ''CONNECT'' then Some Connect
      else None)"

datatype CompileProblem =
    MethodProblem nat bstr
  | RouterProblem nat bstr RouterError
  | CapturingPath nat bstr bstr RouteKind
  | SharedWithHttp nat bstr bstr
  | BoundElsewhere nat bstr bstr
  | SharedWithOther nat bstr bstr

record ServerTables =
  route_table :: RouteTable
  auth_modes :: "AuthMode list"
  auth_policy :: AuthPolicy
  unauthenticated :: "bstr list"
  kinds :: "(bstr \<times> RouteKind \<times> bstr) list"

text \<open>The inner loop over the methods of one entry, then the loop over the entries.\<close>

fun compile_methods :: "nat \<Rightarrow> RouteEntry \<Rightarrow> RouteTable \<times> CompileProblem list \<Rightarrow> bstr list \<Rightarrow> RouteTable \<times> CompileProblem list" where
  "compile_methods i e st [] = st"
| "compile_methods i e (t, ps) (raw # ms) =
     (case method_from_str raw of
        None \<Rightarrow> compile_methods i e (t, ps @ [MethodProblem i raw]) ms
      | Some m \<Rightarrow>
          (case route_new m (se_path e) (se_handler e) of
             Inl err \<Rightarrow> compile_methods i e (t, ps @ [RouterProblem i (se_path e) err]) ms
           | Inr r \<Rightarrow>
               (case table_insert t r of
                  (t', Some err) \<Rightarrow> compile_methods i e (t', ps @ [RouterProblem i (se_path e) err]) ms
                | (t', None) \<Rightarrow> compile_methods i e (t', ps) ms)))"

fun compile_entries :: "AuthMode \<Rightarrow> nat \<Rightarrow> RouteTable \<times> CompileProblem list \<Rightarrow> AuthMode list \<Rightarrow> AuthPolicy \<Rightarrow> RouteEntry list \<Rightarrow>
    (RouteTable \<times> CompileProblem list) \<times> AuthMode list \<times> AuthPolicy" where
  "compile_entries d i st auth pol [] = (st, auth, pol)"
| "compile_entries d i st auth pol (e # es) =
     (let mode = effective_auth e d in
      compile_entries d (i + 1) (compile_methods i e st (se_methods e)) (auth @ [mode])
        (policy_insert pol (se_path e) (se_handler e) (route_auth mode)) es)"

text \<open>The two loops of \<open>kinds_from_routes\<close>: the state is the kinds, the HTTP handlers and the problems.\<close>

type_synonym kinds_state = "(bstr \<times> RouteKind \<times> bstr) list \<times> bstr set \<times> CompileProblem list"

definition kind_step :: "nat \<Rightarrow> RouteEntry \<Rightarrow> kinds_state \<Rightarrow> kinds_state" where
  "kind_step i e st =
     (case st of (ks, http, ps) \<Rightarrow>
      if se_kind e = KindHttp then (ks, insert (se_handler e) http, ps)
      else if 58 \<in> set (se_path e) \<or> 42 \<in> set (se_path e)
      then (ks, http, ps @ [CapturingPath i (se_path e) (se_handler e) (se_kind e)])
      else if se_handler e \<in> http then (ks, http, ps @ [SharedWithHttp i (se_path e) (se_handler e)])
      else case map_of ks (se_handler e) of
        None \<Rightarrow> (btree_insert (se_handler e) (se_kind e, se_path e) ks, http, ps)
      | Some (k, p) \<Rightarrow>
          if k = se_kind e \<and> p = se_path e then (ks, http, ps)
          else (ks, http, ps @ [BoundElsewhere i (se_path e) (se_handler e)]))"

fun kind_loop :: "nat \<Rightarrow> kinds_state \<Rightarrow> RouteEntry list \<Rightarrow> kinds_state" where
  "kind_loop i st [] = st"
| "kind_loop i st (e # es) = kind_loop (i + 1) (kind_step i e st) es"

fun shared_loop :: "nat \<Rightarrow> (bstr \<times> RouteKind \<times> bstr) list \<Rightarrow> RouteEntry list \<Rightarrow> CompileProblem list" where
  "shared_loop i ks [] = []"
| "shared_loop i ks (e # es) =
     (if se_kind e = KindHttp \<and> map_of ks (se_handler e) \<noteq> None then [SharedWithOther i (se_path e) (se_handler e)] else []) @
     shared_loop (i + 1) ks es"

definition kinds_from_routes :: "RouteEntry list \<Rightarrow> CompileProblem list + (bstr \<times> RouteKind \<times> bstr) list" where
  "kinds_from_routes es =
     (case kind_loop 0 ([], {}, []) es of (ks, _, ps) \<Rightarrow>
      let problems = ps @ shared_loop 0 ks es in
      if problems = [] then Inr ks else Inl problems)"

definition routes_from_manifest :: "Server \<Rightarrow> CompileProblem list + ServerTables" where
  "routes_from_manifest s =
     (case compile_entries (default_auth s) 0 (table_new, []) [] policy_new (server_routes s) of ((t, ps), auth, pol) \<Rightarrow>
      if ps \<noteq> [] then Inl ps
      else case kinds_from_routes (server_routes s) of
        Inl ps \<Rightarrow> Inl ps
      | Inr ks \<Rightarrow> Inr \<lparr>route_table = t, auth_modes = auth, auth_policy = pol,
          unauthenticated = map se_path (unauthenticated_routes s), kinds = ks\<rparr>)"

definition auth_for :: "ServerTables \<Rightarrow> nat \<Rightarrow> AuthMode" where
  "auth_for st i = (if i < length (auth_modes st) then auth_modes st ! i else Deny)"

section \<open>The policy decides as declared\<close>

text \<open>The policy after a sequence of insertions, in the order they were made.\<close>

definition contradictory :: "('k \<times> 'v) list \<Rightarrow> 'k \<Rightarrow> bool" where
  "contradictory L key \<longleftrightarrow> (\<exists>a. (key, a) \<in> set L \<and> map_of L key \<noteq> Some a)"

definition policy_ok :: "((bstr \<times> bstr) \<times> RouteAuth) list \<Rightarrow> AuthPolicy \<Rightarrow> bool" where
  "policy_ok L pol \<longleftrightarrow> map_of (policy_routes pol) = map_of L \<and> (\<forall>key. key \<in> set (ambiguous pol) \<longleftrightarrow> contradictory L key)"

lemma map_of_snoc: "map_of (L @ [(k, v)]) = (case map_of L k of None \<Rightarrow> (map_of L)(k \<mapsto> v) | Some _ \<Rightarrow> map_of L)"
  by (auto simp: map_add_def fun_eq_iff split: option.splits)

lemma map_of_None_not_in: "map_of L k = None \<Longrightarrow> (k, b) \<notin> set L"
  by (force simp: map_of_eq_None_iff)

lemma contradictory_snoc:
  "contradictory (L @ [(k, a)]) key \<longleftrightarrow> contradictory L key \<or> key = k \<and> (\<exists>b. map_of L k = Some b \<and> b \<noteq> a)"
proof (cases "map_of L k")
  case None
  then show ?thesis
    by (cases "key = k") (auto simp: contradictory_def map_of_snoc map_of_None_not_in simp del: map_of_append)
next
  case (Some b)
  then show ?thesis by (auto simp: contradictory_def map_of_snoc simp del: map_of_append)
qed

lemma policy_ok_new: "policy_ok [] policy_new"
  by (simp add: policy_ok_def policy_new_def contradictory_def)

lemma policy_ok_insert:
  assumes "policy_ok L pol"
  shows "policy_ok (L @ [((p, h), a)]) (policy_insert pol p h a)"
proof -
  have m: "map_of (policy_routes pol) (p, h) = map_of L (p, h)" using assms by (simp add: policy_ok_def)
  show ?thesis
  proof (cases "map_of L (p, h)")
    case None
    then show ?thesis using assms m
      by (simp add: policy_ok_def policy_insert_def Let_def contradictory_snoc map_of_snoc del: map_of_append)
  next
    case (Some b)
    then show ?thesis using assms m
      by (auto simp: policy_ok_def policy_insert_def Let_def contradictory_snoc map_of_snoc simp del: map_of_append)
  qed
qed

lemma decide_cases:
  assumes "policy_ok L pol"
  shows "decide_auth pol a =
    (let key = (match_pattern a, match_handler a) in
     if contradictory L key then Refuse (ascii ''ambiguous-auth'')
     else case map_of L key of Some Public \<Rightarrow> Allow | Some (Refused mode) \<Rightarrow> Refuse mode | None \<Rightarrow> Refuse UNLISTED)"
  using assms by (simp add: decide_auth_def policy_ok_def Let_def)

lemma uniform_lookup:
  assumes "(k, x) \<in> set L" "\<And>y. (k, y) \<in> set L \<Longrightarrow> y = x"
  shows "map_of L k = Some x" "\<not> contradictory L k"
proof -
  obtain y where "map_of L k = Some y" using assms(1) map_of_None_not_in by (metis not_Some_eq)
  then show m: "map_of L k = Some x" using assms(2) map_of_SomeD by metis
  then show "\<not> contradictory L k" using assms(2) by (auto simp: contradictory_def)
qed

lemma decide_allow:
  assumes "policy_ok L pol"
  shows "decide_auth pol a = Allow \<longleftrightarrow>
    ((match_pattern a, match_handler a), Public) \<in> set L \<and>
    (\<forall>x. ((match_pattern a, match_handler a), x) \<in> set L \<longrightarrow> x = Public)"
proof -
  let ?k = "(match_pattern a, match_handler a)"
  show ?thesis
  proof
    assume "decide_auth pol a = Allow"
    then have "map_of L ?k = Some Public" "\<not> contradictory L ?k"
      by (auto simp: decide_cases [OF assms] Let_def split: if_splits option.splits RouteAuth.splits)
    then show "(?k, Public) \<in> set L \<and> (\<forall>x. (?k, x) \<in> set L \<longrightarrow> x = Public)"
      using map_of_SomeD [of L ?k Public] unfolding contradictory_def by (metis option.inject)
  next
    assume "(?k, Public) \<in> set L \<and> (\<forall>x. (?k, x) \<in> set L \<longrightarrow> x = Public)"
    then show "decide_auth pol a = Allow"
      using uniform_lookup [of ?k Public L] by (simp add: decide_cases [OF assms] Let_def)
  qed
qed

lemma decide_refuse:
  assumes "policy_ok L pol" "((match_pattern a, match_handler a), Refused mode) \<in> set L"
    "\<And>x. ((match_pattern a, match_handler a), x) \<in> set L \<Longrightarrow> x = Refused mode"
  shows "decide_auth pol a = Refuse mode"
  using uniform_lookup [OF assms(2,3)] by (simp add: decide_cases [OF assms(1)] Let_def)

section \<open>The table is that of the declared routes\<close>

lemma build_append:
  "build_from t (rs @ rs') = (case build_from t rs of Inl e \<Rightarrow> Inl e | Inr t' \<Rightarrow> build_from t' rs')"
  by (induction rs arbitrary: t) (auto split: prod.splits option.splits)

lemma route_new_registered:
  "route_new m p h = Inr r \<Longrightarrow> registered r \<and> route_method r = m \<and> pattern r = p \<and> handler r = h"
  by (auto simp: route_new_def registered_def split: sum.splits)

lemma compile_problems_stay: "snd st \<noteq> [] \<Longrightarrow> snd (compile_methods i e st ms) \<noteq> []"
  by (induction i e st ms rule: compile_methods.induct) (auto split: option.splits sum.splits prod.splits)

lemma compile_entries_problems:
  "snd st \<noteq> [] \<Longrightarrow> snd (fst (compile_entries d i st auth pol es)) \<noteq> []"
  by (induction d i st auth pol es rule: compile_entries.induct) (auto simp: Let_def compile_problems_stay)

text \<open>What an entry and a route have to do with each other.\<close>

definition declares :: "RouteEntry \<Rightarrow> Route \<Rightarrow> bool" where
  "declares e r \<longleftrightarrow> pattern r = se_path e \<and> handler r = se_handler e \<and> Some (route_method r) \<in> method_from_str ` set (se_methods e)"

definition covered :: "Route list \<Rightarrow> RouteEntry \<Rightarrow> bool" where
  "covered rs e \<longleftrightarrow> (\<forall>m. Some m \<in> method_from_str ` set (se_methods e) \<longrightarrow> (\<exists>r \<in> set rs. declares e r \<and> route_method r = m))"

lemma covered_mono: "covered rs e \<Longrightarrow> set rs \<subseteq> set rs' \<Longrightarrow> covered rs' e"
  unfolding covered_def by blast

lemma compile_methods_ok:
  assumes "compile_methods i e (t, []) ms = (t', [])"
  shows "\<exists>rs. build_from t rs = Inr t' \<and> list_all registered rs \<and> map (\<lambda>r. Some (route_method r)) rs = map method_from_str ms \<and>
    list_all (\<lambda>r. pattern r = se_path e \<and> handler r = se_handler e) rs"
  using assms
proof (induction ms arbitrary: t)
  case (Cons raw ms)
  obtain m r t2 where step: "method_from_str raw = Some m" "route_new m (se_path e) (se_handler e) = Inr r"
      "table_insert t r = (t2, None)" "compile_methods i e (t2, []) ms = (t', [])"
    using Cons.prems compile_problems_stay [of "(_, [_])" i e ms]
    by (auto split: option.splits sum.splits prod.splits) (metis list.distinct(1) snd_conv)+
  obtain rs where "build_from t2 rs = Inr t'" "list_all registered rs" "map (\<lambda>r. Some (route_method r)) rs = map method_from_str ms"
      "list_all (\<lambda>r. pattern r = se_path e \<and> handler r = se_handler e) rs"
    using Cons.IH [OF step(4)] by blast
  then show ?case using step route_new_registered [OF step(2)] by (intro exI [of _ "r # rs"]) simp
qed (auto intro: exI [of _ "[]"])

lemma compile_entries_ok:
  assumes "compile_entries d i (t, []) auth pol es = ((t', []), auth', pol')" "policy_ok L pol"
  shows "(\<exists>rs. build_from t rs = Inr t' \<and> list_all registered rs \<and> (\<forall>r \<in> set rs. \<exists>e \<in> set es. declares e r) \<and>
      (\<forall>e \<in> set es. covered rs e)) \<and>
    policy_ok (L @ map (\<lambda>e. ((se_path e, se_handler e), route_auth (effective_auth e d))) es) pol' \<and>
    auth' = auth @ map (\<lambda>e. effective_auth e d) es"
  using assms
proof (induction es arbitrary: i t auth pol L)
  case Nil
  then show ?case by (auto intro: exI [of _ "[]"])
next
  case (Cons e es)
  obtain t2 ps where st: "compile_methods i e (t, []) (se_methods e) = (t2, ps)" by fastforce
  have "ps = []"
    using Cons.prems(1) compile_entries_problems [of "(t2, ps)"] by (auto simp: st Let_def) (metis fst_conv snd_conv)
  note st = st [unfolded this]
  obtain rs where rs: "build_from t rs = Inr t2" "list_all registered rs"
      "map (\<lambda>r. Some (route_method r)) rs = map method_from_str (se_methods e)"
      "list_all (\<lambda>r. pattern r = se_path e \<and> handler r = se_handler e) rs"
    using compile_methods_ok [OF st] by blast
  have ms: "Some ` route_method ` set rs = method_from_str ` set (se_methods e)"
    using arg_cong [OF rs(3), of set] by (simp add: image_comp)
  have dec: "\<forall>r \<in> set rs. declares e r" using rs(4) ms by (auto simp: declares_def list_all_iff)
  have rest: "compile_entries d (i + 1) (t2, []) (auth @ [effective_auth e d])
      (policy_insert pol (se_path e) (se_handler e) (route_auth (effective_auth e d))) es = ((t', []), auth', pol')"
    using Cons.prems(1) by (simp add: st Let_def)
  note IH = Cons.IH [OF rest policy_ok_insert [OF Cons.prems(2)]]
  then obtain rs' where rs': "build_from t2 rs' = Inr t'" "list_all registered rs'" "\<forall>r \<in> set rs'. \<exists>e \<in> set es. declares e r"
      "\<forall>e \<in> set es. covered rs' e"
    by blast
  have "Some m \<in> method_from_str ` set (se_methods e) \<Longrightarrow> \<exists>r \<in> set rs. declares e r \<and> route_method r = m" for m
    using dec unfolding ms [symmetric] by auto
  then have "covered rs e" by (simp add: covered_def)
  then have cov: "\<forall>e \<in> set (e # es). covered (rs @ rs') e"
    using rs'(4) covered_mono [of rs _ "rs @ rs'"] covered_mono [of rs' _ "rs @ rs'"] by simp
  have ex: "\<forall>r \<in> set (rs @ rs'). \<exists>e \<in> set (e # es). declares e r" using dec rs'(3) by auto
  have reg: "list_all registered (rs @ rs')" using rs(2) rs'(2) by simp
  have "build_from t (rs @ rs') = Inr t'" using rs(1) rs'(1) by (simp add: build_append)
  with ex reg cov have "\<exists>rs. build_from t rs = Inr t' \<and> list_all registered rs \<and>
      (\<forall>r \<in> set rs. \<exists>e \<in> set (e # es). declares e r) \<and> (\<forall>e \<in> set (e # es). covered rs e)" by blast
  then show ?case using IH by simp
qed

lemma tables_ok:
  assumes "routes_from_manifest s = Inr st"
  shows "\<exists>rs. build rs = Inr (route_table st) \<and> list_all registered rs \<and> (\<forall>r \<in> set rs. \<exists>e \<in> set (server_routes s). declares e r) \<and>
      (\<forall>e \<in> set (server_routes s). covered rs e)"
    "policy_ok (map (\<lambda>e. ((se_path e, se_handler e), route_auth (effective_auth e (default_auth s)))) (server_routes s))
      (auth_policy st)"
    "auth_modes st = map (\<lambda>e. effective_auth e (default_auth s)) (server_routes s)"
    "kinds_from_routes (server_routes s) = Inr (kinds st)"
proof -
  have c: "compile_entries (default_auth s) 0 (table_new, []) [] policy_new (server_routes s) =
      ((route_table st, []), auth_modes st, auth_policy st)" and k: "kinds_from_routes (server_routes s) = Inr (kinds st)"
    using assms by (auto simp: routes_from_manifest_def split: prod.splits if_splits sum.splits)
  note ok = compile_entries_ok [OF c policy_ok_new]
  show "\<exists>rs. build rs = Inr (route_table st) \<and> list_all registered rs \<and> (\<forall>r \<in> set rs. \<exists>e \<in> set (server_routes s). declares e r) \<and>
      (\<forall>e \<in> set (server_routes s). covered rs e)"
    using ok unfolding build_def by blast
  show "policy_ok (map (\<lambda>e. ((se_path e, se_handler e), route_auth (effective_auth e (default_auth s)))) (server_routes s))
      (auth_policy st)" "auth_modes st = map (\<lambda>e. effective_auth e (default_auth s)) (server_routes s)"
    using ok by simp_all
  show "kinds_from_routes (server_routes s) = Inr (kinds st)" by (rule k)
qed

text \<open>The entries of the manifest a match may come from: the same pattern and handler.\<close>

definition answers :: "Match \<Rightarrow> RouteEntry \<Rightarrow> bool" where
  "answers a e \<longleftrightarrow> se_path e = match_pattern a \<and> se_handler e = match_handler a"

lemma routed_route: "routed rs m ss a \<Longrightarrow> \<exists>r \<in> set rs. pattern r = match_pattern a \<and> handler r = match_handler a"
  by (auto simp: routed_def serves_def matches_def answer_def)

lemma route_auth_public: "route_auth d = Public \<longleftrightarrow> d = AuthNone"
  by (cases d) simp_all

lemma route_auth_refused: "d \<noteq> AuthNone \<Longrightarrow> route_auth d = Refused (auth_mode_as_str d)"
  by (cases d) simp_all

text \<open>C2. What the manifest declares is what the server enforces. Whenever the tables compile and a request is matched, the
  match comes from a declared entry, so the policy never meets a route it does not know; the request is served exactly
  when every entry with that pattern and handler says, itself or by the section's default, that no authentication is
  asked; it is then one of the routes reported as unauthenticated; and when those entries agree on any other mode the
  refusal names that mode.\<close>

theorem served_as_declared:
  assumes "routes_from_manifest s = Inr st" "match_route (route_table st) m p = Some a"
  shows "(\<exists>e \<in> set (server_routes s). answers a e) \<and>
    (decide_auth (auth_policy st) a = Allow \<longleftrightarrow>
       (\<forall>e \<in> set (server_routes s). answers a e \<longrightarrow> e \<in> set (unauthenticated_routes s))) \<and>
    (\<forall>d. d \<noteq> AuthNone \<and> (\<forall>e \<in> set (server_routes s). answers a e \<longrightarrow> effective_auth e (default_auth s) = d) \<longrightarrow>
       decide_auth (auth_policy st) a = Refuse (auth_mode_as_str d))"
proof -
  let ?d = "default_auth s" and ?k = "(match_pattern a, match_handler a)"
  let ?L = "map (\<lambda>e. ((se_path e, se_handler e), route_auth (effective_auth e ?d))) (server_routes s)"
  obtain rs where rs: "build rs = Inr (route_table st)" "list_all registered rs"
      "\<forall>r \<in> set rs. \<exists>e \<in> set (server_routes s). declares e r" using tables_ok(1) [OF assms(1)] by blast
  have "routed rs m (path_segments (strip_query p)) a" using match_route_spec(1) [OF rs(1,2)] assms(2) by blast
  then have ex: "\<exists>e \<in> set (server_routes s). answers a e"
    using routed_route rs(3) unfolding declares_def answers_def by metis
  note pol = tables_ok(2) [OF assms(1)]
  have mem: "(?k, x) \<in> set ?L \<longleftrightarrow> (\<exists>e \<in> set (server_routes s). answers a e \<and> x = route_auth (effective_auth e ?d))" for x
    by (simp add: answers_def image_iff) metis
  have "decide_auth (auth_policy st) a = Allow \<longleftrightarrow>
      (\<forall>e \<in> set (server_routes s). answers a e \<longrightarrow> e \<in> set (unauthenticated_routes s))"
    unfolding decide_allow [OF pol] mem using ex
    by (auto simp: route_auth_public unauthenticated_routes_def)
  moreover have "decide_auth (auth_policy st) a = Refuse (auth_mode_as_str d)"
    if d: "d \<noteq> AuthNone" "\<forall>e \<in> set (server_routes s). answers a e \<longrightarrow> effective_auth e ?d = d" for d
  proof (rule decide_refuse [OF pol])
    show "(?k, Refused (auth_mode_as_str d)) \<in> set ?L" unfolding mem using ex d route_auth_refused by metis
    show "x = Refused (auth_mode_as_str d)" if "(?k, x) \<in> set ?L" for x
      using that d route_auth_refused unfolding mem by metis
  qed
  ultimately show ?thesis using ex by blast
qed

definition sample_server :: Server where
  "sample_server = \<lparr>server_routes =
     [\<lparr>se_path = ascii ''/health'', se_methods = [ascii ''get''], se_handler = ascii ''health'', se_auth = Some AuthNone, se_kind = KindHttp\<rparr>,
      \<lparr>se_path = ascii ''/orders'', se_methods = [ascii ''GET''], se_handler = ascii ''list'', se_auth = None, se_kind = KindHttp\<rparr>],
     default_auth = Deny\<rparr>"

definition orders_answer :: Match where
  "orders_answer = \<lparr>match_handler = ascii ''list'', match_pattern = ascii ''/orders'', params = []\<rparr>"

theorem served_as_declared_witness:
  "\<exists>st. routes_from_manifest sample_server = Inr st \<and> match_route (route_table st) Get (ascii ''/orders'') = Some orders_answer \<and>
     decide_auth (auth_policy st) orders_answer = Refuse (ascii ''deny'')"
proof -
  obtain st where st: "routes_from_manifest sample_server = Inr st"
    "match_route (route_table st) Get (ascii ''/orders'') = Some orders_answer"
    by (simp add: routes_from_manifest_def sample_server_def method_from_str_def upper_def ascii_def route_new_def
        parse_pattern_def starts_with_def MAX_PARAMS_def MAX_ROUTES_def table_insert_def table_new_def node_default_def
        or_default_def kinds_from_routes_def kind_step_def match_route_def path_segments_def strip_query_def bind_def
        captures_def List.map_filter_def orders_answer_def Let_def effective_auth_def)
  then show ?thesis
    using served_as_declared [OF st] by (auto simp: sample_server_def answers_def orders_answer_def effective_auth_def ascii_def)
qed

section \<open>One handler name, one kind of route\<close>

definition consistent :: "RouteEntry list \<Rightarrow> bool" where
  "consistent es \<longleftrightarrow>
     (\<forall>e \<in> set es. se_kind e \<noteq> KindHttp \<longrightarrow> 58 \<notin> set (se_path e) \<and> 42 \<notin> set (se_path e)) \<and>
     (\<forall>e \<in> set es. \<forall>e' \<in> set es. se_kind e \<noteq> KindHttp \<and> se_handler e' = se_handler e \<longrightarrow>
        se_kind e' = se_kind e \<and> se_path e' = se_path e)"

definition stateful :: "RouteEntry list \<Rightarrow> (bstr \<times> RouteKind \<times> bstr) set" where
  "stateful es = (\<lambda>e. (se_handler e, se_kind e, se_path e)) ` {e \<in> set es. se_kind e \<noteq> KindHttp}"

definition kind_inv :: "RouteEntry list \<Rightarrow> kinds_state \<Rightarrow> bool" where
  "kind_inv D st = (case st of (ks, http, ps) \<Rightarrow>
     ps = [] \<and> Map.graph (map_of ks) = stateful D \<and> http = se_handler ` {e \<in> set D. se_kind e = KindHttp} \<and>
     (\<forall>e \<in> set D. se_kind e \<noteq> KindHttp \<longrightarrow> 58 \<notin> set (se_path e) \<and> 42 \<notin> set (se_path e)))"

lemma kind_problems_stay: "snd (snd st) \<noteq> [] \<Longrightarrow> snd (snd (kind_loop i st es)) \<noteq> []"
proof (induction i st es rule: kind_loop.induct)
  case (2 i st e es)
  have "snd (snd (kind_step i e st)) \<noteq> []"
    using 2(2) by (auto simp: kind_step_def split: prod.splits option.splits)
  then show ?case using 2(1) by simp
qed simp

lemma in_stateful: "(h, k, p) \<in> stateful D \<longleftrightarrow> (\<exists>e \<in> set D. se_kind e \<noteq> KindHttp \<and> h = se_handler e \<and> k = se_kind e \<and> p = se_path e)"
  by (auto simp: stateful_def)

lemma stateful_snoc:
  "stateful (D @ [e]) = (if se_kind e = KindHttp then stateful D else insert (se_handler e, se_kind e, se_path e) (stateful D))"
  by (auto simp: stateful_def)

lemma graph_upd_new: "m k = None \<Longrightarrow> Map.graph (m(k \<mapsto> v)) = insert (k, v) (Map.graph m)"
  by (auto simp: Map.graph_def split: if_splits)

lemma in_graph: "(k, v) \<in> Map.graph m \<longleftrightarrow> m k = Some v"
  by (simp add: Map.graph_def)

lemma kind_step_inv:
  assumes "kind_inv D st" "snd (snd (kind_step i e st)) = []"
  shows "kind_inv (D @ [e]) (kind_step i e st)"
proof -
  obtain ks http where st: "st = (ks, http, [])" using assms(1) by (cases st) (auto simp: kind_inv_def)
  have inv: "Map.graph (map_of ks) = stateful D" "http = se_handler ` {e \<in> set D. se_kind e = KindHttp}"
      "\<forall>e \<in> set D. se_kind e \<noteq> KindHttp \<longrightarrow> 58 \<notin> set (se_path e) \<and> 42 \<notin> set (se_path e)"
    using assms(1) by (simp_all add: kind_inv_def st)
  show ?thesis
  proof (cases "se_kind e = KindHttp")
    case True
    then show ?thesis using inv by (auto simp: kind_step_def st kind_inv_def stateful_snoc)
  next
    case False
    then have lit: "58 \<notin> set (se_path e)" "42 \<notin> set (se_path e)" "se_handler e \<notin> http"
      using assms(2) by (auto simp: kind_step_def st split: if_splits)
    show ?thesis
    proof (cases "map_of ks (se_handler e)")
      case None
      then have "Map.graph (map_of (btree_insert (se_handler e) (se_kind e, se_path e) ks)) = stateful (D @ [e])"
        using False inv(1) by (simp add: stateful_snoc graph_upd_new del: graph_map_upd)
      then show ?thesis using None False lit inv by (auto simp: kind_step_def st kind_inv_def)
    next
      case (Some kp)
      then have "kp = (se_kind e, se_path e)"
        using assms(2) False lit by (auto simp: kind_step_def st split: prod.splits if_splits)
      then have "(se_handler e, se_kind e, se_path e) \<in> stateful D" using Some inv(1) in_graph by metis
      then show ?thesis using Some False lit inv \<open>kp = _\<close> by (auto simp: kind_step_def st kind_inv_def stateful_snoc)
    qed
  qed
qed

lemma consistentD:
  assumes "consistent es" "e \<in> set es" "se_kind e \<noteq> KindHttp"
  shows "58 \<notin> set (se_path e)" "42 \<notin> set (se_path e)"
    "e' \<in> set es \<Longrightarrow> se_handler e' = se_handler e \<Longrightarrow> se_kind e' = se_kind e \<and> se_path e' = se_path e"
  using assms unfolding consistent_def by metis+

lemma kind_step_consistent:
  assumes "kind_inv D st" "consistent es" "set D \<subseteq> set es" "e \<in> set es"
  shows "snd (snd (kind_step i e st)) = []"
proof -
  obtain ks http where st: "st = (ks, http, [])" using assms(1) by (cases st) (auto simp: kind_inv_def)
  have inv: "Map.graph (map_of ks) = stateful D" "http = se_handler ` {e \<in> set D. se_kind e = KindHttp}"
    using assms(1) by (simp_all add: kind_inv_def st)
  have "se_handler e \<notin> http" if "se_kind e \<noteq> KindHttp"
  proof
    assume "se_handler e \<in> http"
    then obtain e' where "e' \<in> set es" "se_kind e' = KindHttp" "se_handler e' = se_handler e"
      using assms(3) by (auto simp: inv(2))
    then show False using consistentD(3) [OF assms(2,4) that, of e'] that by simp
  qed
  moreover have "k = se_kind e \<and> p = se_path e" if "se_kind e \<noteq> KindHttp" "map_of ks (se_handler e) = Some (k, p)" for k p
  proof -
    have "(se_handler e, k, p) \<in> stateful D" using that(2) inv(1) in_graph by metis
    then obtain e0 where "e0 \<in> set es" "se_handler e0 = se_handler e" "k = se_kind e0" "p = se_path e0"
      using assms(3) unfolding in_stateful by (metis subsetD)
    then show ?thesis using consistentD(3) [OF assms(2,4) that(1), of e0] by simp
  qed
  ultimately show ?thesis using consistentD(1,2) [OF assms(2,4)] by (auto simp: kind_step_def st split: option.splits)
qed

lemma kind_loop_inv: "kind_inv D st \<Longrightarrow> snd (snd (kind_loop i st es)) = [] \<Longrightarrow> kind_inv (D @ es) (kind_loop i st es)"
proof (induction es arbitrary: i st D)
  case (Cons e es)
  have "snd (snd (kind_step i e st)) = []" using Cons.prems(2) kind_problems_stay [of "kind_step i e st"] by fastforce
  then have "kind_inv (D @ [e]) (kind_step i e st)" using kind_step_inv Cons.prems(1) by blast
  then show ?case using Cons.IH [of "D @ [e]"] Cons.prems(2) by simp
qed simp

lemma kind_loop_consistent:
  "kind_inv D st \<Longrightarrow> consistent all \<Longrightarrow> set D \<union> set es \<subseteq> set all \<Longrightarrow> snd (snd (kind_loop i st es)) = []"
proof (induction es arbitrary: i st D)
  case Nil
  then show ?case by (auto simp: kind_inv_def)
next
  case (Cons e es)
  have "snd (snd (kind_step i e st)) = []" using kind_step_consistent [OF Cons.prems(1,2)] Cons.prems(3) by simp
  then have "kind_inv (D @ [e]) (kind_step i e st)" using kind_step_inv Cons.prems(1) by blast
  then show ?case using Cons.IH [of "D @ [e]"] Cons.prems(2,3) by simp
qed

lemma shared_loop_Nil: "shared_loop i ks es = [] \<longleftrightarrow> (\<forall>e \<in> set es. se_kind e = KindHttp \<longrightarrow> map_of ks (se_handler e) = None)"
  by (induction es arbitrary: i) (auto simp del: not_None_eq)

lemma stateful_functional:
  "Map.graph m = stateful es \<Longrightarrow> e \<in> set es \<Longrightarrow> e' \<in> set es \<Longrightarrow> se_kind e \<noteq> KindHttp \<Longrightarrow> se_kind e' \<noteq> KindHttp \<Longrightarrow>
    se_handler e' = se_handler e \<Longrightarrow> se_kind e' = se_kind e \<and> se_path e' = se_path e"
proof -
  assume a: "Map.graph m = stateful es" "e \<in> set es" "e' \<in> set es" "se_kind e \<noteq> KindHttp" "se_kind e' \<noteq> KindHttp"
    "se_handler e' = se_handler e"
  have "m (se_handler e) = Some (se_kind e, se_path e)" "m (se_handler e) = Some (se_kind e', se_path e')"
    using a in_stateful [of "se_handler e" _ _ es] unfolding in_graph [symmetric] a(1) by metis+
  then show ?thesis by simp
qed

text \<open>One handler name answers one kind of route. The kinds compile exactly when no WebSocket or event-stream route has a
  capturing path and no handler name of such a route appears with another kind or another path, so never on an HTTP
  route; the compiled map then sends each such handler to its kind and path, and knows no other name.\<close>

theorem kinds_exact:
  "case kinds_from_routes es of
     Inr ks \<Rightarrow> consistent es \<and> Map.graph (map_of ks) = stateful es
   | Inl ps \<Rightarrow> \<not> consistent es"
proof -
  obtain ks http ps where loop: "kind_loop 0 ([], {}, []) es = (ks, http, ps)" by (cases "kind_loop 0 ([], {}, []) es") auto
  have start: "kind_inv [] ([], {}, [])" by (simp add: kind_inv_def stateful_def)
  have inv: "Map.graph (map_of ks) = stateful es \<and>
      (\<forall>e \<in> set es. se_kind e \<noteq> KindHttp \<longrightarrow> 58 \<notin> set (se_path e) \<and> 42 \<notin> set (se_path e))" if "ps = []"
    using kind_loop_inv [OF start, of 0 es] that by (simp add: loop kind_inv_def)
  have http: "se_kind e = KindHttp \<Longrightarrow> map_of ks (se_handler e) = None" if c: "consistent es" "ps = []" "e \<in> set es" for e
  proof (rule ccontr)
    assume a: "se_kind e = KindHttp" "map_of ks (se_handler e) \<noteq> None"
    then obtain k p where "(se_handler e, k, p) \<in> stateful es" using inv [OF c(2)] by (metis in_graph not_Some_eq surj_pair)
    then show False using a(1) consistentD(3) [OF c(1)] c(3) unfolding in_stateful by metis
  qed
  have "ps = []" if "consistent es" using kind_loop_consistent [OF start that, of es 0] by (simp add: loop)
  with http have good: "ps = [] \<and> shared_loop 0 ks es = []" if "consistent es" using that unfolding shared_loop_Nil by blast
  have conv: "consistent es" if a: "ps = []" "shared_loop 0 ks es = []"
  proof -
    note inv' = inv [OF a(1)] and sh = a(2) [unfolded shared_loop_Nil]
    have "se_kind e' = se_kind e \<and> se_path e' = se_path e"
      if e: "e \<in> set es" "e' \<in> set es" "se_kind e \<noteq> KindHttp" "se_handler e' = se_handler e" for e e'
    proof -
      have "(se_handler e, se_kind e, se_path e) \<in> Map.graph (map_of ks)" using e inv' in_stateful by metis
      then have "se_kind e' \<noteq> KindHttp" using sh e by (auto simp: in_graph)
      then show ?thesis using stateful_functional [of "map_of ks" es e e'] inv' e by blast
    qed
    then show ?thesis using inv' unfolding consistent_def by blast
  qed
  show ?thesis using good conv inv by (auto simp: kinds_from_routes_def loop Let_def)
qed

section \<open>What validation rules out\<close>

definition canonical :: "RouteEntry \<Rightarrow> bstr set" where
  "canonical e = map upper ` set (se_methods e)"

lemma canonical_methods_ok: "canonical_methods i ms = Inr cs \<Longrightarrow> cs = map (map upper) ms"
proof (induction ms arbitrary: cs)
  case (Cons raw ms)
  then show ?case by (auto simp: find_Some_iff split: option.splits sum.splits)
qed simp

lemma declared_clash_None:
  "declared_clash ds p ms = None \<Longrightarrow> (q, earlier) \<in> set ds \<Longrightarrow> paths_overlap q p \<Longrightarrow> set earlier \<inter> set ms = {}"
  by (induction ds p ms rule: declared_clash.induct) (auto simp: find_None_iff split: if_splits option.splits)

lemma validate_route_ok:
  assumes "validate_route i e seen = Inr ms"
  shows "set ms = canonical e" "(q, earlier) \<in> set seen \<Longrightarrow> paths_overlap q (se_path e) \<Longrightarrow> set earlier \<inter> canonical e = {}"
proof -
  have "canonical_methods i (se_methods e) = Inr ms" "declared_clash seen (se_path e) ms = None"
    using assms by (auto simp: validate_route_def split: if_splits sum.splits option.splits)
  moreover from this(1) show "set ms = canonical e" using canonical_methods_ok by (fastforce simp: canonical_def)
  ultimately show "(q, earlier) \<in> set seen \<Longrightarrow> paths_overlap q (se_path e) \<Longrightarrow> set earlier \<inter> canonical e = {}"
    using declared_clash_None by metis
qed

lemma validate_routes_seen:
  "validate_routes i seen es = Inr () \<Longrightarrow> (q, earlier) \<in> set seen \<Longrightarrow> e \<in> set es \<Longrightarrow> paths_overlap q (se_path e) \<Longrightarrow>
    set earlier \<inter> canonical e = {}"
proof (induction es arbitrary: i seen)
  case (Cons e0 es)
  obtain ms where ms: "validate_route i e0 seen = Inr ms" "validate_routes (i + 1) (seen @ [(se_path e0, ms)]) es = Inr ()"
    using Cons.prems(1) by (auto split: sum.splits)
  show ?case
  proof (cases "e = e0")
    case True
    then show ?thesis using validate_route_ok(2) [OF ms(1)] Cons.prems by blast
  next
    case False
    then show ?thesis using Cons.IH [OF ms(2)] Cons.prems by auto
  qed
qed simp

lemma validate_routes_pair:
  assumes "validate_routes i seen (xs @ e # ys) = Inr ()" "e' \<in> set ys" "paths_overlap (se_path e) (se_path e')"
  shows "canonical e \<inter> canonical e' = {}"
  using assms(1)
proof (induction xs arbitrary: i seen)
  case Nil
  then obtain ms where ms: "validate_route i e seen = Inr ms" "validate_routes (i + 1) (seen @ [(se_path e, ms)]) ys = Inr ()"
    by (auto split: sum.splits)
  then show ?case using validate_routes_seen [OF ms(2), of "se_path e" ms e'] validate_route_ok(1) [OF ms(1)] assms(2,3) by simp
next
  case (Cons x xs)
  then show ?case by (auto split: sum.splits)
qed

lemma render_normalized: "valid_segments ss \<Longrightarrow> normalized (render_pattern ss) = render_pattern ss"
proof (cases ss rule: rev_cases)
  case (snoc ps s)
  assume "valid_segments ss"
  then have "seg_valid s" "47 \<notin> set (seg_text s)" by (simp_all add: valid_segments_def snoc)
  then have "seg_text s \<noteq> []" "last (seg_text s) \<noteq> 47" by (cases s; auto dest: last_in_set)+
  then show ?thesis by (simp add: normalized_def render_pattern_def snoc)
qed (simp add: normalized_def render_pattern_def)

lemma render_split_all:
  assumes "valid_segments ss" "ss \<noteq> []"
  shows "split_byte 47 (render_pattern ss) = [] # map seg_text ss"
proof -
  have "split_byte 47 (render_pattern ss) = [] # tl (split_byte 47 (render_pattern ss))"
    using assms(2) by (cases ss) (simp_all add: render_pattern_def)
  then show ?thesis using render_split [of ss] assms by (simp add: valid_segments_def)
qed

lemma same_path_overlaps:
  "seg_match ss p \<noteq> None \<Longrightarrow> seg_match ss' p \<noteq> None \<Longrightarrow> \<not> list_ex is_wildcard ss \<Longrightarrow> \<not> list_ex is_wildcard ss' \<Longrightarrow>
    overlap_segments (map seg_text ss) (map seg_text ss')"
proof (induction p arbitrary: ss ss')
  case Nil
  then show ?case by (cases "(ss, [] :: bstr list)" rule: seg_match.cases; cases "(ss', [] :: bstr list)" rule: seg_match.cases) auto
next
  case (Cons x p)
  obtain s ps s' ps' where ss: "ss = s # ps" "ss' = s' # ps'" using Cons.prems(1,2) by (cases ss; cases ss') auto
  have sub: "seg_match ps p \<noteq> None" "seg_match ps' p \<noteq> None"
    using Cons.prems by (cases s; cases s'; auto simp: ss split: if_splits)+
  have "seg_text s = seg_text s' \<or> any_segment (seg_text s) \<or> any_segment (seg_text s')"
    using Cons.prems by (cases s; cases s') (auto simp: ss any_segment_def starts_with_def split: if_splits)
  then show ?case using Cons.IH [OF sub] Cons.prems(3,4) by (auto simp: ss)
qed

text \<open>C31. A validated section is unambiguous on literals and parameters. When validation accepts the routes, no request path can
  be matched by two entries that share a method, as long as neither pattern has a wildcard: the second entry is refused
  where it is declared.\<close>

theorem validated_unambiguous:
  assumes "validate_routes 0 [] (xs @ e # ys) = Inr ()" "e' \<in> set ys"
    "parse_pattern (se_path e) = Inr ss" "parse_pattern (se_path e') = Inr ss'"
    "\<not> list_ex is_wildcard ss" "\<not> list_ex is_wildcard ss'"
    "seg_match ss p \<noteq> None" "seg_match ss' p \<noteq> None"
  shows "canonical e \<inter> canonical e' = {}"
proof (rule validate_routes_pair [OF assms(1,2)])
  have v: "valid_segments ss" "se_path e = render_pattern ss" "valid_segments ss'" "se_path e' = render_pattern ss'"
    using parse_pattern_sound [OF assms(3)] parse_pattern_sound [OF assms(4)] by simp_all
  have o: "overlap_segments (map seg_text ss) (map seg_text ss')" using same_path_overlaps [OF assms(7,8,5,6)] .
  show "paths_overlap (se_path e) (se_path e')"
  proof (cases "ss = [] \<or> ss' = []")
    case True
    then have "ss = []" "ss' = []" using o by (cases ss; cases ss'; simp)+
    then show ?thesis by (simp add: paths_overlap_def v)
  next
    case False
    then show ?thesis using o render_split_all v by (simp add: paths_overlap_def render_normalized)
  qed
qed

definition get_entry :: "string \<Rightarrow> string \<Rightarrow> RouteEntry" where
  "get_entry p m = \<lparr>se_path = ascii p, se_methods = [ascii m], se_handler = ascii ''h'', se_auth = None, se_kind = KindHttp\<rparr>"

theorem validated_unambiguous_witness:
  "validate_routes 0 [] [get_entry ''/a/:x'' ''get'', get_entry ''/a/b'' ''put''] = Inr () \<and>
   canonical (get_entry ''/a/:x'' ''get'') \<inter> canonical (get_entry ''/a/b'' ''put'') = {}"
proof -
  have v: "validate_routes 0 [] ([] @ get_entry ''/a/:x'' ''get'' # [get_entry ''/a/b'' ''put'']) = Inr ()"
    by (simp add: get_entry_def validate_route_def starts_with_def METHODS_def upper_def ascii_def validate_stateful_methods_def
        paths_overlap_def normalized_def)
  have p: "parse_pattern (se_path (get_entry ''/a/:x'' ''get'')) = Inr [Literal (ascii ''a''), Param (ascii ''x'')]"
      "parse_pattern (se_path (get_entry ''/a/b'' ''put'')) = Inr [Literal (ascii ''a''), Literal (ascii ''b'')]"
    by (simp_all add: get_entry_def parse_pattern_def starts_with_def MAX_PARAMS_def ascii_def)
  from validated_unambiguous [OF v _ p, of "[ascii ''a'', ascii ''b'']"] v show ?thesis by (simp add: ascii_def)
qed

text \<open>Where validation and the router disagree: the router's wildcards are named, \<open>*name\<close>, and cover any rest of the path,
  while the validator only knows the bare \<open>*\<close>, which the router refuses. So two routes that are one to the router pass
  the validator, and the literal beside a parameter, which the router ranks, does not.\<close>

theorem wildcards_not_validated:
  "validate_routes 0 [] [get_entry ''/f/*a'' ''get'', get_entry ''/f/*b'' ''get''] = Inr () \<and>
   parse_pattern (ascii ''/f/*a'') = Inr [Literal (ascii ''f''), Wildcard (ascii ''a'')] \<and>
   parse_pattern (ascii ''/f/*b'') = Inr [Literal (ascii ''f''), Wildcard (ascii ''b'')] \<and>
   map key_of [Literal (ascii ''f''), Wildcard (ascii ''a'')] = map key_of [Literal (ascii ''f''), Wildcard (ascii ''b'')] \<and>
   parse_pattern (ascii ''/f/*'') = Inl (UnnamedCapture (ascii ''/f/*'') 2) \<and>
   paths_overlap (ascii ''/f/new'') (ascii ''/f/:id'')"
  by (simp add: get_entry_def validate_route_def starts_with_def METHODS_def upper_def ascii_def validate_stateful_methods_def
      paths_overlap_def normalized_def any_segment_def parse_pattern_def MAX_PARAMS_def)

end
