(* ===== verification/IpAddr.thy ===== *)
theory IpAddr
  imports QQQ_Prelude
begin

text \<open>
  \<open>std::net::IpAddr\<close> of the Rust standard library as the allow-lists use it: parsing and \<open>Display\<close> of IPv4 and IPv6
  addresses. An address is the list of its octets, or of its groups.
\<close>

datatype IpAddr = V4 "nat list" | V6 "nat list"

fun digit_val :: "nat \<Rightarrow> nat \<Rightarrow> nat option" where
  "digit_val radix c =
     (let v = (if 48 \<le> c \<and> c \<le> 57 then Some (c - 48)
               else if 97 \<le> c \<and> c \<le> 122 then Some (c - 87)
               else if 65 \<le> c \<and> c \<le> 90 then Some (c - 55) else None)
      in case v of Some d \<Rightarrow> if d < radix then Some d else None | None \<Rightarrow> None)"

definition is_radix_digit :: "nat \<Rightarrow> nat \<Rightarrow> bool" where
  "is_radix_digit radix c \<longleftrightarrow> digit_val radix c \<noteq> None"

definition radix_value :: "nat \<Rightarrow> ustr \<Rightarrow> nat" where
  "radix_value radix ds = foldl (\<lambda>a c. a * radix + the (digit_val radix c)) 0 ds"

text \<open>The reader of one number: all digits there are, at most \<open>mx\<close> of them, within \<open>bound\<close>.\<close>

definition read_number :: "nat \<Rightarrow> nat \<Rightarrow> bool \<Rightarrow> nat \<Rightarrow> ustr \<Rightarrow> (nat \<times> ustr) option" where
  "read_number radix mx zero_prefix bound s =
     (let ds = takeWhile (is_radix_digit radix) s in
      if ds = [] \<or> mx < length ds \<or> (\<not> zero_prefix \<and> hd ds = 48 \<and> 1 < length ds) \<or> bound \<le> radix_value radix ds then None
      else Some (radix_value radix ds, drop (length ds) s))"

definition read_octet :: "ustr \<Rightarrow> (nat \<times> ustr) option" where
  "read_octet s = read_number 10 3 False 256 s"

definition read_group :: "ustr \<Rightarrow> (nat \<times> ustr) option" where
  "read_group s = read_number 16 4 True 65536 s"

definition read_char :: "nat \<Rightarrow> ustr \<Rightarrow> ustr option" where
  "read_char c s = (case s of [] \<Rightarrow> None | x # r \<Rightarrow> if x = c then Some r else None)"

lemma read_char_iff: "read_char c s = Some r \<longleftrightarrow> s = c # r"
  by (auto simp: read_char_def split: list.splits)

text \<open>\<open>n + 1\<close> octets separated by dots.\<close>

fun read_octets :: "nat \<Rightarrow> ustr \<Rightarrow> (nat list \<times> ustr) option" where
  "read_octets 0 s = (case read_octet s of None \<Rightarrow> None | Some (o', r) \<Rightarrow> Some ([o'], r))"
| "read_octets (Suc n) s =
     (case read_octet s of
        None \<Rightarrow> None
      | Some (o', s1) \<Rightarrow>
          (case read_char 46 s1 of
             None \<Rightarrow> None
           | Some r \<Rightarrow> (case read_octets n r of None \<Rightarrow> None | Some (os, r') \<Rightarrow> Some (o' # os, r'))))"

definition read_ipv4 :: "ustr \<Rightarrow> (nat list \<times> ustr) option" where
  "read_ipv4 s = read_octets 3 s"

definition after_colon :: "nat \<Rightarrow> (ustr \<Rightarrow> 'a option) \<Rightarrow> ustr \<Rightarrow> 'a option" where
  "after_colon i p s = (if i = 0 then p s else case read_char 58 s of Some r \<Rightarrow> p r | None \<Rightarrow> None)"

text \<open>The groups of one side of \<open>::\<close>, with a trailing IPv4 address where two groups are left.\<close>

fun read_groups :: "nat \<Rightarrow> nat \<Rightarrow> ustr \<Rightarrow> nat list \<times> bool \<times> ustr" where
  "read_groups i 0 s = ([], False, s)"
| "read_groups i (Suc r) s =
     (case (if 0 < r then after_colon i read_ipv4 s else None) of
        Some (os, s') \<Rightarrow> ([os ! 0 * 256 + os ! 1, os ! 2 * 256 + os ! 3], True, s')
      | None \<Rightarrow>
          (case after_colon i read_group s of
             None \<Rightarrow> ([], False, s)
           | Some (g, s') \<Rightarrow> (case read_groups (i + 1) r s' of (gs, v4, s'') \<Rightarrow> (g # gs, v4, s''))))"

definition read_ipv6 :: "ustr \<Rightarrow> (nat list \<times> ustr) option" where
  "read_ipv6 s =
     (case read_groups 0 8 s of (front, v4, s1) \<Rightarrow>
      if length front = 8 then Some (front, s1)
      else if v4 then None
      else case Option.bind (read_char 58 s1) (read_char 58) of
        Some s2 \<Rightarrow>
          (case read_groups 0 (8 - (length front + 1)) s2 of (back_part, _, s3) \<Rightarrow>
             Some (front @ replicate (8 - length front - length back_part) 0 @ back_part, s3))
      | None \<Rightarrow> None)"

definition ipv4_parse :: "ustr \<Rightarrow> nat list option" where
  "ipv4_parse s = (if 15 < length s then None else case read_ipv4 s of Some (os, []) \<Rightarrow> Some os | _ \<Rightarrow> None)"

definition ipv6_parse :: "ustr \<Rightarrow> nat list option" where
  "ipv6_parse s = (case read_ipv6 s of Some (gs, []) \<Rightarrow> Some gs | _ \<Rightarrow> None)"

definition ip_parse :: "ustr \<Rightarrow> IpAddr option" where
  "ip_parse s =
     (case read_ipv4 s of
        Some (os, r) \<Rightarrow> if r = [] then Some (V4 os) else None
      | None \<Rightarrow> map_option V6 (ipv6_parse s))"

section \<open>Display\<close>

definition show_ipv4 :: "nat list \<Rightarrow> ustr" where
  "show_ipv4 os = join (lit ''.'') (map show_nat os)"

definition show_groups :: "nat list \<Rightarrow> ustr" where
  "show_groups gs = join (lit '':'') (map show_hex gs)"

text \<open>The first longest run of zero groups: its start and length.\<close>

fun zero_run :: "nat \<Rightarrow> nat \<times> nat \<Rightarrow> nat \<times> nat \<Rightarrow> nat list \<Rightarrow> nat \<times> nat" where
  "zero_run i current longest [] = longest"
| "zero_run i current longest (g # gs) =
     (if g = 0 then
        (let c = (if snd current = 0 then i else fst current, snd current + 1)
         in zero_run (i + 1) c (if snd longest < snd c then c else longest) gs)
      else zero_run (i + 1) (0, 0) longest gs)"

definition show_ipv6 :: "nat list \<Rightarrow> ustr" where
  "show_ipv6 gs =
     (if take 6 gs = [0, 0, 0, 0, 0, 65535] then
        lit ''::ffff:'' @ show_ipv4 [gs ! 6 div 256, gs ! 6 mod 256, gs ! 7 div 256, gs ! 7 mod 256]
      else case zero_run 0 (0, 0) (0, 0) gs of (start, len) \<Rightarrow>
        if 1 < len then show_groups (take start gs) @ lit ''::'' @ show_groups (drop (start + len) gs)
        else show_groups gs)"

fun show_ip :: "IpAddr \<Rightarrow> ustr" where
  "show_ip (V4 os) = show_ipv4 os"
| "show_ip (V6 gs) = show_ipv6 gs"

section \<open>Dotted quads\<close>

definition octet_ok :: "ustr \<Rightarrow> bool" where
  "octet_ok p \<longleftrightarrow> p \<noteq> [] \<and> length p \<le> 3 \<and> list_all is_ascii_digit p \<and> \<not> (1 < length p \<and> hd p = 48) \<and> digits_val p < 256"

lemma radix10: "is_radix_digit 10 c = is_ascii_digit c"
  by (auto simp: is_radix_digit_def is_ascii_digit_def Let_def split: option.splits if_splits)

lemma radix_value10: "list_all is_ascii_digit ds \<Longrightarrow> radix_value 10 ds = digits_val ds"
  by (induction ds rule: rev_induct) (auto simp: radix_value_def digits_val_def is_ascii_digit_def Let_def)

lemma read_octet_iff:
  "read_octet s = Some (v, r) \<longleftrightarrow>
     (\<exists>p. s = p @ r \<and> octet_ok p \<and> v = digits_val p \<and> (r = [] \<or> \<not> is_ascii_digit (hd r)))"
proof -
  let ?p = "takeWhile is_ascii_digit s"
  have tw: "takeWhile (is_radix_digit 10) s = ?p" by (simp add: radix10 [abs_def])
  have digits: "list_all is_ascii_digit ?p" by (simp add: list_all_iff) (metis set_takeWhileD)
  have split: "s = ?p @ drop (length ?p) s" by (metis append_take_drop_id takeWhile_eq_take)
  have rest: "drop (length ?p) s = [] \<or> \<not> is_ascii_digit (hd (drop (length ?p) s))"
    by (metis dropWhile_eq_drop hd_dropWhile)
  have uniq: "p = ?p \<and> r = drop (length ?p) s"
    if "s = p @ r" "list_all is_ascii_digit p" "r = [] \<or> \<not> is_ascii_digit (hd r)" for p
  proof -
    have "takeWhile is_ascii_digit r = []" using that(3) by (cases r) auto
    then have "?p = p" using that(1,2) by (simp add: list_all_iff takeWhile_append2)
    then show ?thesis using that(1) by simp
  qed
  have eq: "read_octet s = (if octet_ok ?p then Some (digits_val ?p, drop (length ?p) s) else None)"
    using digits by (auto simp: read_octet_def read_number_def Let_def tw radix_value10 octet_ok_def)
  show ?thesis
  proof
    assume "read_octet s = Some (v, r)"
    then have "octet_ok ?p" "v = digits_val ?p" "r = drop (length ?p) s" using eq by (auto split: if_splits)
    then show "\<exists>p. s = p @ r \<and> octet_ok p \<and> v = digits_val p \<and> (r = [] \<or> \<not> is_ascii_digit (hd r))"
      using split rest by blast
  next
    assume "\<exists>p. s = p @ r \<and> octet_ok p \<and> v = digits_val p \<and> (r = [] \<or> \<not> is_ascii_digit (hd r))"
    then obtain p where p: "s = p @ r" "octet_ok p" "v = digits_val p" "r = [] \<or> \<not> is_ascii_digit (hd r)" by blast
    then have "p = ?p" "r = drop (length ?p) s" using uniq [of p] by (simp_all add: octet_ok_def)
    then show "read_octet s = Some (v, r)" using eq p(2,3) by simp
  qed
qed

lemma octet_no_dot: "octet_ok p \<Longrightarrow> 46 \<notin> set p"
  by (auto simp: octet_ok_def list_all_iff is_ascii_digit_def)

lemma read_octets_iff:
  "(\<exists>os. read_octets n s = Some (os, [])) \<longleftrightarrow> length (split_on 46 s) = Suc n \<and> list_all octet_ok (split_on 46 s)"
proof (induction n arbitrary: s)
  case 0
  have "(\<exists>os. read_octets 0 s = Some (os, [])) \<longleftrightarrow> (\<exists>v. read_octet s = Some (v, []))" by (auto split: option.splits)
  also have "\<dots> \<longleftrightarrow> octet_ok s" by (auto simp: read_octet_iff)
  also have "\<dots> \<longleftrightarrow> length (split_on 46 s) = Suc 0 \<and> list_all octet_ok (split_on 46 s)"
  proof
    assume "octet_ok s"
    then show "length (split_on 46 s) = Suc 0 \<and> list_all octet_ok (split_on 46 s)" using octet_no_dot by (simp add: split_on_no_sep)
  next
    assume a: "length (split_on 46 s) = Suc 0 \<and> list_all octet_ok (split_on 46 s)"
    have "46 \<notin> set s"
    proof
      assume "46 \<in> set s"
      then obtain p r where "s = p @ 46 # r" "46 \<notin> set p" using split_list_first by metis
      then show False using a by (simp add: split_on_append)
    qed
    then show "octet_ok s" using a by (simp add: split_on_no_sep)
  qed
  finally show ?case .
next
  case (Suc n)
  have "read_octets (Suc n) s = Some (os, []) \<longleftrightarrow>
      (\<exists>v r os'. read_octet s = Some (v, 46 # r) \<and> read_octets n r = Some (os', []) \<and> os = v # os')" for os
    by (cases "read_octet s") (auto simp: read_char_def split: list.splits option.splits prod.splits)
  then have "(\<exists>os. read_octets (Suc n) s = Some (os, [])) \<longleftrightarrow>
      (\<exists>v r. read_octet s = Some (v, 46 # r) \<and> (\<exists>os. read_octets n r = Some (os, [])))"
    by auto
  also have "\<dots> \<longleftrightarrow> (\<exists>p r. s = p @ 46 # r \<and> octet_ok p \<and> length (split_on 46 r) = Suc n \<and> list_all octet_ok (split_on 46 r))"
    unfolding Suc.IH by (auto simp: read_octet_iff is_ascii_digit_def)
  also have "\<dots> \<longleftrightarrow> length (split_on 46 s) = Suc (Suc n) \<and> list_all octet_ok (split_on 46 s)"
  proof
    assume "\<exists>p r. s = p @ 46 # r \<and> octet_ok p \<and> length (split_on 46 r) = Suc n \<and> list_all octet_ok (split_on 46 r)"
    then show "length (split_on 46 s) = Suc (Suc n) \<and> list_all octet_ok (split_on 46 s)"
      using octet_no_dot by (auto simp: split_on_append)
  next
    assume a: "length (split_on 46 s) = Suc (Suc n) \<and> list_all octet_ok (split_on 46 s)"
    have "46 \<in> set s"
    proof (rule ccontr)
      assume "46 \<notin> set s"
      then show False using a by (simp add: split_on_no_sep)
    qed
    then obtain p r where "s = p @ 46 # r" "46 \<notin> set p" using split_list_first by metis
    then show "\<exists>p r. s = p @ 46 # r \<and> octet_ok p \<and> length (split_on 46 r) = Suc n \<and> list_all octet_ok (split_on 46 r)"
      using a by (auto simp: split_on_append)
  qed
  finally show ?case .
qed

lemma split_on_lengths: "sum_list (map length (split_on c s)) + length (split_on c s) = length s + 1"
proof (induction s rule: length_induct)
  case (1 s)
  show ?case
  proof (cases "c \<in> set s")
    case True
    then obtain p r where s: "s = p @ c # r" "c \<notin> set p" using split_list_first by metis
    then have "sum_list (map length (split_on c r)) + length (split_on c r) = length r + 1" using 1 by simp
    then show ?thesis using s by (simp add: split_on_append)
  qed (simp add: split_on_no_sep)
qed

text \<open>A dotted quad is four decimal octets without leading zeros.\<close>

lemma ipv4_parse_iff: "ipv4_parse s \<noteq> None \<longleftrightarrow> length (split_on 46 s) = 4 \<and> list_all octet_ok (split_on 46 s)"
proof -
  have "ipv4_parse s \<noteq> None \<longleftrightarrow> length s \<le> 15 \<and> (\<exists>os. read_octets 3 s = Some (os, []))"
    by (auto simp: ipv4_parse_def read_ipv4_def split: option.splits list.splits)
  also have "\<dots> \<longleftrightarrow> length s \<le> 15 \<and> length (split_on 46 s) = 4 \<and> list_all octet_ok (split_on 46 s)"
    using read_octets_iff [of 3 s] by simp
  also have "\<dots> \<longleftrightarrow> length (split_on 46 s) = 4 \<and> list_all octet_ok (split_on 46 s)"
  proof -
    have "length s \<le> 15" if "length (split_on 46 s) = 4" "list_all octet_ok (split_on 46 s)"
    proof -
      have "\<forall>p \<in> set (split_on 46 s). length p \<le> 3" using that(2) by (simp add: list_all_iff octet_ok_def)
      then have "sum_list (map length (split_on 46 s)) \<le> sum_list (map (\<lambda>_. 3) (split_on 46 s))" by (intro sum_list_mono) simp
      then show ?thesis using split_on_lengths [of 46 s] that(1) by (simp add: sum_list_triv)
    qed
    then show ?thesis by blast
  qed
  finally show ?thesis .
qed

end
