(* ===== verification/Normalize.thy ===== *)
theory Normalize
  imports Manifest Errors IpAddr "HOL-Library.List_Lexorder" "HOL-Library.Product_Lexorder" "HOL-Library.Option_ord" "HOL-Library.Sublist"
begin

text \<open>
  The normalisation of a manifest against a host (\<open>qqq-cap/src/normalize.rs\<close>): host patterns of the egress allow-list,
  secret references, and file-system grants with the containment test that guards them. The trait \<open>HostEnv\<close> is a record
  of functions.
\<close>

section \<open>Strings\<close>

fun contains_str :: "ustr \<Rightarrow> ustr \<Rightarrow> bool" where
  "contains_str p [] \<longleftrightarrow> p = []"
| "contains_str p (x # xs) \<longleftrightarrow> strip_prefix p (x # xs) \<noteq> None \<or> contains_str p xs"

fun cut_once :: "nat \<Rightarrow> ustr \<Rightarrow> (ustr \<times> ustr) option" where
  "cut_once c [] = None"
| "cut_once c (x # xs) = (if x = c then Some ([], xs) else map_option (\<lambda>(p, r). (x # p, r)) (cut_once c xs))"

definition rcut_once :: "nat \<Rightarrow> ustr \<Rightarrow> (ustr \<times> ustr) option" where
  "rcut_once c s = map_option (\<lambda>(p, r). (rev r, rev p)) (cut_once c (rev s))"

definition to_lower :: "ustr \<Rightarrow> ustr" where
  "to_lower s = map to_ascii_lowercase s"

definition is_ascii_alnum :: "nat \<Rightarrow> bool" where
  "is_ascii_alnum c \<longleftrightarrow> is_ascii_alphabetic c \<or> is_ascii_digit c"

definition ends_with :: "ustr \<Rightarrow> ustr \<Rightarrow> bool" where
  "ends_with suf s \<longleftrightarrow> strip_suffix suf s \<noteq> None"

section \<open>Host patterns\<close>

record HostPattern =
  hp_host :: ustr
  hp_literal :: bool
  hp_wildcard :: bool
  hp_port :: "u16 option"
  hp_original :: ustr

definition parse_port :: "ustr \<Rightarrow> ustr + u16" where
  "parse_port s =
     (if s = [] then Inl (msg ''port is empty'')
      else case parse_uint 16 s of
        None \<Rightarrow> Inl (ticks s @ msg '' is not a valid port (1-65535)'')
      | Some n \<Rightarrow>
          if n = 0 then Inl (msg ''port 0 never matches a destination; name the real port'') else Inr (of_nat n))"

definition split_wildcard :: "ustr \<Rightarrow> bool \<Rightarrow> IpAddr option \<Rightarrow> ustr + bool \<times> ustr" where
  "split_wildcard h is_ipv6 literal =
     (let wildcard = (\<not> is_ipv6 \<and> strip_prefix (lit ''*.'') h \<noteq> None) in
      case literal of
        Some addr \<Rightarrow>
          if wildcard then Inl (msg ''a wildcard over an IP literal is not permitted; name the address exactly or use a hostname pattern'')
          else Inr (False, show_ip addr)
      | None \<Rightarrow>
          if wildcard then
            (let rest = drop 2 h in
             if 42 \<in> set rest then
               Inl (msg ''`*` is permitted only as a leading `*.`; a mid-pattern wildcard cannot be resolved against the registry at parse time'')
             else if ipv4_parse rest \<noteq> None then
               Inl (msg ''a wildcard over an IPv4 address is not permitted; name the address exactly'')
             else Inr (True, rest))
          else if h = lit ''*'' then
            Inl (msg ''a bare `*` is not permitted; name the host or use `*.example.com`'')
          else Inr (False, h))"

text \<open>The split of the port from the host.\<close>

definition split_port :: "ustr \<Rightarrow> ustr + ustr \<times> u16 option" where
  "split_port t =
     (case strip_prefix (lit ''['') t of
        Some rest \<Rightarrow>
          (case cut_once 93 rest of
             None \<Rightarrow> Inl (msg ''unterminated IPv6 literal'')
           | Some (inner, after) \<Rightarrow>
               (case strip_prefix (lit '':'') after of
                  Some p \<Rightarrow> (case parse_port p of Inl e \<Rightarrow> Inl e | Inr n \<Rightarrow> Inr (inner, Some n))
                | None \<Rightarrow>
                    if after = [] then Inr (inner, None)
                    else Inl (msg ''unexpected characters after IPv6 literal'')))
      | None \<Rightarrow>
          (case rcut_once 58 t of
             Some (h, p) \<Rightarrow>
               if 58 \<in> set h then Inl (msg ''ambiguous pattern; bracket IPv6 literals as `[::1]:port`'')
               else (case parse_port p of Inl e \<Rightarrow> Inl e | Inr n \<Rightarrow> Inr (h, Some n))
           | None \<Rightarrow> Inr (t, None)))"

text \<open>The literal address a host is, if it looks like one.\<close>

definition literal_of :: "ustr \<Rightarrow> ustr + IpAddr option" where
  "literal_of h =
     (if 58 \<in> set h then
        (case ip_parse h of None \<Rightarrow> Inl (ticks h @ msg '' is not a valid IP literal'') | Some a \<Rightarrow> Inr (Some a))
      else if 46 \<in> set h \<and> list_all (\<lambda>c. is_ascii_digit c \<or> c = 46) h then
        (case ipv4_parse h of
           None \<Rightarrow> Inl (ticks h @ msg '' looks like an IPv4 literal but does not parse'')
         | Some os \<Rightarrow> Inr (Some (V4 os)))
      else if 46 \<notin> set h \<and> list_all is_ascii_digit h then
        Inl (ticks h @ msg '' is all digits and reads as a numeric IP address; write the dotted-quad form instead'')
      else if contains_str (lit ''0x'') h then
        Inl (ticks h @ msg '' looks like a hexadecimal IP literal, which this policy does not support; write the dotted-quad form instead'')
      else Inr None)"

definition host_char :: "nat \<Rightarrow> bool" where
  "host_char c \<longleftrightarrow> is_ascii_alnum c \<or> c = 46 \<or> c = 45 \<or> c = 95"

definition host_pattern_parse :: "ustr \<Rightarrow> ustr + HostPattern" where
  "host_pattern_parse s =
     (let t = trim s in
      if t = [] then Inl (msg ''empty pattern'')
      else if contains_str (lit ''://'') t then Inl (msg ''must be `host` or `host:port`, not a URL'')
      else if 47 \<in> set t then Inl (msg ''must not contain a path'')
      else if list_ex is_whitespace t then Inl (msg ''must not contain whitespace'')
      else case split_port t of
        Inl e \<Rightarrow> Inl e
      | Inr (host_part, p) \<Rightarrow>
          (let h = to_lower host_part in
           case literal_of h of
             Inl e \<Rightarrow> Inl e
           | Inr literal \<Rightarrow>
               (case split_wildcard h (58 \<in> set h) literal of
                  Inl e \<Rightarrow> Inl e
                | Inr (wildcard, bare) \<Rightarrow>
                    if bare = [] then Inl (msg ''host part is empty'')
                    else if literal = None \<and> \<not> list_all host_char bare then
                      Inl (msg ''host '' @ ticks bare @ msg '' contains invalid characters'')
                    else if literal = None \<and> (hd bare = 46 \<or> last bare = 46) then
                      Inl (msg ''host must not begin or end with a dot'')
                    else if literal = None \<and> contains_str (lit ''..'') bare then
                      Inl (msg ''host must not contain an empty label'')
                    else Inr \<lparr>hp_host = bare, hp_literal = (literal \<noteq> None), hp_wildcard = wildcard, hp_port = p,
                              hp_original = s\<rparr>)))"

text \<open>\<open>trim_start_matches\<close> on a string.\<close>

function trim_start :: "ustr \<Rightarrow> ustr \<Rightarrow> ustr" where
  "trim_start p s = (case strip_prefix p s of Some r \<Rightarrow> if p = [] then s else trim_start p r | None \<Rightarrow> s)"
  by pat_completeness auto
termination
  by (relation "measure (\<lambda>(_, s). length s)") (auto simp: strip_prefix_Some)

declare trim_start.simps [simp del]

definition strip_brackets :: "ustr \<Rightarrow> ustr" where
  "strip_brackets h =
     (case Option.bind (strip_prefix (lit ''['') h) (strip_suffix (lit '']'')) of Some b \<Rightarrow> b | None \<Rightarrow> h)"

definition pattern_matches :: "HostPattern \<Rightarrow> ustr \<Rightarrow> u16 \<Rightarrow> bool" where
  "pattern_matches pat h0 p =
     (if (case hp_port pat of Some required \<Rightarrow> required \<noteq> p | None \<Rightarrow> False) then False
      else let h = to_lower h0 in
        if hp_literal pat then
          (case ip_parse (strip_brackets h) of Some addr \<Rightarrow> show_ip addr = hp_host pat | None \<Rightarrow> False)
        else if hp_wildcard pat then
          (let bare = trim_start (lit ''*.'') (hp_host pat) in
           length bare + 1 < length h \<and> ends_with bare h \<and> h ! (length h - length bare - 1) = 46)
        else h = hp_host pat)"

section \<open>Secrets\<close>

record SecretRef =
  logical_name :: ustr
  env_var :: ustr

definition secret_ref_parse :: "ustr \<Rightarrow> ustr + SecretRef" where
  "secret_ref_parse s =
     (case cut_once 58 (trim s) of
        None \<Rightarrow> Inl (msg ''expected `env:NAME`'')
      | Some (scheme, nm) \<Rightarrow>
          if nm = [] then Inl (msg ''secret name is empty'')
          else if scheme = lit ''env'' then
            (if \<not> list_all (\<lambda>c. is_ascii_alnum c \<or> c = 95) nm then
               Inl (msg ''environment variable '' @ ticks nm @ msg '' must contain only A-Z, 0-9 and _'')
             else Inr \<lparr>logical_name = nm, env_var = nm\<rparr>)
          else Inl (msg ''unknown secret scheme '' @ ticks scheme @ msg ''; only `env:` is supported''))"

definition secret_ref_display :: "SecretRef \<Rightarrow> ustr" where
  "secret_ref_display r = lit ''env:'' @ env_var r"

section \<open>Paths\<close>

definition slashes :: "ustr \<Rightarrow> ustr" where
  "slashes p = map (\<lambda>c. if c = 92 then 47 else c) p"

definition drive_root :: "ustr \<Rightarrow> bool" where
  "drive_root p \<longleftrightarrow> 3 \<le> length p \<and> is_ascii_alphabetic (p ! 0) \<and> p ! 1 = 58 \<and> p ! 2 = 47"

definition is_absolute_host_path :: "ustr \<Rightarrow> bool" where
  "is_absolute_host_path p \<longleftrightarrow> strip_prefix (lit ''/'') (slashes p) \<noteq> None \<or> drive_root (slashes p)"

fun collapse_dotdot :: "nat \<Rightarrow> ustr list \<Rightarrow> ustr list \<Rightarrow> ustr list" where
  "collapse_dotdot floor acc [] = acc"
| "collapse_dotdot floor acc (s # ss) =
     (if s = lit ''..'' then collapse_dotdot floor (if floor < length acc then butlast acc else acc) ss
      else if \<not> (s = [] \<or> s = lit ''.'') then collapse_dotdot floor (acc @ [s]) ss
      else collapse_dotdot floor acc ss)"

definition is_filesystem_root :: "ustr \<Rightarrow> bool" where
  "is_filesystem_root p =
     (let n = slashes p in
      if n = lit ''/'' then True
      else if strip_prefix (lit ''///'') n \<noteq> None then
        collapse_dotdot 0 [] (split_on 47 (dropWhile (\<lambda>c. c = 47) n)) = []
      else if strip_prefix (lit ''//'') n \<noteq> None then length (collapse_dotdot 2 [] (split_on 47 n)) = 2
      else if drive_root n then collapse_dotdot 0 [] (split_on 47 (drop 3 n)) = []
      else case strip_prefix (lit ''/'') n of
        Some rest \<Rightarrow> collapse_dotdot 0 [] (split_on 47 rest) = []
      | None \<Rightarrow> False)"

definition components :: "ustr \<Rightarrow> ustr list" where
  "components p = filter (\<lambda>s. s \<noteq> [] \<and> s \<noteq> lit ''.'') (split_on 47 p)"

definition path_is_within :: "ustr \<Rightarrow> ustr \<Rightarrow> bool" where
  "path_is_within candidate r0 =
     (if candidate = [] \<or> r0 = [] then False
      else if candidate = r0 then True
      else let c = slashes candidate; cand = components c; root_parts = components (slashes r0) in
        if lit ''..'' \<in> set cand \<or> lit ''..'' \<in> set root_parts then False
        else if root_parts = [] then strip_prefix (lit ''/'') c \<noteq> None
        else if length cand < length root_parts then False
        else take (length root_parts) cand = root_parts)"

section \<open>Normalisation\<close>

record HostEnv =
  env_is_dir :: "ustr \<Rightarrow> bool"
  env_exists :: "ustr \<Rightarrow> bool"
  env_canonicalize :: "ustr \<Rightarrow> ustr + ustr"
  env_has :: "ustr \<Rightarrow> bool"

datatype NormalizeError =
    PathMissing ustr
  | PathUnresolvable ustr ustr
  | PathNotADirectory ustr ustr
  | SecretMissing ustr ustr
  | InvalidHostPattern ustr ustr
  | InvalidQuota ustr ustr
  | InvalidSecret ustr ustr
  | ConflictingGrants ustr FsMode FsMode

fun fs_mode_display :: "FsMode \<Rightarrow> ustr" where
  "fs_mode_display ReadOnly = msg ''read-only''"
| "fs_mode_display AppendOnly = msg ''append-only''"
| "fs_mode_display ReadWrite = msg ''read-write''"

fun normalize_error_display :: "NormalizeError \<Rightarrow> ustr" where
  "normalize_error_display (PathMissing d) = msg ''granted path '' @ ticks d @ msg '' does not exist on this host''"
| "normalize_error_display (PathUnresolvable d r) = msg ''granted path '' @ ticks d @ msg '' could not be resolved: '' @ r"
| "normalize_error_display (PathNotADirectory d f) = msg ''granted path '' @ ticks d @ msg '' must be a directory, but is a '' @ f"
| "normalize_error_display (SecretMissing n s) = msg ''secret '' @ ticks n @ msg '' is not available (consulted '' @ s @ msg '')''"
| "normalize_error_display (InvalidHostPattern p r) = msg ''invalid host pattern '' @ ticks p @ msg '': '' @ r"
| "normalize_error_display (InvalidQuota q r) = msg ''invalid quota '' @ ticks q @ msg '': '' @ r"
| "normalize_error_display (InvalidSecret s r) = msg ''invalid secret reference '' @ ticks s @ msg '': '' @ r"
| "normalize_error_display (ConflictingGrants s a b) =
     ticks s @ msg '' is granted twice with conflicting scopes: '' @ fs_mode_display a @ msg '' vs '' @ fs_mode_display b"

fun normalize_error_code :: "NormalizeError \<Rightarrow> ErrorCode" where
  "normalize_error_code (PathMissing _) = CapabilityPathInvalid"
| "normalize_error_code (PathNotADirectory _ _) = CapabilityPathInvalid"
| "normalize_error_code (PathUnresolvable _ _) = CapabilityPathInvalid"
| "normalize_error_code (SecretMissing _ _) = SecretUnresolvable"
| "normalize_error_code (InvalidHostPattern _ _) = CapabilitySyntaxInvalid"
| "normalize_error_code (InvalidQuota _ _) = CapabilitySyntaxInvalid"
| "normalize_error_code (InvalidSecret _ _) = CapabilitySyntaxInvalid"
| "normalize_error_code (ConflictingGrants _ _ _) = ManifestSchemaViolation"

definition normalize_to_error :: "NormalizeError \<Rightarrow> Error" where
  "normalize_to_error n =
     (let e = error_new (normalize_error_code n) (normalize_error_display n) in
      case n of
        PathMissing d \<Rightarrow>
          with_remediation (msg ''create '' @ ticks d @ msg '' on this host, or correct the path in qqq.toml'')
            (with_context (lit ''path'') d e)
      | SecretMissing nm s \<Rightarrow>
          with_remediation (msg ''set '' @ s @ msg '' in the host environment'')
            (with_context (lit ''secret'') nm e)
      | PathUnresolvable d _ \<Rightarrow>
          with_remediation (msg ''check permissions on the path and its parents'')
            (with_context (lit ''path'') d e)
      | PathNotADirectory d _ \<Rightarrow>
          with_remediation (msg ''grant a directory, or remove the entry if a file was intended'')
            (with_context (lit ''path'') d e)
      | InvalidHostPattern p _ \<Rightarrow>
          with_remediation (msg ''use `host` or `host:port`; wildcards are `*.example.com`'')
            (with_context (lit ''pattern'') p e)
      | InvalidQuota q _ \<Rightarrow>
          with_remediation (msg ''use a positive size like `5GiB`; `0B` grants nothing'')
            (with_context (lit ''quota'') q e)
      | InvalidSecret r _ \<Rightarrow>
          with_remediation (msg ''use `env:VARIABLE_NAME` with an upper-case name'')
            (with_context (lit ''secret'') r e)
      | ConflictingGrants s _ _ \<Rightarrow>
          with_remediation (msg ''grant each path once, with a single mode'')
            (with_context (lit ''subject'') s e))"

record FsGrant =
  canonical_path :: ustr
  declared_path :: ustr
  grant_mode :: FsMode
  quota_bytes :: "u64 option"

fun fs_mode_index :: "FsMode \<Rightarrow> nat" where
  "fs_mode_index ReadOnly = 0"
| "fs_mode_index AppendOnly = 1"
| "fs_mode_index ReadWrite = 2"

text \<open>The derived orders, as keys.\<close>

definition fs_grant_key :: "FsGrant \<Rightarrow> ustr \<times> ustr \<times> nat \<times> u64 option" where
  "fs_grant_key g = (canonical_path g, declared_path g, fs_mode_index (grant_mode g), quota_bytes g)"

definition host_pattern_key :: "HostPattern \<Rightarrow> ustr \<times> bool \<times> bool \<times> u16 option \<times> ustr" where
  "host_pattern_key p = (hp_host p, hp_literal p, hp_wildcard p, hp_port p, hp_original p)"

fun parse_all :: "ustr list \<Rightarrow> NormalizeError + HostPattern list" where
  "parse_all [] = Inr []"
| "parse_all (p # ps) =
     (case host_pattern_parse p of
        Inl reason \<Rightarrow> Inl (InvalidHostPattern p reason)
      | Inr pat \<Rightarrow> (case parse_all ps of Inl e \<Rightarrow> Inl e | Inr pats \<Rightarrow> Inr (pat # pats)))"

definition normalize_http :: "Capabilities \<Rightarrow> NormalizeError + bool \<times> HostPattern list" where
  "normalize_http m =
     (case http m of
        None \<Rightarrow> Inr (False, [])
      | Some h \<Rightarrow>
          (case parse_all (http_client h) of
             Inl e \<Rightarrow> Inl e
           | Inr pats \<Rightarrow> Inr (http_server h, remdups_adj (sort_key host_pattern_key pats))))"

definition quota_of :: "ustr option \<Rightarrow> NormalizeError + u64 option" where
  "quota_of q =
     (case q of
        None \<Rightarrow> Inr None
      | Some s \<Rightarrow>
          (case byte_size_parse s of
             Inl reason \<Rightarrow> Inl (InvalidQuota s reason)
           | Inr b \<Rightarrow>
               if b = 0 then Inl (InvalidQuota s (msg ''`0B` grants no bytes; remove the quota or set a positive size''))
               else Inr (Some b)))"

definition fs_entry :: "HostEnv \<Rightarrow> FsCapability \<Rightarrow> NormalizeError + FsGrant" where
  "fs_entry env e =
     (let declared = fs_path e in
      if \<not> is_absolute_host_path declared then
        Inl (PathUnresolvable declared (msg ''filesystem capability paths must be absolute''))
      else if \<not> env_exists env declared then Inl (PathMissing declared)
      else case env_canonicalize env declared of
        Inl reason \<Rightarrow> Inl (PathUnresolvable declared reason)
      | Inr canonical \<Rightarrow>
          if \<not> env_is_dir env canonical then Inl (PathNotADirectory declared (msg ''file''))
          else (case quota_of (fs_quota e) of
                  Inl err \<Rightarrow> Inl err
                | Inr q \<Rightarrow> Inr \<lparr>canonical_path = canonical, declared_path = declared, grant_mode = fs_mode e, quota_bytes = q\<rparr>))"

fun fs_entries :: "HostEnv \<Rightarrow> FsCapability list \<Rightarrow> NormalizeError + FsGrant list" where
  "fs_entries env [] = Inr []"
| "fs_entries env (e # es) =
     (case fs_entry env e of
        Inl err \<Rightarrow> Inl err
      | Inr g \<Rightarrow> (case fs_entries env es of Inl err \<Rightarrow> Inl err | Inr gs \<Rightarrow> Inr (g # gs)))"

fun conflicting :: "FsGrant list \<Rightarrow> NormalizeError option" where
  "conflicting (x # y # zs) =
     (if canonical_path x = canonical_path y \<and> grant_mode x \<noteq> grant_mode y
      then Some (ConflictingGrants (canonical_path x) (grant_mode x) (grant_mode y))
      else conflicting (y # zs))"
| "conflicting _ = None"

fun dedup_grants :: "FsGrant list \<Rightarrow> FsGrant list" where
  "dedup_grants (x # y # zs) =
     (if canonical_path y = canonical_path x \<and> grant_mode y = grant_mode x then dedup_grants (x # zs)
      else x # dedup_grants (y # zs))"
| "dedup_grants gs = gs"

definition normalize_fs :: "Capabilities \<Rightarrow> HostEnv \<Rightarrow> NormalizeError + FsGrant list" where
  "normalize_fs m env =
     (case fs_entries env (fs m) of
        Inl e \<Rightarrow> Inl e
      | Inr gs \<Rightarrow>
          (let sorted_gs = sort_key fs_grant_key gs in
           case conflicting sorted_gs of Some e \<Rightarrow> Inl e | None \<Rightarrow> Inr (dedup_grants sorted_gs)))"

definition normalize_list :: "ustr list option \<Rightarrow> bool \<Rightarrow> ustr list" where
  "normalize_list items lowercase =
     (case items of
        None \<Rightarrow> []
      | Some ss \<Rightarrow>
          remdups_adj (sort (filter (\<lambda>s. s \<noteq> []) (map (\<lambda>s. if lowercase then to_lower (trim s) else trim s) ss))))"

fun secret_entries :: "HostEnv \<Rightarrow> ustr list \<Rightarrow> NormalizeError + SecretRef list" where
  "secret_entries env [] = Inr []"
| "secret_entries env (s # ss) =
     (case secret_ref_parse s of
        Inl reason \<Rightarrow> Inl (InvalidSecret s reason)
      | Inr r \<Rightarrow>
          if \<not> env_has env (env_var r) then Inl (SecretMissing (logical_name r) (msg ''environment variable '' @ env_var r))
          else (case secret_entries env ss of Inl e \<Rightarrow> Inl e | Inr rs \<Rightarrow> Inr (r # rs)))"

definition normalize_secrets :: "Capabilities \<Rightarrow> HostEnv \<Rightarrow> NormalizeError + SecretRef list" where
  "normalize_secrets m env =
     (let dedicated = (case secret_secrets m of Some ss \<Rightarrow> ss | None \<Rightarrow> []);
          legacy = (case crypto m of Some c \<Rightarrow> crypto_secrets c | None \<Rightarrow> [])
      in case secret_entries env (dedicated @ legacy) of
           Inl e \<Rightarrow> Inl e
         | Inr rs \<Rightarrow> Inr (remdups_adj (sort_key (\<lambda>r. (logical_name r, env_var r)) rs)))"

record Normalized =
  n_http_client :: "HostPattern list"
  n_http_server :: bool
  n_fs :: "FsGrant list"
  n_dns :: "ustr list"
  n_env :: "ustr list"
  n_secrets :: "SecretRef list"
  n_declared :: "Capability list"

definition normalized_from_manifest :: "Capabilities \<Rightarrow> HostEnv \<Rightarrow> NormalizeError + Normalized" where
  "normalized_from_manifest m env =
     (case normalize_http m of Inl e \<Rightarrow> Inl e | Inr (server, client) \<Rightarrow>
      (case normalize_fs m env of Inl e \<Rightarrow> Inl e | Inr gs \<Rightarrow>
      (case normalize_secrets m env of Inl e \<Rightarrow> Inl e | Inr secrets \<Rightarrow>
       Inr \<lparr>n_http_client = client, n_http_server = server, n_fs = gs, n_dns = normalize_list (dns_resolve m) True,
            n_env = normalize_list (env_allow m) False, n_secrets = secrets, n_declared = declared_capabilities m\<rparr>)))"

definition http_client_allows :: "Normalized \<Rightarrow> ustr \<Rightarrow> u16 \<Rightarrow> bool" where
  "http_client_allows n h p = list_ex (\<lambda>pat. pattern_matches pat h p) (n_http_client n)"

definition fs_allows :: "Normalized \<Rightarrow> ustr \<Rightarrow> FsMode \<Rightarrow> bool" where
  "fs_allows n p requested = list_ex (\<lambda>g. path_is_within p (canonical_path g) \<and> covers (grant_mode g) requested) (n_fs n)"

definition env_allows :: "Normalized \<Rightarrow> ustr \<Rightarrow> bool" where
  "env_allows n v = list_ex (\<lambda>w. w = v) (n_env n)"

definition dns_allows :: "Normalized \<Rightarrow> ustr \<Rightarrow> bool" where
  "dns_allows n nm = list_ex (\<lambda>d. d = to_lower (trim nm)) (n_dns n)"

definition secret_source :: "Normalized \<Rightarrow> ustr \<Rightarrow> ustr option" where
  "secret_source n nm = map_option env_var (find (\<lambda>s. logical_name s = nm) (n_secrets n))"

section \<open>Containment\<close>

text \<open>
  Where a path leads: a walk from the root of the tree, or from the working directory for a relative path, one name at a
  time, \<open>..\<close> going to the parent (the root's parent is the root). Both separators count, as the code reads them, and no
  name is a symbolic link.
\<close>

fun follow :: "ustr list \<Rightarrow> ustr list \<Rightarrow> ustr list" where
  "follow here [] = here"
| "follow here (s # ss) =
     (if s = [] \<or> s = lit ''.'' then follow here ss
      else if s = lit ''..'' then follow (butlast here) ss
      else follow (here @ [s]) ss)"

definition is_absolute :: "ustr \<Rightarrow> bool" where
  "is_absolute p \<longleftrightarrow> (\<exists>rest. slashes p = 47 # rest)"

definition leads_to :: "ustr list \<Rightarrow> ustr \<Rightarrow> ustr list" where
  "leads_to cwd p = follow (if is_absolute p then [] else cwd) (split_on 47 (slashes p))"

lemma dots: "lit ''.'' = [46]" "lit ''..'' = [46, 46]"
  by simp_all

lemma walk_plain: "lit ''..'' \<notin> set ss \<Longrightarrow> follow here ss = here @ filter (\<lambda>s. s \<noteq> [] \<and> s \<noteq> lit ''.'') ss"
  by (induction here ss rule: follow.induct) auto

lemma leads_to_plain:
  "lit ''..'' \<notin> set (components (slashes p)) \<Longrightarrow>
     leads_to cwd p = (if is_absolute p then [] else cwd) @ components (slashes p)"
  using walk_plain [of "split_on 47 (slashes p)"] by (auto simp: leads_to_def components_def)

lemma within_parts:
  assumes "path_is_within c r" "c \<noteq> r"
  shows "lit ''..'' \<notin> set (components (slashes c))" "lit ''..'' \<notin> set (components (slashes r))"
    "prefix (components (slashes r)) (components (slashes c))"
proof -
  show "lit ''..'' \<notin> set (components (slashes c))" "lit ''..'' \<notin> set (components (slashes r))"
    using assms by (auto simp: path_is_within_def Let_def split: if_splits)
  have "take (length (components (slashes r))) (components (slashes c)) = components (slashes r)"
    using assms by (auto simp: path_is_within_def Let_def split: if_splits)
  then show "prefix (components (slashes r)) (components (slashes c))" by (metis take_is_prefix)
qed

lemma parts_within:
  assumes "lit ''..'' \<notin> set (components (slashes c))" "lit ''..'' \<notin> set (components (slashes r))"
    and "is_absolute c" "is_absolute r" "prefix (components (slashes r)) (components (slashes c))"
  shows "path_is_within c r"
proof -
  have ne: "c \<noteq> []" "r \<noteq> []" using assms(3,4) by (auto simp: is_absolute_def slashes_def)
  have "take (length (components (slashes r))) (components (slashes c)) = components (slashes r)"
      "length (components (slashes r)) \<le> length (components (slashes c))"
    using assms(5) by (auto simp: prefix_def)
  moreover have "strip_prefix (lit ''/'') (slashes c) \<noteq> None" using assms(3) by (auto simp: is_absolute_def)
  ultimately show ?thesis using assms(1,2) ne by (simp add: path_is_within_def Let_def not_less)
qed

text \<open>C11. The containment test that guards file-system grants decides where paths lead. When it accepts, and candidate
  and root are both absolute or both relative, then from every working directory the place the candidate leads to lies at or
  below the place the root leads to, with mixed separators, empty and \<open>.\<close> components and any number of \<open>..\<close>; and for
  absolute paths without \<open>..\<close> it accepts exactly those. A relative candidate under an absolute root is outside the claim:
  the test accepts it by its names alone (\<open>relative_candidate_accepted\<close> below).\<close>

theorem containment_sound:
  "(path_is_within c r \<and> (is_absolute c \<longleftrightarrow> is_absolute r) \<longrightarrow> prefix (leads_to cwd r) (leads_to cwd c)) \<and>
   (is_absolute c \<and> is_absolute r \<and> lit ''..'' \<notin> set (split_on 47 (slashes c)) \<and> lit ''..'' \<notin> set (split_on 47 (slashes r)) \<longrightarrow>
    (path_is_within c r \<longleftrightarrow> prefix (leads_to cwd r) (leads_to cwd c)))"
proof (intro conjI impI)
  assume a: "path_is_within c r \<and> (is_absolute c \<longleftrightarrow> is_absolute r)"
  show "prefix (leads_to cwd r) (leads_to cwd c)"
  proof (cases "c = r")
    case False
    have w: "path_is_within c r" "is_absolute c \<longleftrightarrow> is_absolute r" using a by simp_all
    note parts = within_parts [OF w(1) False]
    show ?thesis using parts(3) w(2) by (simp add: leads_to_plain [OF parts(1)] leads_to_plain [OF parts(2)])
  qed simp
next
  assume a: "is_absolute c \<and> is_absolute r \<and> lit ''..'' \<notin> set (split_on 47 (slashes c)) \<and> lit ''..'' \<notin> set (split_on 47 (slashes r))"
  then have dd: "lit ''..'' \<notin> set (components (slashes c))" "lit ''..'' \<notin> set (components (slashes r))"
    by (simp_all add: components_def)
  have leads: "prefix (leads_to cwd r) (leads_to cwd c) \<longleftrightarrow> prefix (components (slashes r)) (components (slashes c))"
    using a by (simp add: leads_to_plain [OF dd(1)] leads_to_plain [OF dd(2)])
  show "path_is_within c r \<longleftrightarrow> prefix (leads_to cwd r) (leads_to cwd c)"
  proof (cases "c = r")
    case True
    with a dd show ?thesis using parts_within [of r r] by simp
  next
    case False
    have "path_is_within c r \<Longrightarrow> prefix (components (slashes r)) (components (slashes c))"
      by (rule within_parts(3)) (simp_all add: False)
    moreover have "prefix (components (slashes r)) (components (slashes c)) \<Longrightarrow> path_is_within c r"
      using a by (intro parts_within dd) simp_all
    ultimately show ?thesis unfolding leads by blast
  qed
qed

theorem containment_sound_witness:
  "path_is_within (lit ''/var/lib/orders/a'') (lit ''/var//lib/./orders'') \<and>
   prefix (leads_to [] (lit ''/var//lib/./orders'')) (leads_to [] (lit ''/var/lib/orders/a'')) \<and>
   \<not> path_is_within (lit ''/var/lib/orders-evil'') (lit ''/var/lib/orders'')"
proof -
  have w: "path_is_within (lit ''/var/lib/orders/a'') (lit ''/var//lib/./orders'')"
    by (simp add: path_is_within_def slashes_def components_def Let_def)
  have abs: "is_absolute (lit ''/var/lib/orders/a'')" "is_absolute (lit ''/var//lib/./orders'')"
      "is_absolute (lit ''/var/lib/orders-evil'')" "is_absolute (lit ''/var/lib/orders'')"
    by (simp_all add: is_absolute_def slashes_def)
  have "\<not> prefix (leads_to [] (lit ''/var/lib/orders'')) (leads_to [] (lit ''/var/lib/orders-evil''))"
    using abs by (simp add: leads_to_def slashes_def)
  then have "\<not> path_is_within (lit ''/var/lib/orders-evil'') (lit ''/var/lib/orders'')"
    using containment_sound [of "lit ''/var/lib/orders-evil''" "lit ''/var/lib/orders''" "[]"] abs by auto
  then show ?thesis using w abs containment_sound [of "lit ''/var/lib/orders/a''" "lit ''/var//lib/./orders''" "[]"] by auto
qed

text \<open>A relative candidate is accepted under an absolute root, although it leads below the working directory.\<close>

lemma relative_candidate_accepted:
  "path_is_within (lit ''var/lib/x'') (lit ''/var/lib'') \<and>
   leads_to [lit ''home''] (lit ''var/lib/x'') = [lit ''home'', lit ''var'', lit ''lib'', lit ''x'']"
  by (simp add: path_is_within_def slashes_def components_def leads_to_def is_absolute_def Let_def)

section \<open>File-system grants\<close>

lemma fs_entries_set: "fs_entries env es = Inr gs \<Longrightarrow> set gs = {g. \<exists>e \<in> set es. fs_entry env e = Inr g} \<and>
    (\<forall>e \<in> set es. \<exists>g. fs_entry env e = Inr g)"
proof (induction es arbitrary: gs)
  case (Cons e es)
  then obtain g gs' where "fs_entry env e = Inr g" "fs_entries env es = Inr gs'" "gs = g # gs'"
    by (auto split: sum.splits)
  with Cons.IH [of gs'] show ?case by auto
qed simp

lemma fs_entry_Inr: "fs_entry env e = Inr g \<Longrightarrow>
    env_canonicalize env (fs_path e) = Inr (canonical_path g) \<and> grant_mode g = fs_mode e"
  by (auto simp: fs_entry_def Let_def split: if_splits sum.splits)

text \<open>What a grant permits does not depend on its declared path or quota.\<close>

definition scope :: "FsGrant \<Rightarrow> ustr \<times> FsMode" where
  "scope g = (canonical_path g, grant_mode g)"

lemma dedup_scope: "scope ` set (dedup_grants gs) = scope ` set gs"
  by (induction gs rule: dedup_grants.induct) (auto simp: scope_def)

lemma dedup_hd: "gs \<noteq> [] \<Longrightarrow> dedup_grants gs \<noteq> [] \<and> hd (dedup_grants gs) = hd gs"
  by (induction gs rule: dedup_grants.induct) auto

lemma conflict_skip:
  "conflicting (x # y # zs) = None \<Longrightarrow> canonical_path y = canonical_path x \<Longrightarrow> grant_mode y = grant_mode x \<Longrightarrow> conflicting (x # zs) = None"
  by (cases zs) (auto split: if_splits)

lemma dedup_distinct:
  "sorted (map canonical_path gs) \<Longrightarrow> conflicting gs = None \<Longrightarrow> sorted_wrt (<) (map canonical_path (dedup_grants gs))"
proof (induction gs rule: dedup_grants.induct)
  case (1 x y zs)
  show ?case
  proof (cases "canonical_path y = canonical_path x")
    case True
    then have same: "grant_mode y = grant_mode x" using 1(4) by (auto split: if_splits)
    then show ?thesis using True 1(1) [OF conjI [OF True same]] 1(3) conflict_skip [OF 1(4) True same] by simp
  next
    case False
    have c: "conflicting (y # zs) = None" using 1(4) by (auto split: if_splits)
    have lt: "canonical_path x < canonical_path y" using 1(3) False by (auto simp: order.order_iff_strict)
    have sub: "sorted_wrt (<) (map canonical_path (dedup_grants (y # zs)))" using 1(2) False 1(3) c by simp
    obtain ds where ds: "dedup_grants (y # zs) = y # ds" using dedup_hd [of "y # zs"] by (cases "dedup_grants (y # zs)") auto
    show ?thesis using sub lt False by (auto simp: ds)
  qed
qed simp_all

lemma sorted_key_fst: "sorted (map fs_grant_key gs) \<Longrightarrow> sorted (map canonical_path gs)"
  by (induction gs) (auto simp: fs_grant_key_def less_eq_prod_def)

lemma normalize_fs_ok:
  assumes "normalize_fs m env = Inr gs"
  shows "scope ` set gs = {(c, md). \<exists>e \<in> set (fs m). env_canonicalize env (fs_path e) = Inr c \<and> fs_mode e = md}"
    "sorted_wrt (<) (map canonical_path gs)"
proof -
  obtain raw where raw: "fs_entries env (fs m) = Inr raw" "conflicting (sort_key fs_grant_key raw) = None"
      "gs = dedup_grants (sort_key fs_grant_key raw)"
    using assms by (auto simp: normalize_fs_def Let_def split: sum.splits option.splits)
  show "sorted_wrt (<) (map canonical_path gs)"
    unfolding raw(3) by (rule dedup_distinct [OF sorted_key_fst raw(2)]) simp
  have "scope ` set gs = scope ` set raw" by (simp add: raw(3) dedup_scope)
  also have "\<dots> = {(c, md). \<exists>e \<in> set (fs m). env_canonicalize env (fs_path e) = Inr c \<and> fs_mode e = md}"
  proof -
    note r = fs_entries_set [OF raw(1)]
    have "(c, md) \<in> scope ` set raw \<longleftrightarrow> (\<exists>e \<in> set (fs m). env_canonicalize env (fs_path e) = Inr c \<and> fs_mode e = md)" for c md
    proof
      assume "(c, md) \<in> scope ` set raw"
      then show "\<exists>e \<in> set (fs m). env_canonicalize env (fs_path e) = Inr c \<and> fs_mode e = md"
        using r fs_entry_Inr by (fastforce simp: scope_def)
    next
      assume "\<exists>e \<in> set (fs m). env_canonicalize env (fs_path e) = Inr c \<and> fs_mode e = md"
      then obtain e g where e: "e \<in> set (fs m)" "env_canonicalize env (fs_path e) = Inr c" "fs_mode e = md" "fs_entry env e = Inr g"
        using r by blast
      then have "g \<in> set raw" "scope g = (c, md)" using r fs_entry_Inr [OF e(4)] by (auto simp: scope_def)
      then show "(c, md) \<in> scope ` set raw" by force
    qed
    then show ?thesis by auto
  qed
  finally show "scope ` set gs = {(c, md). \<exists>e \<in> set (fs m). env_canonicalize env (fs_path e) = Inr c \<and> fs_mode e = md}" .
qed

lemma normalized_parts:
  assumes "normalized_from_manifest m env = Inr n"
  shows "normalize_http m = Inr (n_http_server n, n_http_client n)" "normalize_fs m env = Inr (n_fs n)"
    "normalize_secrets m env = Inr (n_secrets n)" "n_dns n = normalize_list (dns_resolve m) True"
    "n_env n = normalize_list (env_allow m) False"
  using assms by (auto simp: normalized_from_manifest_def split: sum.splits prod.splits)

text \<open>C12. File-system authority is exactly what the manifest grants. When a manifest normalises, no directory appears under
  two grants, so no access depends on the order of the entries; and an access is allowed exactly when some entry of the
  manifest has a mode that covers it and a directory, as the host resolves it, that contains the path.\<close>

theorem fs_allows_exact:
  assumes "normalized_from_manifest m env = Inr n"
  shows "distinct (map canonical_path (n_fs n)) \<and>
    (fs_allows n p md \<longleftrightarrow>
      (\<exists>e \<in> set (fs m). \<exists>c. env_canonicalize env (fs_path e) = Inr c \<and> path_is_within p c \<and> covers (fs_mode e) md))"
proof -
  note ok = normalize_fs_ok [OF normalized_parts(2) [OF assms]]
  have "distinct (map canonical_path (n_fs n))" using ok(2) strict_sorted_iff by blast
  moreover have "fs_allows n p md \<longleftrightarrow> (\<exists>(c, mode) \<in> scope ` set (n_fs n). path_is_within p c \<and> covers mode md)"
    by (auto simp: fs_allows_def list_ex_iff scope_def)
  ultimately show ?thesis unfolding ok(1) by auto
qed

definition sample_env :: HostEnv where
  "sample_env = \<lparr>env_is_dir = (\<lambda>_. True), env_exists = (\<lambda>_. True), env_canonicalize = (\<lambda>p. Inr p), env_has = (\<lambda>_. True)\<rparr>"

definition sample_tables :: Capabilities where
  "sample_tables = no_tables\<lparr>fs := [\<lparr>fs_path = lit ''/data'', fs_mode = ReadOnly, fs_quota = None\<rparr>],
     http := Some \<lparr>http_server = False, http_client = [lit ''*.example.com:443''], http_cleartext = False, http_redirects = 0\<rparr>,
     env_allow := Some [lit '' HOME '']\<rparr>"

lemma sample_normalized: "\<exists>n. normalized_from_manifest sample_tables sample_env = Inr n"
  by (simp add: normalized_from_manifest_def sample_tables_def sample_env_def no_tables_def normalize_http_def normalize_fs_def
      fs_entry_def quota_of_def is_absolute_host_path_def slashes_def normalize_secrets_def host_pattern_parse_def trim_def
      is_whitespace_def split_port_def rcut_once_def parse_port_def parse_uint_def is_ascii_digit_def digits_val_def literal_of_def
      to_lower_def to_ascii_lowercase_def split_wildcard_def ipv4_parse_def read_ipv4_def read_octet_def read_number_def
      is_radix_digit_def radix_value_def host_char_def is_ascii_alnum_def is_ascii_alphabetic_def Let_def numeral_3_eq_3)

theorem fs_allows_exact_witness:
  "\<exists>n. normalized_from_manifest sample_tables sample_env = Inr n \<and> fs_allows n (lit ''/data/a'') ReadOnly \<and>
     \<not> fs_allows n (lit ''/data/a'') ReadWrite"
proof -
  obtain n where n: "normalized_from_manifest sample_tables sample_env = Inr n" using sample_normalized by blast
  have "fs sample_tables = [\<lparr>fs_path = lit ''/data'', fs_mode = ReadOnly, fs_quota = None\<rparr>]"
      "env_canonicalize sample_env p = Inr p" for p by (simp_all add: sample_tables_def sample_env_def)
  moreover have "path_is_within (lit ''/data/a'') (lit ''/data'')"
    by (simp add: path_is_within_def slashes_def components_def Let_def)
  ultimately show ?thesis using fs_allows_exact [OF n] n by (auto simp: covers_def can_read_def can_write_def)
qed

section \<open>Host patterns\<close>

lemma strip_suffix_iff: "strip_suffix suf s = Some r \<longleftrightarrow> s = r @ suf"
  by (auto simp: strip_suffix_def strip_prefix_Some) (metis rev_append rev_rev_ident)

lemma ends_with_iff: "ends_with suf s \<longleftrightarrow> (\<exists>r. s = r @ suf)"
  by (auto simp: ends_with_def strip_suffix_iff)

lemma trim_start_absent: "x \<notin> set s \<Longrightarrow> trim_start (x # p) s = s"
  by (subst trim_start.simps) (cases s; auto split: option.splits)

text \<open>What a parsed pattern is: a literal in its canonical spelling, or a name in lower case without empty labels.\<close>

definition pattern_ok :: "HostPattern \<Rightarrow> bool" where
  "pattern_ok p \<longleftrightarrow>
     (if hp_literal p then \<not> hp_wildcard p \<and> (\<exists>a. hp_host p = show_ip a)
      else hp_host p \<noteq> [] \<and> list_all host_char (hp_host p) \<and> hd (hp_host p) \<noteq> 46 \<and> last (hp_host p) \<noteq> 46 \<and>
        \<not> contains_str (lit ''..'') (hp_host p))"

lemma host_pattern_parse_ok: "host_pattern_parse s = Inr p \<Longrightarrow> pattern_ok p"
  by (auto simp: host_pattern_parse_def pattern_ok_def split_wildcard_def Let_def
      split: if_splits sum.splits option.splits prod.splits)

lemma host_char_no_star: "list_all host_char h \<Longrightarrow> 42 \<notin> set h"
  by (auto simp: list_all_iff host_char_def is_ascii_alnum_def is_ascii_alphabetic_def is_ascii_digit_def)

lemma wildcard_suffix:
  "length b + 1 < length h \<and> ends_with b h \<and> h ! (length h - length b - 1) = 46 \<longleftrightarrow> (\<exists>pre. pre \<noteq> [] \<and> h = pre @ 46 # (b :: ustr))"
proof
  assume a: "length b + 1 < length h \<and> ends_with b h \<and> h ! (length h - length b - 1) = 46"
  then obtain r where r: "h = r @ b" by (auto simp: ends_with_iff)
  with a have len: "1 < length r" by simp
  then have "r \<noteq> []" "length r - 1 < length r" by auto
  with a r have "last r = 46" by (simp add: last_conv_nth nth_append)
  then have "r = butlast r @ [46]" using \<open>r \<noteq> []\<close> by (metis append_butlast_last_id)
  then have "h = butlast r @ 46 # b" using r by (metis append.assoc append_Cons append_Nil)
  moreover have "butlast r \<noteq> []" using len by (metis length_butlast list.size(3) zero_less_diff less_irrefl)
  ultimately have "h = butlast r @ 46 # b" "butlast r \<noteq> []" by simp_all
  then show "\<exists>pre. pre \<noteq> [] \<and> h = pre @ 46 # b" by blast
next
  assume "\<exists>pre. pre \<noteq> [] \<and> h = pre @ 46 # b"
  then obtain pre where "pre \<noteq> []" "h = pre @ 46 # b" by blast
  then show "length b + 1 < length h \<and> ends_with b h \<and> h ! (length h - length b - 1) = 46"
    by (auto simp: ends_with_iff nth_append intro: exI [of _ "pre @ [46]"])
qed

text \<open>The documented meaning of a pattern.\<close>

definition pattern_means :: "HostPattern \<Rightarrow> ustr \<Rightarrow> u16 \<Rightarrow> bool" where
  "pattern_means pat h p \<longleftrightarrow> (hp_port pat = None \<or> hp_port pat = Some p) \<and>
     (if hp_literal pat then \<exists>a. ip_parse (strip_brackets (to_lower h)) = Some a \<and> show_ip a = hp_host pat
      else if hp_wildcard pat then \<exists>sub. sub \<noteq> [] \<and> to_lower h = sub @ 46 # hp_host pat
      else to_lower h = hp_host pat)"

lemma pattern_matches_means: "pattern_ok pat \<Longrightarrow> pattern_matches pat h p = pattern_means pat h p"
proof -
  assume ok: "pattern_ok pat"
  have "trim_start (lit ''*.'') (hp_host pat) = hp_host pat" if "\<not> hp_literal pat"
    using ok that host_char_no_star trim_start_absent [of 42] by (simp add: pattern_ok_def)
  then show ?thesis
    using wildcard_suffix [of "hp_host pat" "to_lower h"]
    by (auto simp: pattern_matches_def pattern_means_def Let_def split: option.splits)
qed

text \<open>A host pattern of the egress allow-list means what its documentation says. Any text the parser accepts is a pattern
  that matches a host and port exactly when the port agrees (or the pattern names none) and, letter case aside, a name
  equals the host, a wildcard \<open>*.name\<close> stands for at least one character and a dot in front of the name (so never for the name
  itself, and never for another name that merely ends in the same letters), and an address is the same address, however
  the host spells it.\<close>

theorem patterns_mean:
  assumes "host_pattern_parse s = Inr pat"
  shows "pattern_matches pat h p \<longleftrightarrow> (hp_port pat = None \<or> hp_port pat = Some p) \<and>
     (if hp_literal pat then \<exists>a. ip_parse (strip_brackets (to_lower h)) = Some a \<and> show_ip a = hp_host pat
      else if hp_wildcard pat then \<exists>sub. sub \<noteq> [] \<and> to_lower h = sub @ 46 # hp_host pat
      else to_lower h = hp_host pat)"
  using pattern_matches_means [OF host_pattern_parse_ok [OF assms]] by (simp add: pattern_means_def)

lemmas host_pattern_eval = host_pattern_parse_def trim_def is_whitespace_def split_port_def rcut_once_def parse_port_def parse_uint_def
  is_ascii_digit_def digits_val_def literal_of_def to_lower_def to_ascii_lowercase_def split_wildcard_def ipv4_parse_def read_ipv4_def
  read_octet_def read_number_def is_radix_digit_def radix_value_def host_char_def is_ascii_alnum_def is_ascii_alphabetic_def Let_def
  numeral_3_eq_3

definition sample_pattern :: HostPattern where
  "sample_pattern = \<lparr>hp_host = lit ''example.com'', hp_literal = False, hp_wildcard = True, hp_port = Some 443,
     hp_original = lit ''*.Example.com:443''\<rparr>"

lemma sample_pattern_parses: "host_pattern_parse (lit ''*.Example.com:443'') = Inr sample_pattern"
  by (simp add: host_pattern_eval sample_pattern_def)

theorem patterns_mean_witness:
  "pattern_matches sample_pattern (lit ''API.example.com'') 443 \<and> \<not> pattern_matches sample_pattern (lit ''notexample.com'') 443 \<and>
   \<not> pattern_matches sample_pattern (lit ''example.com'') 443"
proof -
  note m = patterns_mean [OF sample_pattern_parses]
  have "to_lower (lit ''API.example.com'') = lit ''api'' @ 46 # lit ''example.com''"
    by (simp add: to_lower_def to_ascii_lowercase_def)
  then have "pattern_matches sample_pattern (lit ''API.example.com'') 443"
    unfolding m by (auto simp: sample_pattern_def intro: exI [of _ "lit ''api''"])
  moreover have "\<not> pattern_matches sample_pattern (lit ''notexample.com'') 443"
    unfolding m by (auto simp: sample_pattern_def to_lower_def to_ascii_lowercase_def Cons_eq_append_conv)
  moreover have "\<not> pattern_matches sample_pattern (lit ''example.com'') 443"
    unfolding m by (auto simp: sample_pattern_def to_lower_def to_ascii_lowercase_def Cons_eq_append_conv)
  ultimately show ?thesis by blast
qed

section \<open>Allow-lists\<close>

lemma parse_all_set:
  "parse_all ps = Inr pats \<Longrightarrow>
    set pats = {pat. \<exists>s \<in> set ps. host_pattern_parse s = Inr pat} \<and> (\<forall>s \<in> set ps. \<exists>pat. host_pattern_parse s = Inr pat)"
proof (induction ps arbitrary: pats)
  case (Cons s ps)
  then obtain pat pats' where "host_pattern_parse s = Inr pat" "parse_all ps = Inr pats'" "pats = pat # pats'"
    by (auto split: sum.splits)
  with Cons.IH [of pats'] show ?case by auto
qed simp

lemma secret_entries_set:
  "secret_entries env ss = Inr rs \<Longrightarrow>
    set rs = {r. \<exists>s \<in> set ss. secret_ref_parse s = Inr r} \<and> (\<forall>r \<in> set rs. env_has env (env_var r))"
proof (induction ss arbitrary: rs)
  case (Cons s ss)
  then obtain r rs' where "secret_ref_parse s = Inr r" "env_has env (env_var r)" "secret_entries env ss = Inr rs'" "rs = r # rs'"
    by (auto split: sum.splits if_splits)
  with Cons.IH [of rs'] show ?case by auto
qed simp

lemma normalize_list_set:
  "set (normalize_list items lower) =
     {t. t \<noteq> [] \<and> (\<exists>ss. items = Some ss \<and> (\<exists>s \<in> set ss. t = (if lower then to_lower (trim s) else trim s)))}"
  by (auto simp: normalize_list_def split: option.splits)

text \<open>The entries of the manifest, an absent table being an empty one.\<close>

definition client_entries :: "Capabilities \<Rightarrow> ustr list" where
  "client_entries m = (case http m of None \<Rightarrow> [] | Some h \<Rightarrow> http_client h)"

definition secret_texts :: "Capabilities \<Rightarrow> ustr list" where
  "secret_texts m = (case secret_secrets m of Some ss \<Rightarrow> ss | None \<Rightarrow> []) @ (case crypto m of Some c \<Rightarrow> crypto_secrets c | None \<Rightarrow> [])"

lemma normalize_http_set:
  "normalize_http m = Inr (sv, pats) \<Longrightarrow> set pats = {pat. \<exists>s \<in> set (client_entries m). host_pattern_parse s = Inr pat}"
  using parse_all_set by (fastforce simp: normalize_http_def client_entries_def split: option.splits sum.splits)

lemma normalize_secrets_set:
  assumes "normalize_secrets m env = Inr rs"
  shows "set rs = {r. \<exists>s \<in> set (secret_texts m). secret_ref_parse s = Inr r}" "\<forall>r \<in> set rs. env_has env (env_var r)"
proof -
  obtain raw where "secret_entries env (secret_texts m) = Inr raw" "set rs = set raw"
    using assms by (auto simp: normalize_secrets_def secret_texts_def Let_def split: sum.splits)
  then show "set rs = {r. \<exists>s \<in> set (secret_texts m). secret_ref_parse s = Inr r}" "\<forall>r \<in> set rs. env_has env (env_var r)"
    using secret_entries_set [of env "secret_texts m" raw] by simp_all
qed

lemma secret_ref_same: "secret_ref_parse s = Inr r \<Longrightarrow> env_var r = logical_name r"
  by (auto simp: secret_ref_parse_def split: if_splits option.splits prod.splits)

lemma find_same:
  assumes "\<forall>r \<in> set rs. env_var r = logical_name r"
  shows "map_option env_var (find (\<lambda>s. logical_name s = nm) rs) = (if nm \<in> logical_name ` set rs then Some nm else None)"
  using assms by (induction rs) auto

text \<open>Every allow-list a manifest normalises to is exact. Sorting and deduplication lose nothing and add nothing: a
  destination is allowed exactly when some declared client entry parses to a pattern that matches it; a variable exactly
  when some entry of the environment list, trimmed, is that non-empty name; a DNS name exactly when some entry is that name, trimmed and
  letter case aside; and a secret resolves exactly when some declared reference parses to that name, to the environment variable of that
  name, which the host has.\<close>

theorem allow_lists_exact:
  assumes "normalized_from_manifest m env = Inr n"
  shows "(http_client_allows n h p \<longleftrightarrow>
      (\<exists>s \<in> set (client_entries m). \<exists>pat. host_pattern_parse s = Inr pat \<and> pattern_matches pat h p)) \<and>
    (env_allows n v \<longleftrightarrow> v \<noteq> [] \<and> (\<exists>ss. env_allow m = Some ss \<and> v \<in> trim ` set ss)) \<and>
    (dns_allows n d \<longleftrightarrow>
      to_lower (trim d) \<noteq> [] \<and> (\<exists>ss. dns_resolve m = Some ss \<and> to_lower (trim d) \<in> (to_lower \<circ> trim) ` set ss)) \<and>
    (secret_source n nm = Some var \<longleftrightarrow>
      var = nm \<and> env_has env nm \<and> (\<exists>s \<in> set (secret_texts m). \<exists>r. secret_ref_parse s = Inr r \<and> logical_name r = nm))"
proof (intro conjI)
  note parts = normalized_parts [OF assms]
  show "http_client_allows n h p \<longleftrightarrow>
      (\<exists>s \<in> set (client_entries m). \<exists>pat. host_pattern_parse s = Inr pat \<and> pattern_matches pat h p)"
    using normalize_http_set [OF parts(1)] by (auto simp: http_client_allows_def list_ex_iff)
  show "env_allows n v \<longleftrightarrow> v \<noteq> [] \<and> (\<exists>ss. env_allow m = Some ss \<and> v \<in> trim ` set ss)"
    by (auto simp: env_allows_def list_ex_iff parts(5) normalize_list_set)
  show "dns_allows n d \<longleftrightarrow>
      to_lower (trim d) \<noteq> [] \<and> (\<exists>ss. dns_resolve m = Some ss \<and> to_lower (trim d) \<in> (to_lower \<circ> trim) ` set ss)"
    by (auto simp: dns_allows_def list_ex_iff parts(4) normalize_list_set)
  note secrets = normalize_secrets_set [OF parts(3)]
  have same: "\<forall>r \<in> set (n_secrets n). env_var r = logical_name r" using secrets(1) secret_ref_same by blast
  show "secret_source n nm = Some var \<longleftrightarrow>
      var = nm \<and> env_has env nm \<and> (\<exists>s \<in> set (secret_texts m). \<exists>r. secret_ref_parse s = Inr r \<and> logical_name r = nm)"
    unfolding secret_source_def find_same [OF same] using secrets same by auto
qed

theorem allow_lists_exact_witness:
  "\<exists>n. normalized_from_manifest sample_tables sample_env = Inr n \<and> http_client_allows n (lit ''api.example.com'') 443 \<and>
     \<not> http_client_allows n (lit ''api.example.com'') 80 \<and> env_allows n (lit ''HOME'') \<and> \<not> env_allows n (lit ''PATH'') \<and>
     \<not> dns_allows n (lit ''example.com'') \<and> secret_source n (lit ''KEY'') \<noteq> Some (lit ''KEY'')"
proof -
  obtain n where n: "normalized_from_manifest sample_tables sample_env = Inr n" using sample_normalized by blast
  define pat where "pat = sample_pattern\<lparr>hp_original := lit ''*.example.com:443''\<rparr>"
  have pat: "host_pattern_parse (lit ''*.example.com:443'') = Inr pat"
    by (simp add: host_pattern_eval sample_pattern_def pat_def)
  have clients: "client_entries sample_tables = [lit ''*.example.com:443'']"
    and texts: "secret_texts sample_tables = []" "env_allow sample_tables = Some [lit '' HOME '']" "dns_resolve sample_tables = None"
    by (simp_all add: client_entries_def secret_texts_def sample_tables_def no_tables_def)
  have "trim (lit '' HOME '') = lit ''HOME''" by (simp add: trim_def is_whitespace_def)
  moreover have "pattern_matches pat (lit ''api.example.com'') 443" "\<not> pattern_matches pat (lit ''api.example.com'') 80"
    by (simp_all add: pat_def sample_pattern_def pattern_matches_def to_lower_def to_ascii_lowercase_def trim_start.simps
        ends_with_def strip_suffix_def)
  ultimately show ?thesis
    using n allow_lists_exact [OF n] by (auto simp: clients texts pat [simplified])
qed

text \<open>A wildcard over part of an address is accepted, and it matches addresses: \<open>*.3.4\<close> covers \<open>1.2.3.4\<close>, the numeric range that
  \<open>split_wildcard\<close> means to refuse.\<close>

lemma wildcard_over_addresses:
  "\<exists>pat. host_pattern_parse (lit ''*.3.4'') = Inr pat \<and> pattern_matches pat (lit ''1.2.3.4'') 443"
proof -
  have none: "ipv4_parse (lit ''3.4'') = None" using ipv4_parse_iff [of "lit ''3.4''"] by simp
  define pat where "pat = \<lparr>hp_host = lit ''3.4'', hp_literal = False, hp_wildcard = True, hp_port = None, hp_original = lit ''*.3.4''\<rparr>"
  have "host_pattern_parse (lit ''*.3.4'') = Inr pat"
    using none by (simp add: pat_def host_pattern_parse_def trim_def is_whitespace_def split_port_def rcut_once_def literal_of_def to_lower_def
        to_ascii_lowercase_def is_ascii_digit_def split_wildcard_def host_char_def is_ascii_alnum_def is_ascii_alphabetic_def)
  moreover have "pattern_matches pat (lit ''1.2.3.4'') 443"
    by (simp add: pat_def pattern_matches_def to_lower_def to_ascii_lowercase_def trim_start.simps ends_with_def strip_suffix_def)
  ultimately show ?thesis by blast
qed

end
