(* ===== verification/Egress.thy ===== *)
theory Egress
  imports Resolve Normalize BTree
begin

text \<open>
  The per-tenant egress policy (\<open>qqq-cap/src/egress.rs\<close>) with the text classes its identifiers are checked against
  (\<open>qqq-core/src/text.rs\<close>, \<open>qqq-cap/src/text.rs\<close>): tenant names, the policy of one tenant, and the decision whether a
  destination may be reached. The \<open>Debug\<close> rendering of a string, a table of the standard library, is the parameter \<open>dbg\<close>.
\<close>

section \<open>Tenants\<close>

definition escape_for_error :: "(ustr \<Rightarrow> ustr) \<Rightarrow> ustr \<Rightarrow> ustr" where
  "escape_for_error dbg s = concat (map (\<lambda>c. if c = 0x2800 then 92 # lit ''u{2800}'' else [c]) (dbg s))"

definition tenant_id_new :: "(ustr \<Rightarrow> ustr) \<Rightarrow> ustr \<Rightarrow> ustr + ustr" where
  "tenant_id_new dbg nm =
     (if nm = [] then Inl (msg ''a tenant id must not be empty'')
      else if 256 < length (utf8_bytes nm) then
        Inl (msg ''a tenant id must not exceed 256 bytes (got '' @ show_nat (length (utf8_bytes nm)) @
          msg '');                  longer names would not survive the audit line bound'')
      else if trim nm \<noteq> nm then
        Inl (msg ''a tenant id must not have surrounding whitespace: '' @ escape_for_error dbg nm @
          msg ''. Two spellings of one tenant would otherwise compare unequal, and a policy that matches one but not the other has a hole in it.'')
      else if list_ex (\<lambda>c. is_whitespace c \<and> c \<noteq> 32) nm then
        Inl (msg ''a tenant id must not contain non-space whitespace: '' @ escape_for_error dbg nm @
          msg ''. Two spellings of one tenant would otherwise display identically.'')
      else if list_ex (\<lambda>c. is_control c \<or> is_layout_forgery c) nm then
        Inl (msg ''a tenant id must not contain control characters; they would allow a forged line in the audit log'')
      else if list_ex is_invisible_format nm then
        Inl (msg ''a tenant id must not contain invisible format characters; two names differing only in one would display identically'')
      else if list_ex (\<lambda>c. c = 34 \<or> c = 92) nm then
        Inl (msg ''a tenant id must not contain quotes or backslashes: '' @ escape_for_error dbg nm @
          msg ''. They would desynchronise the audit record parser'')
      else Inr nm)"

section \<open>The policy of a tenant\<close>

record TenantEgress =
  allow :: "HostPattern list"
  allow_cleartext :: bool
  allow_ip_literals :: bool
  max_redirect_hops :: u8

definition deny_all :: TenantEgress where
  "deny_all = \<lparr>allow = [], allow_cleartext = False, allow_ip_literals = False, max_redirect_hops = 0\<rparr>"

definition MAX_REDIRECT_HOPS :: u8 where
  "MAX_REDIRECT_HOPS = 3"

definition allowing_cleartext :: "TenantEgress \<Rightarrow> TenantEgress" where
  "allowing_cleartext e = e\<lparr>allow_cleartext := True\<rparr>"

definition allowing_ip_literals :: "TenantEgress \<Rightarrow> TenantEgress" where
  "allowing_ip_literals e = e\<lparr>allow_ip_literals := True\<rparr>"

definition allowing_redirects :: "TenantEgress \<Rightarrow> u8 \<Rightarrow> TenantEgress" where
  "allowing_redirects e max_hops = e\<lparr>max_redirect_hops := min max_hops MAX_REDIRECT_HOPS\<rparr>"

definition tenant_from_manifest :: "Capabilities \<Rightarrow> TenantEgress" where
  "tenant_from_manifest m =
     (case http m of
        None \<Rightarrow> deny_all
      | Some h \<Rightarrow>
          (let policy = \<lparr>allow = List.map_filter (\<lambda>s. case host_pattern_parse s of Inr pat \<Rightarrow> Some pat | Inl _ \<Rightarrow> None) (http_client h),
                         allow_cleartext = False, allow_ip_literals = False, max_redirect_hops = 0\<rparr>;
               policy = (if http_cleartext h then allowing_cleartext policy else policy)
           in allowing_redirects policy (http_redirects h)))"

fun allow_hosts_from :: "(ustr \<Rightarrow> ustr) \<Rightarrow> nat \<Rightarrow> ustr list \<Rightarrow> ustr + HostPattern list" where
  "allow_hosts_from dbg i [] = Inr []"
| "allow_hosts_from dbg i (raw # hosts) =
     (case host_pattern_parse raw of
        Inl e \<Rightarrow> Inl (msg ''egress pattern #'' @ show_nat i @ msg '' ('' @ dbg raw @ msg ''): '' @ e)
      | Inr pat \<Rightarrow> (case allow_hosts_from dbg (i + 1) hosts of Inl e \<Rightarrow> Inl e | Inr pats \<Rightarrow> Inr (pat # pats)))"

definition allowing_hosts :: "(ustr \<Rightarrow> ustr) \<Rightarrow> ustr list \<Rightarrow> ustr + TenantEgress" where
  "allowing_hosts dbg hosts =
     (case allow_hosts_from dbg 0 hosts of
        Inl e \<Rightarrow> Inl e
      | Inr pats \<Rightarrow> Inr \<lparr>allow = pats, allow_cleartext = False, allow_ip_literals = False, max_redirect_hops = 0\<rparr>)"

definition permits :: "TenantEgress \<Rightarrow> ustr \<Rightarrow> u16 \<Rightarrow> HostPattern option" where
  "permits e h p = find (\<lambda>pat. pattern_matches pat h p) (allow e)"

section \<open>Destinations\<close>

datatype Scheme = SHttps | SHttp

record Destination =
  dest_host :: ustr
  dest_port :: u16
  dest_scheme :: Scheme

definition is_ipv4_literal :: "ustr \<Rightarrow> bool" where
  "is_ipv4_literal h =
     (let parts = split_on 46 h in
      if length parts \<noteq> 4 then False
      else list_all (\<lambda>p. p \<noteq> [] \<and> length (utf8_bytes p) \<le> 3 \<and> list_all is_ascii_digit p \<and>
             \<not> (1 < length (utf8_bytes p) \<and> strip_prefix (lit ''0'') p \<noteq> None) \<and> parse_uint 8 p \<noteq> None) parts)"

definition is_ipv6_literal :: "ustr \<Rightarrow> bool" where
  "is_ipv6_literal h =
     (let bare = rev (dropWhile (\<lambda>c. c = 93) (rev (dropWhile (\<lambda>c. c = 91) h))) in
      58 \<in> set bare \<and> ipv6_parse bare \<noteq> None)"

definition host_is_ip_literal :: "Destination \<Rightarrow> bool" where
  "host_is_ip_literal d \<longleftrightarrow> is_ipv4_literal (dest_host d) \<or> is_ipv6_literal (dest_host d)"

datatype Denial =
    CapabilityNotGranted
  | NoTenantPolicy
  | HostNotAllowed
  | CleartextNotAllowed
  | IpLiteralNotAllowed
  | MalformedHost ustr

fun denial_label :: "Denial \<Rightarrow> ustr" where
  "denial_label CapabilityNotGranted = lit ''capability_not_granted''"
| "denial_label NoTenantPolicy = lit ''no_tenant_policy''"
| "denial_label HostNotAllowed = lit ''host_not_allowed''"
| "denial_label CleartextNotAllowed = lit ''cleartext_not_allowed''"
| "denial_label IpLiteralNotAllowed = lit ''ip_literal_not_allowed''"
| "denial_label (MalformedHost _) = lit ''malformed_host''"

datatype EgressDecision = EAllow HostPattern | EDeny Denial

type_synonym EgressPolicy = "(ustr \<times> TenantEgress) list"

definition policy_set :: "EgressPolicy \<Rightarrow> ustr \<Rightarrow> TenantEgress \<Rightarrow> EgressPolicy" where
  "policy_set ts t e = btree_insert t e ts"

definition policy_get :: "EgressPolicy \<Rightarrow> ustr \<Rightarrow> TenantEgress option" where
  "policy_get ts t = map_of ts t"

definition policy_tenants :: "EgressPolicy \<Rightarrow> ustr list" where
  "policy_tenants ts = map fst ts"

text \<open>The syntax checks on a host, in order; the first that fails is the reason.\<close>

definition bad_char :: "nat \<Rightarrow> ustr \<Rightarrow> bool" where
  "bad_char bad h \<longleftrightarrow>
     \<not> (bad = 58 \<and> (strip_prefix (lit ''['') h \<noteq> None \<or> ipv6_parse h \<noteq> None)) \<and> bad \<in> set h"

definition malformed_host :: "ustr \<Rightarrow> ustr option" where
  "malformed_host h =
     (if h = [] then Some (msg ''it is empty'')
      else if list_ex is_whitespace h then Some (msg ''it contains whitespace'')
      else if 47 \<in> set h then Some (msg ''it contains a path separator; a destination is a host, not a URL'')
      else case find (\<lambda>bad. bad_char bad h) [58, 63, 35] of
        Some bad \<Rightarrow>
          Some (msg ''it contains '' @ ticks [bad] @
            msg '', which never appears in a bare hostname; bracket IPv6 literals as `[::1]` and put paths, queries, and fragments in the request, not the destination'')
      | None \<Rightarrow>
          if 0 \<in> set h then Some (msg ''it contains a NUL byte'')
          else if 64 \<in> set h then Some (msg ''it contains userinfo; a destination is a host, not `user@host`'')
          else if 37 \<in> set h then Some (msg ''it contains a zone ID, which this policy does not support'')
          else if 46 \<notin> set h \<and> list_all is_ascii_digit h then
            Some (msg ''it is all digits and reads as a numeric IP address; write the dotted-quad form instead'')
          else if contains_str (lit ''0x'') h \<or> contains_str (lit ''0X'') h then
            Some (msg ''it looks like a hexadecimal IP literal, which this policy does not support; write the dotted-quad form instead'')
          else None)"

definition authorize :: "EgressPolicy \<Rightarrow> GrantSet \<Rightarrow> ustr \<Rightarrow> Destination \<Rightarrow> EgressDecision" where
  "authorize ts g t d =
     (if \<not> grants_cap g HttpClient then EDeny CapabilityNotGranted
      else case malformed_host (dest_host d) of
        Some why \<Rightarrow> EDeny (MalformedHost why)
      | None \<Rightarrow>
          (case map_of ts t of
             None \<Rightarrow> EDeny NoTenantPolicy
           | Some e \<Rightarrow>
               if host_is_ip_literal d \<and> \<not> allow_ip_literals e then EDeny IpLiteralNotAllowed
               else if dest_scheme d = SHttp \<and> \<not> allow_cleartext e then EDeny CleartextNotAllowed
               else (case permits e (dest_host d) (dest_port d) of
                       Some matched \<Rightarrow> EAllow matched
                     | None \<Rightarrow> EDeny HostNotAllowed)))"

section \<open>Addresses as text\<close>

lemma length_utf8_digits: "list_all is_ascii_digit p \<Longrightarrow> length (utf8_bytes p) = length p"
  by (induction p) (auto simp: length_utf8_bytes is_ascii_digit_def len_utf8_def)

lemma strip_zero: "strip_prefix (lit ''0'') p \<noteq> None \<longleftrightarrow> p \<noteq> [] \<and> hd p = 48"
  by (cases p) auto

lemma parse_uint_digits: "p \<noteq> [] \<Longrightarrow> list_all is_ascii_digit p \<Longrightarrow> parse_uint n p \<noteq> None \<longleftrightarrow> digits_val p < 2 ^ n"
  by (cases p) (auto simp: parse_uint_def Let_def is_ascii_digit_def)

lemma octet_ok_literal:
  "octet_ok p \<longleftrightarrow> p \<noteq> [] \<and> length (utf8_bytes p) \<le> 3 \<and> list_all is_ascii_digit p \<and>
     \<not> (1 < length (utf8_bytes p) \<and> strip_prefix (lit ''0'') p \<noteq> None) \<and> parse_uint 8 p \<noteq> None"
  unfolding octet_ok_def strip_zero using length_utf8_digits [of p] parse_uint_digits [of p 8] by auto

text \<open>The hand-written classifier accepts exactly the dotted quads of the standard library.\<close>

lemma is_ipv4_literal_iff: "is_ipv4_literal h \<longleftrightarrow> ipv4_parse h \<noteq> None"
  unfolding is_ipv4_literal_def ipv4_parse_iff Let_def octet_ok_literal [symmetric] by simp

text \<open>The characters an address consumes.\<close>

definition addr_char :: "nat \<Rightarrow> bool" where
  "addr_char c \<longleftrightarrow> is_radix_digit 16 c \<or> c = 46 \<or> c = 58"

lemma digit_addr_char: "is_radix_digit 10 c \<Longrightarrow> addr_char c" "is_radix_digit 16 c \<Longrightarrow> addr_char c"
  by (auto simp: addr_char_def is_radix_digit_def Let_def split: option.splits if_splits)

lemma read_number_consumes:
  assumes "read_number radix mx z b s = Some (v, r)" "radix = 10 \<or> radix = 16"
  shows "\<exists>p. s = p @ r \<and> list_all addr_char p"
proof -
  have "s = takeWhile (is_radix_digit radix) s @ r"
    using assms(1) takeWhile_dropWhile_id [of "is_radix_digit radix" s, symmetric]
    by (auto simp: read_number_def Let_def dropWhile_eq_drop split: if_splits)
  moreover have "list_all addr_char (takeWhile (is_radix_digit radix) s)"
    using assms(2) digit_addr_char by (auto simp: list_all_iff dest: set_takeWhileD)
  ultimately show ?thesis by blast
qed

lemma consumes_trans:
  "(\<exists>p. s = p @ m \<and> list_all P p) \<Longrightarrow> (\<exists>p. m = p @ r \<and> list_all P p) \<Longrightarrow> \<exists>p. s = p @ r \<and> list_all P p"
  by (metis append.assoc list_all_append)

lemma read_char_consumes: "read_char c s = Some r \<Longrightarrow> addr_char c \<Longrightarrow> \<exists>p. s = p @ r \<and> list_all addr_char p"
  by (auto simp: read_char_iff intro: exI [of _ "[c]"])

lemma read_octets_consumes: "read_octets n s = Some (os, r) \<Longrightarrow> \<exists>p. s = p @ r \<and> list_all addr_char p"
proof (induction n s arbitrary: os r rule: read_octets.induct)
  case (1 s)
  then show ?case using read_number_consumes [of 10] by (fastforce simp: read_octet_def split: option.splits)
next
  case (2 n s)
  obtain v s1 s2 os' where r: "read_octet s = Some (v, s1)" "read_char 46 s1 = Some s2" "read_octets n s2 = Some (os', r)"
    using 2(2) by (auto split: option.splits)
  have "\<exists>p. s = p @ s1 \<and> list_all addr_char p" using r(1) read_number_consumes [of 10] by (auto simp: read_octet_def)
  moreover have "\<exists>p. s1 = p @ s2 \<and> list_all addr_char p" using read_char_consumes [OF r(2)] by (simp add: addr_char_def)
  moreover have "\<exists>p. s2 = p @ r \<and> list_all addr_char p" using 2(1) [OF r(1)] r(2,3) by auto
  ultimately show ?case using consumes_trans by metis
qed

lemma after_colon_consumes:
  assumes "after_colon i f s = Some (v, r)" "\<And>s v r. f s = Some (v, r) \<Longrightarrow> \<exists>p. s = p @ r \<and> list_all addr_char p"
  shows "\<exists>p. s = p @ r \<and> list_all addr_char p"
proof (cases "i = 0")
  case True
  then show ?thesis using assms by (simp add: after_colon_def)
next
  case False
  then obtain m where m: "read_char 58 s = Some m" "f m = Some (v, r)" using assms(1) by (auto simp: after_colon_def split: option.splits)
  then show ?thesis using consumes_trans [OF read_char_consumes [OF m(1)] assms(2) [OF m(2)]] by (simp add: addr_char_def)
qed

lemma read_groups_consumes: "read_groups i n s = (gs, v4, r) \<Longrightarrow> \<exists>p. s = p @ r \<and> list_all addr_char p"
proof (induction i n s arbitrary: gs v4 r rule: read_groups.induct)
  case (2 i n s)
  let ?v = "if 0 < n then after_colon i read_ipv4 s else None"
  show ?case
  proof (cases ?v)
    case (Some x)
    then obtain os s' where "after_colon i read_ipv4 s = Some (os, s')" "r = s'" using 2(2) by (cases x) (auto split: if_splits)
    then show ?thesis using after_colon_consumes read_octets_consumes by (metis read_ipv4_def)
  next
    case None
    show ?thesis
    proof (cases "after_colon i read_group s")
      case (Some x)
      then obtain g s' gs' where g: "after_colon i read_group s = Some (g, s')" "read_groups (i + 1) n s' = (gs', v4, r)"
        using 2(2) None by (cases x) (auto split: prod.splits)
      have "\<exists>p. s = p @ s' \<and> list_all addr_char p"
        using after_colon_consumes [OF g(1)] read_number_consumes [of 16] by (auto simp: read_group_def)
      moreover have "\<exists>p. s' = p @ r \<and> list_all addr_char p" using 2(1) [OF None] g by auto
      ultimately show ?thesis using consumes_trans by metis
    qed (use 2(2) None in simp)
  qed
qed simp

lemma read_groups_colon:
  "read_groups 0 8 s = (gs, v4, r) \<Longrightarrow> length gs = 8 \<Longrightarrow> 58 \<in> set s"
proof -
  assume a: "read_groups 0 8 s = (gs, v4, r)" "length gs = 8"
  have a8: "read_groups 0 (Suc 7) s = (gs, v4, r)" using a(1) by simp
  have no4: "after_colon 0 read_ipv4 s = None"
  proof (rule ccontr)
    assume "after_colon 0 read_ipv4 s \<noteq> None"
    then obtain x where "after_colon 0 read_ipv4 s = Some x" by blast
    then have "length gs = 2" using a8 [unfolded read_groups.simps] by (cases x) auto
    then show False using a(2) by simp
  qed
  obtain x where x: "after_colon 0 read_group s = Some x"
    using a8 [unfolded read_groups.simps] no4 a(2) by (cases "after_colon 0 read_group s") auto
  obtain g s' where gs: "x = (g, s')" by (cases x)
  obtain gs' v r' where r: "read_groups (0 + 1) 7 s' = (gs', v, r')" by (cases "read_groups (0 + 1) 7 s'")
  have eq: "gs = g # gs'" using a8 [unfolded read_groups.simps] no4 x gs r by simp
  have g: "after_colon 0 read_group s = Some (g, s')" "read_groups 1 7 s' = (gs', v, r')" "length gs' = 7"
    using x gs r a(2) eq by simp_all
  have "\<exists>p. s = p @ s'" using g(1) after_colon_consumes [OF g(1)] read_number_consumes [of 16] by (auto simp: read_group_def)
  moreover have "58 \<in> set s'"
  proof (rule ccontr)
    assume "58 \<notin> set s'"
    then have "read_char 58 s' = None" by (cases s') (auto simp: read_char_def)
    then have "read_groups 1 (Suc 6) s' = ([], False, s')" unfolding read_groups.simps by (simp add: after_colon_def)
    then have "read_groups 1 7 s' = ([], False, s')" by simp
    then show False using g(2,3) by simp
  qed
  ultimately show ?thesis by auto
qed

lemma ipv6_text: "ipv6_parse s = Some gs \<Longrightarrow> list_all addr_char s \<and> 58 \<in> set s"
proof -
  assume a: "ipv6_parse s = Some gs"
  then have a: "read_ipv6 s = Some (gs, [])" by (auto simp: ipv6_parse_def split: option.splits list.splits)
  obtain front v4 s1 where f: "read_groups 0 8 s = (front, v4, s1)" by (cases "read_groups 0 8 s")
  show ?thesis
  proof (cases "length front = 8")
    case True
    then have "s1 = []" using a f by (simp add: read_ipv6_def)
    then show ?thesis using read_groups_consumes [OF f] read_groups_colon [OF f True] by auto
  next
    case False
    then obtain m s2 b v s3 where c: "read_char 58 s1 = Some m" "read_char 58 m = Some s2"
        "read_groups 0 (8 - (length front + 1)) s2 = (b, v, s3)" "s3 = []"
      using a f by (auto simp: read_ipv6_def Option.bind_eq_Some_conv split: option.splits if_splits prod.splits)
    have s1: "s1 = 58 # 58 # s2" using c(1,2) by (simp add: read_char_iff)
    obtain p where p: "s = p @ s1" "list_all addr_char p" using read_groups_consumes [OF f] by blast
    moreover have "list_all addr_char s2" using read_groups_consumes [OF c(3)] c(4) by auto
    ultimately show ?thesis by (auto simp: s1 addr_char_def)
  qed
qed

lemma ipv6_no_brackets: "ipv6_parse s = Some gs \<Longrightarrow> 91 \<notin> set s \<and> 93 \<notin> set s"
proof -
  assume "ipv6_parse s = Some gs"
  then have "\<forall>c \<in> set s. addr_char c" using ipv6_text by (simp add: list_all_iff)
  moreover have "\<not> addr_char 91" "\<not> addr_char 93" by (simp_all add: addr_char_def is_radix_digit_def)
  ultimately show ?thesis by blast
qed


text \<open>Letter case does not change which address a text is.\<close>

lemma lower_digit: "digit_val 16 (to_ascii_lowercase c) = digit_val 16 c"
  by (auto simp: to_ascii_lowercase_def Let_def)

lemma lower_char: "to_ascii_lowercase c = k \<longleftrightarrow> c = k" if "k < 65"
  using that by (auto simp: to_ascii_lowercase_def)

lemma lower_decimal: "digit_val 10 (to_ascii_lowercase c) = digit_val 10 c"
  by (auto simp: to_ascii_lowercase_def Let_def)

lemma takeWhile_lower:
  "(\<And>c. P (to_ascii_lowercase c) = P c) \<Longrightarrow> takeWhile P (to_lower s) = to_lower (takeWhile P s)"
  by (induction s) (simp_all add: to_lower_def)

lemma radix_value_lower:
  "(\<And>c. digit_val radix (to_ascii_lowercase c) = digit_val radix c) \<Longrightarrow> radix_value radix (to_lower ds) = radix_value radix ds"
  by (induction ds rule: rev_induct) (simp_all add: radix_value_def to_lower_def del: digit_val.simps)

lemma read_number_lower:
  assumes "radix = 10 \<or> radix = 16"
  shows "read_number radix mx z b (to_lower s) = map_option (\<lambda>(v, r). (v, to_lower r)) (read_number radix mx z b s)"
proof -
  have d: "digit_val radix (to_ascii_lowercase c) = digit_val radix c" for c
    using assms by (elim disjE) (simp_all only: lower_digit lower_decimal)
  let ?p = "takeWhile (is_radix_digit radix) s"
  have tw: "takeWhile (is_radix_digit radix) (to_lower s) = to_lower ?p"
    by (rule takeWhile_lower) (simp add: is_radix_digit_def d del: digit_val.simps)
  have "?p \<noteq> [] \<Longrightarrow> hd (to_lower ?p) = 48 \<longleftrightarrow> hd ?p = 48" by (simp add: to_lower_def hd_map lower_char)
  moreover have "drop n (to_lower s) = to_lower (drop n s)" for n by (simp add: to_lower_def drop_map)
  moreover have "length (to_lower ?p) = length ?p" "to_lower ?p = [] \<longleftrightarrow> ?p = []" by (simp_all add: to_lower_def)
  ultimately show ?thesis
    by (cases "?p = []") (simp_all add: read_number_def Let_def tw radix_value_lower [OF d] del: digit_val.simps)
qed

lemma read_char_lower: "c < 65 \<Longrightarrow> read_char c (to_lower s) = map_option to_lower (read_char c s)"
  by (auto simp: read_char_def to_lower_def lower_char split: list.splits)

lemma read_octets_lower: "read_octets n (to_lower s) = map_option (\<lambda>(v, r). (v, to_lower r)) (read_octets n s)"
proof (induction n arbitrary: s)
  case 0
  show ?case by (auto simp: read_octet_def read_number_lower split: option.splits)
next
  case (Suc n)
  show ?case by (auto simp: read_octet_def read_number_lower read_char_lower Suc.IH split: option.splits)
qed

lemma after_colon_lower:
  "(\<And>s. f (to_lower s) = map_option (\<lambda>(v, r). (v, to_lower r)) (f s)) \<Longrightarrow>
   after_colon i f (to_lower s) = map_option (\<lambda>(v, r). (v, to_lower r)) (after_colon i f s)"
  by (auto simp: after_colon_def read_char_lower split: option.splits)

lemma read_groups_lower: "read_groups i n (to_lower s) = (case read_groups i n s of (gs, v4, r) \<Rightarrow> (gs, v4, to_lower r))"
proof (induction i n s rule: read_groups.induct)
  case (2 i n s)
  have v: "after_colon i read_ipv4 (to_lower s) = map_option (\<lambda>(v, r). (v, to_lower r)) (after_colon i read_ipv4 s)"
    by (rule after_colon_lower) (simp add: read_ipv4_def read_octets_lower)
  have g: "after_colon i read_group (to_lower s) = map_option (\<lambda>(v, r). (v, to_lower r)) (after_colon i read_group s)"
    by (rule after_colon_lower) (simp add: read_group_def read_number_lower)
  show ?case
  proof (cases "if 0 < n then after_colon i read_ipv4 s else None")
    case None
    then have "after_colon i read_ipv4 s = None \<or> n = 0" by (auto split: if_splits)
    then show ?thesis using 2 [OF None] by (auto simp: v g split: option.splits prod.splits)
  qed (auto simp: v split: if_splits prod.splits)
qed simp

lemma read_ipv6_lower: "read_ipv6 (to_lower s) = map_option (\<lambda>(gs, r). (gs, to_lower r)) (read_ipv6 s)"
proof -
  obtain f v s1 where f: "read_groups 0 8 s = (f, v, s1)" by (cases "read_groups 0 8 s")
  then show ?thesis
    by (auto simp: read_ipv6_def read_groups_lower read_char_lower Option.bind_eq_Some_conv split: prod.splits option.splits bind_splits)
qed

lemma ip_parse_lower: "ip_parse (to_lower s) = ip_parse s"
proof -
  have nil: "to_lower r = [] \<longleftrightarrow> r = []" for r by (simp add: to_lower_def)
  have "ipv6_parse (to_lower s) = ipv6_parse s"
    by (auto simp: ipv6_parse_def read_ipv6_lower nil split: option.splits list.splits) (auto simp: to_lower_def)
  then show ?thesis by (auto simp: ip_parse_def read_ipv4_def read_octets_lower nil split: option.splits)
qed

lemma dropWhile_absent: "x \<notin> set s \<Longrightarrow> dropWhile (\<lambda>c. c = x) s = s"
  by (cases s) auto

lemma strip_brackets_cases: "strip_brackets h = h \<or> h = 91 # strip_brackets h @ [93]"
  by (auto simp: strip_brackets_def Option.bind_eq_Some_conv strip_prefix_Some strip_suffix_iff split: option.splits bind_splits)

lemma ip_parse_V4: "ip_parse s = Some (V4 os) \<Longrightarrow> ipv4_parse s \<noteq> None"
proof -
  assume "ip_parse s = Some (V4 os)"
  then have "\<exists>os. read_octets 3 s = Some (os, [])" by (auto simp: ip_parse_def read_ipv4_def split: option.splits if_splits)
  then show ?thesis using read_octets_iff [of 3 s] ipv4_parse_iff [of s] by simp
qed

text \<open>Whatever the standard library reads as an address, the classifier calls a literal.\<close>

lemma bare_literal: "ip_parse h = Some a \<Longrightarrow> is_ipv4_literal h \<or> is_ipv6_literal h"
proof (cases a)
  case (V4 os)
  assume "ip_parse h = Some a"
  then show ?thesis using V4 ip_parse_V4 is_ipv4_literal_iff by blast
next
  case (V6 gs)
  assume "ip_parse h = Some a"
  then have v: "ipv6_parse h = Some gs" using V6 by (auto simp: ip_parse_def split: option.splits if_splits)
  then show ?thesis using ipv6_text [OF v] ipv6_no_brackets [OF v] by (simp add: is_ipv6_literal_def dropWhile_absent)
qed

lemma bracketed_literal: "ipv6_parse (strip_brackets h) = Some gs \<Longrightarrow> is_ipv6_literal h"
proof -
  assume a: "ipv6_parse (strip_brackets h) = Some gs"
  note t = ipv6_text [OF a] ipv6_no_brackets [OF a]
  have ne: "strip_brackets h \<noteq> []" using t by auto
  have bare: "rev (dropWhile (\<lambda>c. c = 93) (rev (dropWhile (\<lambda>c. c = 91) h))) = strip_brackets h"
    using strip_brackets_cases [of h]
  proof
    assume "h = 91 # strip_brackets h @ [93]"
    then have "dropWhile (\<lambda>c. c = 91) h = strip_brackets h @ [93]"
      using t ne by (metis (mono_tags, lifting) append_Cons dropWhile.simps(2) dropWhile_absent list.exhaust list.set_intros(1))
    then show ?thesis using t by (simp add: dropWhile_absent)
  qed (use t in \<open>simp add: dropWhile_absent\<close>)
  then show ?thesis using a t by (simp add: is_ipv6_literal_def)
qed

section \<open>The decision\<close>

lemma permits_Some: "permits e h p = Some pat \<Longrightarrow> pat \<in> set (allow e) \<and> pattern_matches pat h p"
  by (auto simp: permits_def find_Some_iff)

lemma permits_None: "permits e h p = None \<longleftrightarrow> (\<forall>pat \<in> set (allow e). \<not> pattern_matches pat h p)"
  by (auto simp: permits_def find_None_iff)

text \<open>The conditions of an allowed request, each a layer of the policy.\<close>

lemma authorize_Allow:
  "authorize ts g t d = EAllow pat \<longleftrightarrow>
     grants_cap g HttpClient \<and> malformed_host (dest_host d) = None \<and>
     (\<exists>e. map_of ts t = Some e \<and> (host_is_ip_literal d \<longrightarrow> allow_ip_literals e) \<and> (dest_scheme d = SHttp \<longrightarrow> allow_cleartext e) \<and>
        permits e (dest_host d) (dest_port d) = Some pat)"
  by (auto simp: authorize_def split: option.splits)

text \<open>The texts a destination may be, and those that read as an address: a dotted quad, or an IPv6 address with any brackets
  around it.\<close>

definition bare_host :: "ustr \<Rightarrow> bool" where
  "bare_host h \<longleftrightarrow> h \<noteq> [] \<and> (\<forall>c \<in> set h. \<not> is_whitespace c) \<and> set h \<inter> {47, 63, 35, 0, 64, 37} = {} \<and>
     (58 \<in> set h \<longrightarrow> hd h = 91 \<or> ipv6_parse h \<noteq> None) \<and>
     (46 \<in> set h \<or> (\<exists>c \<in> set h. \<not> is_ascii_digit c)) \<and>
     (\<nexists>a b. h = a @ lit ''0x'' @ b \<or> h = a @ lit ''0X'' @ b)"

definition address_text :: "ustr \<Rightarrow> bool" where
  "address_text h \<longleftrightarrow> ipv4_parse h \<noteq> None \<or> (\<exists>i a j. h = replicate i 91 @ a @ replicate j 93 \<and> ipv6_parse a \<noteq> None)"

lemma contains_str_iff: "contains_str p s \<longleftrightarrow> (\<exists>a b. s = a @ p @ b)"
proof (induction p s rule: contains_str.induct)
  case (2 p x xs)
  have "(\<exists>a b. x # xs = a @ p @ b) \<longleftrightarrow> (\<exists>b. x # xs = p @ b) \<or> (\<exists>a b. xs = a @ p @ b)"
    by (auto simp: Cons_eq_append_conv intro: exI [of _ "[]"])
  moreover have "strip_prefix p (x # xs) \<noteq> None \<longleftrightarrow> (\<exists>b. x # xs = p @ b)" by (auto simp: strip_prefix_Some)
  ultimately show ?case using 2 by simp
qed simp

lemma malformed_host_None: "malformed_host h = None \<longleftrightarrow> bare_host h"
proof -
  have b: "strip_prefix (lit ''['') h \<noteq> None \<longleftrightarrow> h \<noteq> [] \<and> hd h = 91" by (cases h) auto
  have f: "find (\<lambda>bad. bad_char bad h) [58, 63, 35] = None \<longleftrightarrow>
      63 \<notin> set h \<and> 35 \<notin> set h \<and> (58 \<in> set h \<longrightarrow> h \<noteq> [] \<and> hd h = 91 \<or> ipv6_parse h \<noteq> None)"
    unfolding find.simps bad_char_def b by (simp del: lit_simps)
  have "malformed_host h = None \<longleftrightarrow> h \<noteq> [] \<and> \<not> list_ex is_whitespace h \<and> 47 \<notin> set h \<and> find (\<lambda>bad. bad_char bad h) [58, 63, 35] = None \<and>
      0 \<notin> set h \<and> 64 \<notin> set h \<and> 37 \<notin> set h \<and> \<not> (46 \<notin> set h \<and> list_all is_ascii_digit h) \<and>
      \<not> (contains_str (lit ''0x'') h \<or> contains_str (lit ''0X'') h)"
    unfolding malformed_host_def by (simp split: option.splits del: lit_simps)
  moreover have "set h \<inter> {47, 63, 35, 0, 64, 37} = {} \<longleftrightarrow> 47 \<notin> set h \<and> 63 \<notin> set h \<and> 35 \<notin> set h \<and> 0 \<notin> set h \<and> 64 \<notin> set h \<and> 37 \<notin> set h"
    by (simp add: conj_assoc)
  ultimately show ?thesis unfolding f bare_host_def contains_str_iff list_ex_iff list_all_iff by blast
qed

lemma trim_brackets:
  "rev (dropWhile (\<lambda>c. c = 93) (rev (dropWhile (\<lambda>c. c = 91) h))) = a \<Longrightarrow> \<exists>i j. h = replicate i 91 @ a @ replicate j (93 :: nat)"
proof -
  have l: "\<exists>i. s = replicate i x @ dropWhile (\<lambda>c. c = x) s" for x :: nat and s
    by (induction s) (auto intro: exI [of _ 0] exI [of _ "Suc _"])
  let ?m = "dropWhile (\<lambda>c. c = 91) h"
  assume a: "rev (dropWhile (\<lambda>c. c = 93) (rev ?m)) = a"
  obtain i where i: "h = replicate i 91 @ ?m" using l by blast
  obtain j where "rev ?m = replicate j 93 @ dropWhile (\<lambda>c. c = 93) (rev ?m)" using l by blast
  then have "?m = a @ replicate j 93" using a by (metis rev_append rev_replicate rev_rev_ident)
  then show ?thesis using i by auto
qed

lemma host_is_ip_literal_iff: "host_is_ip_literal d \<longleftrightarrow> address_text (dest_host d)"
proof -
  have "is_ipv6_literal h" if "h = replicate i 91 @ a @ replicate j 93" "ipv6_parse a = Some gs" for h i a j gs
  proof -
    note t = ipv6_text [OF that(2)] ipv6_no_brackets [OF that(2)]
    have d: "dropWhile (\<lambda>c. c = x) (replicate n x @ s) = dropWhile (\<lambda>c. c = x) s" for n and x :: nat and s by (induction n) auto
    have m: "dropWhile (\<lambda>c. c = 91) h = a @ replicate j 93" using t that(1) by (cases a) (simp_all add: d)
    have "rev (dropWhile (\<lambda>c. c = 93) (rev (dropWhile (\<lambda>c. c = 91) h))) = a" unfolding m using t by (simp add: d dropWhile_absent)
    then show ?thesis using that(2) t by (simp add: is_ipv6_literal_def)
  qed
  moreover have "\<exists>i a j. h = replicate i 91 @ a @ replicate j 93 \<and> ipv6_parse a \<noteq> None" if "is_ipv6_literal h" for h
    using that trim_brackets [OF refl, of h] unfolding is_ipv6_literal_def Let_def by blast
  ultimately show ?thesis unfolding host_is_ip_literal_def address_text_def is_ipv4_literal_iff by blast
qed

lemma find_first: "find P xs = Some x \<longleftrightarrow> (\<exists>us vs. xs = us @ x # vs \<and> P x \<and> (\<forall>q \<in> set us. \<not> P q))"
proof
  assume "find P xs = Some x"
  then obtain i where i: "i < length xs" "P (xs ! i)" "x = xs ! i" "\<forall>j < i. \<not> P (xs ! j)" by (auto simp: find_Some_iff)
  then have "xs = take i xs @ x # drop (Suc i) xs" by (metis id_take_nth_drop)
  moreover have "\<forall>q \<in> set (take i xs). \<not> P q" using i(1,4) by (auto simp: in_set_conv_nth)
  ultimately show "\<exists>us vs. xs = us @ x # vs \<and> P x \<and> (\<forall>q \<in> set us. \<not> P q)" using i(2,3) by metis
next
  have "find P (us @ x # vs) = Some x" if "P x" "\<forall>q \<in> set us. \<not> P q" for us vs using that by (induction us) auto
  then show "\<exists>us vs. xs = us @ x # vs \<and> P x \<and> (\<forall>q \<in> set us. \<not> P q) \<Longrightarrow> find P xs = Some x" by blast
qed

lemma permits_first:
  "permits e h p = Some pat \<longleftrightarrow> (\<exists>us vs. allow e = us @ pat # vs \<and> pattern_matches pat h p \<and> (\<forall>q \<in> set us. \<not> pattern_matches q h p))"
  unfolding permits_def by (rule find_first)

text \<open>C5. The egress policy only restricts. A request is allowed exactly when the capability engine granted outbound HTTP, the
  host is a bare one (not empty, no blank, none of \<open>/ ? # @ %\<close> and no NUL, a colon only in brackets or in an IPv6 address, not a
  number without a dot, and no \<open>0x\<close> in it), the tenant has a policy whose first matching pattern is the one returned, and the tenant
  has opted into what the request needs: cleartext, and a host that is a dotted quad or an IPv6 address, in brackets or not.
  That opt-in covers these spellings and no others: a dotted quad in brackets and a shorthand such as \<open>127.1\<close> pass
  without it, as the end of this theory shows. Narrowing the grants never turns a refusal into an answer, and a tenant without
  a policy, or with the empty one, reaches nothing.\<close>

theorem egress_only_restricts:
  "(authorize ts g t d = EAllow pat \<longleftrightarrow>
     grants_cap g HttpClient \<and> bare_host (dest_host d) \<and>
     (\<exists>e us vs. map_of ts t = Some e \<and> (dest_scheme d = SHttp \<longrightarrow> allow_cleartext e) \<and> (address_text (dest_host d) \<longrightarrow> allow_ip_literals e) \<and>
        allow e = us @ pat # vs \<and> pattern_matches pat (dest_host d) (dest_port d) \<and>
        (\<forall>q \<in> set us. \<not> pattern_matches q (dest_host d) (dest_port d)))) \<and>
   (authorize ts (foldl narrow g os) t d = EAllow pat \<longrightarrow> authorize ts g t d = EAllow pat) \<and>
   (map_of ts t = None \<or> map_of ts t = Some deny_all \<longrightarrow> authorize ts g t d \<noteq> EAllow pat)"
proof (intro conjI impI)
  show "authorize ts g t d = EAllow pat \<longleftrightarrow>
     grants_cap g HttpClient \<and> bare_host (dest_host d) \<and>
     (\<exists>e us vs. map_of ts t = Some e \<and> (dest_scheme d = SHttp \<longrightarrow> allow_cleartext e) \<and> (address_text (dest_host d) \<longrightarrow> allow_ip_literals e) \<and>
        allow e = us @ pat # vs \<and> pattern_matches pat (dest_host d) (dest_port d) \<and>
        (\<forall>q \<in> set us. \<not> pattern_matches q (dest_host d) (dest_port d)))"
    unfolding authorize_Allow malformed_host_None host_is_ip_literal_iff permits_first by blast
next
  assume "authorize ts (foldl narrow g os) t d = EAllow pat"
  moreover have "grants_cap (foldl narrow g os) HttpClient \<Longrightarrow> grants_cap g HttpClient"
    using grant_set.never_widens [of g os] by (auto simp: grants_cap_def)
  ultimately show "authorize ts g t d = EAllow pat" by (auto simp: authorize_Allow)
next
  assume "map_of ts t = None \<or> map_of ts t = Some deny_all"
  then show "authorize ts g t d \<noteq> EAllow pat" by (auto simp: authorize_Allow permits_def deny_all_def)
qed

text \<open>A policy derived from a manifest.\<close>

lemma set_map_filter: "set (List.map_filter f xs) = {y. \<exists>x \<in> set xs. f x = Some y}"
  by (induction xs) (auto split: option.splits)

lemma ok_iff: "(case x of Inl _ \<Rightarrow> None | Inr v \<Rightarrow> Some v) = Some y \<longleftrightarrow> x = Inr y"
  by (cases x) auto

lemma tenant_from_manifest:
  "pat \<in> set (allow (tenant_from_manifest m)) \<longleftrightarrow> (\<exists>s \<in> set (client_entries m). host_pattern_parse s = Inr pat)"
  "\<not> allow_ip_literals (tenant_from_manifest m)" "max_redirect_hops (tenant_from_manifest m) \<le> 3"
  "allow_cleartext (tenant_from_manifest m) \<longleftrightarrow> (\<exists>h. http m = Some h \<and> http_cleartext h)"
  by (auto simp: tenant_from_manifest_def client_entries_def deny_all_def allowing_cleartext_def allowing_redirects_def
      MAX_REDIRECT_HOPS_def Let_def set_map_filter ok_iff split: option.splits)

lemma manifest_redirects: "max_redirect_hops (tenant_from_manifest m) = (case http m of None \<Rightarrow> 0 | Some h \<Rightarrow> min (http_redirects h) 3)"
  by (simp add: tenant_from_manifest_def deny_all_def allowing_redirects_def MAX_REDIRECT_HOPS_def Let_def split: option.splits)

lemma tenant_permits:
  "(\<exists>pat. permits (tenant_from_manifest m) h p = Some pat) \<longleftrightarrow>
     (\<exists>s \<in> set (client_entries m). \<exists>pat. host_pattern_parse s = Inr pat \<and> pattern_means pat h p)"
proof -
  have "(\<exists>pat. permits (tenant_from_manifest m) h p = Some pat) \<longleftrightarrow>
      (\<exists>pat \<in> set (allow (tenant_from_manifest m)). pattern_matches pat h p)"
    using permits_None [of "tenant_from_manifest m" h p] by (metis not_None_eq)
  also have "\<dots> \<longleftrightarrow> (\<exists>s \<in> set (client_entries m). \<exists>pat. host_pattern_parse s = Inr pat \<and> pattern_matches pat h p)"
    using tenant_from_manifest(1) [where m = m] by blast
  also have "\<dots> \<longleftrightarrow> (\<exists>s \<in> set (client_entries m). \<exists>pat. host_pattern_parse s = Inr pat \<and> pattern_means pat h p)"
    using pattern_matches_means host_pattern_parse_ok by metis
  finally show ?thesis .
qed

text \<open>C13. Deployed egress is what the manifest declares. Under the policy a manifest gives its tenant and any overlays on its
  grants, a request is allowed exactly when the manifest declares \<open>http.client\<close> and every overlay keeps it, the host is a bare one and
  some client entry of the manifest means that host and port (the name, a name below a wildcard, or the address, and the port unless
  the entry has none), the request goes over TLS unless the manifest opts into cleartext, and the host is neither a dotted quad nor an
  IPv6 address, bracketed or not, because a manifest has no opt-in for those. That does not exclude every spelling of an address: a
  dotted quad in brackets and a shorthand such as \<open>127.1\<close> are let through where an entry matches them. The pattern returned is
  that of a client entry, and the tenant follows the declared number of redirects, three at most.\<close>

theorem egress_within_manifest:
  assumes "policy_get ts t = Some (tenant_from_manifest m)"
  shows "((\<exists>pat. authorize ts (foldl narrow (grant_set_from_manifest m) os) t d = EAllow pat) \<longleftrightarrow>
      HttpClient \<in> set (declared_capabilities m) \<and> (\<forall>o' \<in> set os. keeps o' HttpClient) \<and>
      bare_host (dest_host d) \<and> \<not> address_text (dest_host d) \<and>
      (dest_scheme d = SHttp \<longrightarrow> (\<exists>h. http m = Some h \<and> http_cleartext h)) \<and>
      (\<exists>s \<in> set (client_entries m). \<exists>pat. host_pattern_parse s = Inr pat \<and> (hp_port pat = None \<or> hp_port pat = Some (dest_port d)) \<and>
         (if hp_literal pat then \<exists>a. ip_parse (strip_brackets (to_lower (dest_host d))) = Some a \<and> show_ip a = hp_host pat
          else if hp_wildcard pat then \<exists>sub. sub \<noteq> [] \<and> to_lower (dest_host d) = sub @ 46 # hp_host pat
          else to_lower (dest_host d) = hp_host pat))) \<and>
    (\<forall>pat. authorize ts (foldl narrow (grant_set_from_manifest m) os) t d = EAllow pat \<longrightarrow>
      (\<exists>s \<in> set (client_entries m). host_pattern_parse s = Inr pat)) \<and>
    max_redirect_hops (tenant_from_manifest m) = (case http m of None \<Rightarrow> 0 | Some h \<Rightarrow> min (http_redirects h) 3)"
proof -
  let ?e = "tenant_from_manifest m" and ?g = "foldl narrow (grant_set_from_manifest m) os"
  have a: "authorize ts ?g t d = EAllow pat \<longleftrightarrow> grants_cap ?g HttpClient \<and> bare_host (dest_host d) \<and> \<not> address_text (dest_host d) \<and>
      (dest_scheme d = SHttp \<longrightarrow> allow_cleartext ?e) \<and> permits ?e (dest_host d) (dest_port d) = Some pat" for pat
    using assms tenant_from_manifest(2) [of m] by (auto simp: authorize_Allow policy_get_def malformed_host_None host_is_ip_literal_iff)
  have g: "grants_cap ?g HttpClient \<longleftrightarrow> HttpClient \<in> set (declared_capabilities m) \<and> (\<forall>o' \<in> set os. keeps o' HttpClient)"
    using grant_set.auth_foldl [of "grant_set_from_manifest m" os] by (auto simp: grants_cap_def grant_set_from_manifest_def)
  have "\<exists>s \<in> set (client_entries m). host_pattern_parse s = Inr pat" if "authorize ts ?g t d = EAllow pat" for pat
    using that permits_Some tenant_from_manifest(1) [of pat m] unfolding a by blast
  moreover have "(\<exists>pat. authorize ts ?g t d = EAllow pat) \<longleftrightarrow> grants_cap ?g HttpClient \<and> bare_host (dest_host d) \<and> \<not> address_text (dest_host d) \<and>
      (dest_scheme d = SHttp \<longrightarrow> allow_cleartext ?e) \<and>
      (\<exists>s \<in> set (client_entries m). \<exists>pat. host_pattern_parse s = Inr pat \<and> pattern_means pat (dest_host d) (dest_port d))"
    unfolding a tenant_permits [symmetric] by blast
  ultimately show ?thesis
    unfolding g tenant_from_manifest(4) by (simp only: pattern_means_def manifest_redirects conj_assoc) blast
qed

definition sample_policy :: EgressPolicy where
  "sample_policy = policy_set [] (lit ''acme'') (tenant_from_manifest sample_tables)"

definition sample_dest :: Destination where
  "sample_dest = \<lparr>dest_host = lit ''api.example.com'', dest_port = 443, dest_scheme = SHttps\<rparr>"

definition sample_overlay :: Overlay where
  "sample_overlay = allow_only Organization [HttpClient, FsRead] (lit ''least privilege'')"

definition allowed_pattern :: HostPattern where
  "allowed_pattern = sample_pattern\<lparr>hp_original := lit ''*.example.com:443''\<rparr>"

lemma allowed_pattern_parses: "host_pattern_parse (lit ''*.example.com:443'') = Inr allowed_pattern"
  by (simp add: host_pattern_eval sample_pattern_def allowed_pattern_def)

lemma sample_allowed:
  "authorize sample_policy (foldl narrow (grant_set_from_manifest sample_tables) [sample_overlay]) (lit ''acme'') sample_dest = EAllow allowed_pattern"
proof -
  have "permits (tenant_from_manifest sample_tables) (lit ''api.example.com'') 443 = Some allowed_pattern"
    using allowed_pattern_parses by (simp add: permits_def tenant_from_manifest_def sample_tables_def no_tables_def allowing_redirects_def
        allowed_pattern_def sample_pattern_def pattern_matches_def to_lower_def to_ascii_lowercase_def trim_start.simps ends_with_def strip_suffix_def)
  moreover have "\<not> is_ipv4_literal (lit ''api.example.com'')" "\<not> is_ipv6_literal (lit ''api.example.com'')"
    by (simp_all add: is_ipv4_literal_def is_ipv6_literal_def)
  moreover have "malformed_host (lit ''api.example.com'') = None"
    by (simp add: malformed_host_def is_whitespace_def bad_char_def is_ascii_digit_def)
  moreover have "grants_cap (foldl narrow (grant_set_from_manifest sample_tables) [sample_overlay]) HttpClient"
    by (simp add: grants_cap_def capabilities_narrow keeps_def sample_overlay_def allow_only_def grant_set_from_manifest_def set_declared granted_by_def
        sample_tables_def no_tables_def nonblank_def trim_def is_whitespace_def)
  ultimately show ?thesis
    by (simp add: authorize_Allow sample_policy_def policy_set_def sample_dest_def host_is_ip_literal_def)
qed

theorem egress_only_restricts_witness:
  "authorize sample_policy (foldl narrow (grant_set_from_manifest sample_tables) [sample_overlay]) (lit ''acme'') sample_dest = EAllow allowed_pattern \<and>
   authorize sample_policy (grant_set_from_manifest sample_tables) (lit ''acme'') sample_dest = EAllow allowed_pattern \<and>
   authorize sample_policy (grant_set_from_manifest sample_tables) (lit ''acme'') (sample_dest\<lparr>dest_host := lit ''api.example.com?x''\<rparr>) \<noteq> EAllow allowed_pattern \<and>
   map_of sample_policy (lit ''evil'') = None \<and>
   authorize sample_policy (grant_set_from_manifest sample_tables) (lit ''evil'') sample_dest \<noteq> EAllow allowed_pattern"
proof -
  note r = egress_only_restricts [where ts = sample_policy and g = "grant_set_from_manifest sample_tables" and pat = allowed_pattern and os = "[sample_overlay]"]
  have n: "map_of sample_policy (lit ''evil'') = None" by (simp add: sample_policy_def policy_set_def)
  have "\<not> bare_host (lit ''api.example.com?x'')" by (simp add: bare_host_def)
  then have "authorize sample_policy (grant_set_from_manifest sample_tables) (lit ''acme'') (sample_dest\<lparr>dest_host := lit ''api.example.com?x''\<rparr>) \<noteq> EAllow allowed_pattern"
    using r [of "lit ''acme''" "sample_dest\<lparr>dest_host := lit ''api.example.com?x''\<rparr>"] by (simp del: lit_simps)
  moreover have "authorize sample_policy (grant_set_from_manifest sample_tables) (lit ''acme'') sample_dest = EAllow allowed_pattern"
    using r [of "lit ''acme''" sample_dest] sample_allowed by blast
  moreover have "authorize sample_policy (grant_set_from_manifest sample_tables) (lit ''evil'') sample_dest \<noteq> EAllow allowed_pattern"
    using r [of "lit ''evil''" sample_dest] n by blast
  ultimately show ?thesis using sample_allowed n by blast
qed

theorem egress_within_manifest_witness:
  "policy_get sample_policy (lit ''acme'') = Some (tenant_from_manifest sample_tables) \<and>
   authorize sample_policy (foldl narrow (grant_set_from_manifest sample_tables) [sample_overlay]) (lit ''acme'') sample_dest = EAllow allowed_pattern \<and>
   HttpClient \<in> set (declared_capabilities sample_tables) \<and> keeps sample_overlay HttpClient \<and> \<not> address_text (dest_host sample_dest) \<and>
   (\<forall>pat. authorize sample_policy (foldl narrow (grant_set_from_manifest sample_tables) [sample_overlay]) (lit ''acme'')
      (sample_dest\<lparr>dest_scheme := SHttp\<rparr>) \<noteq> EAllow pat) \<and>
   max_redirect_hops (tenant_from_manifest sample_tables) = 0"
proof -
  have p: "policy_get sample_policy (lit ''acme'') = Some (tenant_from_manifest sample_tables)"
    by (simp add: policy_get_def sample_policy_def policy_set_def)
  note r = egress_within_manifest [OF p, of "[sample_overlay]"]
  have "\<forall>pat. authorize sample_policy (foldl narrow (grant_set_from_manifest sample_tables) [sample_overlay]) (lit ''acme'')
      (sample_dest\<lparr>dest_scheme := SHttp\<rparr>) \<noteq> EAllow pat"
    using r [of "sample_dest\<lparr>dest_scheme := SHttp\<rparr>"] by (simp add: sample_tables_def no_tables_def)
  then show ?thesis using r [of sample_dest] p sample_allowed by (auto simp: sample_tables_def no_tables_def)
qed

section \<open>Two gaps\<close>

text \<open>A dotted quad in brackets is no literal for the classifier, yet it matches a pattern that names the address: a tenant
  without the opt-in reaches it.\<close>

lemma read_sample_quad: "read_ipv4 (lit ''1.2.3.4'') = Some ([1, 2, 3, 4], [])"
proof -
  have "read_octets (Suc (Suc (Suc 0))) (lit ''1.2.3.4'') = Some ([1, 2, 3, 4], [])"
    by (simp add: read_octet_def read_number_def is_radix_digit_def radix_value_def read_char_def)
  then show ?thesis by (simp only: read_ipv4_def numeral_3_eq_3)
qed

lemmas classify_eval = malformed_host_def is_whitespace_def bad_char_def is_ascii_digit_def is_ipv4_literal_def is_ipv6_literal_def Let_def

lemma bracketed_quad_reached:
  "\<exists>pat. host_pattern_parse (lit ''1.2.3.4'') = Inr pat \<and> malformed_host (lit ''[1.2.3.4]'') = None \<and>
     \<not> is_ipv4_literal (lit ''[1.2.3.4]'') \<and> \<not> is_ipv6_literal (lit ''[1.2.3.4]'') \<and> pattern_matches pat (lit ''[1.2.3.4]'') 443"
proof -
  define pat where "pat = \<lparr>hp_host = lit ''1.2.3.4'', hp_literal = True, hp_wildcard = False, hp_port = None, hp_original = lit ''1.2.3.4''\<rparr>"
  have ip: "ipv4_parse (lit ''1.2.3.4'') = Some [1, 2, 3, 4]" "ip_parse (lit ''1.2.3.4'') = Some (V4 [1, 2, 3, 4])"
    using read_sample_quad by (simp_all add: ipv4_parse_def ip_parse_def)
  have shown: "show_ip (V4 [1, 2, 3, 4]) = lit ''1.2.3.4''" by (simp add: show_ipv4_def show_nat.simps)
  have "host_pattern_parse (lit ''1.2.3.4'') = Inr pat"
    using ip shown by (simp add: pat_def host_pattern_parse_def trim_def is_whitespace_def split_port_def rcut_once_def literal_of_def
        to_lower_def to_ascii_lowercase_def is_ascii_digit_def split_wildcard_def Let_def)
  moreover have "strip_brackets (to_lower (lit ''[1.2.3.4]'')) = lit ''1.2.3.4''"
    by (simp add: strip_brackets_def to_lower_def to_ascii_lowercase_def strip_suffix_def)
  then have "pattern_matches pat (lit ''[1.2.3.4]'') 443"
    unfolding pattern_matches_def Let_def using ip shown by (simp add: pat_def)
  moreover have "malformed_host (lit ''[1.2.3.4]'') = None" "\<not> is_ipv4_literal (lit ''[1.2.3.4]'')" "\<not> is_ipv6_literal (lit ''[1.2.3.4]'')"
    by (simp_all add: classify_eval)
  ultimately show ?thesis by blast
qed

text \<open>A shorthand address such as \<open>127.1\<close> is no literal for the classifier either, and a wildcard over digits matches it.\<close>

lemma shorthand_reached:
  "\<exists>pat. host_pattern_parse (lit ''*.1'') = Inr pat \<and> malformed_host (lit ''127.1'') = None \<and>
     \<not> is_ipv4_literal (lit ''127.1'') \<and> \<not> is_ipv6_literal (lit ''127.1'') \<and> pattern_matches pat (lit ''127.1'') 443"
proof -
  define pat where "pat = \<lparr>hp_host = lit ''1'', hp_literal = False, hp_wildcard = True, hp_port = None, hp_original = lit ''*.1''\<rparr>"
  have "ipv4_parse (lit ''1'') = None" using ipv4_parse_iff [of "lit ''1''"] by simp
  then have "host_pattern_parse (lit ''*.1'') = Inr pat"
    by (simp add: pat_def host_pattern_parse_def trim_def is_whitespace_def split_port_def rcut_once_def literal_of_def to_lower_def
        to_ascii_lowercase_def is_ascii_digit_def split_wildcard_def host_char_def is_ascii_alnum_def is_ascii_alphabetic_def)
  moreover have "pattern_matches pat (lit ''127.1'') 443"
    by (simp add: pat_def pattern_matches_def to_lower_def to_ascii_lowercase_def trim_start.simps ends_with_def strip_suffix_def)
  moreover have "malformed_host (lit ''127.1'') = None" "\<not> is_ipv4_literal (lit ''127.1'')" "\<not> is_ipv6_literal (lit ''127.1'')"
    by (simp_all add: classify_eval)
  ultimately show ?thesis by blast
qed

end
