(* ===== verification/Huffman.thy ===== *)
theory Huffman
  imports QQQ_Prelude "HOL-Library.Sublist"
begin

text \<open>
  The Huffman code of HPACK (\<open>qqq-serve/src/h2/hpack.rs\<close>, RFC 7541 Appendix B): the table, the encoder with its
  64-bit accumulator, and the bit-by-bit decoder with its padding rules. The code is checked to be a complete prefix code,
  and from that alone the decoder is shown to be the exact inverse of the encoder.
\<close>

unbundle bit_operations_syntax

section \<open>Errors\<close>

datatype HpackError =
    Truncated nat
  | InvalidIndex u64 ustr
  | TableSizeTooLarge u64 nat
  | BadHuffman ustr
  | StringOverrun nat nat
  | StringTooLong nat nat
  | HeaderListTooLarge ustr nat nat
  | InvalidName "u8 list"
  | HInvalidUtf8

section \<open>The table\<close>

definition HUFFMAN :: "(u32 \<times> u8) list" where
  "HUFFMAN =
     [(0x1ff8, 13), (0x7fffd8, 23), (0xfffffe2, 28), (0xfffffe3, 28), (0xfffffe4, 28), (0xfffffe5, 28), (0xfffffe6, 28), (0xfffffe7, 28),
      (0xfffffe8, 28), (0xffffea, 24), (0x3ffffffc, 30), (0xfffffe9, 28), (0xfffffea, 28), (0x3ffffffd, 30), (0xfffffeb, 28), (0xfffffec, 28),
      (0xfffffed, 28), (0xfffffee, 28), (0xfffffef, 28), (0xffffff0, 28), (0xffffff1, 28), (0xffffff2, 28), (0x3ffffffe, 30), (0xffffff3, 28),
      (0xffffff4, 28), (0xffffff5, 28), (0xffffff6, 28), (0xffffff7, 28), (0xffffff8, 28), (0xffffff9, 28), (0xffffffa, 28), (0xffffffb, 28),
      (0x14, 6), (0x3f8, 10), (0x3f9, 10), (0xffa, 12), (0x1ff9, 13), (0x15, 6), (0xf8, 8), (0x7fa, 11),
      (0x3fa, 10), (0x3fb, 10), (0xf9, 8), (0x7fb, 11), (0xfa, 8), (0x16, 6), (0x17, 6), (0x18, 6),
      (0, 5), (0x1, 5), (0x2, 5), (0x19, 6), (0x1a, 6), (0x1b, 6), (0x1c, 6), (0x1d, 6),
      (0x1e, 6), (0x1f, 6), (0x5c, 7), (0xfb, 8), (0x7ffc, 15), (0x20, 6), (0xffb, 12), (0x3fc, 10),
      (0x1ffa, 13), (0x21, 6), (0x5d, 7), (0x5e, 7), (0x5f, 7), (0x60, 7), (0x61, 7), (0x62, 7),
      (0x63, 7), (0x64, 7), (0x65, 7), (0x66, 7), (0x67, 7), (0x68, 7), (0x69, 7), (0x6a, 7),
      (0x6b, 7), (0x6c, 7), (0x6d, 7), (0x6e, 7), (0x6f, 7), (0x70, 7), (0x71, 7), (0x72, 7),
      (0xfc, 8), (0x73, 7), (0xfd, 8), (0x1ffb, 13), (0x7fff0, 19), (0x1ffc, 13), (0x3ffc, 14), (0x22, 6),
      (0x7ffd, 15), (0x3, 5), (0x23, 6), (0x4, 5), (0x24, 6), (0x5, 5), (0x25, 6), (0x26, 6),
      (0x27, 6), (0x6, 5), (0x74, 7), (0x75, 7), (0x28, 6), (0x29, 6), (0x2a, 6), (0x7, 5),
      (0x2b, 6), (0x76, 7), (0x2c, 6), (0x8, 5), (0x9, 5), (0x2d, 6), (0x77, 7), (0x78, 7),
      (0x79, 7), (0x7a, 7), (0x7b, 7), (0x7ffe, 15), (0x7fc, 11), (0x3ffd, 14), (0x1ffd, 13), (0xffffffc, 28),
      (0xfffe6, 20), (0x3fffd2, 22), (0xfffe7, 20), (0xfffe8, 20), (0x3fffd3, 22), (0x3fffd4, 22), (0x3fffd5, 22), (0x7fffd9, 23),
      (0x3fffd6, 22), (0x7fffda, 23), (0x7fffdb, 23), (0x7fffdc, 23), (0x7fffdd, 23), (0x7fffde, 23), (0xffffeb, 24), (0x7fffdf, 23),
      (0xffffec, 24), (0xffffed, 24), (0x3fffd7, 22), (0x7fffe0, 23), (0xffffee, 24), (0x7fffe1, 23), (0x7fffe2, 23), (0x7fffe3, 23),
      (0x7fffe4, 23), (0x1fffdc, 21), (0x3fffd8, 22), (0x7fffe5, 23), (0x3fffd9, 22), (0x7fffe6, 23), (0x7fffe7, 23), (0xffffef, 24),
      (0x3fffda, 22), (0x1fffdd, 21), (0xfffe9, 20), (0x3fffdb, 22), (0x3fffdc, 22), (0x7fffe8, 23), (0x7fffe9, 23), (0x1fffde, 21),
      (0x7fffea, 23), (0x3fffdd, 22), (0x3fffde, 22), (0xfffff0, 24), (0x1fffdf, 21), (0x3fffdf, 22), (0x7fffeb, 23), (0x7fffec, 23),
      (0x1fffe0, 21), (0x1fffe1, 21), (0x3fffe0, 22), (0x1fffe2, 21), (0x7fffed, 23), (0x3fffe1, 22), (0x7fffee, 23), (0x7fffef, 23),
      (0xfffea, 20), (0x3fffe2, 22), (0x3fffe3, 22), (0x3fffe4, 22), (0x7ffff0, 23), (0x3fffe5, 22), (0x3fffe6, 22), (0x7ffff1, 23),
      (0x3ffffe0, 26), (0x3ffffe1, 26), (0xfffeb, 20), (0x7fff1, 19), (0x3fffe7, 22), (0x7ffff2, 23), (0x3fffe8, 22), (0x1ffffec, 25),
      (0x3ffffe2, 26), (0x3ffffe3, 26), (0x3ffffe4, 26), (0x7ffffde, 27), (0x7ffffdf, 27), (0x3ffffe5, 26), (0xfffff1, 24), (0x1ffffed, 25),
      (0x7fff2, 19), (0x1fffe3, 21), (0x3ffffe6, 26), (0x7ffffe0, 27), (0x7ffffe1, 27), (0x3ffffe7, 26), (0x7ffffe2, 27), (0xfffff2, 24),
      (0x1fffe4, 21), (0x1fffe5, 21), (0x3ffffe8, 26), (0x3ffffe9, 26), (0xffffffd, 28), (0x7ffffe3, 27), (0x7ffffe4, 27), (0x7ffffe5, 27),
      (0xfffec, 20), (0xfffff3, 24), (0xfffed, 20), (0x1fffe6, 21), (0x3fffe9, 22), (0x1fffe7, 21), (0x1fffe8, 21), (0x7ffff3, 23),
      (0x3fffea, 22), (0x3fffeb, 22), (0x1ffffee, 25), (0x1ffffef, 25), (0xfffff4, 24), (0xfffff5, 24), (0x3ffffea, 26), (0x7ffff4, 23),
      (0x3ffffeb, 26), (0x7ffffe6, 27), (0x3ffffec, 26), (0x3ffffed, 26), (0x7ffffe7, 27), (0x7ffffe8, 27), (0x7ffffe9, 27), (0x7ffffea, 27),
      (0x7ffffeb, 27), (0xffffffe, 28), (0x7ffffec, 27), (0x7ffffed, 27), (0x7ffffee, 27), (0x7ffffef, 27), (0x7fffff0, 27), (0x3ffffee, 26),
      (0x3fffffff, 30)]"

definition EOS_SYMBOL :: nat where
  "EOS_SYMBOL = 256"

definition huffman_entry :: "u8 \<Rightarrow> u32 \<times> u8" where
  "huffman_entry b = HUFFMAN ! unat b"

text \<open>\<open>Iterator::position\<close>.\<close>

fun position :: "('a \<Rightarrow> bool) \<Rightarrow> 'a list \<Rightarrow> nat option" where
  "position P [] = None"
| "position P (x # xs) = (if P x then Some 0 else map_option Suc (position P xs))"

definition huffman_lookup :: "u32 \<Rightarrow> nat \<Rightarrow> nat option" where
  "huffman_lookup code len = position (\<lambda>(c, l). c = code \<and> unat l = len) HUFFMAN"

section \<open>Encoding\<close>

text \<open>The inner loop: whole bytes leave the accumulator.\<close>

fun drain_acc :: "u64 \<Rightarrow> nat \<Rightarrow> u8 list \<Rightarrow> nat \<times> u8 list" where
  "drain_acc acc bits out =
     (if 8 \<le> bits then drain_acc acc (bits - 8) (out @ [ucast (drop_bit (bits - 8) acc AND 0xff)])
      else (bits, out))"

declare drain_acc.simps [simp del]

fun encode_loop :: "u64 \<Rightarrow> nat \<Rightarrow> u8 list \<Rightarrow> u8 list \<Rightarrow> u64 \<times> nat \<times> u8 list" where
  "encode_loop acc bits out [] = (acc, bits, out)"
| "encode_loop acc bits out (b # bs) =
     (let (code, len) = huffman_entry b;
          acc' = push_bit (unat len) acc OR ucast code;
          (bits', out') = drain_acc acc' (bits + unat len) out
      in encode_loop acc' bits' out' bs)"

definition huffman_encode :: "u8 list \<Rightarrow> u8 list" where
  "huffman_encode input =
     (let (acc, bits, out) = encode_loop 0 0 [] input in
      if 0 < bits then
        (let shift = 8 - bits; padded = push_bit shift acc OR (push_bit shift 1 - 1)
         in out @ [ucast (padded AND 0xff)])
      else out)"

section \<open>Decoding\<close>

definition byte_bits :: "u8 \<Rightarrow> bool list" where
  "byte_bits b = map (\<lambda>shift. drop_bit shift b AND 1 = 1) (rev [0..<8])"

fun decode_bits :: "u32 \<Rightarrow> nat \<Rightarrow> u8 list \<Rightarrow> bool list \<Rightarrow> HpackError + u32 \<times> nat \<times> u8 list" where
  "decode_bits code len out [] = Inr (code, len, out)"
| "decode_bits code len out (b # bs) =
     (let code' = push_bit 1 code OR of_bool b; len' = len + 1 in
      if 38 < len' then Inl (BadHuffman (msg ''a code longer than any the table defines, plus its padding''))
      else case huffman_lookup code' len' of
        Some symbol \<Rightarrow>
          if symbol = EOS_SYMBOL then Inl (BadHuffman (msg ''the EOS symbol appeared in the string''))
          else decode_bits 0 0 (out @ [of_nat symbol]) bs
      | None \<Rightarrow> decode_bits code' len' out bs)"

definition all_ones :: "u32 \<Rightarrow> nat \<Rightarrow> bool" where
  "all_ones code len \<longleftrightarrow> 0 < len \<and> code = push_bit len 1 - 1"

definition huffman_decode :: "u8 list \<Rightarrow> HpackError + u8 list" where
  "huffman_decode input =
     (case decode_bits 0 0 [] (concat (map byte_bits input)) of
        Inl e \<Rightarrow> Inl e
      | Inr (code, len, out) \<Rightarrow>
          if 0 < len \<and> 7 < len then Inl (BadHuffman (msg ''more than 7 bits of trailing padding''))
          else if 0 < len \<and> \<not> all_ones code len then
            Inl (BadHuffman (msg ''trailing padding is not the EOS prefix (it must be all ones)''))
          else Inr out)"

section \<open>Complete prefix codes\<close>

text \<open>A list of bit strings is a complete prefix code of depth at most \<open>n\<close> when it is the empty string alone, or no string of it is
  empty and both branches are such codes.\<close>

fun has_nil :: "bool list list \<Rightarrow> bool" where
  "has_nil [] = False"
| "has_nil ([] # cs) = True"
| "has_nil ((x # xs) # cs) = has_nil cs"

fun branch :: "bool \<Rightarrow> bool list list \<Rightarrow> bool list list" where
  "branch b [] = []"
| "branch b ([] # cs) = branch b cs"
| "branch b ((x # xs) # cs) = (if (if b then x else \<not> x) then xs # branch b cs else branch b cs)"

fun complete_code :: "nat \<Rightarrow> bool list list \<Rightarrow> bool" where
  "complete_code n [[]] = True"
| "complete_code 0 cs = False"
| "complete_code (Suc n) cs = (\<not> has_nil cs \<and> complete_code n (branch True cs) \<and> complete_code n (branch False cs))"

lemma has_nil_iff: "has_nil cs \<longleftrightarrow> [] \<in> set cs"
  by (induction cs rule: has_nil.induct) auto

lemma set_branch: "xs \<in> set (branch b cs) \<longleftrightarrow> b # xs \<in> set cs"
  by (induction b cs rule: branch.induct) auto

lemma distinct_branches:
  "[] \<notin> set cs \<Longrightarrow> distinct (branch True cs) \<Longrightarrow> distinct (branch False cs) \<Longrightarrow> distinct cs"
proof (induction cs)
  case (Cons c cs)
  then obtain x xs where c: "c = x # xs" by (cases c) auto
  with Cons show ?case by (cases x) (auto simp: set_branch)
qed simp

lemma complete_code_unfold:
  "complete_code n cs \<longleftrightarrow> cs = [[]] \<or>
     (\<exists>m. n = Suc m \<and> [] \<notin> set cs \<and> complete_code m (branch True cs) \<and> complete_code m (branch False cs))"
  by (cases "(n, cs)" rule: complete_code.cases) (simp_all add: has_nil_iff del: branch.simps)

lemma complete_code_induct [consumes 1, case_names leaf node]:
  assumes "complete_code n cs" "\<And>n. P n [[]]"
    "\<And>n cs. [] \<notin> set cs \<Longrightarrow> P n (branch True cs) \<Longrightarrow> P n (branch False cs) \<Longrightarrow> P (Suc n) cs"
  shows "P n cs"
  using assms(1)
proof (induction n arbitrary: cs)
  case 0
  then show ?case using assms(2) by (auto simp: complete_code_unfold [of 0])
next
  case (Suc n)
  then show ?case using assms(2,3) by (auto simp: complete_code_unfold [of "Suc n"])
qed

lemma complete_code_distinct: "complete_code n cs \<Longrightarrow> distinct cs"
  by (induction rule: complete_code_induct) (auto intro: distinct_branches)

lemma complete_code_bound: "complete_code n cs \<Longrightarrow> c \<in> set cs \<Longrightarrow> length c \<le> n"
proof (induction arbitrary: c rule: complete_code_induct)
  case (node n cs)
  then obtain b xs where "c = b # xs" by (cases c) auto
  with node show ?case by (cases b) (auto simp: set_branch)
qed simp

text \<open>Every long enough bit string starts with exactly one code.\<close>

lemma complete_code_total: "complete_code n cs \<Longrightarrow> n \<le> length bs \<Longrightarrow> \<exists>c \<in> set cs. prefix c bs"
proof (induction arbitrary: bs rule: complete_code_induct)
  case (node n cs)
  then obtain b xs where bs: "bs = b # xs" by (cases bs) auto
  have "\<exists>c \<in> set (branch b cs). prefix c xs" using node bs by (cases b) auto
  then obtain c where "c \<in> set (branch b cs)" "prefix c xs" by blast
  then have "b # c \<in> set cs" "prefix (b # c) bs" by (simp_all add: set_branch bs)
  then show ?case by blast
qed simp

lemma complete_code_prefix_free:
  "complete_code n cs \<Longrightarrow> c \<in> set cs \<Longrightarrow> d \<in> set cs \<Longrightarrow> prefix c d \<Longrightarrow> c = d"
proof (induction arbitrary: c d rule: complete_code_induct)
  case (node n cs)
  then obtain b xs ys where "c = b # xs" "d = b # ys" by (cases c; cases d) auto
  with node show ?case by (cases b) (auto simp: set_branch)
qed simp

definition code_bits :: "u32 \<times> u8 \<Rightarrow> bool list" where
  "code_bits e = map (bit (fst e)) (rev [0..<unat (snd e)])"

fun lsb_bits :: "nat \<Rightarrow> num \<Rightarrow> bool list" where
  "lsb_bits 0 n = []"
| "lsb_bits (Suc k) num.One = True # replicate k False"
| "lsb_bits (Suc k) (num.Bit0 n) = False # lsb_bits k n"
| "lsb_bits (Suc k) (num.Bit1 n) = True # lsb_bits k n"

lemma lsb_bits_numeral:
  "lsb_bits (numeral k) num.One = True # replicate (pred_numeral k) False"
  "lsb_bits (numeral k) (num.Bit0 n) = False # lsb_bits (pred_numeral k) n"
  "lsb_bits (numeral k) (num.Bit1 n) = True # lsb_bits (pred_numeral k) n"
  by (simp_all add: numeral_eq_Suc)

lemma lsb_bits_eq: "lsb_bits k n = map (bit (numeral n :: int)) [0..<k]"
proof (induction k n rule: lsb_bits.induct)
  case (2 k)
  show ?case by (simp add: map_upt_Suc bit_1_iff map_replicate_const del: upt_Suc)
next
  case (3 k n)
  show ?case unfolding lsb_bits.simps 3 by (simp add: map_upt_Suc del: upt_Suc)
next
  case (4 k n)
  show ?case unfolding lsb_bits.simps 4 by (simp add: map_upt_Suc del: upt_Suc)
qed simp

lemma code_bits_numeral:
  "unat l \<le> 32 \<Longrightarrow> code_bits (numeral n, l) = rev (lsb_bits (unat l) n)"
  by (auto simp: code_bits_def lsb_bits_eq rev_map bit_numeral_word_iff)


lemma code_bits_0: "code_bits (0, l) = replicate (unat l) False"
  by (rule nth_equalityI) (simp_all add: code_bits_def)

lemma code_bits_1: "unat l \<le> 32 \<Longrightarrow> code_bits (1, l) = rev (lsb_bits (unat l) num.One)"
  using code_bits_numeral [of l num.One] by simp

lemma huffman_complete: "complete_code 30 (map code_bits HUFFMAN)"
  by (simp add: HUFFMAN_def code_bits_numeral code_bits_0 code_bits_1 lsb_bits_numeral) code_simp

section \<open>The code of the table\<close>

abbreviation huffman_codes :: "bool list list" where
  "huffman_codes \<equiv> map code_bits HUFFMAN"

definition sym_bits :: "u8 \<Rightarrow> bool list" where
  "sym_bits b = code_bits (huffman_entry b)"

lemma length_HUFFMAN [simp]: "length HUFFMAN = 257"
  by (simp add: HUFFMAN_def)

lemma huffman_fits: "list_all (\<lambda>(c, l). unat c < 2 ^ unat l \<and> 5 \<le> unat l \<and> unat l \<le> 30) HUFFMAN"
  by (simp add: HUFFMAN_def)

lemma entry_fits: "e \<in> set HUFFMAN \<Longrightarrow> unat (fst e) < 2 ^ unat (snd e) \<and> 5 \<le> unat (snd e) \<and> unat (snd e) \<le> 30"
  using huffman_fits by (auto simp: list_all_iff)

lemma length_code_bits [simp]: "length (code_bits e) = unat (snd e)"
  by (simp add: code_bits_def)

text \<open>The number a bit string denotes, most significant bit first.\<close>

definition bits_word :: "bool list \<Rightarrow> 'a::len word" where
  "bits_word p = horner_sum of_bool 2 (rev p)"

lemma bit_bits_word: "bit (bits_word p :: 'a::len word) i \<longleftrightarrow> i < LENGTH('a) \<and> i < length p \<and> p ! (length p - Suc i)"
  by (auto simp: bits_word_def bit_horner_sum_bit_word_iff rev_nth)

lemma bits_word_Nil [simp]: "bits_word [] = 0"
  by (simp add: bits_word_def)

lemma bits_word_snoc: "bits_word (p @ [b]) = (push_bit 1 (bits_word p) OR of_bool b :: 'a::len word)"
proof (rule bit_word_eqI)
  fix n assume "n < LENGTH('a)"
  then show "bit (bits_word (p @ [b]) :: 'a word) n = bit (push_bit 1 (bits_word p) OR of_bool b :: 'a word) n"
    by (cases n) (auto simp: bit_bits_word bit_or_iff bit_double_iff mult.commute [of _ 2] nth_append)
qed

lemma bit_unat_lt: "unat c < 2 ^ n \<Longrightarrow> bit (c :: 'a::len word) i \<Longrightarrow> i < n"
proof (rule ccontr)
  assume a: "unat c < 2 ^ n" "bit c i" "\<not> i < n"
  then have "2 ^ n \<le> (2 :: nat) ^ i" by simp
  then have "unat c < 2 ^ i" using a(1) by linarith
  then have z: "unat c div 2 ^ i = 0" by simp
  have "bit (unat c) i" using a(2) by (simp add: bit_unsigned_iff)
  then have "odd (unat c div 2 ^ i)" using bit_iff_odd by blast
  then show False unfolding z by simp
qed

lemma code_bits_iff:
  assumes "unat c < 2 ^ unat l" "length p \<le> 32"
  shows "code_bits (c, l) = p \<longleftrightarrow> c = bits_word p \<and> unat l = length p"
proof
  assume p: "code_bits (c, l) = p"
  have "bit c i = bit (bits_word p :: u32) i" for i
  proof (cases "i < unat l")
    case True
    then show ?thesis using p assms(2) by (auto simp: code_bits_def bit_bits_word rev_nth)
  next
    case False
    then show ?thesis using p bit_unat_lt [OF assms(1)] by (auto simp: code_bits_def bit_bits_word)
  qed
  then show "c = bits_word p \<and> unat l = length p" using p by (auto intro: bit_word_eqI)
next
  assume "c = bits_word p \<and> unat l = length p"
  then show "code_bits (c, l) = p" using assms(2)
    by (auto simp: code_bits_def bit_bits_word rev_nth intro!: nth_equalityI)
qed

lemma position_Some: "position P xs = Some i \<longleftrightarrow> i < length xs \<and> P (xs ! i) \<and> (\<forall>j < i. \<not> P (xs ! j))"
proof (induction xs arbitrary: i)
  case (Cons x xs)
  show ?case using Cons.IH by (cases i) (auto simp: less_Suc_eq_0_disj)
qed simp

lemma position_None: "position P xs = None \<longleftrightarrow> (\<forall>x \<in> set xs. \<not> P x)"
  by (induction xs) auto

text \<open>A lookup of pending bits finds the symbol whose code they are.\<close>

lemma lookup_iff:
  assumes "length p \<le> 32"
  shows "huffman_lookup (bits_word p) (length p) = Some s \<longleftrightarrow> s < 257 \<and> huffman_codes ! s = p"
proof -
  define P where "P = (\<lambda>(c :: u32, l :: u8). c = bits_word p \<and> unat l = length p)"
  have eq: "P (HUFFMAN ! i) \<longleftrightarrow> huffman_codes ! i = p" if "i < 257" for i
  proof (cases "HUFFMAN ! i")
    case (Pair c l)
    then have "unat c < 2 ^ unat l" using that entry_fits [of "HUFFMAN ! i"] nth_mem [of i HUFFMAN] by simp
    then show ?thesis using that code_bits_iff [OF _ assms, of c l] by (simp add: Pair P_def)
  qed
  have "distinct huffman_codes" using complete_code_distinct huffman_complete by blast
  then have "huffman_codes ! j \<noteq> p" if "huffman_codes ! s = p" "s < 257" "j < s" for j
    using that by (metis length_HUFFMAN length_map nth_eq_iff_index_eq order.strict_trans less_irrefl)
  then have "s < 257 \<and> P (HUFFMAN ! s) \<and> (\<forall>j < s. \<not> P (HUFFMAN ! j)) \<longleftrightarrow> s < 257 \<and> huffman_codes ! s = p"
    using eq order.strict_trans by metis
  then show ?thesis unfolding huffman_lookup_def P_def [symmetric] position_Some by simp
qed

lemma lookup_None: "length p \<le> 32 \<Longrightarrow> huffman_lookup (bits_word p) (length p) = None \<longleftrightarrow> p \<notin> set huffman_codes"
  using lookup_iff [of p] by (metis in_set_conv_nth length_HUFFMAN length_map not_None_eq)

section \<open>Decoding\<close>

text \<open>Bits no code is a prefix of: what the decoder may have pending.\<close>

definition pending :: "bool list \<Rightarrow> bool" where
  "pending p \<longleftrightarrow> (\<forall>c \<in> set huffman_codes. \<not> prefix c p)"

lemma code_not_Nil: "[] \<notin> set huffman_codes"
  using entry_fits by (fastforce simp: code_bits_def)

lemma pending_Nil [simp]: "pending []"
  using code_not_Nil by (auto simp: pending_def simp del: set_map)

lemma pending_short: "pending p \<Longrightarrow> length p < 30"
  using complete_code_total [OF huffman_complete, of p] by (auto simp: pending_def not_le [symmetric] simp del: set_map)

lemma pending_snoc: "pending (p @ [b]) \<longleftrightarrow> pending p \<and> p @ [b] \<notin> set huffman_codes"
  by (auto simp: pending_def prefix_snoc simp del: set_map)

lemma pending_proper_prefix: "prefix q p \<Longrightarrow> pending p \<Longrightarrow> pending q"
  by (auto simp: pending_def simp del: set_map dest: prefix_order.trans)

lemma code_pending: "c \<in> set huffman_codes \<Longrightarrow> strict_prefix q c \<Longrightarrow> pending q"
  using complete_code_prefix_free [OF huffman_complete]
  by (auto simp: pending_def simp del: set_map) (metis prefix_order.dual_order.strict_trans1 prefix_order.less_irrefl strict_prefix_def)

lemma sym_bits_code: "huffman_codes ! unat b = sym_bits b" "sym_bits b \<in> set huffman_codes"
proof -
  have "unat b < 257" using unat_lt_len [of b] by simp
  then show "huffman_codes ! unat b = sym_bits b" by (simp add: sym_bits_def huffman_entry_def)
  then show "sym_bits b \<in> set huffman_codes" using \<open>unat b < 257\<close> by (metis length_HUFFMAN length_map nth_mem)
qed

lemma decode_pending_bit:
  assumes "pending (p @ [b])"
  shows "decode_bits (bits_word p) (length p) out (b # bs) = decode_bits (bits_word (p @ [b])) (length (p @ [b])) out bs"
proof -
  have l: "length (p @ [b]) \<le> 32" using pending_short [OF assms] by simp
  then have "huffman_lookup (bits_word (p @ [b])) (length (p @ [b])) = None" "length p < 38"
    using lookup_None [OF l] assms by (auto simp: pending_snoc simp del: set_map)
  then show ?thesis by (simp add: bits_word_snoc)
qed

lemma decode_last_bit:
  assumes "pending p" "s < 257" "huffman_codes ! s = p @ [b]"
  shows "decode_bits (bits_word p) (length p) out (b # bs) =
    (if s = 256 then Inl (BadHuffman (msg ''the EOS symbol appeared in the string''))
     else decode_bits 0 0 (out @ [of_nat s]) bs)"
proof -
  have l: "length (p @ [b]) \<le> 32" using pending_short [OF assms(1)] by simp
  then have "huffman_lookup (bits_word (p @ [b])) (length (p @ [b])) = Some s" "length p < 38"
    using lookup_iff [OF l] assms by auto
  then show ?thesis by (simp add: bits_word_snoc EOS_SYMBOL_def)
qed

lemma decode_pending: "pending (p @ q) \<Longrightarrow> decode_bits (bits_word p) (length p) out (q @ bs) = decode_bits (bits_word (p @ q)) (length (p @ q)) out bs"
proof (induction q arbitrary: p)
  case (Cons b q)
  have "pending (p @ [b])" using Cons.prems by (rule pending_proper_prefix [rotated]) simp
  then show ?case using Cons.IH [of "p @ [b]"] Cons.prems decode_pending_bit [of p b out "q @ bs"] by simp
qed simp

lemma decode_code:
  assumes "s < 257" "huffman_codes ! s = c"
  shows "decode_bits 0 0 out (c @ bs) =
    (if s = 256 then Inl (BadHuffman (msg ''the EOS symbol appeared in the string''))
     else decode_bits 0 0 (out @ [of_nat s]) bs)"
proof -
  have c: "c \<in> set huffman_codes" using assms by (metis length_HUFFMAN length_map nth_mem)
  then obtain q b where q: "c = q @ [b]" using code_not_Nil by (cases c rule: rev_cases) (auto simp del: set_map)
  have "pending q" using c q by (intro code_pending [of c]) (auto simp: strict_prefix_def)
  then show ?thesis using decode_pending [of "[]" q out "b # bs"] decode_last_bit [of q s b out bs] assms q by simp
qed

text \<open>The run of the decoder on any bits: a sequence of codes and a pending rest, or an error at the end-of-string symbol.\<close>

lemma decode_bits_Inr:
  "pending p \<Longrightarrow> decode_bits (bits_word p) (length p) out bs = Inr (c, l, out') \<Longrightarrow>
   \<exists>syms q. out' = out @ syms \<and> p @ bs = concat (map sym_bits syms) @ q \<and> pending q \<and> c = bits_word q \<and> l = length q"
proof (induction bs arbitrary: p out)
  case Nil
  then have "out' = out @ [] \<and> p @ [] = concat (map sym_bits []) @ p \<and> pending p \<and> c = bits_word p \<and> l = length p" by simp
  then show ?case by blast
next
  case (Cons b bs)
  show ?case
  proof (cases "pending (p @ [b])")
    case True
    then show ?thesis using Cons.IH [OF True, of out] Cons.prems(2) decode_pending_bit [OF True, of out bs] by simp
  next
    case False
    then obtain s where s: "s < 257" "huffman_codes ! s = p @ [b]"
      using Cons.prems(1) by (metis pending_snoc in_set_conv_nth length_HUFFMAN length_map)
    have d: "s \<noteq> 256" "decode_bits 0 0 (out @ [of_nat s]) bs = Inr (c, l, out')"
      using decode_last_bit [OF Cons.prems(1) s, of out bs] Cons.prems(2) by (auto split: if_splits)
    then obtain syms q where q: "out' = (out @ [of_nat s]) @ syms" "bs = concat (map sym_bits syms) @ q" "pending q"
        "c = bits_word q" "l = length q"
      using Cons.IH [of "[]" "out @ [of_nat s]"] by auto
    have "unat (of_nat s :: u8) = s" using s(1) d(1) by (simp add: unat_of_nat)
    then have "sym_bits (of_nat s) = p @ [b]" using s(2) sym_bits_code(1) [of "of_nat s"] by simp
    then have "out' = out @ (of_nat s # syms) \<and> p @ b # bs = concat (map sym_bits (of_nat s # syms)) @ q" using q by simp
    then show ?thesis using q(3-5) by blast
  qed
qed

lemma decode_syms: "decode_bits 0 0 out (concat (map sym_bits syms) @ bs) = decode_bits 0 0 (out @ syms) bs"
proof (induction syms arbitrary: out)
  case (Cons b syms)
  have "unat b < 256" using unat_lt_len [of b] by simp
  then have "decode_bits 0 0 out (sym_bits b @ r) = decode_bits 0 0 (out @ [b]) r" for r
    using decode_code [of "unat b" "sym_bits b" out r] sym_bits_code(1) [of b] by simp
  then show ?case using Cons.IH by simp
qed simp

section \<open>Packing bits into bytes\<close>

text \<open>Bits in groups of eight, the last filled up with ones.\<close>

function pack :: "bool list \<Rightarrow> u8 list" where
  "pack bs = (if bs = [] then [] else bits_word (take 8 (bs @ replicate 7 True)) # pack (drop 8 bs))"
  by pat_completeness auto
termination by (relation "measure length") auto

declare pack.simps [simp del]

lemma byte_bits_eq: "byte_bits b = map (bit b) (rev [0..<8])"
  by (simp add: byte_bits_def and_one_eq bit_iff_odd_drop_bit odd_iff_mod_2_eq_one)

lemma byte_bits_word: "length p = 8 \<Longrightarrow> byte_bits (bits_word p) = p"
  by (auto simp: byte_bits_eq bit_bits_word rev_nth intro!: nth_equalityI)

lemma length_byte_bits [simp]: "length (byte_bits b) = 8"
  by (simp add: byte_bits_def)

lemma byte_bits_inj: "byte_bits a = byte_bits b \<Longrightarrow> a = b"
proof (rule bit_word_eqI)
  fix n assume a: "byte_bits a = byte_bits b" "n < LENGTH(8)"
  then have "rev (byte_bits a) ! n = rev (byte_bits b) ! n" by simp
  then show "bit a n = bit b n" using a(2) by (simp add: byte_bits_eq rev_map)
qed

lemma unpack_inj: "concat (map byte_bits xs) = concat (map byte_bits ys) \<Longrightarrow> xs = ys"
proof (induction xs arbitrary: ys)
  case Nil
  then show ?case by (cases ys) (auto dest!: arg_cong [of _ _ length])
next
  case (Cons x xs)
  then obtain y ys' where "ys = y # ys'" by (cases ys) (auto dest!: arg_cong [of _ _ length])
  with Cons show ?case using byte_bits_inj by auto
qed

lemma unpack_pack: "concat (map byte_bits (pack bs)) = bs @ replicate ((8 - length bs mod 8) mod 8) True"
proof (induction bs rule: pack.induct)
  case (1 bs)
  show ?case
  proof (cases "8 \<le> length bs")
    case True
    then have "bs \<noteq> []" "length (drop 8 bs) mod 8 = length bs mod 8" by (auto simp: le_mod_geq)
    then show ?thesis using 1 True pack.simps [of bs] byte_bits_word [of "take 8 bs"] by simp
  next
    case False
    then have "bs \<noteq> [] \<Longrightarrow> 8 - length bs \<le> 7" by (cases bs) auto
    then show ?thesis using False pack.simps [of bs] pack.simps [of "[]"] byte_bits_word [of "bs @ replicate (8 - length bs) True"]
      by (cases "bs = []") (simp_all add: min_def)
  qed
qed

section \<open>The encoder\<close>

text \<open>The low \<open>n\<close> bits of the accumulator, most significant first.\<close>

definition low_bits :: "nat \<Rightarrow> u64 \<Rightarrow> bool list" where
  "low_bits n acc = map (bit acc) (rev [0..<n])"

lemma length_low_bits [simp]: "length (low_bits n acc) = n"
  by (simp add: low_bits_def)

lemma nth_low_bits: "i < n \<Longrightarrow> low_bits n acc ! i = bit acc (n - Suc i)"
  by (simp add: low_bits_def rev_nth)

lemma low_bits_split: "m \<le> n \<Longrightarrow> low_bits n acc = take (n - m) (low_bits n acc) @ low_bits m acc"
  by (rule nth_equalityI) (auto simp: nth_low_bits nth_append)

lemma emitted_byte:
  assumes "8 \<le> n" "n \<le> 64"
  shows "ucast (drop_bit (n - 8) acc AND 0xff) = (bits_word (take 8 (low_bits n acc)) :: u8)"
proof (rule bit_word_eqI)
  fix i assume i: "i < LENGTH(8)"
  have m: "(0xff :: u64) = mask 8" by (simp add: mask_eq_exp_minus_1)
  show "bit (ucast (drop_bit (n - 8) acc AND 0xff) :: u8) i = bit (bits_word (take 8 (low_bits n acc)) :: u8) i"
    using i assms by (simp add: m bit_ucast_iff bit_and_iff bit_drop_bit_eq bit_mask_iff bit_bits_word nth_low_bits)
qed

lemma drain_acc_pack:
  "n \<le> 64 \<Longrightarrow> drain_acc acc n out = (n mod 8, out @ pack (take (n - n mod 8) (low_bits n acc)))"
proof (induction acc n out rule: drain_acc.induct)
  case (1 acc n out)
  show ?case
  proof (cases "8 \<le> n")
    case True
    let ?k = "n - n mod 8"
    have k: "8 \<le> ?k" "n - 8 - (n - 8) mod 8 = ?k - 8" using True by (simp_all add: le_mod_geq)
    have "drop 8 (low_bits n acc) = low_bits (n - 8) acc" by (rule nth_equalityI) (auto simp: nth_low_bits)
    then have "drop 8 (take ?k (low_bits n acc)) = take (?k - 8) (low_bits (n - 8) acc)" by (simp add: drop_take)
    then have "pack (take ?k (low_bits n acc)) = bits_word (take 8 (low_bits n acc)) # pack (take (?k - 8) (low_bits (n - 8) acc))"
      using k True pack.simps [of "take ?k (low_bits n acc)"] length_low_bits [of n acc] by (auto simp: min_def simp del: length_low_bits)
    moreover have "n - 8 \<le> 64" using 1(2) by simp
    ultimately show ?thesis
      using True 1 k emitted_byte [of n acc] drain_acc.simps [of acc n out] by (simp add: le_mod_geq)
  next
    case False
    then show ?thesis using drain_acc.simps [of acc n out] pack.simps [of "[]"] by simp
  qed
qed

lemma pack_append: "8 dvd length xs \<Longrightarrow> pack (xs @ ys) = pack xs @ pack ys"
proof (induction xs rule: pack.induct)
  case (1 xs)
  show ?case
  proof (cases "xs = []")
    case True
    then show ?thesis using pack.simps [of "[]"] by simp
  next
    case False
    then have "8 \<le> length xs" using 1(2) by (metis dvd_imp_le length_greater_0_conv)
    moreover have "8 dvd length (drop 8 xs)" using 1(2) \<open>8 \<le> length xs\<close> by simp
    ultimately show ?thesis using 1(1) False pack.simps [of xs] pack.simps [of "xs @ ys"] by simp
  qed
qed

lemma entry_bounds: "unat (fst (huffman_entry b)) < 2 ^ unat (snd (huffman_entry b))" "unat (snd (huffman_entry b)) \<le> 30"
proof -
  have "unat b < 257" using unat_lt_len [of b] by simp
  then have "huffman_entry b \<in> set HUFFMAN" by (simp add: huffman_entry_def)
  then show "unat (fst (huffman_entry b)) < 2 ^ unat (snd (huffman_entry b))" "unat (snd (huffman_entry b)) \<le> 30"
    using entry_fits by blast+
qed

lemma low_bits_push:
  assumes "n + unat l \<le> 64" "unat (c :: u32) < 2 ^ unat l"
  shows "low_bits (n + unat l) (push_bit (unat l) acc OR ucast c) = low_bits n acc @ code_bits (c, l)"
proof (rule nth_equalityI)
  fix i assume i: "i < length (low_bits (n + unat l) (push_bit (unat l) acc OR ucast c))"
  show "low_bits (n + unat l) (push_bit (unat l) acc OR ucast c) ! i = (low_bits n acc @ code_bits (c, l)) ! i"
  proof (cases "i < n")
    case True
    then have "\<not> bit c (n + unat l - Suc i)" using bit_unat_lt [OF assms(2)] by fastforce
    moreover have "unat l \<le> n + unat l - Suc i" "n + unat l - Suc i < 64" using True assms(1) by auto
    ultimately show ?thesis using True i assms(1)
      by (simp add: nth_low_bits nth_append bit_or_iff bit_push_bit_iff bit_ucast_iff)
  next
    case False
    then have "n + unat l - Suc i < unat l" "unat l - Suc (i - n) = n + unat l - Suc i" using i by auto
    then show ?thesis using False i assms(1)
      by (auto simp: nth_low_bits nth_append bit_or_iff bit_push_bit_iff bit_ucast_iff code_bits_def rev_nth dest: bit_imp_le_length)
  qed
qed (simp add: code_bits_def)

text \<open>Whole groups of eight bits and what is left over.\<close>

abbreviation whole :: "bool list \<Rightarrow> nat" where
  "whole bs \<equiv> length bs - length bs mod 8"

lemma encode_loop_pack:
  "n < 8 \<Longrightarrow> encode_loop acc n out bs = (acc', n', out') \<Longrightarrow>
   let B = low_bits n acc @ concat (map sym_bits bs) in
     n' = length B mod 8 \<and> out' = out @ pack (take (whole B) B) \<and> low_bits n' acc' = drop (whole B) B"
proof (induction bs arbitrary: acc n out)
  case Nil
  then show ?case using pack.simps [of "[]"] by (simp add: Let_def)
next
  case (Cons b bs)
  obtain c l where e: "huffman_entry b = (c, l)" by (cases "huffman_entry b")
  note bounds = entry_bounds [of b, unfolded e]
  define acc1 where "acc1 = push_bit (unat l) acc OR ucast c"
  define L where "L = low_bits n acc @ sym_bits b"
  have L: "low_bits (n + unat l) acc1 = L" "length L = n + unat l"
    using low_bits_push [of n l c acc] bounds Cons.prems(1) by (simp_all add: acc1_def L_def sym_bits_def e)
  have d: "drain_acc acc1 (n + unat l) out = (length L mod 8, out @ pack (take (whole L) L))"
    using drain_acc_pack [of "n + unat l" acc1 out] bounds Cons.prems(1) L by simp
  have rest: "low_bits (length L mod 8) acc1 = drop (whole L) L"
    using low_bits_split [of "length L mod 8" "n + unat l" acc1] L by (metis append_eq_conv_conj length_take mod_less_eq_dividend diff_le_self min.absorb2)
  define B1 where "B1 = drop (whole L) L @ concat (map sym_bits bs)"
  have run: "encode_loop acc1 (length L mod 8) (out @ pack (take (whole L) L)) bs = (acc', n', out')"
    using Cons.prems(2) d by (simp add: e acc1_def Let_def)
  have ih: "n' = length B1 mod 8" "out' = (out @ pack (take (whole L) L)) @ pack (take (whole B1) B1)" "low_bits n' acc' = drop (whole B1) B1"
    using Cons.IH [OF _ run, unfolded rest, folded B1_def, unfolded Let_def] by auto
  define B where "B = L @ concat (map sym_bits bs)"
  have B: "B = take (whole L) L @ B1" by (simp add: B_def B1_def)
  have dv: "8 dvd whole L" by (metis dvd_minus_mod)
  have len: "length (take (whole L) L) = whole L" by simp
  then have lB: "length B = whole L + length B1" by (simp add: B)
  then have m: "length B mod 8 = length B1 mod 8" using dv by (metis dvd_def mod_mult_self4)
  then have m2: "whole B = whole L + whole B1" using lB by simp
  have "take (whole B) B = take (whole L) L @ take (whole B1) B1" "drop (whole B) B = drop (whole B1) B1"
    unfolding m2 using len by (simp_all add: B)
  then have "n' = length B mod 8 \<and> out' = out @ pack (take (whole B) B) \<and> low_bits n' acc' = drop (whole B) B"
    using ih m pack_append [of "take (whole L) L"] dv len by simp
  moreover have "low_bits n acc @ concat (map sym_bits (b # bs)) = B" by (simp add: B_def L_def)
  ultimately show ?case unfolding Let_def by argo
qed

lemma final_byte:
  assumes "0 < n" "n < 8"
  shows "ucast ((push_bit (8 - n) acc OR (push_bit (8 - n) 1 - 1)) AND 0xff) = (bits_word (low_bits n acc @ replicate (8 - n) True) :: u8)"
proof (rule bit_word_eqI)
  fix i assume i: "i < LENGTH(8)"
  have m: "(0xff :: u64) = mask 8" "push_bit (8 - n) 1 - 1 = (mask (8 - n) :: u64)" by (simp_all add: mask_eq_exp_minus_1 push_bit_of_1)
  show "bit (ucast ((push_bit (8 - n) acc OR (push_bit (8 - n) 1 - 1)) AND 0xff) :: u8) i =
      bit (bits_word (low_bits n acc @ replicate (8 - n) True) :: u8) i"
    unfolding m using i assms
    by (auto simp: bit_ucast_iff bit_and_iff bit_or_iff bit_push_bit_iff bit_mask_iff bit_bits_word nth_append nth_low_bits add.commute)
qed

text \<open>The accumulator arithmetic writes exactly the codes of the bytes, packed.\<close>

lemma huffman_encode_pack: "huffman_encode bs = pack (concat (map sym_bits bs))"
proof -
  obtain acc n out where run: "encode_loop 0 0 [] bs = (acc, n, out)" by (cases "encode_loop 0 0 [] bs")
  define B where "B = concat (map sym_bits bs)"
  have r: "n = length B mod 8" "out = pack (take (whole B) B)" "low_bits n acc = drop (whole B) B"
    using encode_loop_pack [OF _ run, unfolded Let_def] by (auto simp: low_bits_def B_def)
  have "pack B = pack (take (whole B) B) @ pack (drop (whole B) B)"
    using pack_append [of "take (whole B) B" "drop (whole B) B"] by (simp add: dvd_minus_mod)
  moreover have "pack (drop (whole B) B) = (if n = 0 then [] else [bits_word (low_bits n acc @ replicate (8 - n) True)])"
  proof -
    have n: "length (drop (whole B) B) = n" "n < 8" using r(1) by simp_all
    then show ?thesis using pack.simps [of "drop (whole B) B"] pack.simps [of "[]"] r(3) by (cases "drop (whole B) B = []") (auto simp: min_def)
  qed
  moreover have "n < 8" using r(1) by simp
  ultimately show ?thesis using run r(2) final_byte [of n acc] by (simp add: huffman_encode_def B_def)
qed

section \<open>The decoder inverts the encoder\<close>

lemma eos_code: "replicate 30 True \<in> set huffman_codes"
proof -
  have "HUFFMAN ! 256 = (0x3fffffff, 30)" by (simp add: HUFFMAN_def)
  moreover have "(0x3fffffff :: u32) = mask 30" by (simp add: mask_eq_exp_minus_1)
  moreover have "code_bits (mask 30, 30) = replicate 30 True"
    by (rule nth_equalityI) (auto simp: code_bits_def rev_nth bit_mask_iff)
  ultimately have "huffman_codes ! 256 = replicate 30 True" by simp
  moreover have "huffman_codes ! 256 \<in> set huffman_codes" by (rule nth_mem) simp
  ultimately show ?thesis by metis
qed

lemma pending_ones: "n < 30 \<Longrightarrow> pending (replicate n True)"
proof (rule code_pending [OF eos_code])
  assume n: "n < 30"
  then have "replicate 30 True = replicate n True @ replicate (30 - n) True" by (simp flip: replicate_add)
  then have "prefix (replicate n True) (replicate 30 True)" by (rule prefixI)
  moreover have "replicate n True \<noteq> replicate 30 True" using n by (metis length_replicate less_irrefl)
  ultimately show "strict_prefix (replicate n True) (replicate 30 True)" unfolding strict_prefix_def by blast
qed

lemma all_ones_iff: "0 < length q \<Longrightarrow> length q \<le> 7 \<Longrightarrow> all_ones (bits_word q) (length q) \<longleftrightarrow> q = replicate (length q) True"
proof -
  assume q: "0 < length q" "length q \<le> 7"
  have ones: "push_bit (length q) 1 - 1 = (bits_word (replicate (length q) True) :: u32)"
    by (rule bit_word_eqI) (auto simp: bit_bits_word push_bit_of_1 bit_mask_iff simp flip: mask_eq_exp_minus_1)
  have "bits_word q = (bits_word r :: u32) \<Longrightarrow> length r = length q \<Longrightarrow> q = r" for r
  proof (rule nth_equalityI)
    fix i assume a: "bits_word q = (bits_word r :: u32)" "length r = length q" "i < length q"
    moreover have "length q - Suc i < 32" using q(2) by linarith
    ultimately show "q ! i = r ! i"
      using bit_bits_word [of q "length q - Suc i", where 'a = 32] bit_bits_word [of r "length q - Suc i", where 'a = 32] q by simp
  qed simp
  then show ?thesis using q ones by (auto simp: all_ones_def)
qed

lemma huffman_decode_bits:
  "huffman_decode input = Inr out \<longleftrightarrow>
     (\<exists>k \<le> 7. concat (map byte_bits input) = concat (map sym_bits out) @ replicate k True)"
proof
  assume "huffman_decode input = Inr out"
  then obtain c l where d: "decode_bits 0 0 [] (concat (map byte_bits input)) = Inr (c, l, out)" "l \<le> 7" "0 < l \<longrightarrow> all_ones c l"
    by (auto simp: huffman_decode_def split: sum.splits if_splits)
  then obtain q where q: "concat (map byte_bits input) = concat (map sym_bits out) @ q" "c = bits_word q" "l = length q"
    using decode_bits_Inr [of "[]" "[]", simplified, OF d(1)] by blast
  then have "q = replicate l True" using all_ones_iff [of q] d(2,3) by (cases "l = 0") auto
  then show "\<exists>k \<le> 7. concat (map byte_bits input) = concat (map sym_bits out) @ replicate k True" using q d(2) by blast
next
  assume "\<exists>k \<le> 7. concat (map byte_bits input) = concat (map sym_bits out) @ replicate k True"
  then obtain k where k: "k \<le> 7" "concat (map byte_bits input) = concat (map sym_bits out) @ replicate k True" by blast
  have "decode_bits 0 0 out (replicate k True @ []) = Inr (bits_word (replicate k True), k, out)"
    using decode_pending [of "[]" "replicate k True" out "[]"] pending_ones [of k] k(1) by simp
  then have "decode_bits 0 0 [] (concat (map byte_bits input)) = Inr (bits_word (replicate k True), k, out)"
    using decode_syms [of "[]" out "replicate k True"] k(2) by simp
  moreover have "0 < k \<longrightarrow> all_ones (bits_word (replicate k True)) k" using all_ones_iff [of "replicate k True"] k(1) by simp
  ultimately show "huffman_decode input = Inr out" using k(1) by (auto simp: huffman_decode_def)
qed

lemma pad_unique: "k \<le> 7 \<Longrightarrow> b + k = 8 * m \<Longrightarrow> k = (8 - b mod 8) mod (8 :: nat)"
proof (cases "k = 0")
  case False
  assume a: "k \<le> 7" "b + k = 8 * m"
  then obtain m' where "m = Suc m'" using False by (cases m) auto
  then have "b = (8 - k) + 8 * m'" using a by simp
  then have "b mod 8 = 8 - k" using False by simp
  then show ?thesis using a False by simp
qed simp

text \<open>C27. The Huffman coder of HPACK is a bijection. The decoder accepts exactly the byte strings the encoder writes and returns exactly
  the bytes they came from: whatever is encoded decodes to itself, and no second byte string, with other padding, with an
  end-of-string symbol or cut short, decodes to the same text, so two readers can not disagree about a header.\<close>

theorem huffman_canonical: "huffman_decode input = Inr out \<longleftrightarrow> input = huffman_encode out"
proof -
  let ?B = "concat (map sym_bits out)" and ?I = "concat (map byte_bits input)"
  have len: "length ?I = 8 * length input" by (induction input) simp_all
  have "(\<exists>k \<le> 7. ?I = ?B @ replicate k True) \<longleftrightarrow> ?I = ?B @ replicate ((8 - length ?B mod 8) mod 8) True"
  proof
    assume "\<exists>k \<le> 7. ?I = ?B @ replicate k True"
    then obtain k where k: "k \<le> 7" "?I = ?B @ replicate k True" by blast
    then have "length ?B + k = 8 * length input" using len by (metis length_append length_replicate)
    then have "k = (8 - length ?B mod 8) mod 8" using pad_unique k(1) by blast
    then show "?I = ?B @ replicate ((8 - length ?B mod 8) mod 8) True" using k(2) by simp
  next
    assume a: "?I = ?B @ replicate ((8 - length ?B mod 8) mod 8) True"
    have "(8 - length ?B mod 8) mod 8 \<le> 7" using mod_less_divisor [of 8 "8 - length ?B mod 8"] by simp
    with a show "\<exists>k \<le> 7. ?I = ?B @ replicate k True" by blast
  qed
  also have "\<dots> \<longleftrightarrow> ?I = concat (map byte_bits (huffman_encode out))" by (simp add: huffman_encode_pack unpack_pack)
  also have "\<dots> \<longleftrightarrow> input = huffman_encode out" using unpack_inj by blast
  finally show ?thesis by (simp add: huffman_decode_bits)
qed

end
