(* ===== verification/H2Error.thy ===== *)
theory H2Error
  imports Huffman
begin

text \<open>
  The error codes of HTTP/2 (\<open>qqq-serve/src/h2/error.rs\<close>): their wire values and names, the connection and stream errors
  with the codes they report, and the code a header-compression error maps to.
\<close>

section \<open>Codes\<close>

datatype H2ErrorCode =
    NoError | ProtocolError | H2InternalError | FlowControlError | SettingsTimeout | StreamClosed | FrameSizeError
  | RefusedStream | Cancel | CompressionError | ConnectError | EnhanceYourCalm | InadequateSecurity | Http11Required

primrec h2_as_u32 :: "H2ErrorCode \<Rightarrow> u32" where
  "h2_as_u32 NoError = 0x00"
| "h2_as_u32 ProtocolError = 0x01"
| "h2_as_u32 H2InternalError = 0x02"
| "h2_as_u32 FlowControlError = 0x03"
| "h2_as_u32 SettingsTimeout = 0x04"
| "h2_as_u32 StreamClosed = 0x05"
| "h2_as_u32 FrameSizeError = 0x06"
| "h2_as_u32 RefusedStream = 0x07"
| "h2_as_u32 Cancel = 0x08"
| "h2_as_u32 CompressionError = 0x09"
| "h2_as_u32 ConnectError = 0x0a"
| "h2_as_u32 EnhanceYourCalm = 0x0b"
| "h2_as_u32 InadequateSecurity = 0x0c"
| "h2_as_u32 Http11Required = 0x0d"

definition h2_from_u32 :: "u32 \<Rightarrow> H2ErrorCode option" where
  "h2_from_u32 n =
     (if n = 0x00 then Some NoError
      else if n = 0x01 then Some ProtocolError
      else if n = 0x02 then Some H2InternalError
      else if n = 0x03 then Some FlowControlError
      else if n = 0x04 then Some SettingsTimeout
      else if n = 0x05 then Some StreamClosed
      else if n = 0x06 then Some FrameSizeError
      else if n = 0x07 then Some RefusedStream
      else if n = 0x08 then Some Cancel
      else if n = 0x09 then Some CompressionError
      else if n = 0x0a then Some ConnectError
      else if n = 0x0b then Some EnhanceYourCalm
      else if n = 0x0c then Some InadequateSecurity
      else if n = 0x0d then Some Http11Required
      else None)"

primrec h2_as_str :: "H2ErrorCode \<Rightarrow> ustr" where
  "h2_as_str NoError = msg ''NO_ERROR''"
| "h2_as_str ProtocolError = msg ''PROTOCOL_ERROR''"
| "h2_as_str H2InternalError = msg ''INTERNAL_ERROR''"
| "h2_as_str FlowControlError = msg ''FLOW_CONTROL_ERROR''"
| "h2_as_str SettingsTimeout = msg ''SETTINGS_TIMEOUT''"
| "h2_as_str StreamClosed = msg ''STREAM_CLOSED''"
| "h2_as_str FrameSizeError = msg ''FRAME_SIZE_ERROR''"
| "h2_as_str RefusedStream = msg ''REFUSED_STREAM''"
| "h2_as_str Cancel = msg ''CANCEL''"
| "h2_as_str CompressionError = msg ''COMPRESSION_ERROR''"
| "h2_as_str ConnectError = msg ''CONNECT_ERROR''"
| "h2_as_str EnhanceYourCalm = msg ''ENHANCE_YOUR_CALM''"
| "h2_as_str InadequateSecurity = msg ''INADEQUATE_SECURITY''"
| "h2_as_str Http11Required = msg ''HTTP_1_1_REQUIRED''"

definition h2_code_display :: "H2ErrorCode \<Rightarrow> ustr" where
  "h2_code_display c = h2_as_str c @ msg '' (0x'' @ show_hex (unat (h2_as_u32 c)) @ msg '')''"

section \<open>Connection and stream errors\<close>

datatype ConnectionError =
    BadPreface ustr
  | PeerGoAway u32 "H2ErrorCode option"
  | LocalGoAway u32 H2ErrorCode
  | ConnProtocol H2ErrorCode ustr
  | Malformed H2ErrorCode ustr

fun connection_error_code :: "ConnectionError \<Rightarrow> H2ErrorCode" where
  "connection_error_code (BadPreface _) = ProtocolError"
| "connection_error_code (PeerGoAway _ _) = NoError"
| "connection_error_code (LocalGoAway _ e) = e"
| "connection_error_code (ConnProtocol c _) = c"
| "connection_error_code (Malformed c _) = c"

fun connection_is_peer_fault :: "ConnectionError \<Rightarrow> bool" where
  "connection_is_peer_fault (PeerGoAway _ _) = False"
| "connection_is_peer_fault (LocalGoAway _ _) = False"
| "connection_is_peer_fault (Malformed _ _) = False"
| "connection_is_peer_fault _ = True"

fun connection_error_as_str :: "ConnectionError \<Rightarrow> ustr" where
  "connection_error_as_str (BadPreface _) = msg ''bad-preface''"
| "connection_error_as_str (PeerGoAway _ _) = msg ''peer-goaway''"
| "connection_error_as_str (LocalGoAway _ _) = msg ''local-goaway''"
| "connection_error_as_str (ConnProtocol _ _) = msg ''protocol''"
| "connection_error_as_str (Malformed _ _) = msg ''malformed''"

fun connection_error_display :: "ConnectionError \<Rightarrow> ustr" where
  "connection_error_display (BadPreface got) =
     msg ''the client preface did not match `PRI * HTTP/2.0'' @ [92, 114, 92, 110, 92, 114, 92, 110] @ msg ''SM'' @
     [92, 114, 92, 110, 92, 114, 92, 110] @ msg ''`; received `'' @ got @ msg ''`''"
| "connection_error_display (PeerGoAway l (Some e)) =
     msg ''the peer sent GOAWAY ('' @ h2_code_display e @ msg '') after stream '' @ show_nat (unat l)"
| "connection_error_display (PeerGoAway l None) = msg ''the peer sent GOAWAY after stream '' @ show_nat (unat l)"
| "connection_error_display (LocalGoAway l e) = msg ''GOAWAY sent ('' @ h2_code_display e @ msg '') after stream '' @ show_nat (unat l)"
| "connection_error_display (ConnProtocol c d) = h2_code_display c @ msg '': '' @ d"
| "connection_error_display (Malformed c d) = msg ''malformed frame: '' @ d @ msg '' ('' @ h2_code_display c @ msg '')''"

datatype StreamError = StreamProtocol H2ErrorCode ustr | Reset H2ErrorCode | Closed

fun stream_error_code :: "StreamError \<Rightarrow> H2ErrorCode" where
  "stream_error_code (StreamProtocol c _) = c"
| "stream_error_code (Reset c) = c"
| "stream_error_code Closed = StreamClosed"

fun stream_is_peer_fault :: "StreamError \<Rightarrow> bool" where
  "stream_is_peer_fault (StreamProtocol _ _) = True"
| "stream_is_peer_fault _ = False"

fun stream_error_display :: "StreamError \<Rightarrow> ustr" where
  "stream_error_display (StreamProtocol c d) = h2_code_display c @ msg '': '' @ d"
| "stream_error_display (Reset c) = msg ''the peer reset the stream with '' @ h2_code_display c"
| "stream_error_display Closed = msg ''STREAM_CLOSED: the stream is already closed''"

section \<open>Header-compression errors\<close>

fun is_connection_fatal :: "HpackError \<Rightarrow> bool" where
  "is_connection_fatal (Truncated _) = False"
| "is_connection_fatal _ = True"

fun hpack_error_code :: "HpackError \<Rightarrow> H2ErrorCode option" where
  "hpack_error_code (Truncated _) = None"
| "hpack_error_code (InvalidIndex _ _) = Some CompressionError"
| "hpack_error_code (TableSizeTooLarge _ _) = Some CompressionError"
| "hpack_error_code (BadHuffman _) = Some CompressionError"
| "hpack_error_code HInvalidUtf8 = Some CompressionError"
| "hpack_error_code (StringOverrun _ _) = Some CompressionError"
| "hpack_error_code (StringTooLong _ _) = Some ProtocolError"
| "hpack_error_code (HeaderListTooLarge _ _ _) = Some ProtocolError"
| "hpack_error_code (InvalidName _) = Some ProtocolError"

section \<open>Lemmas\<close>

text \<open>Decoding a wire value is the exact inverse of writing a code: no value is read as two codes, and no other is accepted.\<close>

lemma h2_code_wire: "h2_from_u32 n = Some c \<longleftrightarrow> n = h2_as_u32 c"
  by (cases c) (simp_all add: h2_from_u32_def)

lemma h2_names_distinct: "h2_as_str a = h2_as_str b \<longleftrightarrow> a = b"
  by (cases a; cases b; simp add: msg_def)

text \<open>A code is reported exactly for the errors that end the connection, and it is never the code of a clean shutdown.\<close>

lemma hpack_code_fatal: "is_connection_fatal e \<longleftrightarrow> (\<exists>c. hpack_error_code e = Some c \<and> c \<noteq> NoError)"
  by (cases e) simp_all

end
