(* ===== verification/Hpack.thy ===== *)
theory Hpack
  imports H2Error Bytes Utf8
begin

text \<open>
  HPACK, the header compression of HTTP/2 (\<open>qqq-serve/src/h2/hpack.rs\<close>): the integer and string codings, the static and
  the dynamic table, the decoder and the encoder. A \<open>String\<close> is the list of its UTF-8 bytes. An operation that runs an
  eviction loop returns an option: \<open>None\<close> stands for a loop that never ends.
\<close>

section \<open>Tables and fields\<close>

definition DEFAULT_HEADER_TABLE_SIZE :: nat where
  "DEFAULT_HEADER_TABLE_SIZE = 4096"

definition MAX_HEADER_LIST_SIZE :: nat where
  "MAX_HEADER_LIST_SIZE = 64 * 1024"

definition MAX_HEADER_COUNT :: nat where
  "MAX_HEADER_COUNT = 100"

definition MAX_FIELD_BYTES :: nat where
  "MAX_FIELD_BYTES = 16 * 1024"

definition STATIC_TABLE :: "(u8 list \<times> u8 list option) list" where
  "STATIC_TABLE =
     [(ascii '':authority'', None), (ascii '':method'', Some (ascii ''GET'')),
      (ascii '':method'', Some (ascii ''POST'')), (ascii '':path'', Some (ascii ''/'')),
      (ascii '':path'', Some (ascii ''/index.html'')), (ascii '':scheme'', Some (ascii ''http'')),
      (ascii '':scheme'', Some (ascii ''https'')), (ascii '':status'', Some (ascii ''200'')),
      (ascii '':status'', Some (ascii ''204'')), (ascii '':status'', Some (ascii ''206'')),
      (ascii '':status'', Some (ascii ''304'')), (ascii '':status'', Some (ascii ''400'')),
      (ascii '':status'', Some (ascii ''404'')), (ascii '':status'', Some (ascii ''500'')),
      (ascii ''accept-charset'', None), (ascii ''accept-encoding'', Some (ascii ''gzip, deflate'')),
      (ascii ''accept-language'', None), (ascii ''accept-ranges'', None),
      (ascii ''accept'', None), (ascii ''access-control-allow-origin'', None),
      (ascii ''age'', None), (ascii ''allow'', None),
      (ascii ''authorization'', None), (ascii ''cache-control'', None),
      (ascii ''content-disposition'', None), (ascii ''content-encoding'', None),
      (ascii ''content-language'', None), (ascii ''content-length'', None),
      (ascii ''content-location'', None), (ascii ''content-range'', None),
      (ascii ''content-type'', None), (ascii ''cookie'', None),
      (ascii ''date'', None), (ascii ''etag'', None),
      (ascii ''expect'', None), (ascii ''expires'', None),
      (ascii ''from'', None), (ascii ''host'', None),
      (ascii ''if-match'', None), (ascii ''if-modified-since'', None),
      (ascii ''if-none-match'', None), (ascii ''if-range'', None),
      (ascii ''if-unmodified-since'', None), (ascii ''last-modified'', None),
      (ascii ''link'', None), (ascii ''location'', None),
      (ascii ''max-forwards'', None), (ascii ''proxy-authenticate'', None),
      (ascii ''proxy-authorization'', None), (ascii ''range'', None),
      (ascii ''referer'', None), (ascii ''refresh'', None),
      (ascii ''retry-after'', None), (ascii ''server'', None),
      (ascii ''set-cookie'', None), (ascii ''strict-transport-security'', None),
      (ascii ''transfer-encoding'', None), (ascii ''user-agent'', None),
      (ascii ''vary'', None), (ascii ''via'', None),
      (ascii ''www-authenticate'', None)]"

definition STATIC_TABLE_LEN :: nat where
  "STATIC_TABLE_LEN = length STATIC_TABLE"

definition static_entry :: "nat \<Rightarrow> (u8 list \<times> u8 list option) option" where
  "static_entry index = (if index = 0 \<or> STATIC_TABLE_LEN < index then None else Some (STATIC_TABLE ! (index - 1)))"

definition static_exact :: "u8 list \<Rightarrow> u8 list \<Rightarrow> nat option" where
  "static_exact nm v = map_option Suc (position (\<lambda>(n, w). n = nm \<and> w = Some v) STATIC_TABLE)"

definition static_name :: "u8 list \<Rightarrow> nat option" where
  "static_name nm = map_option Suc (position (\<lambda>(n, _). n = nm) STATIC_TABLE)"

record HeaderField =
  hf_name :: "u8 list"
  hf_value :: "u8 list"

definition mk_field :: "u8 list \<Rightarrow> u8 list \<Rightarrow> HeaderField" where
  "mk_field n v = \<lparr>hf_name = n, hf_value = v\<rparr>"

definition is_pseudo :: "HeaderField \<Rightarrow> bool" where
  "is_pseudo f \<longleftrightarrow> take 1 (hf_name f) = [58]"

section \<open>Integers\<close>

definition prefix_mask :: "nat \<Rightarrow> u8" where
  "prefix_mask prefix_bits = of_nat (2 ^ prefix_bits - 1)"

function int_tail :: "u64 \<Rightarrow> u8 list" where
  "int_tail r = (if 128 \<le> r then (ucast (r mod 128) OR 0x80) # int_tail (r div 128) else [ucast r])"
  by pat_completeness auto
termination
  by (relation "measure unat") (auto simp: word_le_nat_alt unat_div)

declare int_tail.simps [simp del]

definition encode_integer :: "u64 \<Rightarrow> nat \<Rightarrow> u8 \<Rightarrow> u8 list" where
  "encode_integer v prefix_bits first_byte =
     (let mask = prefix_mask prefix_bits; max_prefix = ucast mask in
      if v < max_prefix then [first_byte OR ucast v] else (first_byte OR mask) # int_tail (v - max_prefix))"

definition overflow_msg :: ustr where
  "overflow_msg = msg ''the integer encoding (the value overflows 64 bits)''"

function decode_tail :: "u8 list \<Rightarrow> u64 \<Rightarrow> nat \<Rightarrow> nat \<Rightarrow> HpackError + u64 \<times> nat" where
  "decode_tail input v shift i =
     (if length input \<le> i then Inl (Truncated i)
      else let byte = input ! i; i' = i + 1 in
        if 64 \<le> shift then Inl (InvalidIndex umax overflow_msg)
        else case checked_add v (push_bit shift (ucast (byte AND 0x7f))) of
          None \<Rightarrow> Inl (InvalidIndex umax overflow_msg)
        | Some v' \<Rightarrow>
            if byte AND 0x80 = 0 then Inr (v', i')
            else if 63 < shift + 7 then Inl (InvalidIndex umax (msg ''the integer encoding (more than 10 continuation bytes)''))
            else decode_tail input v' (shift + 7) i')"
  by pat_completeness auto
termination
  by (relation "measure (\<lambda>(input, _, _, i). length input - i)") auto

declare decode_tail.simps [simp del]

definition decode_integer :: "u8 list \<Rightarrow> nat \<Rightarrow> nat \<Rightarrow> HpackError + u64 \<times> nat" where
  "decode_integer input prefix_bits at =
     (if length input \<le> at then Inl (Truncated at)
      else let mask = prefix_mask prefix_bits; pre = input ! at AND mask in
        if pre < mask then Inr (ucast pre, at + 1) else decode_tail input (ucast mask) 0 (at + 1))"

section \<open>Strings\<close>

definition encode_string :: "u8 list \<Rightarrow> u8 list" where
  "encode_string v =
     (let h = huffman_encode v in
      if length h < length v then encode_integer (of_nat (length h)) 7 0x80 @ h
      else encode_integer (of_nat (length v)) 7 0 @ v)"

definition decode_string :: "u8 list \<Rightarrow> nat \<Rightarrow> HpackError + u8 list \<times> nat" where
  "decode_string input at =
     (if length input \<le> at then Inl (Truncated at)
      else let huffman = (input ! at AND 0x80 \<noteq> 0) in
        case decode_integer input 7 at of
          Inl e \<Rightarrow> Inl e
        | Inr (len, i) \<Rightarrow>
            (let n = unat len; available = length input - i in
             if MAX_FIELD_BYTES < n then Inl (StringTooLong n MAX_FIELD_BYTES)
             else if available < n then Inl (StringOverrun n available)
             else let raw = take n (drop i input) in
               case (if huffman then huffman_decode raw else Inr raw) of
                 Inl e \<Rightarrow> Inl e
               | Inr s \<Rightarrow> if from_utf8_ok s then Inr (s, i + n) else Inl HInvalidUtf8))"

section \<open>The dynamic table\<close>

record DynamicTable =
  dt_entries :: "HeaderField list"
  dt_size :: nat
  dt_max :: nat
  dt_allowed :: nat

definition table_with :: "nat \<Rightarrow> DynamicTable" where
  "table_with n = \<lparr>dt_entries = [], dt_size = 0, dt_max = n, dt_allowed = n\<rparr>"

definition entry_size :: "u8 list \<Rightarrow> u8 list \<Rightarrow> nat" where
  "entry_size n v = length n + length v + 32"

definition evict_one :: "DynamicTable \<Rightarrow> DynamicTable" where
  "evict_one t =
     (if dt_entries t = [] then t
      else let e = last (dt_entries t) in
        t\<lparr>dt_entries := butlast (dt_entries t), dt_size := dt_size t - entry_size (hf_name e) (hf_value e)\<rparr>)"

text \<open>The loop that evicts until \<open>need\<close> more bytes fit. Without entries an iteration changes nothing.\<close>

function evict_until :: "nat \<Rightarrow> DynamicTable \<Rightarrow> DynamicTable option" where
  "evict_until need t =
     (if dt_max t < dt_size t + need then (if dt_entries t = [] then None else evict_until need (evict_one t)) else Some t)"
  by pat_completeness auto
termination
  by (relation "measure (\<lambda>(_, t). length (dt_entries t))") (auto simp: evict_one_def Let_def)

declare evict_until.simps [simp del]

definition set_max_size :: "nat \<Rightarrow> DynamicTable \<Rightarrow> (DynamicTable \<times> HpackError option) option" where
  "set_max_size n t =
     (if dt_allowed t < n then Some (t, Some (TableSizeTooLarge (of_nat n) (dt_allowed t)))
      else map_option (\<lambda>t'. (t', None)) (evict_until 0 (t\<lparr>dt_max := n\<rparr>)))"

definition set_allowed_max :: "nat \<Rightarrow> DynamicTable \<Rightarrow> DynamicTable option" where
  "set_allowed_max n t =
     (let t = t\<lparr>dt_allowed := n\<rparr> in if n < dt_max t then evict_until 0 (t\<lparr>dt_max := n\<rparr>) else Some t)"

definition dt_insert :: "u8 list \<Rightarrow> u8 list \<Rightarrow> DynamicTable \<Rightarrow> DynamicTable option" where
  "dt_insert n v t =
     (let sz = entry_size n v in
      if dt_max t < sz then Some (t\<lparr>dt_entries := [], dt_size := 0\<rparr>)
      else map_option (\<lambda>t'. t'\<lparr>dt_size := dt_size t' + sz, dt_entries := mk_field n v # dt_entries t'\<rparr>) (evict_until sz t))"

definition dt_lookup :: "nat \<Rightarrow> DynamicTable \<Rightarrow> HeaderField option" where
  "dt_lookup index t = (if index = 0 \<or> length (dt_entries t) < index then None else Some (dt_entries t ! (index - 1)))"

definition dt_find :: "u8 list \<Rightarrow> u8 list \<Rightarrow> DynamicTable \<Rightarrow> nat option" where
  "dt_find n v t = map_option Suc (position (\<lambda>e. hf_name e = n \<and> hf_value e = v) (dt_entries t))"

definition dt_find_name :: "u8 list \<Rightarrow> DynamicTable \<Rightarrow> nat option" where
  "dt_find_name n t = map_option Suc (position (\<lambda>e. hf_name e = n) (dt_entries t))"

section \<open>The decoder\<close>

record Decoder =
  d_table :: DynamicTable
  max_header_list_size :: nat
  max_header_count :: nat

definition decoder_with_table_size :: "nat \<Rightarrow> Decoder" where
  "decoder_with_table_size n =
     \<lparr>d_table = table_with n, max_header_list_size = MAX_HEADER_LIST_SIZE, max_header_count = MAX_HEADER_COUNT\<rparr>"

definition decoder_new :: Decoder where
  "decoder_new = decoder_with_table_size DEFAULT_HEADER_TABLE_SIZE"

definition set_max_header_list_size :: "nat \<Rightarrow> Decoder \<Rightarrow> Decoder" where
  "set_max_header_list_size n d = d\<lparr>max_header_list_size := n\<rparr>"

definition decoder_set_allowed :: "nat \<Rightarrow> Decoder \<Rightarrow> Decoder option" where
  "decoder_set_allowed n d = map_option (\<lambda>t. d\<lparr>d_table := t\<rparr>) (set_allowed_max n (d_table d))"

definition decoder_lookup :: "DynamicTable \<Rightarrow> u64 \<Rightarrow> HpackError + HeaderField" where
  "decoder_lookup t ix =
     (if ix = 0 then Inl (InvalidIndex 0 (msg ''either table''))
      else let index = unat ix in
        case static_entry index of
          Some (n, v) \<Rightarrow> Inr (mk_field n (case v of Some w \<Rightarrow> w | None \<Rightarrow> []))
        | None \<Rightarrow>
            if index < STATIC_TABLE_LEN + 1 then Inl (InvalidIndex ix (msg ''either table''))
            else let dynamic_index = index - STATIC_TABLE_LEN - 1 in
              case dt_lookup (dynamic_index + 1) t of
                Some f \<Rightarrow> Inr f
              | None \<Rightarrow>
                  Inl (InvalidIndex ix
                    (if dynamic_index < length (dt_entries t) then msg ''either table'' else msg ''the dynamic table'')))"

definition check_total :: "Decoder \<Rightarrow> nat \<Rightarrow> nat \<Rightarrow> HpackError + nat" where
  "check_total d sofar add =
     (let nxt = sofar + add in
      if max_header_list_size d < nxt then Inl (HeaderListTooLarge (msg ''size'') nxt (max_header_list_size d)) else Inr nxt)"

definition name_byte :: "u8 \<Rightarrow> bool" where
  "name_byte b \<longleftrightarrow> (97 \<le> b \<and> b \<le> 122) \<or> (48 \<le> b \<and> b \<le> 57) \<or>
     b \<in> {33, 35, 36, 37, 38, 39, 42, 43, 45, 46, 94, 95, 96, 124, 126}"

text \<open>The bytes of the first \<open>n\<close> characters.\<close>

function take_chars :: "nat \<Rightarrow> u8 list \<Rightarrow> u8 list" where
  "take_chars n [] = []"
| "take_chars 0 (b # bs) = []"
| "take_chars (Suc n) (b # bs) =
     b # takeWhile (\<lambda>c. is_cont (unat c)) bs @ take_chars n (dropWhile (\<lambda>c. is_cont (unat c)) bs)"
  by pat_completeness auto
termination
  by (relation "measure fst") auto

definition hpack_validate_name :: "u8 list \<Rightarrow> HpackError option" where
  "hpack_validate_name nm =
     (if nm = [] then Some (InvalidName [])
      else let body = (if hd nm = 58 then tl nm else nm) in
        if body \<noteq> [] \<and> list_all name_byte body then None else Some (InvalidName (take_chars 32 nm)))"

definition decode_literal :: "DynamicTable \<Rightarrow> u8 list \<Rightarrow> nat \<Rightarrow> nat \<Rightarrow> HpackError + u8 list \<times> u8 list \<times> nat" where
  "decode_literal t block at prefix_bits =
     (case decode_integer block prefix_bits at of
        Inl e \<Rightarrow> Inl e
      | Inr (index, i) \<Rightarrow>
          (case (if index = 0 then decode_string block i
                 else (case decoder_lookup t index of Inl e \<Rightarrow> Inl e | Inr f \<Rightarrow> Inr (hf_name f, i))) of
             Inl e \<Rightarrow> Inl e
           | Inr (nm, i) \<Rightarrow>
               (case hpack_validate_name nm of
                  Some e \<Rightarrow> Inl e
                | None \<Rightarrow> (case decode_string block i of Inl e \<Rightarrow> Inl e | Inr (v, i) \<Rightarrow> Inr (nm, v, i)))))"

text \<open>One representation: the table after it, and the next offset, the field if there is one, and the running total.\<close>

definition decode_one :: "Decoder \<Rightarrow> DynamicTable \<Rightarrow> u8 list \<Rightarrow> nat \<Rightarrow> nat \<Rightarrow>
    (DynamicTable \<times> (HpackError + nat \<times> HeaderField option \<times> nat)) option" where
  "decode_one d t block i sofar =
     (let first = block ! i in
      if first AND 0x80 \<noteq> 0 then
        (case decode_integer block 7 i of
           Inl e \<Rightarrow> Some (t, Inl e)
         | Inr (index, nxt) \<Rightarrow>
             (case decoder_lookup t index of
                Inl e \<Rightarrow> Some (t, Inl e)
              | Inr f \<Rightarrow>
                  (case check_total d sofar (entry_size (hf_name f) (hf_value f)) of
                     Inl e \<Rightarrow> Some (t, Inl e)
                   | Inr tot \<Rightarrow> Some (t, Inr (nxt, Some f, tot)))))
      else if first AND 0x40 \<noteq> 0 then
        (case decode_literal t block i 6 of
           Inl e \<Rightarrow> Some (t, Inl e)
         | Inr (nm, v, nxt) \<Rightarrow>
             (case check_total d sofar (entry_size nm v) of
                Inl e \<Rightarrow> Some (t, Inl e)
              | Inr tot \<Rightarrow> map_option (\<lambda>t'. (t', Inr (nxt, Some (mk_field nm v), tot))) (dt_insert nm v t)))
      else if first AND 0x20 \<noteq> 0 then
        (case decode_integer block 5 i of
           Inl e \<Rightarrow> Some (t, Inl e)
         | Inr (sz, nxt) \<Rightarrow>
             map_option (\<lambda>(t', r). (t', case r of Some e \<Rightarrow> Inl e | None \<Rightarrow> Inr (nxt, None, sofar))) (set_max_size (unat sz) t))
      else
        (case decode_literal t block i 4 of
           Inl e \<Rightarrow> Some (t, Inl e)
         | Inr (nm, v, nxt) \<Rightarrow>
             (case check_total d sofar (entry_size nm v) of
                Inl e \<Rightarrow> Some (t, Inl e)
              | Inr tot \<Rightarrow> Some (t, Inr (nxt, Some (mk_field nm v), tot)))))"

lemma decode_tail_next: "decode_tail input v shift i = Inr (v', n) \<Longrightarrow> i < n \<and> n \<le> length input"
proof (induction input v shift i rule: decode_tail.induct)
  case (1 input v shift i)
  show ?case using 1(2) unfolding decode_tail.simps [of input v shift i]
    by (auto simp: Let_def split: if_splits option.splits dest: 1(1) [OF _ refl refl, simplified])
qed

lemma decode_integer_next: "decode_integer input p i = Inr (v, n) \<Longrightarrow> i < n \<and> n \<le> length input"
  by (auto simp: decode_integer_def Let_def split: if_splits dest!: decode_tail_next)

lemma decode_string_next: "decode_string input i = Inr (s, n) \<Longrightarrow> i < n \<and> n \<le> length input"
  by (auto simp: decode_string_def Let_def split: if_splits sum.splits prod.splits dest!: decode_integer_next)

lemma decode_literal_next: "decode_literal t input i p = Inr (nm, v, n) \<Longrightarrow> i < n \<and> n \<le> length input"
  by (fastforce simp: decode_literal_def split: if_splits sum.splits prod.splits option.splits
      dest!: decode_integer_next decode_string_next)

lemma decode_one_next: "decode_one d t block i sofar = Some (t', Inr (n, r)) \<Longrightarrow> i < n \<and> n \<le> length block"
  by (auto simp: decode_one_def Let_def split: if_splits sum.splits prod.splits option.splits
      dest!: decode_integer_next decode_literal_next)

function decode_loop :: "Decoder \<Rightarrow> DynamicTable \<Rightarrow> u8 list \<Rightarrow> nat \<Rightarrow> HeaderField list \<Rightarrow> nat \<Rightarrow>
    (DynamicTable \<times> (HpackError + HeaderField list)) option" where
  "decode_loop d t block i out sofar =
     (if length block \<le> i then Some (t, Inr out)
      else if max_header_count d \<le> length out then
        Some (t, Inl (HeaderListTooLarge (msg ''field count'') (length out + 1) (max_header_count d)))
      else case decode_one d t block i sofar of
        None \<Rightarrow> None
      | Some (t', Inl e) \<Rightarrow> Some (t', Inl e)
      | Some (t', Inr (nxt, f, tot)) \<Rightarrow>
          decode_loop d t' block nxt (case f of Some x \<Rightarrow> out @ [x] | None \<Rightarrow> out) tot)"
  by pat_completeness auto
termination
  by (relation "measure (\<lambda>(_, _, block, i, _, _). length block - i)") (auto dest!: decode_one_next)

declare decode_loop.simps [simp del]

definition decode_block :: "Decoder \<Rightarrow> u8 list \<Rightarrow> (Decoder \<times> (HpackError + HeaderField list)) option" where
  "decode_block d block = map_option (\<lambda>(t, r). (d\<lparr>d_table := t\<rparr>, r)) (decode_loop d (d_table d) block 0 [] 0)"

section \<open>The encoder\<close>

record Encoder =
  e_table :: DynamicTable
  pending_size_update :: "nat option"
  e_huffman :: bool

definition encoder_with_table_size :: "nat \<Rightarrow> Encoder" where
  "encoder_with_table_size n = \<lparr>e_table = table_with n, pending_size_update = None, e_huffman = True\<rparr>"

definition encoder_new :: Encoder where
  "encoder_new = encoder_with_table_size DEFAULT_HEADER_TABLE_SIZE"

definition set_huffman :: "bool \<Rightarrow> Encoder \<Rightarrow> Encoder" where
  "set_huffman b e = e\<lparr>e_huffman := b\<rparr>"

definition encoder_set_allowed :: "nat \<Rightarrow> Encoder \<Rightarrow> Encoder option" where
  "encoder_set_allowed n e =
     (let previous = dt_max (e_table e) in
      map_option (\<lambda>t. e\<lparr>e_table := t,
          pending_size_update := (if dt_max t \<noteq> previous then Some (dt_max t) else pending_size_update e)\<rparr>)
        (set_allowed_max n (e_table e)))"

definition push_string :: "Encoder \<Rightarrow> u8 list \<Rightarrow> u8 list" where
  "push_string e v = (if e_huffman e then encode_string v else encode_integer (of_nat (length v)) 7 0 @ v)"

definition encode_one :: "Encoder \<Rightarrow> HeaderField \<Rightarrow> (Encoder \<times> u8 list) option" where
  "encode_one e f =
     (let nm = hf_name f; v = hf_value f; t = e_table e in
      case static_exact nm v of
        Some index \<Rightarrow> Some (e, encode_integer (of_nat index) 7 0x80)
      | None \<Rightarrow>
          (case dt_find nm v t of
             Some dyn \<Rightarrow> Some (e, encode_integer (of_nat (STATIC_TABLE_LEN + dyn)) 7 0x80)
           | None \<Rightarrow>
               (let name_index =
                      (case static_name nm of
                         Some i \<Rightarrow> i
                       | None \<Rightarrow> (case dt_find_name nm t of Some i \<Rightarrow> STATIC_TABLE_LEN + i | None \<Rightarrow> 0));
                    index_it = (entry_size nm v \<le> dt_max t);
                    bytes = encode_integer (of_nat name_index) (if index_it then 6 else 4) (if index_it then 0x40 else 0) @
                      (if name_index = 0 then push_string e nm else []) @ push_string e v
                in if index_it then map_option (\<lambda>t'. (e\<lparr>e_table := t'\<rparr>, bytes)) (dt_insert nm v t)
                   else Some (e, bytes))))"

fun encode_fields :: "Encoder \<Rightarrow> HeaderField list \<Rightarrow> (Encoder \<times> u8 list) option" where
  "encode_fields e [] = Some (e, [])"
| "encode_fields e (f # fs) =
     (case encode_one e f of
        None \<Rightarrow> None
      | Some (e', b) \<Rightarrow> (case encode_fields e' fs of None \<Rightarrow> None | Some (e'', bs) \<Rightarrow> Some (e'', b @ bs)))"

definition encode_block :: "Encoder \<Rightarrow> HeaderField list \<Rightarrow> (Encoder \<times> u8 list) option" where
  "encode_block e fs =
     (let pre = (case pending_size_update e of Some n \<Rightarrow> encode_integer (of_nat n) 5 0x20 | None \<Rightarrow> []) in
      map_option (\<lambda>(e', bs). (e', pre @ bs)) (encode_fields (e\<lparr>pending_size_update := None\<rparr>) fs))"

section \<open>Integers round-trip\<close>

lemma seven_bits: "(0x7f :: u8) = mask 7" "r mod 128 = take_bit 7 (r :: u64)"
  by (simp_all add: mask_eq_exp_minus_1 take_bit_eq_mod)

lemma bit_flag: "bit (0x80 :: int) n \<longleftrightarrow> n = 7"
proof -
  have "(0x80 :: int) = push_bit 7 1" by simp
  then show ?thesis by (simp only: bit_push_bit_iff bit_1_iff) auto
qed

lemma tail_byte:
  fixes r :: u64
  shows "(ucast (r mod 128) OR 0x80 :: u8) AND 0x7f = ucast (r mod 128)" "(ucast (r mod 128) OR 0x80 :: u8) AND 0x80 \<noteq> 0"
    "ucast (ucast (r mod 128) :: u8) = r mod 128"
proof -
  show "(ucast (r mod 128) OR 0x80 :: u8) AND 0x7f = ucast (r mod 128)" unfolding seven_bits
    by (rule bit_word_eqI) (auto simp: bit_and_iff bit_or_iff bit_mask_iff bit_ucast_iff bit_take_bit_iff bit_flag)
  have "bit ((ucast (r mod 128) OR 0x80 :: u8) AND 0x80) 7" by (simp add: bit_and_iff bit_or_iff)
  then show "(ucast (r mod 128) OR 0x80 :: u8) AND 0x80 \<noteq> 0" by auto
  show "ucast (ucast (r mod 128) :: u8) = r mod 128" unfolding seven_bits
    by (rule bit_word_eqI) (auto simp: bit_ucast_iff bit_take_bit_iff)
qed

lemma last_byte:
  fixes r :: u64
  assumes "\<not> 128 \<le> r"
  shows "(ucast r :: u8) AND 0x7f = ucast r" "(ucast r :: u8) AND 0x80 = 0" "ucast (ucast r :: u8) = r"
proof -
  have "unat (r mod 128) = unat r" using assms by (simp add: unat_mod word_le_nat_alt)
  then have r: "r mod 128 = r" by (simp only: word_unat_eq_iff)
  have "(ucast (r mod 128) :: u8) AND 0x80 = 0" unfolding seven_bits
    by (rule bit_word_eqI) (auto simp: bit_and_iff bit_ucast_iff bit_take_bit_iff bit_flag)
  then show "(ucast r :: u8) AND 0x80 = 0" by (simp add: r)
  have "(ucast (r mod 128) :: u8) AND 0x7f = ucast (r mod 128)" unfolding seven_bits
    by (rule bit_word_eqI) (auto simp: bit_and_iff bit_mask_iff bit_ucast_iff bit_take_bit_iff)
  then show "(ucast r :: u8) AND 0x7f = ucast r" by (simp add: r)
  show "ucast (ucast r :: u8) = r" using tail_byte(3) [of r] by (simp add: r)
qed

lemma unat_push_bit_lt: "unat r * 2 ^ n < 2 ^ LENGTH('a) \<Longrightarrow> unat (push_bit n (r :: 'a::len word)) = unat r * 2 ^ n"
proof -
  assume a: "unat r * 2 ^ n < 2 ^ LENGTH('a)"
  have "push_bit n r = of_nat (unat r * 2 ^ n)" by (simp add: push_bit_eq_mult)
  then have "unat (push_bit n r) = unat r * 2 ^ n mod 2 ^ LENGTH('a)" by (simp only: unat_of_nat)
  then show ?thesis using a by simp
qed

lemma split_low: "(128 * q + m) * 2 ^ s = m * 2 ^ s + q * (2 :: nat) ^ (s + 7)"
  by (simp add: power_add algebra_simps)

lemma decode_int_tail:
  "unat v + unat r * 2 ^ shift < 2 ^ 64 \<Longrightarrow> shift < 64 \<Longrightarrow>
   decode_tail (pre @ int_tail r @ rest) v shift (length pre) =
     Inr (of_nat (unat v + unat r * 2 ^ shift), length pre + length (int_tail r))"
proof (induction r arbitrary: pre v shift rule: int_tail.induct)
  case (1 r)
  show ?case
  proof (cases "128 \<le> r")
    case True
    define b where "b = (ucast (r mod 128) OR 0x80 :: u8)"
    have it: "int_tail r = b # int_tail (r div 128)" using True int_tail.simps [of r] by (simp add: b_def)
    have r: "unat (r mod 128) = unat r mod 128" "unat (r div 128) = unat r div 128" by (simp_all add: unat_mod unat_div)
    have split: "unat r * 2 ^ shift = unat r mod 128 * 2 ^ shift + unat r div 128 * 2 ^ (shift + 7)"
      using split_low [of "unat r div 128" "unat r mod 128" shift] by simp
    have small: "unat r mod 128 * 2 ^ shift < 2 ^ 64" "unat v + unat r mod 128 * 2 ^ shift < 2 ^ 64"
      using 1(2) split by linarith+
    have add: "unat (push_bit shift (r mod 128)) = unat r mod 128 * 2 ^ shift"
      using small(1) r(1) unat_push_bit_lt [of "r mod 128" shift] by simp
    define v' where "v' = v + push_bit shift (r mod 128)"
    have v': "unat v' = unat v + unat r mod 128 * 2 ^ shift" using small(2) add by (simp add: v'_def unat_word_ariths)
    have "128 * 2 ^ shift \<le> unat r * 2 ^ shift" using True by (simp add: word_le_nat_alt)
    then have "128 * (2 :: nat) ^ shift < 2 ^ 64" using 1(2) by linarith
    then have "(2 :: nat) ^ (shift + 7) < 2 ^ 64" by (simp add: power_add)
    then have s: "shift + 7 < 64" by (rule power_less_imp_less_exp [rotated]) simp
    have "decode_tail (pre @ int_tail r @ rest) v shift (length pre) = decode_tail ((pre @ [b]) @ int_tail (r div 128) @ rest) v' (shift + 7) (length (pre @ [b]))"
      using decode_tail.simps [of "pre @ int_tail r @ rest" v shift "length pre"] s small add tail_byte [of r]
      by (simp add: it b_def v'_def checked_add_def nth_append)
    also have "\<dots> = Inr (of_nat (unat v' + unat (r div 128) * 2 ^ (shift + 7)), length (pre @ [b]) + length (int_tail (r div 128)))"
      by (rule 1(1) [OF True]) (use v' r(2) split 1(2) s in simp_all)
    finally show ?thesis using v' r(2) split by (simp add: it algebra_simps)
  next
    case False
    have it: "int_tail r = [ucast r]" using False int_tail.simps [of r] by simp
    have add: "unat (push_bit shift r) = unat r * 2 ^ shift" using 1(2) unat_push_bit_lt [of r shift] by simp
    have "v + push_bit shift r = of_nat (unat v + unat r * 2 ^ shift)" unfolding add [symmetric] by simp
    then show ?thesis
      using decode_tail.simps [of "pre @ int_tail r @ rest" v shift "length pre"] 1(2,3) add last_byte [OF False]
      by (simp add: it checked_add_def nth_append)
  qed
qed


lemma unat_prefix_mask: "p \<le> 8 \<Longrightarrow> unat (prefix_mask p) = 2 ^ p - 1"
proof -
  assume "p \<le> 8"
  then have "(2 :: nat) ^ p \<le> 2 ^ 8" by (rule power_increasing) simp
  then have "(2 :: nat) ^ p - 1 < 256" by simp
  then show ?thesis unfolding prefix_mask_def unat_of_nat by simp
qed

lemma prefix_mask_mask: "prefix_mask p = mask p"
  by (simp add: prefix_mask_def mask_eq_exp_minus_1 of_nat_diff)

lemma unat_up: "unat (ucast (b :: u8) :: u64) = unat b"
  using unat_lt_len [of b] by (simp add: unsigned_ucast_eq take_bit_nat_eq_self)

lemma unat_down: "unat (v :: u64) < 256 \<Longrightarrow> unat (ucast v :: u8) = unat v"
  by (simp add: unsigned_ucast_eq take_bit_nat_eq_self)

lemma and_prefix_mask: "unat b < 2 ^ p \<Longrightarrow> b AND prefix_mask p = b"
  unfolding prefix_mask_mask
  by (rule word_unat_eq_iff [THEN iffD2]) (simp add: unsigned_take_bit_eq take_bit_nat_eq_self flip: take_bit_eq_mask)

text \<open>What an encoded integer decodes to, with anything before and behind it.\<close>

lemma decode_encode_integer:
  assumes "p \<le> 8" "flag AND prefix_mask p = 0"
  shows "decode_integer (pre @ encode_integer v p flag @ rest) p (length pre) = Inr (v, length pre + length (encode_integer v p flag))"
proof -
  let ?m = "prefix_mask p"
  have um: "unat ?m = 2 ^ p - 1" using unat_prefix_mask [OF assms(1)] .
  have le: "(2 :: nat) ^ p - 1 < 256" using um unat_lt_len [of ?m] by simp
  show ?thesis
  proof (cases "v < ucast ?m")
    case True
    then have lt: "unat v < 2 ^ p - 1" using um unat_up [of ?m] by (simp add: word_less_nat_alt)
    then have uc: "unat (ucast v :: u8) = unat v" using le unat_down [of v] by simp
    have "(flag OR ucast v) AND ?m = ucast v"
      using assms(2) and_prefix_mask [of "ucast v" p] uc lt by (simp add: bit.conj_disj_distrib2)
    moreover have "(ucast v :: u8) < ?m" using uc lt um by (simp add: word_less_nat_alt)
    moreover have "ucast (ucast v :: u8) = v" by (rule word_unat_eq_iff [THEN iffD2]) (simp add: unat_up uc)
    ultimately show ?thesis using True by (simp add: decode_integer_def encode_integer_def nth_append)
  next
    case False
    have "(flag OR ?m) AND ?m = ?m" by (simp add: bit.conj_disj_distrib2)
    moreover have le: "unat (ucast ?m :: u64) \<le> unat v" using False by (simp add: word_less_nat_alt not_less)
    then have "unat (v - ucast ?m) = unat v - unat (ucast ?m :: u64)" by (simp add: unat_sub_if')
    then have "unat (ucast ?m :: u64) + unat (v - ucast ?m) = unat v" using le by simp
    ultimately show ?thesis
      using False decode_int_tail [of "ucast ?m" "v - ucast ?m" 0 "pre @ [flag OR ?m]" rest] unat_lt_len [of v]
      by (simp add: decode_integer_def encode_integer_def nth_append Let_def)
  qed
qed

section \<open>Strings round-trip\<close>

lemma encode_integer_not_Nil [simp]: "encode_integer v p flag \<noteq> []"
  by (simp add: encode_integer_def Let_def)

lemma encode_integer_hd: "\<exists>w. hd (encode_integer v p flag) = flag OR w \<and> unat w \<le> unat (prefix_mask p)"
proof (cases "v < ucast (prefix_mask p)")
  case True
  then have "unat v < unat (prefix_mask p)" using unat_up [of "prefix_mask p"] by (simp add: word_less_nat_alt)
  then have "unat (ucast v :: u8) \<le> unat (prefix_mask p)" using unat_down [of v] unat_lt_len [of "prefix_mask p"] by simp
  then show ?thesis using True by (auto simp: encode_integer_def)
qed (auto simp: encode_integer_def Let_def)

text \<open>A flag above the prefix is read back from the first byte.\<close>

lemma first_flag:
  assumes "p \<le> k" "k < 8"
  shows "bit (hd (encode_integer v p flag)) k \<longleftrightarrow> bit flag k"
proof -
  obtain w where w: "hd (encode_integer v p flag) = flag OR w" "unat w \<le> unat (prefix_mask p)" using encode_integer_hd by blast
  then have "unat w < 2 ^ p" using unat_prefix_mask [of p] assms by (metis le_less_trans less_imp_le_nat diff_less zero_less_one zero_less_power zero_less_numeral le_trans)
  then have "\<not> bit w k" using bit_unat_lt [of w p k] assms by auto
  then show ?thesis by (simp add: w(1) bit_or_iff)
qed

lemma flag_bits: "(b :: u8) AND 0x80 \<noteq> 0 \<longleftrightarrow> bit b 7" "b AND 0x40 \<noteq> 0 \<longleftrightarrow> bit b 6" "b AND 0x20 \<noteq> 0 \<longleftrightarrow> bit b 5"
  using and_exp_eq_0_iff_not_bit [of b 7] and_exp_eq_0_iff_not_bit [of b 6] and_exp_eq_0_iff_not_bit [of b 5] by simp_all

lemma decode_payload:
  assumes "length bs \<le> MAX_FIELD_BYTES" "flag AND prefix_mask 7 = 0"
  shows "decode_string (pre @ encode_integer (of_nat (length bs)) 7 flag @ bs @ rest) (length pre) =
    (case (if bit flag 7 then huffman_decode bs else Inr bs) of
       Inl e \<Rightarrow> Inl e
     | Inr s \<Rightarrow>
         if from_utf8_ok s then Inr (s, length pre + length (encode_integer (of_nat (length bs)) 7 flag) + length bs)
         else Inl HInvalidUtf8)"
proof -
  let ?n = "encode_integer (of_nat (length bs)) 7 flag"
  let ?in = "pre @ ?n @ bs @ rest"
  have "length bs < 2 ^ 64" using assms(1) by (simp add: MAX_FIELD_BYTES_def)
  then have len: "unat (of_nat (length bs) :: u64) = length bs" by (simp add: unat_of_nat)
  have first: "?in ! length pre = hd ?n" by (cases ?n) (simp_all add: nth_append)
  have int: "decode_integer ?in 7 (length pre) = Inr (of_nat (length bs), length pre + length ?n)"
    using decode_encode_integer [of 7 flag pre "of_nat (length bs)" "bs @ rest"] assms(2) by simp
  show ?thesis
    unfolding decode_string_def Let_def int first using len assms(1) first_flag [of 7 7 "of_nat (length bs)" flag]
    by (simp add: flag_bits split: sum.splits)
qed

lemma flag_masks: "(0x80 :: u8) AND prefix_mask 7 = 0" "(0 :: u8) AND prefix_mask p = 0" "(0x40 :: u8) AND prefix_mask 6 = 0"
    "(0x20 :: u8) AND prefix_mask 5 = 0"
  by (simp_all add: prefix_mask_def)

text \<open>The text of a string field survives, with anything before and behind it.\<close>

lemma decode_push_string:
  assumes "from_utf8_ok s" "length s \<le> MAX_FIELD_BYTES"
  shows "decode_string (pre @ push_string e s @ rest) (length pre) = Inr (s, length pre + length (push_string e s))"
proof -
  have h: "huffman_decode (huffman_encode s) = Inr s" by (simp add: huffman_canonical)
  have b: "bit (0x80 :: u8) 7" by simp
  have huff: "decode_string (pre @ encode_integer (of_nat (length (huffman_encode s))) 7 0x80 @ huffman_encode s @ rest) (length pre) =
      Inr (s, length pre + length (encode_integer (of_nat (length (huffman_encode s))) 7 0x80) + length (huffman_encode s))"
    if "length (huffman_encode s) < length s"
    using decode_payload [of "huffman_encode s" "0x80" pre rest] that assms h b flag_masks(1) by simp
  have plain: "decode_string (pre @ encode_integer (of_nat (length s)) 7 0 @ s @ rest) (length pre) =
      Inr (s, length pre + length (encode_integer (of_nat (length s)) 7 0) + length s)"
    using decode_payload [of s 0 pre rest] assms flag_masks(2) by simp
  show ?thesis using huff plain by (auto simp: push_string_def encode_string_def Let_def)
qed

section \<open>The dynamic table\<close>

abbreviation field_size :: "HeaderField \<Rightarrow> nat" where
  "field_size f \<equiv> entry_size (hf_name f) (hf_value f)"

definition list_size :: "HeaderField list \<Rightarrow> nat" where
  "list_size fs = sum_list (map field_size fs)"

text \<open>The invariant, and what a table means: the newest entries that fit.\<close>

definition table_ok :: "DynamicTable \<Rightarrow> bool" where
  "table_ok t \<longleftrightarrow> dt_size t = list_size (dt_entries t) \<and> dt_size t \<le> dt_max t \<and> dt_max t \<le> dt_allowed t \<and>
     dt_allowed t < 2 ^ 64"

fun fit :: "nat \<Rightarrow> HeaderField list \<Rightarrow> HeaderField list" where
  "fit n [] = []"
| "fit n (f # fs) = (if field_size f \<le> n then f # fit (n - field_size f) fs else [])"

lemma list_size_simps [simp]: "list_size [] = 0" "list_size (f # fs) = field_size f + list_size fs" "list_size (fs @ gs) = list_size fs + list_size gs"
  by (simp_all add: list_size_def)

lemma fit_all: "list_size fs \<le> n \<Longrightarrow> fit n fs = fs"
  by (induction fs arbitrary: n) auto

lemma fit_size: "list_size (fit n fs) \<le> n"
  by (induction n fs rule: fit.induct) auto

lemma fit_snoc: "n < list_size (fs @ [f]) \<Longrightarrow> fit n (fs @ [f]) = fit n fs"
  by (induction fs arbitrary: n) auto

lemma fit_fit: "fit a (fit b fs) = fit (min a b) fs"
proof (induction fs arbitrary: a b)
  case (Cons f fs)
  show ?case using Cons [of "a - field_size f" "b - field_size f"] by (auto simp: min_def)
qed simp

lemma evict_one_ok:
  assumes "dt_size t = list_size (dt_entries t)" "dt_entries t = es @ [e]"
  shows "evict_one t = t\<lparr>dt_entries := es, dt_size := list_size es\<rparr>"
  using assms by (simp add: evict_one_def Let_def)

text \<open>The eviction loop ends, and leaves the newest entries that fit beside what is needed.\<close>

lemma evict_until_fit:
  assumes "dt_size t = list_size (dt_entries t)" "need \<le> dt_max t"
  shows "evict_until need t =
    Some (t\<lparr>dt_entries := fit (dt_max t - need) (dt_entries t), dt_size := list_size (fit (dt_max t - need) (dt_entries t))\<rparr>)"
  using assms
proof (induction "dt_entries t" arbitrary: t rule: rev_induct)
  case Nil
  then have "dt_entries t = []" "dt_size t = 0" by (simp_all flip: Nil(1))
  then show ?case using Nil(3) evict_until.simps [of need t] by simp
next
  case (snoc e es)
  show ?case
  proof (cases "dt_max t < dt_size t + need")
    case True
    let ?t = "t\<lparr>dt_entries := es, dt_size := list_size es\<rparr>"
    have es: "dt_entries t = es @ [e]" using snoc(2) by simp
    have "evict_until need t = evict_until need ?t"
      using True evict_until.simps [of need t] evict_one_ok [OF snoc(3) es] es by simp
    also have "\<dots> = Some (?t\<lparr>dt_entries := fit (dt_max t - need) es, dt_size := list_size (fit (dt_max t - need) es)\<rparr>)"
      using snoc(1) [of ?t] snoc(4) by simp
    also have "fit (dt_max t - need) es = fit (dt_max t - need) (dt_entries t)"
      using fit_snoc [of "dt_max t - need" es e] True snoc(3,4) es by simp
    finally show ?thesis by simp
  next
    case False
    then have "fit (dt_max t - need) (dt_entries t) = dt_entries t" using snoc(3) by (intro fit_all) simp
    then show ?thesis using False evict_until.simps [of need t] snoc(3) by simp
  qed
qed

text \<open>Every operation keeps the invariant, returns, and has the meaning of the specification.\<close>

lemma dt_insert_fit:
  assumes "table_ok t"
  shows "dt_insert n v t =
    Some (t\<lparr>dt_entries := fit (dt_max t) (mk_field n v # dt_entries t), dt_size := list_size (fit (dt_max t) (mk_field n v # dt_entries t))\<rparr>)"
  using assms evict_until_fit [of t "entry_size n v"] by (auto simp: dt_insert_def table_ok_def Let_def mk_field_def)

lemma set_max_size_fit:
  assumes "table_ok t" "n \<le> dt_allowed t"
  shows "set_max_size n t = Some (t\<lparr>dt_max := n, dt_entries := fit n (dt_entries t), dt_size := list_size (fit n (dt_entries t))\<rparr>, None)"
  using assms evict_until_fit [of "t\<lparr>dt_max := n\<rparr>" 0] by (simp add: set_max_size_def table_ok_def)

lemma set_allowed_max_fit:
  assumes "table_ok t"
  shows "set_allowed_max n t =
    Some (t\<lparr>dt_allowed := n, dt_max := min n (dt_max t), dt_entries := fit (min n (dt_max t)) (dt_entries t),
            dt_size := list_size (fit (min n (dt_max t)) (dt_entries t))\<rparr>)"
proof (cases "n < dt_max t")
  case True
  then show ?thesis using assms evict_until_fit [of "t\<lparr>dt_allowed := n, dt_max := n\<rparr>" 0] by (simp add: set_allowed_max_def table_ok_def)
next
  case False
  then have "fit (dt_max t) (dt_entries t) = dt_entries t" using assms by (intro fit_all) (simp add: table_ok_def)
  then show ?thesis using False assms by (simp add: set_allowed_max_def table_ok_def min_def)
qed

lemma table_ok_fit:
  "m \<le> a \<Longrightarrow> a < 2 ^ 64 \<Longrightarrow> table_ok (t\<lparr>dt_allowed := a, dt_max := m, dt_entries := fit m es, dt_size := list_size (fit m es)\<rparr>)"
  using fit_size by (simp add: table_ok_def)

lemma table_ok_update: "table_ok t \<Longrightarrow> table_ok (t\<lparr>dt_entries := fit (dt_max t) es, dt_size := list_size (fit (dt_max t) es)\<rparr>)"
  using fit_size [of "dt_max t" es] by (simp add: table_ok_def)

lemma table_with_ok: "n < 2 ^ 64 \<Longrightarrow> table_ok (table_with n)"
  by (simp add: table_ok_def table_with_def)

section \<open>Lookups\<close>

lemma STATIC_TABLE_LEN_61 [simp]: "STATIC_TABLE_LEN = 61" "length STATIC_TABLE = 61"
  by (simp_all add: STATIC_TABLE_LEN_def STATIC_TABLE_def)

lemma lookup_static:
  assumes "0 < i" "i \<le> 61"
  shows "decoder_lookup t (of_nat i) =
    Inr (mk_field (fst (STATIC_TABLE ! (i - 1))) (case snd (STATIC_TABLE ! (i - 1)) of Some w \<Rightarrow> w | None \<Rightarrow> []))"
proof -
  have "unat (of_nat i :: u64) = i" using assms by (simp add: unat_of_nat)
  moreover have "(of_nat i :: u64) \<noteq> 0" using calculation assms(1) by force
  ultimately show ?thesis using assms by (simp add: decoder_lookup_def static_entry_def split: prod.splits)
qed

lemma lookup_dynamic:
  assumes "j < length (dt_entries t)" "61 + Suc j < 2 ^ 64"
  shows "decoder_lookup t (of_nat (61 + Suc j)) = Inr (dt_entries t ! j)"
proof -
  have u: "unat (of_nat (61 + Suc j) :: u64) = 61 + Suc j" using assms(2) by (simp add: unat_of_nat del: of_nat_add of_nat_Suc)
  moreover have "(of_nat (61 + Suc j) :: u64) \<noteq> 0" using u by force
  ultimately show ?thesis using assms(1) by (simp add: decoder_lookup_def static_entry_def dt_lookup_def del: of_nat_add of_nat_Suc)
qed

lemma entries_bound: "table_ok t \<Longrightarrow> 61 + length (dt_entries t) < 2 ^ 64"
proof -
  assume t: "table_ok t"
  have "32 * length es \<le> list_size es" for es by (induction es) (auto simp: entry_size_def)
  then have "32 * length (dt_entries t) \<le> dt_size t" using t by (simp add: table_ok_def)
  then show ?thesis using t by (simp add: table_ok_def)
qed

lemma static_exact_lookup: "static_exact nm v = Some i \<Longrightarrow> 0 < i \<and> i \<le> 61 \<and> decoder_lookup t (of_nat i) = Inr (mk_field nm v)"
  using lookup_static [of i t] by (auto simp: static_exact_def position_Some case_prod_beta)

lemma static_name_lookup:
  "static_name nm = Some i \<Longrightarrow> 0 < i \<and> i \<le> 61 \<and> (\<exists>f. decoder_lookup t (of_nat i) = Inr f \<and> hf_name f = nm)"
  using lookup_static [of i t] by (auto simp: static_name_def position_Some case_prod_beta mk_field_def)

lemma dt_find_lookup:
  "table_ok t \<Longrightarrow> dt_find nm v t = Some i \<Longrightarrow> 0 < i \<and> 61 + i < 2 ^ 64 \<and> decoder_lookup t (of_nat (61 + i)) = Inr (mk_field nm v)"
  using lookup_dynamic [of "i - 1" t] entries_bound [of t] by (auto simp: dt_find_def position_Some mk_field_def simp del: of_nat_add of_nat_Suc)

lemma dt_find_name_lookup:
  "table_ok t \<Longrightarrow> dt_find_name nm t = Some i \<Longrightarrow>
   0 < i \<and> 61 + i < 2 ^ 64 \<and> (\<exists>f. decoder_lookup t (of_nat (61 + i)) = Inr f \<and> hf_name f = nm)"
  using lookup_dynamic [of "i - 1" t] entries_bound [of t] by (auto simp: dt_find_name_def position_Some simp del: of_nat_add of_nat_Suc)

section \<open>Encoder and decoder in step\<close>

definition field_ok :: "HeaderField \<Rightarrow> bool" where
  "field_ok f \<longleftrightarrow> from_utf8_ok (hf_name f) \<and> from_utf8_ok (hf_value f) \<and> length (hf_name f) \<le> MAX_FIELD_BYTES \<and>
     length (hf_value f) \<le> MAX_FIELD_BYTES \<and> hpack_validate_name (hf_name f) = None"

definition alike :: "DynamicTable \<Rightarrow> DynamicTable \<Rightarrow> bool" where
  "alike s t \<longleftrightarrow> table_ok s \<and> table_ok t \<and> dt_entries s = dt_entries t \<and> dt_max s = dt_max t"

lemma alike_lookup: "alike s t \<Longrightarrow> decoder_lookup t ix = decoder_lookup s ix"
  unfolding decoder_lookup_def dt_lookup_def alike_def by (elim conjE) (simp only:)

lemma alike_insert: "alike s t \<Longrightarrow> \<exists>s' t'. dt_insert n v s = Some s' \<and> dt_insert n v t = Some t' \<and> alike s' t' \<and> dt_max s' = dt_max s"
proof -
  assume a: "alike s t"
  then have "table_ok s" "table_ok t" "dt_entries s = dt_entries t" "dt_max s = dt_max t" by (simp_all add: alike_def)
  then show ?thesis
    using table_ok_update [of s "mk_field n v # dt_entries s"] table_ok_update [of t "mk_field n v # dt_entries t"]
    by (simp add: alike_def dt_insert_fit del: fit.simps)
qed

lemma mk_field_id: "mk_field (hf_name f) (hf_value f) = f"
  by (simp add: mk_field_def)

lemma nth_first: "b \<noteq> [] \<Longrightarrow> (pre @ b @ rest) ! length pre = hd b"
  by (cases b) (simp_all add: nth_append)

lemma decode_literal_encode:
  assumes "field_ok f" "p \<le> 8" "flag AND prefix_mask p = 0" "ni < 2 ^ 64"
    "ni \<noteq> 0 \<Longrightarrow> \<exists>g. decoder_lookup t (of_nat ni) = Inr g \<and> hf_name g = hf_name f"
    "b = encode_integer (of_nat ni) p flag @ (if ni = 0 then push_string e (hf_name f) else []) @ push_string e (hf_value f)"
  shows "decode_literal t (pre @ b @ rest) (length pre) p = Inr (hf_name f, hf_value f, length pre + length b)"
proof -
  let ?n = "encode_integer (of_nat ni) p flag"
  have u: "(of_nat ni :: u64) = 0 \<longleftrightarrow> ni = 0" 
  proof -
    have "unat (of_nat ni :: u64) = ni" using assms(4) by (simp add: unat_of_nat)
    then show ?thesis by (simp only: word_unat_eq_iff unat_0)
  qed
  note int = decode_encode_integer [OF assms(2,3), of pre "of_nat ni"]
  show ?thesis
  proof (cases "ni = 0")
    case True
    have b: "pre @ b @ rest = pre @ ?n @ push_string e (hf_name f) @ push_string e (hf_value f) @ rest" using True assms(6) by simp
    have "decode_string (pre @ b @ rest) (length pre + length ?n) = Inr (hf_name f, length pre + length ?n + length (push_string e (hf_name f)))"
      using decode_push_string [of "hf_name f" "pre @ ?n" e "push_string e (hf_value f) @ rest"] assms(1) b by (simp add: field_ok_def)
    moreover have "decode_string (pre @ b @ rest) (length pre + length ?n + length (push_string e (hf_name f))) = Inr (hf_value f, length pre + length b)"
      using decode_push_string [of "hf_value f" "pre @ ?n @ push_string e (hf_name f)" e rest] assms(1,6) True b by (simp add: field_ok_def add.assoc)
    ultimately show ?thesis using int [of "push_string e (hf_name f) @ push_string e (hf_value f) @ rest"] assms(1) True b
      by (simp add: decode_literal_def field_ok_def)
  next
    case False
    have b: "pre @ b @ rest = pre @ ?n @ push_string e (hf_value f) @ rest" using False assms(6) by simp
    obtain g where "decoder_lookup t (of_nat ni) = Inr g" "hf_name g = hf_name f" using assms(5) [OF False] by blast
    moreover have "decode_string (pre @ b @ rest) (length pre + length ?n) = Inr (hf_value f, length pre + length b)"
      using decode_push_string [of "hf_value f" "pre @ ?n" e rest] assms(1,6) False b by (simp add: field_ok_def)
    ultimately show ?thesis using int [of "push_string e (hf_value f) @ rest"] assms(1) False b u
      by (simp add: decode_literal_def field_ok_def)
  qed
qed

lemma check_total_ok: "sofar + n \<le> max_header_list_size d \<Longrightarrow> check_total d sofar n = Inr (sofar + n)"
  by (simp add: check_total_def)

lemma decode_indexed:
  assumes "decoder_lookup t (of_nat i) = Inr f" "sofar + field_size f \<le> max_header_list_size d"
    "b = encode_integer (of_nat i) 7 0x80"
  shows "decode_one d t (pre @ b @ rest) (length pre) sofar = Some (t, Inr (length pre + length b, Some f, sofar + field_size f))"
proof -
  have "(pre @ b @ rest) ! length pre = hd b" "bit (hd b) 7" using nth_first [of b pre rest] first_flag [of 7 7] assms(3) by simp_all
  moreover have "decode_integer (pre @ b @ rest) 7 (length pre) = Inr (of_nat i, length pre + length b)"
    using decode_encode_integer [of 7 "0x80" pre "of_nat i" rest] flag_masks assms(3) by simp
  ultimately show ?thesis using assms(1,2) check_total_ok by (simp add: decode_one_def flag_bits)
qed

lemma decode_plain_literal:
  assumes "field_ok f" "sofar + field_size f \<le> max_header_list_size d" "ni < 2 ^ 64"
    "ni \<noteq> 0 \<Longrightarrow> \<exists>g. decoder_lookup t (of_nat ni) = Inr g \<and> hf_name g = hf_name f"
    "b = encode_integer (of_nat ni) 4 0 @ (if ni = 0 then push_string e (hf_name f) else []) @ push_string e (hf_value f)"
  shows "decode_one d t (pre @ b @ rest) (length pre) sofar = Some (t, Inr (length pre + length b, Some f, sofar + field_size f))"
proof -
  have "(pre @ b @ rest) ! length pre = hd (encode_integer (of_nat ni) 4 0)" using nth_first [of b pre rest] assms(5) by simp
  moreover have "\<not> bit (hd (encode_integer (of_nat ni) 4 0)) k" if "4 \<le> k" "k < 8" for k using first_flag [OF that] by simp
  ultimately show ?thesis
    using decode_literal_encode [OF assms(1) _ flag_masks(2) assms(3,4,5), of pre rest] assms(2) check_total_ok
    by (simp add: decode_one_def flag_bits mk_field_id)
qed

lemma decode_indexed_literal:
  assumes "field_ok f" "sofar + field_size f \<le> max_header_list_size d" "ni < 2 ^ 64"
    "ni \<noteq> 0 \<Longrightarrow> \<exists>g. decoder_lookup t (of_nat ni) = Inr g \<and> hf_name g = hf_name f"
    "b = encode_integer (of_nat ni) 6 0x40 @ (if ni = 0 then push_string e (hf_name f) else []) @ push_string e (hf_value f)"
    "dt_insert (hf_name f) (hf_value f) t = Some t'"
  shows "decode_one d t (pre @ b @ rest) (length pre) sofar = Some (t', Inr (length pre + length b, Some f, sofar + field_size f))"
proof -
  have "(pre @ b @ rest) ! length pre = hd (encode_integer (of_nat ni) 6 0x40)" using nth_first [of b pre rest] assms(5) by simp
  moreover have "\<not> bit (hd (encode_integer (of_nat ni) 6 0x40)) 7" "bit (hd (encode_integer (of_nat ni) 6 0x40)) 6"
    using first_flag [of 6 7] first_flag [of 6 6] by simp_all
  ultimately show ?thesis
    using decode_literal_encode [OF assms(1) _ flag_masks(3) assms(3,4,5), of pre rest] assms(2,6) check_total_ok
    by (simp add: decode_one_def flag_bits mk_field_id)
qed

definition reads_back :: "Decoder \<Rightarrow> DynamicTable \<Rightarrow> nat \<Rightarrow> HeaderField \<Rightarrow> u8 list \<Rightarrow> DynamicTable \<Rightarrow> bool" where
  "reads_back d t sofar f b t' \<longleftrightarrow> b \<noteq> [] \<and> (\<forall>pre rest. decode_one d t (pre @ b @ rest) (length pre) sofar =
     Some (t', Inr (length pre + length b, Some f, sofar + field_size f)))"

lemma name_index_lookup:
  assumes "alike s t"
    "ni = (case static_name nm of Some i \<Rightarrow> i | None \<Rightarrow> (case dt_find_name nm s of Some i \<Rightarrow> STATIC_TABLE_LEN + i | None \<Rightarrow> 0))"
  shows "ni < 2 ^ 64" "ni \<noteq> 0 \<Longrightarrow> \<exists>g. decoder_lookup t (of_nat ni) = Inr g \<and> hf_name g = nm"
proof -
  have ok: "table_ok s" using assms(1) by (simp add: alike_def)
  have "ni < 2 ^ 64 \<and> (ni \<noteq> 0 \<longrightarrow> (\<exists>g. decoder_lookup t (of_nat ni) = Inr g \<and> hf_name g = nm))"
  proof (cases "static_name nm")
    case (Some i)
    then show ?thesis using static_name_lookup [OF Some, of t] assms(2) by simp
  next
    case none: None
    show ?thesis
    proof (cases "dt_find_name nm s")
      case (Some i)
      then have "ni = 61 + i" using none assms(2) by simp
      then show ?thesis using dt_find_name_lookup [OF ok Some] alike_lookup [OF assms(1)] by (simp only: simp_thms)
    qed (use none assms(2) in simp)
  qed
  then show "ni < 2 ^ 64" "ni \<noteq> 0 \<Longrightarrow> \<exists>g. decoder_lookup t (of_nat ni) = Inr g \<and> hf_name g = nm" by simp_all
qed

text \<open>One field: the decoder reads what the encoder wrote, and the tables stay alike.\<close>

lemma decode_encode_one:
  assumes "alike (e_table e) t" "field_ok f" "sofar + field_size f \<le> max_header_list_size d"
  obtains e' b t' where "encode_one e f = Some (e', b)" "reads_back d t sofar f b t'" "alike (e_table e') t'"
    "pending_size_update e' = pending_size_update e" "dt_max (e_table e') = dt_max (e_table e)"
proof -
  let ?nm = "hf_name f" and ?v = "hf_value f" and ?s = "e_table e"
  have ok: "table_ok ?s" using assms(1) by (simp add: alike_def)
  show ?thesis
  proof (cases "static_exact ?nm ?v")
    case (Some i)
    then have "encode_one e f = Some (e, encode_integer (of_nat i) 7 0x80)" by (simp add: encode_one_def)
    moreover have "decoder_lookup t (of_nat i) = Inr f" using static_exact_lookup [OF Some] by (simp add: mk_field_id)
    then have "reads_back d t sofar f (encode_integer (of_nat i) 7 0x80) t"
      using decode_indexed [OF _ assms(3) refl] by (simp add: reads_back_def)
    ultimately show ?thesis using that assms(1) by blast
  next
    case static: None
    show ?thesis
    proof (cases "dt_find ?nm ?v ?s")
      case (Some i)
      then have "encode_one e f = Some (e, encode_integer (of_nat (61 + i)) 7 0x80)" using static by (simp add: encode_one_def)
      moreover have "decoder_lookup t (of_nat (61 + i)) = Inr f"
        using dt_find_lookup [OF ok Some] alike_lookup [OF assms(1)] by (simp add: mk_field_id del: of_nat_add)
      then have "reads_back d t sofar f (encode_integer (of_nat (61 + i)) 7 0x80) t"
        using decode_indexed [OF _ assms(3) refl] by (simp add: reads_back_def del: of_nat_add)
      ultimately show ?thesis using that assms(1) by blast
    next
      case None
      define ni where "ni = (case static_name ?nm of Some i \<Rightarrow> i
          | None \<Rightarrow> (case dt_find_name ?nm ?s of Some i \<Rightarrow> STATIC_TABLE_LEN + i | None \<Rightarrow> 0))"
      note ni = name_index_lookup [OF assms(1) ni_def]
      define tail where "tail = (if ni = 0 then push_string e ?nm else []) @ push_string e ?v"
      obtain s' t' where ins: "dt_insert ?nm ?v ?s = Some s'" "dt_insert ?nm ?v t = Some t'" "alike s' t'" "dt_max s' = dt_max ?s"
        using alike_insert [OF assms(1)] by blast
      show ?thesis
      proof (cases "entry_size ?nm ?v \<le> dt_max ?s")
        case True
        have "encode_one e f = Some (e\<lparr>e_table := s'\<rparr>, encode_integer (of_nat ni) 6 0x40 @ tail)"
          using static None True ins(1) by (simp add: encode_one_def Let_def ni_def tail_def)
        moreover have "reads_back d t sofar f (encode_integer (of_nat ni) 6 0x40 @ tail) t'"
          using decode_indexed_literal [OF assms(2,3) ni refl ins(2), where e = e] by (simp add: reads_back_def tail_def)
        moreover have "alike (e_table (e\<lparr>e_table := s'\<rparr>)) t'" "pending_size_update (e\<lparr>e_table := s'\<rparr>) = pending_size_update e"
            "dt_max (e_table (e\<lparr>e_table := s'\<rparr>)) = dt_max ?s"
          using ins(3,4) by simp_all
        ultimately show ?thesis using that by blast
      next
        case False
        have "encode_one e f = Some (e, encode_integer (of_nat ni) 4 0 @ tail)"
          using static None False by (simp add: encode_one_def Let_def ni_def tail_def)
        moreover have "reads_back d t sofar f (encode_integer (of_nat ni) 4 0 @ tail) t"
          using decode_plain_literal [OF assms(2,3) ni refl, where e = e] by (simp add: reads_back_def tail_def)
        ultimately show ?thesis using that assms(1) by blast
      qed
    qed
  qed
qed

lemma reads_back_loop:
  assumes "reads_back d t sofar f b t'" "length out < max_header_count d"
  shows "decode_loop d t (pre @ b @ rest) (length pre) out sofar = decode_loop d t' ((pre @ b) @ rest) (length (pre @ b)) (out @ [f]) (sofar + field_size f)"
proof -
  have one: "decode_one d t (pre @ b @ rest) (length pre) sofar = Some (t', Inr (length pre + length b, Some f, sofar + field_size f))" "b \<noteq> []"
    using assms(1) by (simp_all add: reads_back_def)
  show ?thesis unfolding decode_loop.simps [of d t] using one assms(2) by simp
qed

lemma decode_encode_fields:
  assumes "alike (e_table e) t" "list_all field_ok fs" "sofar + list_size fs \<le> max_header_list_size d"
    "length out + length fs \<le> max_header_count d"
  obtains e' bs t' where "encode_fields e fs = Some (e', bs)" "alike (e_table e') t'" "pending_size_update e' = pending_size_update e"
    "dt_max (e_table e') = dt_max (e_table e)" "\<And>pre. decode_loop d t (pre @ bs) (length pre) out sofar = Some (t', Inr (out @ fs))"
  using assms
proof (induction fs arbitrary: e t sofar out thesis)
  case Nil
  have "decode_loop d t (pre @ []) (length pre) out sofar = Some (t, Inr (out @ []))" for pre
    by (simp add: decode_loop.simps [of d t])
  then show ?case using Nil(1,2) by (metis encode_fields.simps(1))
next
  case (Cons f fs)
  obtain e1 b t1 where one: "encode_one e f = Some (e1, b)" "reads_back d t sofar f b t1" "alike (e_table e1) t1"
      "pending_size_update e1 = pending_size_update e" "dt_max (e_table e1) = dt_max (e_table e)"
    using decode_encode_one [OF Cons.prems(2), of f sofar d] Cons.prems(3,4) by auto
  obtain e2 bs t2 where rest: "encode_fields e1 fs = Some (e2, bs)" "alike (e_table e2) t2" "pending_size_update e2 = pending_size_update e1"
      "dt_max (e_table e2) = dt_max (e_table e1)"
      "\<And>pre. decode_loop d t1 (pre @ bs) (length pre) (out @ [f]) (sofar + field_size f) = Some (t2, Inr ((out @ [f]) @ fs))"
    using Cons.IH [OF _ one(3), where sofar = "sofar + field_size f" and out = "out @ [f]"] Cons.prems(3,4,5) by auto
  have "decode_loop d t (pre @ b @ bs) (length pre) out sofar = Some (t2, Inr (out @ f # fs))" for pre
    using reads_back_loop [OF one(2), of out pre bs] rest(5) [of "pre @ b"] Cons.prems(5) by simp
  moreover have "encode_fields e (f # fs) = Some (e2, b @ bs)" using one(1) rest(1) by simp
  ultimately show ?case using Cons.prems(1) rest one by metis
qed


text \<open>
  While an update is owed the decoder may still hold what the encoder has evicted already: its table cut to the
  encoder's size is the encoder's table.
\<close>

definition in_sync :: "Encoder \<Rightarrow> DynamicTable \<Rightarrow> bool" where
  "in_sync e t \<longleftrightarrow>
     (case pending_size_update e of
        None \<Rightarrow> alike (e_table e) t
      | Some n \<Rightarrow> table_ok (e_table e) \<and> table_ok t \<and> n = dt_max (e_table e) \<and> n \<le> dt_max t \<and>
          dt_entries (e_table e) = fit n (dt_entries t))"

lemma decode_size_update:
  assumes "table_ok t" "n \<le> dt_max t" "0 < max_header_count d"
  defines "b \<equiv> encode_integer (of_nat n) 5 0x20" and
    "t' \<equiv> t\<lparr>dt_max := n, dt_entries := fit n (dt_entries t), dt_size := list_size (fit n (dt_entries t))\<rparr>"
  shows "decode_loop d t (b @ rest) 0 [] 0 = decode_loop d t' (b @ rest) (length b) [] 0"
proof -
  have "n < 2 ^ 64" using assms(1,2) by (simp add: table_ok_def)
  then have n: "unat (of_nat n :: u64) = n" by (simp add: unat_of_nat)
  have hd: "(b @ rest) ! 0 = hd b" "b \<noteq> []" using nth_first [of b "[]" rest] by (simp_all add: b_def)
  have bits: "\<not> bit (hd b) 7" "\<not> bit (hd b) 6" "bit (hd b) 5"
    using first_flag [of 5 7] first_flag [of 5 6] first_flag [of 5 5] by (simp_all add: b_def)
  have "decode_integer (b @ rest) 5 0 = Inr (of_nat n, length b)"
    using decode_encode_integer [of 5 "0x20" "[]" "of_nat n" rest] flag_masks(4) by (simp add: b_def)
  moreover have "set_max_size n t = Some (t', None)" using set_max_size_fit [OF assms(1), of n] assms(1,2) by (simp add: t'_def table_ok_def)
  ultimately have "decode_one d t (b @ rest) 0 0 = Some (t', Inr (length b, None, 0))"
    using bits by (simp add: decode_one_def hd flag_bits n)
  then show ?thesis using hd(2) assms(3) decode_loop.simps [of d t "b @ rest" 0] by simp
qed

text \<open>A whole block: what is decoded is what was encoded, and afterwards nothing is owed.\<close>

lemma decode_encode_block:
  assumes "in_sync e (d_table d)" "list_all field_ok fs" "list_size fs \<le> max_header_list_size d" "length fs \<le> max_header_count d"
    "0 < max_header_count d"
  obtains e' bs t' where "encode_block e fs = Some (e', bs)" "decode_block d bs = Some (d\<lparr>d_table := t'\<rparr>, Inr fs)" "in_sync e' t'"
    "dt_max (e_table e') = dt_max (e_table e)"
proof -
  have lim: "0 + list_size fs \<le> max_header_list_size d" "length [] + length fs \<le> max_header_count d" using assms(3,4) by simp_all
  show ?thesis
  proof (cases "pending_size_update e")
    case None
    let ?e = "e\<lparr>pending_size_update := None\<rparr>"
    have a: "alike (e_table ?e) (d_table d)" using assms(1) None by (simp add: in_sync_def)
    obtain e' bs t' where r: "encode_fields ?e fs = Some (e', bs)" "alike (e_table e') t'" "pending_size_update e' = pending_size_update ?e"
        "dt_max (e_table e') = dt_max (e_table ?e)" "\<And>pre. decode_loop d (d_table d) (pre @ bs) (length pre) [] 0 = Some (t', Inr ([] @ fs))"
      using decode_encode_fields [OF a assms(2) lim] by blast
    then show ?thesis using that [of e' bs t'] None r(5) [of "[]"] by (simp add: encode_block_def decode_block_def in_sync_def)
  next
    case (Some n)
    let ?e = "e\<lparr>pending_size_update := None\<rparr>"
    let ?t = "d_table d"
    let ?u = "?t\<lparr>dt_max := n, dt_entries := fit n (dt_entries ?t), dt_size := list_size (fit n (dt_entries ?t))\<rparr>"
    let ?b = "encode_integer (of_nat n) 5 0x20"
    have s: "table_ok (e_table e)" "table_ok ?t" "n = dt_max (e_table e)" "n \<le> dt_max ?t" "dt_entries (e_table e) = fit n (dt_entries ?t)"
      using assms(1) Some by (simp_all add: in_sync_def)
    then have a: "alike (e_table ?e) ?u" using fit_size [of n "dt_entries ?t"] by (simp add: alike_def table_ok_def)
    obtain e' bs t' where r: "encode_fields ?e fs = Some (e', bs)" "alike (e_table e') t'" "pending_size_update e' = pending_size_update ?e"
        "dt_max (e_table e') = dt_max (e_table ?e)" "\<And>pre. decode_loop d ?u (pre @ bs) (length pre) [] 0 = Some (t', Inr ([] @ fs))"
      using decode_encode_fields [OF a assms(2) lim] by blast
    then show ?thesis using that [of e' "?b @ bs" t'] Some decode_size_update [OF s(2,4) assms(5), of bs] r(5) [of ?b]
      by (simp add: encode_block_def decode_block_def in_sync_def)
  qed
qed


section \<open>Conversations\<close>

text \<open>
  What happens on one direction of a connection, in order: a header block is encoded, sent and decoded; a limit on the
  table reaches the encoder or is put into force at the decoder; the encoder is told whether to use the Huffman code.
\<close>

datatype hpack_event = Block "HeaderField list" | Encoder_limit nat | Decoder_limit nat | Use_huffman bool

fun hpack_run :: "hpack_event list \<Rightarrow> Encoder \<Rightarrow> Decoder \<Rightarrow> (HpackError + HeaderField list) list option" where
  "hpack_run [] e d = Some []"
| "hpack_run (Block fs # es) e d =
     (case encode_block e fs of
        None \<Rightarrow> None
      | Some (e', bs) \<Rightarrow>
          (case decode_block d bs of None \<Rightarrow> None | Some (d', r) \<Rightarrow> map_option (\<lambda>rs. r # rs) (hpack_run es e' d')))"
| "hpack_run (Encoder_limit n # es) e d = (case encoder_set_allowed n e of None \<Rightarrow> None | Some e' \<Rightarrow> hpack_run es e' d)"
| "hpack_run (Decoder_limit n # es) e d = (case decoder_set_allowed n d of None \<Rightarrow> None | Some d' \<Rightarrow> hpack_run es e d')"
| "hpack_run (Use_huffman b # es) e d = hpack_run es (set_huffman b e) d"

text \<open>
  A block is within the decoder's limits, and the decoder puts a limit into force only when the encoder keeps it already:
  \<open>m\<close> is the smallest limit the encoder has been given.
\<close>

fun orderly :: "nat \<Rightarrow> hpack_event list \<Rightarrow> bool" where
  "orderly m [] = True"
| "orderly m (Block fs # es) \<longleftrightarrow>
     list_all field_ok fs \<and> list_size fs \<le> MAX_HEADER_LIST_SIZE \<and> length fs \<le> MAX_HEADER_COUNT \<and> orderly m es"
| "orderly m (Encoder_limit n # es) \<longleftrightarrow> n < 2 ^ 64 \<and> orderly (min n m) es"
| "orderly m (Decoder_limit n # es) \<longleftrightarrow> m \<le> n \<and> n < 2 ^ 64 \<and> orderly m es"
| "orderly m (Use_huffman b # es) = orderly m es"

definition blocks :: "hpack_event list \<Rightarrow> HeaderField list list" where
  "blocks es = concat (map (\<lambda>ev. case ev of Block fs \<Rightarrow> [fs] | _ \<Rightarrow> []) es)"

lemma blocks_simps [simp]: "blocks [] = []" "blocks (Block fs # es) = fs # blocks es" "blocks (Encoder_limit n # es) = blocks es"
    "blocks (Decoder_limit n # es) = blocks es" "blocks (Use_huffman b # es) = blocks es"
  by (simp_all add: blocks_def)

lemma in_sync_tables: "in_sync e t \<Longrightarrow> table_ok (e_table e) \<and> table_ok t \<and> dt_max (e_table e) \<le> dt_max t"
  by (auto simp: in_sync_def alike_def split: option.splits)

lemma fit_entries: "table_ok t \<Longrightarrow> dt_max t \<le> m \<Longrightarrow> fit m (dt_entries t) = dt_entries t"
  by (rule fit_all) (simp add: table_ok_def)

lemma encoder_limit_sync:
  assumes "in_sync e t" "n < 2 ^ 64"
  obtains e' where "encoder_set_allowed n e = Some e'" "in_sync e' t" "dt_max (e_table e') = min n (dt_max (e_table e))"
proof -
  let ?s = "e_table e" and ?m = "min n (dt_max (e_table e))"
  have ok: "table_ok ?s" "table_ok t" "dt_max ?s \<le> dt_max t" using in_sync_tables [OF assms(1)] by simp_all
  define s' where "s' = ?s\<lparr>dt_allowed := n, dt_max := ?m, dt_entries := fit ?m (dt_entries ?s), dt_size := list_size (fit ?m (dt_entries ?s))\<rparr>"
  define e' where "e' = e\<lparr>e_table := s', pending_size_update := (if ?m \<noteq> dt_max ?s then Some ?m else pending_size_update e)\<rparr>"
  have set: "encoder_set_allowed n e = Some e'"
    unfolding encoder_set_allowed_def set_allowed_max_fit [OF ok(1)] by (simp add: e'_def s'_def)
  have ok': "table_ok s'" unfolding s'_def using assms(2) by (intro table_ok_fit) simp_all
  have "in_sync e' t"
  proof (cases "n < dt_max ?s")
    case True
    have "dt_entries ?s = fit (dt_max ?s) (dt_entries t)"
      using assms(1) fit_entries [OF ok(2)] by (auto simp: in_sync_def alike_def split: option.splits)
    then have "fit n (dt_entries ?s) = fit n (dt_entries t)" using True by (simp add: fit_fit)
    then show ?thesis using ok ok' True by (simp add: in_sync_def e'_def s'_def)
  next
    case False
    then have "dt_entries s' = dt_entries ?s" "dt_max s' = dt_max ?s" using fit_entries [OF ok(1)] by (simp_all add: s'_def min_def)
    then show ?thesis using assms(1) ok' False by (auto simp: in_sync_def e'_def alike_def split: option.splits)
  qed
  then show ?thesis using that [of e'] set by (simp add: e'_def s'_def)
qed

lemma decoder_limit_sync:
  assumes "in_sync e (d_table d)" "n < 2 ^ 64" "dt_max (e_table e) \<le> n"
  obtains t' where "decoder_set_allowed n d = Some (d\<lparr>d_table := t'\<rparr>)" "in_sync e t'"
proof -
  let ?t = "d_table d" and ?s = "e_table e" and ?m = "min n (dt_max (d_table d))"
  have ok: "table_ok ?s" "table_ok ?t" "dt_max ?s \<le> dt_max ?t" using in_sync_tables [OF assms(1)] by simp_all
  define t' where "t' = ?t\<lparr>dt_allowed := n, dt_max := ?m, dt_entries := fit ?m (dt_entries ?t), dt_size := list_size (fit ?m (dt_entries ?t))\<rparr>"
  have set: "decoder_set_allowed n d = Some (d\<lparr>d_table := t'\<rparr>)"
    unfolding decoder_set_allowed_def set_allowed_max_fit [OF ok(2)] by (simp add: t'_def)
  have ok': "table_ok t'" unfolding t'_def using assms(2) by (intro table_ok_fit) simp_all
  have "in_sync e t'"
  proof (cases "pending_size_update e")
    case None
    then have a: "alike ?s ?t" using assms(1) by (simp add: in_sync_def)
    then have "?m = dt_max ?t" using assms(3) by (simp add: alike_def)
    then show ?thesis using None a ok' fit_entries [OF ok(2)] by (simp add: in_sync_def alike_def t'_def)
  next
    case (Some k)
    then have "fit k (fit ?m (dt_entries ?t)) = fit k (dt_entries ?t)" using assms(1,3) by (simp add: in_sync_def fit_fit min_def)
    then show ?thesis using assms(1,3) ok' Some by (simp add: in_sync_def t'_def)
  qed
  then show ?thesis using that [of t'] set by simp
qed

lemma hpack_run_sync:
  assumes "orderly (dt_max (e_table e)) es" "in_sync e (d_table d)" "max_header_list_size d = MAX_HEADER_LIST_SIZE"
    "max_header_count d = MAX_HEADER_COUNT"
  shows "hpack_run es e d = Some (map Inr (blocks es))"
  using assms
proof (induction es e d rule: hpack_run.induct)
  case (2 fs es e d)
  have lim: "list_all field_ok fs" "list_size fs \<le> max_header_list_size d" "length fs \<le> max_header_count d" "0 < max_header_count d"
    using 2(2,4,5) by (simp_all add: MAX_HEADER_COUNT_def)
  obtain e' bs t' where r: "encode_block e fs = Some (e', bs)" "decode_block d bs = Some (d\<lparr>d_table := t'\<rparr>, Inr fs)" "in_sync e' t'"
      "dt_max (e_table e') = dt_max (e_table e)"
    using decode_encode_block [OF 2(3) lim] by blast
  then have "hpack_run es e' (d\<lparr>d_table := t'\<rparr>) = Some (map Inr (blocks es))" using 2(1) [OF r(1) refl r(2) refl] 2(2,4,5) by simp
  then show ?case using r by simp
next
  case (3 n es e d)
  obtain e' where r: "encoder_set_allowed n e = Some e'" "in_sync e' (d_table d)" "dt_max (e_table e') = min n (dt_max (e_table e))"
    using encoder_limit_sync [OF 3(3), of n] 3(2) by auto
  then show ?case using 3(1) [OF r(1)] 3(2,4,5) by simp
next
  case (4 n es e d)
  obtain t' where r: "decoder_set_allowed n d = Some (d\<lparr>d_table := t'\<rparr>)" "in_sync e t'"
    using decoder_limit_sync [OF 4(3), of n] 4(2) by auto
  then show ?case using 4(1) [OF r(1)] 4(2,4,5) by simp
next
  case (5 b es e d)
  have "in_sync (set_huffman b e) (d_table d)" using 5(3) by (simp add: set_huffman_def in_sync_def cong: option.case_cong)
  then show ?case using 5 by (simp add: set_huffman_def)
qed simp


text \<open>C26. Header compression loses nothing: whatever header blocks are sent, with whatever table limits and Huffman
  settings between them, the decoder returns for each block exactly the fields that were encoded. Both ends return (no
  eviction loop runs forever), and the two dynamic tables never disagree on an index.\<close>

theorem hpack_in_sync:
  assumes "n < 2 ^ 64" "orderly n es"
  shows "hpack_run es (encoder_with_table_size n) (decoder_with_table_size n) = Some (map Inr (blocks es))"
proof (rule hpack_run_sync)
  show "in_sync (encoder_with_table_size n) (d_table (decoder_with_table_size n))"
    using table_with_ok [OF assms(1)] by (simp add: in_sync_def alike_def encoder_with_table_size_def decoder_with_table_size_def)
qed (use assms(2) in \<open>simp_all add: encoder_with_table_size_def decoder_with_table_size_def table_with_def\<close>)

definition sample_fields :: "HeaderField list" where
  "sample_fields = [mk_field (ascii '':method'') (ascii ''GET''), mk_field (ascii ''x-trace'') (ascii ''abc'')]"

lemma sample_fields_ok: "list_all field_ok sample_fields"
  by code_simp

lemma sample_orderly: "orderly 4096 [Block sample_fields, Encoder_limit 64, Decoder_limit 64, Use_huffman False, Block sample_fields]"
  using sample_fields_ok by (simp add: sample_fields_def mk_field_def ascii_def entry_size_def MAX_HEADER_LIST_SIZE_def MAX_HEADER_COUNT_def)

theorem hpack_in_sync_witness:
  "hpack_run [Block sample_fields, Encoder_limit 64, Decoder_limit 64, Use_huffman False, Block sample_fields]
     (encoder_with_table_size 4096) (decoder_with_table_size 4096) = Some [Inr sample_fields, Inr sample_fields]"
  using hpack_in_sync [OF _ sample_orderly] by simp

section \<open>The decoder on arbitrary bytes\<close>

text \<open>What a field that leaves the decoder is.\<close>

definition clean :: "HeaderField \<Rightarrow> bool" where
  "clean f \<longleftrightarrow> from_utf8_ok (hf_name f) \<and> from_utf8_ok (hf_value f) \<and> hpack_validate_name (hf_name f) = None"

definition decoder_ok :: "DynamicTable \<Rightarrow> bool" where
  "decoder_ok t \<longleftrightarrow> table_ok t \<and> list_all clean (dt_entries t)"

lemma clean_mk [simp]: "clean (mk_field n v) \<longleftrightarrow> from_utf8_ok n \<and> from_utf8_ok v \<and> hpack_validate_name n = None"
  by (simp add: clean_def mk_field_def)

lemma static_clean: "list_all (\<lambda>(n, v). clean (mk_field n (case v of Some w \<Rightarrow> w | None \<Rightarrow> []))) STATIC_TABLE"
  by code_simp

lemma fit_subset: "set (fit n fs) \<subseteq> set fs"
  by (induction n fs rule: fit.induct) auto

lemma fit_clean: "list_all clean fs \<Longrightarrow> list_all clean (fit n fs)"
  using fit_subset [of n fs] by (auto simp: list_all_iff)

lemma static_entry_clean: "static_entry i = Some (n, v) \<Longrightarrow> clean (mk_field n (case v of Some w \<Rightarrow> w | None \<Rightarrow> []))"
proof -
  assume "static_entry i = Some (n, v)"
  then have "(n, v) = STATIC_TABLE ! (i - 1)" "i - 1 < length STATIC_TABLE" by (auto simp: static_entry_def split: if_splits)
  then have "(n, v) \<in> set STATIC_TABLE" by (simp only: nth_mem)
  then show ?thesis using static_clean unfolding list_all_iff by blast
qed

lemma lookup_clean: "decoder_ok t \<Longrightarrow> decoder_lookup t ix = Inr f \<Longrightarrow> clean f"
  by (auto simp: decoder_lookup_def decoder_ok_def dt_lookup_def Let_def list_all_length simp del: clean_mk
      split: if_splits option.splits prod.splits dest!: static_entry_clean)

lemma decode_string_utf8: "decode_string input i = Inr (s, n) \<Longrightarrow> from_utf8_ok s"
  by (auto simp: decode_string_def Let_def split: if_splits sum.splits prod.splits)

lemma lookup_name_utf8: "decoder_ok t \<Longrightarrow> decoder_lookup t ix = Inr f \<Longrightarrow> from_utf8_ok (hf_name f)"
  using lookup_clean by (simp add: clean_def)

lemma decode_literal_clean: "decoder_ok t \<Longrightarrow> decode_literal t block i p = Inr (nm, v, n) \<Longrightarrow> clean (mk_field nm v)"
  by (auto simp: decode_literal_def split: if_splits sum.splits prod.splits option.splits
      dest: decode_string_utf8 lookup_name_utf8)

lemma check_total_le: "check_total d sofar n = Inr tot \<Longrightarrow> tot = sofar + n \<and> tot \<le> max_header_list_size d"
  by (simp add: check_total_def Let_def split: if_splits)


lemma insert_keeps: "decoder_ok t \<Longrightarrow> clean (mk_field n v) \<Longrightarrow>
    \<exists>t'. dt_insert n v t = Some t' \<and> decoder_ok t' \<and> dt_allowed t' = dt_allowed t"
  using dt_insert_fit [of t n v] table_ok_update [of t "mk_field n v # dt_entries t"] fit_clean [of "mk_field n v # dt_entries t" "dt_max t"]
  by (simp add: decoder_ok_def del: fit.simps clean_mk)

lemma set_max_size_keeps: "decoder_ok t \<Longrightarrow> \<exists>t' r. set_max_size n t = Some (t', r) \<and> decoder_ok t' \<and> dt_allowed t' = dt_allowed t"
proof (cases "n \<le> dt_allowed t")
  case True
  assume a: "decoder_ok t"
  let ?t = "t\<lparr>dt_max := n, dt_entries := fit n (dt_entries t), dt_size := list_size (fit n (dt_entries t))\<rparr>"
  have "table_ok ?t" using a True fit_size [of n "dt_entries t"] by (simp add: decoder_ok_def table_ok_def)
  then show ?thesis using a True set_max_size_fit [of t n] fit_clean [of "dt_entries t" n] by (simp add: decoder_ok_def)
qed (simp add: set_max_size_def)

text \<open>
  What one representation does to the table, the output and the running total, whatever the bytes are, one lemma for each
  of the four kinds.
\<close>

definition one_ok :: "Decoder \<Rightarrow> DynamicTable \<Rightarrow> nat \<Rightarrow> (DynamicTable \<times> (HpackError + nat \<times> HeaderField option \<times> nat)) option \<Rightarrow> bool" where
  "one_ok d t sofar res \<longleftrightarrow>
     (case res of
        None \<Rightarrow> False
      | Some (t', r) \<Rightarrow> decoder_ok t' \<and> dt_allowed t' = dt_allowed t \<and>
          (case r of
             Inl _ \<Rightarrow> True
           | Inr (_, None, tot) \<Rightarrow> tot = sofar
           | Inr (_, Some x, tot) \<Rightarrow> clean x \<and> tot = sofar + field_size x \<and> tot \<le> max_header_list_size d))"

lemma field_size_mk [simp]: "field_size (mk_field n v) = entry_size n v"
  by (simp add: mk_field_def)

lemma decode_one_ok:
  assumes "decoder_ok t"
  shows "one_ok d t sofar (decode_one d t block i sofar)"
proof -
  have err: "one_ok d t sofar (Some (t, Inl e))" for e using assms by (simp add: one_ok_def)
  have indexed: "one_ok d t sofar (case decoder_lookup t ix of
      Inl e \<Rightarrow> Some (t, Inl e)
    | Inr f \<Rightarrow> (case check_total d sofar (field_size f) of Inl e \<Rightarrow> Some (t, Inl e) | Inr tot \<Rightarrow> Some (t, Inr (nxt, Some f, tot))))" for ix nxt
    using assms lookup_clean [OF assms] check_total_le by (auto simp: one_ok_def split: sum.splits)
  have plain: "one_ok d t sofar (case check_total d sofar (entry_size nm v) of
      Inl e \<Rightarrow> Some (t, Inl e) | Inr tot \<Rightarrow> Some (t, Inr (nxt, Some (mk_field nm v), tot)))"
    if "decode_literal t block i p = Inr (nm, v, nxt)" for p nm v nxt
    using assms decode_literal_clean [OF assms that] check_total_le by (auto simp: one_ok_def simp del: clean_mk split: sum.splits)
  have added: "one_ok d t sofar (case check_total d sofar (entry_size nm v) of
      Inl e \<Rightarrow> Some (t, Inl e)
    | Inr tot \<Rightarrow> map_option (\<lambda>t'. (t', Inr (nxt, Some (mk_field nm v), tot))) (dt_insert nm v t))"
    if "decode_literal t block i p = Inr (nm, v, nxt)" for p nm v nxt
    using assms insert_keeps [OF assms decode_literal_clean [OF assms that]] decode_literal_clean [OF assms that] check_total_le
    by (auto simp: one_ok_def simp del: clean_mk split: sum.splits)
  have update: "one_ok d t sofar (map_option (\<lambda>(t', r). (t', case r of Some e \<Rightarrow> Inl e | None \<Rightarrow> Inr (nxt, None, sofar))) (set_max_size n t))" for n nxt
    using set_max_size_keeps [OF assms, of n] by (auto simp: one_ok_def split: option.splits)
  let ?b = "block ! i"
  consider "?b AND 0x80 \<noteq> 0" | "?b AND 0x80 = 0" "?b AND 0x40 \<noteq> 0" | "?b AND 0x80 = 0" "?b AND 0x40 = 0" "?b AND 0x20 \<noteq> 0"
    | "?b AND 0x80 = 0" "?b AND 0x40 = 0" "?b AND 0x20 = 0" by blast
  then show ?thesis
  proof cases
    case 1
    then show ?thesis using err indexed by (cases "decode_integer block 7 i") (auto simp: decode_one_def simp del: not_None_eq)
  next
    case 2
    then show ?thesis using err added [of 6] by (cases "decode_literal t block i 6") (auto simp: decode_one_def)
  next
    case 3
    then show ?thesis using err update by (cases "decode_integer block 5 i") (auto simp: decode_one_def)
  next
    case 4
    then show ?thesis using err plain [of 4] by (cases "decode_literal t block i 4") (auto simp: decode_one_def)
  qed
qed

lemma decode_loop_ok:
  assumes "decoder_ok t" "list_all clean out" "list_size out = sofar" "sofar \<le> max_header_list_size d" "length out \<le> max_header_count d"
  shows "\<exists>t' r. decode_loop d t block i out sofar = Some (t', r) \<and> decoder_ok t' \<and> dt_allowed t' = dt_allowed t \<and>
    (\<forall>fs. r = Inr fs \<longrightarrow> list_all clean fs \<and> list_size fs \<le> max_header_list_size d \<and> length fs \<le> max_header_count d)"
  using assms
proof (induction d t block i out sofar rule: decode_loop.induct)
  case (1 d t block i out sofar)
  note unf = decode_loop.simps [of d t block i out sofar]
  show ?case
  proof (cases "length block \<le> i \<or> max_header_count d \<le> length out")
    case True
    then show ?thesis using 1(2-) unf by auto
  next
    case False
    have ok: "one_ok d t sofar (decode_one d t block i sofar)" using decode_one_ok [OF 1(2)] .
    then obtain t' r where r: "decode_one d t block i sofar = Some (t', r)" by (auto simp: one_ok_def split: option.splits)
    show ?thesis
    proof (cases r)
      case (Inl e)
      then show ?thesis using False ok unf r by (simp add: one_ok_def)
    next
      case (Inr x)
      obtain nxt f tot where x: "x = (nxt, f, tot)" by (cases x)
      let ?out = "case f of Some x \<Rightarrow> out @ [x] | None \<Rightarrow> out"
      have step: "decode_loop d t block i out sofar = decode_loop d t' block nxt ?out tot" using False unf r Inr x by simp
      have t': "decoder_ok t'" "dt_allowed t' = dt_allowed t" using ok r by (simp_all add: one_ok_def)
      have "list_all clean ?out" "list_size ?out = tot" "tot \<le> max_header_list_size d" "length ?out \<le> max_header_count d"
        using ok 1(3-) False by (auto simp: one_ok_def r Inr x split: option.splits)
      then show ?thesis unfolding step using 1(1) [OF _ _ r refl Inr x [symmetric] refl] False t' by simp
    qed
  qed
qed


text \<open>C28. The decoder is total and bounded on any bytes whatsoever: it returns (the eviction loops end), keeps its table
  within the size in force and that within the allowed maximum, with every stored field a well-formed one; and a header
  list it delivers has at most the configured number of fields and total size, and only fields with valid names and
  UTF-8 text.\<close>

theorem decoder_bounded:
  assumes "decoder_ok (d_table d)"
  shows "\<exists>d' r. decode_block d block = Some (d', r) \<and> decoder_ok (d_table d') \<and>
    dt_allowed (d_table d') = dt_allowed (d_table d) \<and> max_header_list_size d' = max_header_list_size d \<and>
    (\<forall>fs. r = Inr fs \<longrightarrow> list_all clean fs \<and> list_size fs \<le> max_header_list_size d \<and> length fs \<le> max_header_count d)"
proof -
  obtain t' r where "decode_loop d (d_table d) block 0 [] 0 = Some (t', r)" "decoder_ok t'" "dt_allowed t' = dt_allowed (d_table d)"
      "\<forall>fs. r = Inr fs \<longrightarrow> list_all clean fs \<and> list_size fs \<le> max_header_list_size d \<and> length fs \<le> max_header_count d"
    using decode_loop_ok [of "d_table d" "[]" 0 d block 0] assms by auto
  then show ?thesis by (simp add: decode_block_def)
qed

lemma decoder_new_ok: "decoder_ok (d_table decoder_new)"
  by (simp add: decoder_ok_def decoder_new_def decoder_with_table_size_def table_with_ok DEFAULT_HEADER_TABLE_SIZE_def)
    (simp add: table_with_def)

theorem decoder_bounded_witness:
  "decoder_ok (d_table decoder_new) \<and>
   (\<exists>d' r. decode_block decoder_new [0x82, 0x3f, 0xff] = Some (d', r) \<and> decoder_ok (d_table d'))"
  using decoder_bounded [OF decoder_new_ok, of "[0x82, 0x3f, 0xff]"] decoder_new_ok by blast

section \<open>What the code does not keep\<close>

text \<open>
  A block cut short is answered with \<open>Truncated\<close>, which asks for the rest, but the entries before the cut are in the table
  by then: decoding the accumulated block puts them there a second time, and the two tables disagree.
\<close>

definition one_literal :: "u8 list" where
  "one_literal = [0x40, 1, 97, 1, 98]"

lemmas run_simps = decode_block_def decode_loop.simps decode_one_def decode_literal_def decode_integer_def prefix_mask_def
  decode_string_def hpack_validate_name_def name_byte_def from_utf8_ok_def MAX_FIELD_BYTES_def check_total_def dt_insert_def
  evict_until.simps entry_size_def decoder_with_table_size_def table_with_def MAX_HEADER_LIST_SIZE_def MAX_HEADER_COUNT_def

lemma truncation_is_not_resumable:
  assumes "d = \<lparr>d_table = \<lparr>dt_entries = [mk_field [97] [98]], dt_size = 34, dt_max = 4096, dt_allowed = 4096\<rparr>,
    max_header_list_size = MAX_HEADER_LIST_SIZE, max_header_count = MAX_HEADER_COUNT\<rparr>"
  shows "decode_block decoder_new (one_literal @ [0x40]) = Some (d, Inl (Truncated 6))"
    "\<exists>d'. decode_block d (one_literal @ [0x40, 1, 99, 1, 100]) = Some (d', Inr [mk_field [97] [98], mk_field [99] [100]]) \<and>
       dt_entries (d_table d') = [mk_field [99] [100], mk_field [97] [98], mk_field [97] [98]]"
proof -
  show "decode_block decoder_new (one_literal @ [0x40]) = Some (d, Inl (Truncated 6))" unfolding assms
    by (simp add: run_simps decoder_new_def DEFAULT_HEADER_TABLE_SIZE_def one_literal_def)
  show "\<exists>d'. decode_block d (one_literal @ [0x40, 1, 99, 1, 100]) = Some (d', Inr [mk_field [97] [98], mk_field [99] [100]]) \<and>
       dt_entries (d_table d') = [mk_field [99] [100], mk_field [97] [98], mk_field [97] [98]]" unfolding assms
    by (simp add: run_simps one_literal_def)
qed

text \<open>
  \<open>checked_shl\<close> checks the distance and not the bits: at a shift of 63 all but one of the seven bits are dropped, so an
  integer above 64 bits is accepted with a wrapped value.
\<close>

lemma integer_wraps: "decode_integer [0xff, 0x80, 0x80, 0x80, 0x80, 0x80, 0x80, 0x80, 0x80, 0x80, 2] 8 0 = Inr (255, 11)"
  by (simp add: decode_integer_def decode_tail.simps checked_add_def prefix_mask_def)

text \<open>The limit on a string is put on its encoded length: a Huffman-coded string decodes to more.\<close>

lemma pack_length: "length (pack bs) = (length bs + 7) div 8"
proof -
  define k where "k = (8 - length bs mod 8) mod 8"
  have "8 * length (pack bs) = length bs + k"
    using arg_cong [OF unpack_pack [of bs], of length] by (simp add: length_concat sum_list_triv o_def k_def)
  moreover have "k < 8" by (simp add: k_def)
  ultimately show ?thesis by (intro div_nat_eqI [symmetric]) simp_all
qed

lemma replicate_utf8: "from_utf8_ok (replicate n 97)"
  by (induction n) (simp_all add: from_utf8_ok_def)

lemma huffman_letters: "length (huffman_encode (replicate n 97)) = (5 * n + 7) div 8"
proof -
  have "length (sym_bits 97) = 5" by (simp add: sym_bits_def huffman_entry_def HUFFMAN_def)
  then show ?thesis by (simp add: huffman_encode_pack pack_length length_concat sum_list_triv o_def map_replicate_const sum_list_replicate ac_simps)
qed

lemma string_above_limit:
  assumes "2 < n" "n \<le> 26214"
  shows "decode_string (encode_string (replicate n 97)) 0 = Inr (replicate n 97, length (encode_string (replicate n 97)))"
proof -
  let ?h = "huffman_encode (replicate n 97)"
  have h: "huffman_decode ?h = Inr (replicate n 97)" by (simp add: huffman_canonical)
  have l: "length ?h < n" "length ?h \<le> MAX_FIELD_BYTES" using assms by (simp_all add: huffman_letters MAX_FIELD_BYTES_def)
  have "bit (0x80 :: u8) 7" by simp
  then show ?thesis using decode_payload [OF l(2) flag_masks(1), of "[]" "[]"] h l(1) replicate_utf8 [of n]
    by (simp add: encode_string_def Let_def)
qed

lemma limit_exceeded: "MAX_FIELD_BYTES < 26214"
  by (simp add: MAX_FIELD_BYTES_def)

end
