(* ===== verification/RateLimits.thy ===== *)
theory RateLimits
  imports Conn BTree
begin

text \<open>
  Per-tenant and process-wide request limits (\<open>qqq-serve/src/limits.rs\<close>). An \<open>Instant\<close> and a \<open>Duration\<close> are natural
  numbers of nanoseconds. The keyed hash of the standard library (\<open>RandomState\<close>) is the field \<open>seed\<close>, any function from
  keys to 64-bit words. Fixed windows are an interface of their own (\<open>fixed_window\<close>), interpreted for the global budget
  and for a bucket of the tenant table.
\<close>

section \<open>Limits of one tenant\<close>

record ReqLimits =
  max_body_bytes :: "u64 option"
  max_requests_per_window :: "u32 option"
  window :: nat
  max_connections :: "u32 option"

definition secs :: "nat \<Rightarrow> nat" where
  "secs n = n * 1000000000"

definition limits_none :: ReqLimits where
  "limits_none = \<lparr>max_body_bytes = None, max_requests_per_window = None, window = secs 60, max_connections = None\<rparr>"

definition with_body :: "u64 \<Rightarrow> ReqLimits" where
  "with_body n = \<lparr>max_body_bytes = Some n, max_requests_per_window = None, window = secs 60, max_connections = None\<rparr>"

definition with_rate :: "u32 \<Rightarrow> nat \<Rightarrow> ReqLimits" where
  "with_rate n w = \<lparr>max_body_bytes = None, max_requests_per_window = Some n, window = w, max_connections = None\<rparr>"

definition allows_body :: "ReqLimits \<Rightarrow> u64 \<Rightarrow> bool" where
  "allows_body l declared_len = (case max_body_bytes l of Some mx \<Rightarrow> declared_len \<le> mx | None \<Rightarrow> True)"

definition limits_body :: "u64 \<Rightarrow> ReqLimits \<Rightarrow> ReqLimits" where
  "limits_body n l = l\<lparr>max_body_bytes := Some n\<rparr>"

definition limits_rate :: "u32 \<Rightarrow> nat \<Rightarrow> ReqLimits \<Rightarrow> ReqLimits" where
  "limits_rate n w l = l\<lparr>max_requests_per_window := Some n, window := w\<rparr>"

definition is_coherent :: "ReqLimits \<Rightarrow> bool" where
  "is_coherent l = (case max_requests_per_window l of Some _ \<Rightarrow> 0 < window l | None \<Rightarrow> True)"

datatype Refusal = BodyTooLarge u64 u64 | RateExceeded u32 nat

fun refusal_display :: "Refusal \<Rightarrow> ustr" where
  "refusal_display (BodyTooLarge lim got) =
     msg ''the request body is '' @ show_nat (unat got) @ msg '' bytes, over this tenant's '' @ show_nat (unat lim) @ msg ''-byte cap''"
| "refusal_display (RateExceeded lim window_secs) =
     msg ''this tenant has exceeded '' @ show_nat (unat lim) @ msg '' requests in '' @ show_nat window_secs @ msg '' seconds''"

definition window_is_active :: "nat \<Rightarrow> nat \<Rightarrow> nat \<Rightarrow> bool" where
  "window_is_active started win now \<longleftrightarrow> now - started < win"

section \<open>The tenant table\<close>

record 't Occupant =
  oc_key :: 't
  oc_started :: nat
  oc_count :: u32
  oc_window :: nat

record 't Bucket =
  occupant :: "'t Occupant option"

record 't TenantLimits =
  tl_limits :: "('t \<times> ReqLimits) list"
  fallback :: ReqLimits
  buckets :: "'t Bucket list"
  seed :: "'t \<Rightarrow> u64"

definition BUCKET_COUNT :: nat where
  "BUCKET_COUNT = 16384"

text \<open>\<open>None\<close> is the panic of an incoherent configuration.\<close>

definition tenant_limits_new :: "('t :: linorder \<Rightarrow> u64) \<Rightarrow> ('t \<times> ReqLimits) list \<Rightarrow> ReqLimits \<Rightarrow> 't TenantLimits option" where
  "tenant_limits_new hash ls fb =
     (let m = foldl (\<lambda>m (k, l). btree_insert k l m) [] ls in
      if \<not> is_coherent fb then None
      else if \<not> list_all (\<lambda>(_, l). is_coherent l) m then None
      else Some \<lparr>tl_limits = m, fallback = fb, buckets = replicate BUCKET_COUNT \<lparr>occupant = None\<rparr>, seed = hash\<rparr>)"

definition uniform :: "('t :: linorder \<Rightarrow> u64) \<Rightarrow> ReqLimits \<Rightarrow> 't TenantLimits option" where
  "uniform hash l = tenant_limits_new hash [] l"

definition limits_for :: "'t TenantLimits \<Rightarrow> 't \<Rightarrow> ReqLimits" where
  "limits_for s t = (case map_of (tl_limits s) t of Some l \<Rightarrow> l | None \<Rightarrow> fallback s)"

definition with_connections :: "('t :: linorder \<Rightarrow> u64) \<Rightarrow> ('t \<times> u32) list \<Rightarrow> u32 \<Rightarrow> 't TenantLimits option" where
  "with_connections hash cs fb =
     (let m = foldl (\<lambda>m (k, l). btree_insert k l m) [] (map (\<lambda>(t, c). (t, limits_none\<lparr>max_connections := Some c\<rparr>)) cs) in
      tenant_limits_new hash m (limits_none\<lparr>max_connections := Some fb\<rparr>))"

definition connections_by_tenant :: "'t TenantLimits \<Rightarrow> ('t \<times> u32) list" where
  "connections_by_tenant s = List.map_filter (\<lambda>(t, l). map_option (\<lambda>c. (t, c)) (max_connections l)) (tl_limits s)"

definition check_body :: "'t TenantLimits \<Rightarrow> 't \<Rightarrow> u64 \<Rightarrow> Refusal + unit" where
  "check_body s t len =
     (let l = limits_for s t in
      if allows_body l len then Inr ()
      else Inl (BodyTooLarge (case max_body_bytes l of Some m \<Rightarrow> m | None \<Rightarrow> 0) len))"

definition bucket_index :: "'t TenantLimits \<Rightarrow> 't \<Rightarrow> nat" where
  "bucket_index s t = unat (seed s t mod of_nat BUCKET_COUNT)"

text \<open>The decision on one bucket: the occupant after it, and whether the request is admitted.\<close>

definition bucket_admit :: "'t Occupant option \<Rightarrow> 't \<Rightarrow> ReqLimits \<Rightarrow> u32 \<Rightarrow> nat \<Rightarrow> 't Occupant option \<times> bool" where
  "bucket_admit oc t l mx now =
     (let fresh = \<lparr>oc_key = t, oc_started = now, oc_count = 1, oc_window = window l\<rparr> in
      case oc of
        None \<Rightarrow> (Some fresh, True)
      | Some x \<Rightarrow>
          if oc_key x = t then
            (let x = (if \<not> window_is_active (oc_started x) (window l) now
                      then x\<lparr>oc_started := now, oc_count := 0, oc_window := window l\<rparr> else x) in
             if mx \<le> oc_count x then (Some x, False) else (Some (x\<lparr>oc_count := sat_add (oc_count x) 1\<rparr>), True))
          else if \<not> window_is_active (oc_started x) (oc_window x) now then (Some fresh, True)
          else if mx \<le> oc_count x then (Some x, False)
          else (Some (x\<lparr>oc_count := sat_add (oc_count x) 1\<rparr>), True))"

definition check_and_record :: "'t TenantLimits \<Rightarrow> 't \<Rightarrow> nat \<Rightarrow> 't TenantLimits \<times> (Refusal + unit)" where
  "check_and_record s t now =
     (let l = limits_for s t in
      case max_requests_per_window l of
        None \<Rightarrow> (s, Inr ())
      | Some mx \<Rightarrow>
          (let i = bucket_index s t;
               (oc, admit) = bucket_admit (occupant (buckets s ! i)) t l mx now;
               s' = s\<lparr>buckets := (buckets s)[i := \<lparr>occupant = oc\<rparr>]\<rparr>
           in if admit then (s', Inr ()) else (s', Inl (RateExceeded mx (window l div 1000000000)))))"

section \<open>The process-wide budget\<close>

record GlobalBudget =
  requests_per_window :: u32
  request_window :: nat
  connections_per_window :: u32
  connection_window :: nat

definition global_budget_default :: GlobalBudget where
  "global_budget_default =
     \<lparr>requests_per_window = 1000000, request_window = secs 60, connections_per_window = 1000000, connection_window = secs 60\<rparr>"

record GlobalState =
  gs_started :: "nat option"
  gs_count :: u32
  gs_refused :: u64

record GlobalBucket =
  gb_budget :: u32
  gb_window :: nat
  gb_state :: GlobalState

definition global_bucket_new :: "u32 \<Rightarrow> nat \<Rightarrow> GlobalBucket option" where
  "global_bucket_new n w =
     (if w = 0 then None
      else Some \<lparr>gb_budget = n, gb_window = w, gb_state = \<lparr>gs_started = None, gs_count = 0, gs_refused = 0\<rparr>\<rparr>)"

definition global_admit :: "GlobalBucket \<Rightarrow> nat \<Rightarrow> GlobalBucket \<times> bool" where
  "global_admit g now =
     (let st = gb_state g;
          live = (case gs_started st of Some started \<Rightarrow> window_is_active started (gb_window g) now | None \<Rightarrow> False);
          st = (if live then st else st\<lparr>gs_started := Some now, gs_count := 0\<rparr>)
      in if gb_budget g \<le> gs_count st then (g\<lparr>gb_state := st\<lparr>gs_refused := sat_add (gs_refused st) 1\<rparr>\<rparr>, False)
         else (g\<lparr>gb_state := st\<lparr>gs_count := sat_add (gs_count st) 1\<rparr>\<rparr>, True))"

definition refused_total :: "GlobalBucket \<Rightarrow> u64" where
  "refused_total g = gs_refused (gb_state g)"

section \<open>Fixed windows\<close>

text \<open>Running a limiter over a list of arrivals: its answers and the state behind them.\<close>

fun answers :: "('s \<Rightarrow> 'a \<Rightarrow> 's \<times> bool) \<Rightarrow> 's \<Rightarrow> 'a list \<Rightarrow> bool list" where
  "answers arrive s [] = []"
| "answers arrive s (a # as) = snd (arrive s a) # answers arrive (fst (arrive s a)) as"

definition arrivals :: "('s \<Rightarrow> 'a \<Rightarrow> 's \<times> bool) \<Rightarrow> 's \<Rightarrow> 'a list \<Rightarrow> 's" where
  "arrivals arrive s as = foldl (\<lambda>s a. fst (arrive s a)) s as"

definition admitted :: "('s \<Rightarrow> 'a \<Rightarrow> 's \<times> bool) \<Rightarrow> 's \<Rightarrow> 'a list \<Rightarrow> nat" where
  "admitted arrive s as = length (filter id (answers arrive s as))"

lemma arrivals_simps [simp]: "arrivals f s [] = s" "arrivals f s (a # as) = arrivals f (fst (f s a)) as"
  by (simp_all add: arrivals_def)

lemma admitted_simps [simp]: "admitted f s [] = 0"
    "admitted f s (a # as) = of_bool (snd (f s a)) + admitted f (fst (f s a)) as"
  by (simp_all add: admitted_def)

text \<open>
  The contract of a fixed window: \<open>win\<close> reads the start of the current window and the admissions in it. A window that has
  passed is opened again by the next arrival; within a window exactly \<open>cap\<close> arrivals are admitted.
\<close>

locale fixed_window =
  fixes arrive :: "'s \<Rightarrow> 'a \<Rightarrow> 's \<times> bool" and inv :: "'s \<Rightarrow> bool" and ok :: "'a \<Rightarrow> bool" and "when" :: "'a \<Rightarrow> nat"
    and win :: "'s \<Rightarrow> (nat \<times> nat) option" and cap :: nat and len :: nat
  assumes arrive_inv: "inv s \<Longrightarrow> ok a \<Longrightarrow> inv (fst (arrive s a))"
    and count_le: "inv s \<Longrightarrow> win s = Some (st, c) \<Longrightarrow> c \<le> cap"
    and live: "inv s \<Longrightarrow> ok a \<Longrightarrow> win s = Some (st, c) \<Longrightarrow> when a - st < len \<Longrightarrow>
      (snd (arrive s a) \<longleftrightarrow> c < cap) \<and> win (fst (arrive s a)) = Some (st, c + of_bool (c < cap))"
    and opened: "inv s \<Longrightarrow> ok a \<Longrightarrow> (\<And>st c. win s = Some (st, c) \<Longrightarrow> len \<le> when a - st) \<Longrightarrow>
      (snd (arrive s a) \<longleftrightarrow> 0 < cap) \<and> win (fst (arrive s a)) = Some (when a, of_bool (0 < cap))"
begin

lemma arrivals_inv: "inv s \<Longrightarrow> list_all ok as \<Longrightarrow> inv (arrivals arrive s as)"
  by (induction as arbitrary: s) (simp_all add: arrive_inv)

text \<open>A window starts with an arrival.\<close>

lemma start_among:
  "inv s \<Longrightarrow> list_all ok as \<Longrightarrow> win (arrivals arrive s as) = Some (st, c) \<Longrightarrow> st \<in> when ` set as \<or> (\<exists>c. win s = Some (st, c))"
proof (induction as arbitrary: s)
  case (Cons a as)
  have "st' = when a \<or> (\<exists>c. win s = Some (st', c))" if "win (fst (arrive s a)) = Some (st', c')" for st' c'
    using that live [of s a] opened [of s a] Cons.prems(1,2) by (cases "win s") (force simp: not_less)+
  then show ?case using Cons.IH [of "fst (arrive s a)"] Cons.prems arrive_inv [of s a] by auto
qed simp

text \<open>Before the window ends only what is left of it is admitted.\<close>

lemma admitted_live:
  "inv s \<Longrightarrow> list_all ok as \<Longrightarrow> win s = Some (st, c) \<Longrightarrow> \<forall>a \<in> set as. when a - st < len \<Longrightarrow>
   admitted arrive s as = min (length as) (cap - c)"
proof (induction as arbitrary: s c)
  case (Cons a as)
  have step: "(snd (arrive s a) \<longleftrightarrow> c < cap) \<and> win (fst (arrive s a)) = Some (st, c + of_bool (c < cap))"
    using Cons.prems by (intro live) simp_all
  have "admitted arrive (fst (arrive s a)) as = min (length as) (cap - (c + of_bool (c < cap)))"
    using Cons.prems step arrive_inv [of s a] by (intro Cons.IH) simp_all
  then show ?case using step by (cases "c < cap") auto
qed simp

text \<open>A burst shorter than the window meets at most two windows.\<close>

lemma admitted_burst:
  assumes "inv s" "list_all ok as" "sorted (map when as)" "\<forall>a \<in> set as. \<forall>b \<in> set as. when b - when a < len"
  shows "admitted arrive s as \<le> (case win s of None \<Rightarrow> cap | Some (st, c) \<Rightarrow> (cap - c) + cap)"
  using assms
proof (induction as arbitrary: s)
  case (Cons a as)
  have inv': "inv (fst (arrive s a))" using Cons.prems arrive_inv by simp
  show ?case
  proof (cases "\<exists>st c. win s = Some (st, c) \<and> when a - st < len")
    case True
    then obtain st c where w: "win s = Some (st, c)" "when a - st < len" by blast
    have step: "(snd (arrive s a) \<longleftrightarrow> c < cap) \<and> win (fst (arrive s a)) = Some (st, c + of_bool (c < cap))"
      using Cons.prems w by (intro live) simp_all
    moreover have "admitted arrive (fst (arrive s a)) as \<le> (cap - (c + of_bool (c < cap))) + cap"
      using Cons.IH [OF inv'] Cons.prems step by simp
    ultimately show ?thesis using w by (cases "c < cap") simp_all
  next
    case False
    then have step: "(snd (arrive s a) \<longleftrightarrow> 0 < cap) \<and> win (fst (arrive s a)) = Some (when a, of_bool (0 < cap))"
      using Cons.prems by (intro opened) (auto simp: not_less)
    have "admitted arrive (fst (arrive s a)) as = min (length as) (cap - of_bool (0 < cap))"
      using Cons.prems inv' step by (intro admitted_live) auto
    then have "of_bool (snd (arrive s a)) + admitted arrive (fst (arrive s a)) as \<le> cap" using step by (cases "0 < cap") simp_all
    then show ?thesis by (auto split: option.splits)
  qed
qed simp

lemma burst_bounded:
  "inv s \<Longrightarrow> list_all ok as \<Longrightarrow> sorted (map when as) \<Longrightarrow> \<forall>a \<in> set as. \<forall>b \<in> set as. when b - when a < len \<Longrightarrow>
   admitted arrive s as \<le> 2 * cap"
  using admitted_burst [of s as] by (auto split: option.splits)

text \<open>The first arrival after a window has passed is admitted, and so are the next ones up to the cap.\<close>

lemma reopened:
  assumes "inv s" "list_all ok (a # as)" "\<And>st c. win s = Some (st, c) \<Longrightarrow> len \<le> when a - st" "\<forall>b \<in> set as. when b - when a < len" "0 < cap"
  shows "admitted arrive s (a # as) = min (Suc (length as)) cap"
proof -
  have step: "snd (arrive s a)" "win (fst (arrive s a)) = Some (when a, 1)" using opened [of s a] assms by simp_all
  have "admitted arrive (fst (arrive s a)) as = min (length as) (cap - 1)"
    using admitted_live [OF _ _ step(2)] assms(1,2,4) arrive_inv [of s a] by simp
  then show ?thesis using step(1) assms(5) by simp
qed

end


section \<open>The process-wide budget\<close>

definition global_inv :: "u32 \<Rightarrow> nat \<Rightarrow> GlobalBucket \<Rightarrow> bool" where
  "global_inv b w g \<longleftrightarrow> gb_budget g = b \<and> gb_window g = w \<and> gs_count (gb_state g) \<le> b"

definition global_win :: "GlobalBucket \<Rightarrow> (nat \<times> nat) option" where
  "global_win g = map_option (\<lambda>st. (st, unat (gs_count (gb_state g)))) (gs_started (gb_state g))"

lemma sat_succ: "(c :: 'a::len word) < b \<Longrightarrow> unat (sat_add c 1) = unat c + 1 \<and> sat_add c 1 \<le> b"
proof -
  assume "c < b"
  then have "unat c + 1 \<le> unat b" by (simp add: word_less_nat_alt)
  moreover have "unat b \<le> 2 ^ LENGTH('a) - 1" using unat_lt_len [of b] by linarith
  ultimately have "unat (sat_add c 1) = unat c + 1" "unat c + 1 \<le> unat b" by (simp_all add: unat_sat_add min_def)
  then show ?thesis by (simp add: word_le_nat_alt)
qed

interpretation global: fixed_window global_admit "global_inv b w" "\<lambda>_. True" "\<lambda>now. now" global_win "unat b" w for b w
proof
  fix g now assume "global_inv b w g"
  then show "global_inv b w (fst (global_admit g now))"
    using sat_succ [of "gs_count (gb_state g)" b] sat_succ [of 0 b]
    by (auto simp: global_inv_def global_admit_def Let_def not_le split: option.splits)
next
  fix g now st c assume "global_inv b w g" "global_win g = Some (st, c)" "now - st < w"
  then show "(snd (global_admit g now) \<longleftrightarrow> c < unat b) \<and> global_win (fst (global_admit g now)) = Some (st, c + of_bool (c < unat b))"
    using sat_succ [of "gs_count (gb_state g)" b]
    by (auto simp: global_inv_def global_admit_def global_win_def window_is_active_def Let_def not_le word_less_nat_alt word_le_nat_alt)
next
  fix g now assume "global_inv b w g" and old: "\<And>st c. global_win g = Some (st, c) \<Longrightarrow> w \<le> now - st"
  moreover have "\<not> (case gs_started (gb_state g) of Some started \<Rightarrow> window_is_active started w now | None \<Rightarrow> False)"
    using old by (auto simp: global_win_def window_is_active_def split: option.splits)
  ultimately show "(snd (global_admit g now) \<longleftrightarrow> 0 < unat b) \<and> global_win (fst (global_admit g now)) = Some (now, of_bool (0 < unat b))"
    using sat_succ [of 0 b]
    by (auto simp: global_inv_def global_admit_def global_win_def Let_def not_le word_less_nat_alt word_le_nat_alt)
qed (auto simp: global_inv_def global_win_def word_le_nat_alt)

section \<open>Buckets\<close>

definition record_arrive :: "'t TenantLimits \<Rightarrow> 't \<times> nat \<Rightarrow> 't TenantLimits \<times> bool" where
  "record_arrive s a = (let (s', r) = check_and_record s (fst a) (snd a) in (s', r = Inr ()))"

text \<open>A bucket whose tenants share the limits \<open>l\<close>.\<close>

definition bucket_inv :: "ReqLimits \<Rightarrow> u32 \<Rightarrow> 't Occupant option \<Rightarrow> bool" where
  "bucket_inv l mx oc \<longleftrightarrow> 0 < mx \<and> (case oc of None \<Rightarrow> True | Some x \<Rightarrow> oc_window x = window l \<and> oc_count x \<le> mx)"

definition bucket_win :: "'t Occupant option \<Rightarrow> (nat \<times> nat) option" where
  "bucket_win oc = map_option (\<lambda>x. (oc_started x, unat (oc_count x))) oc"

interpretation bucket: fixed_window "\<lambda>oc a. bucket_admit oc (fst a) l mx (snd a)" "bucket_inv l mx" "\<lambda>_. True" snd bucket_win "unat mx" "window l"
  for l mx
proof
  fix oc :: "'a Occupant option" and a :: "'a \<times> nat" assume "bucket_inv l mx oc"
  then show "bucket_inv l mx (fst (bucket_admit oc (fst a) l mx (snd a)))"
    using sat_succ [of "oc_count (the oc)" mx] sat_succ [of 0 mx]
    by (cases oc) (auto simp: bucket_inv_def bucket_admit_def Let_def not_le word_le_nat_alt word_less_nat_alt)
next
  fix oc :: "'a Occupant option" and st c and a :: "'a \<times> nat"
  assume a: "bucket_inv l mx oc" "bucket_win oc = Some (st, c)" "snd a - st < window l"
  then obtain x where x: "oc = Some x" "st = oc_started x" "c = unat (oc_count x)" by (auto simp: bucket_win_def)
  then have "bucket_admit oc (fst a) l mx (snd a) =
      (if mx \<le> oc_count x then (Some x, False) else (Some (x\<lparr>oc_count := sat_add (oc_count x) 1\<rparr>), True))"
    using a by (simp add: bucket_inv_def bucket_admit_def window_is_active_def)
  then show "(snd (bucket_admit oc (fst a) l mx (snd a)) \<longleftrightarrow> c < unat mx) \<and>
      bucket_win (fst (bucket_admit oc (fst a) l mx (snd a))) = Some (st, c + of_bool (c < unat mx))"
    using sat_succ [of "oc_count x" mx] x by (auto simp: bucket_win_def not_le word_le_nat_alt word_less_nat_alt)
next
  fix oc :: "'a Occupant option" and a :: "'a \<times> nat" assume "bucket_inv l mx oc" and old: "\<And>st c. bucket_win oc = Some (st, c) \<Longrightarrow> window l \<le> snd a - st"
  then show "(snd (bucket_admit oc (fst a) l mx (snd a)) \<longleftrightarrow> 0 < unat mx) \<and>
      bucket_win (fst (bucket_admit oc (fst a) l mx (snd a))) = Some (snd a, of_bool (0 < unat mx))"
    using sat_succ [of 0 mx]
    by (cases oc) (auto simp: bucket_inv_def bucket_win_def bucket_admit_def window_is_active_def Let_def not_le word_le_nat_alt word_less_nat_alt)
qed (auto simp: bucket_inv_def bucket_win_def word_le_nat_alt)


text \<open>The answers to the arrivals that satisfy \<open>P\<close>.\<close>

definition answers_to :: "('a \<Rightarrow> bool) \<Rightarrow> 'a list \<Rightarrow> bool list \<Rightarrow> bool list" where
  "answers_to P as bs = map snd (filter (\<lambda>(a, _). P a) (zip as bs))"

lemma answers_to_simps [simp]: "answers_to P [] bs = []"
    "answers_to P (a # as) (b # bs) = (if P a then b # answers_to P as bs else answers_to P as bs)"
  by (simp_all add: answers_to_def)

definition granted :: "('a \<Rightarrow> bool) \<Rightarrow> 'a list \<Rightarrow> bool list \<Rightarrow> nat" where
  "granted P as bs = length (filter id (answers_to P as bs))"

lemma granted_mono: "(\<And>a. P a \<Longrightarrow> Q a) \<Longrightarrow> length as = length bs \<Longrightarrow> granted P as bs \<le> granted Q as bs"
proof (induction as arbitrary: bs)
  case (Cons a as)
  then show ?case by (cases bs) (auto simp: granted_def le_SucI)
qed (simp add: granted_def)

lemma length_answers [simp]: "length (answers f s as) = length as"
  by (induction as arbitrary: s) simp_all

definition table_shape :: "'t TenantLimits \<Rightarrow> bool" where
  "table_shape s \<longleftrightarrow> length (buckets s) = BUCKET_COUNT"

lemma bucket_index_bound: "bucket_index s t < BUCKET_COUNT"
  by (simp add: bucket_index_def BUCKET_COUNT_def unat_mod)

lemma record_arrive_parts:
  "record_arrive s a =
     (case max_requests_per_window (limits_for s (fst a)) of
        None \<Rightarrow> (s, True)
      | Some mx \<Rightarrow>
          (let i = bucket_index s (fst a); r = bucket_admit (occupant (buckets s ! i)) (fst a) (limits_for s (fst a)) mx (snd a)
           in (s\<lparr>buckets := (buckets s)[i := \<lparr>occupant = fst r\<rparr>]\<rparr>, snd r)))"
  by (auto simp: record_arrive_def check_and_record_def Let_def split: option.splits prod.splits)

lemma record_arrive_frame:
  "tl_limits (fst (record_arrive s a)) = tl_limits s" "fallback (fst (record_arrive s a)) = fallback s"
  "seed (fst (record_arrive s a)) = seed s" "table_shape (fst (record_arrive s a)) = table_shape s"
  by (simp_all add: record_arrive_parts Let_def table_shape_def split: option.splits)

lemma frame_simps [simp]: "limits_for (fst (record_arrive s a)) = limits_for s" "bucket_index (fst (record_arrive s a)) = bucket_index s"
  by (simp_all add: fun_eq_iff limits_for_def bucket_index_def record_arrive_frame split: option.splits)

text \<open>Two tables that agree on the bucket of a tenant: the tenant is answered alike, and the others do not matter.\<close>

definition same_at :: "nat \<Rightarrow> 't TenantLimits \<Rightarrow> 't TenantLimits \<Rightarrow> bool" where
  "same_at i s s' \<longleftrightarrow> table_shape s \<and> table_shape s' \<and> tl_limits s = tl_limits s' \<and> fallback s = fallback s' \<and> seed s = seed s' \<and>
     buckets s ! i = buckets s' ! i"

lemma same_at_views: "same_at i s s' \<Longrightarrow> limits_for s = limits_for s' \<and> bucket_index s = bucket_index s'"
  by (simp add: same_at_def fun_eq_iff limits_for_def bucket_index_def split: option.splits)

lemma record_same:
  assumes "same_at i s s'" "bucket_index s (fst a) = i"
  shows "snd (record_arrive s a) = snd (record_arrive s' a)" "same_at i (fst (record_arrive s a)) (fst (record_arrive s' a))"
  using assms same_at_views [OF assms(1)] bucket_index_bound [of s "fst a"]
  by (auto simp: record_arrive_parts same_at_def table_shape_def Let_def split: option.splits)

lemma record_other:
  assumes "same_at i s s'" "bucket_index s (fst a) \<noteq> i"
  shows "same_at i (fst (record_arrive s a)) s'"
  using assms by (auto simp: record_arrive_parts same_at_def table_shape_def Let_def split: option.splits)

lemma answers_isolated:
  assumes "same_at i s s'"
  shows "answers_to (\<lambda>a. bucket_index s (fst a) = i) as (answers record_arrive s as) =
    answers record_arrive s' (filter (\<lambda>a. bucket_index s (fst a) = i) as)"
  using assms
proof (induction as arbitrary: s s')
  case (Cons a as)
  show ?case
  proof (cases "bucket_index s (fst a) = i")
    case True
    then show ?thesis using Cons.IH [OF record_same(2) [OF Cons.prems True]] record_same(1) [OF Cons.prems True] by simp
  next
    case False
    then show ?thesis using Cons.IH [OF record_other [OF Cons.prems False]] by simp
  qed
qed simp

lemma new_shape: "tenant_limits_new h ls fb = Some s \<Longrightarrow> table_shape s \<and> seed s = h \<and> list_all (\<lambda>b. occupant b = None) (buckets s)"
  by (auto simp: tenant_limits_new_def table_shape_def Let_def list_all_iff split: if_splits)

lemma arrivals_frame [simp]: "limits_for (arrivals record_arrive s as) = limits_for s" "bucket_index (arrivals record_arrive s as) = bucket_index s"
    "table_shape (arrivals record_arrive s as) = table_shape s"
  by (induction as arbitrary: s) (simp_all add: record_arrive_frame)

text \<open>Tenants in different buckets do not affect each other: in any interleaving of requests, the answers to the
  requests that fall into the bucket of a tenant are exactly those it would get if no others had been made.\<close>

theorem buckets_isolated:
  assumes "tenant_limits_new hash ls fb = Some s"
  shows "answers_to (\<lambda>a. bucket_index s (fst a) = bucket_index s t) as (answers record_arrive s as) =
    answers record_arrive s (filter (\<lambda>a. bucket_index s (fst a) = bucket_index s t) as)"
  using answers_isolated [of "bucket_index s t" s s as] new_shape [OF assms] by (simp add: same_at_def)

text \<open>Within one bucket, whose tenants share their limits, the table runs the bucket.\<close>

lemma answers_bucket:
  assumes "table_shape s" "\<forall>a \<in> set as. bucket_index s (fst a) = i \<and> limits_for s (fst a) = l" "max_requests_per_window l = Some mx"
  shows "answers record_arrive s as = answers (\<lambda>oc a. bucket_admit oc (fst a) l mx (snd a)) (occupant (buckets s ! i)) as \<and>
    occupant (buckets (arrivals record_arrive s as) ! i) = arrivals (\<lambda>oc a. bucket_admit oc (fst a) l mx (snd a)) (occupant (buckets s ! i)) as"
  using assms(1,2)
proof (induction as arbitrary: s)
  case (Cons a as)
  have i: "i < length (buckets s)" using Cons.prems bucket_index_bound [of s "fst a"] by (auto simp: table_shape_def)
  let ?r = "bucket_admit (occupant (buckets s ! i)) (fst a) l mx (snd a)"
  have step: "snd (record_arrive s a) = snd ?r" "occupant (buckets (fst (record_arrive s a)) ! i) = fst ?r"
    using Cons.prems(2) assms(3) i by (simp_all add: record_arrive_parts Let_def)
  then show ?case using Cons.IH [of "fst (record_arrive s a)"] Cons.prems by (simp add: record_arrive_frame)
qed simp


lemma arrivals_same: "same_at i s s' \<Longrightarrow>
   same_at i (arrivals record_arrive s as) (arrivals record_arrive s' (filter (\<lambda>a. bucket_index s (fst a) = i) as))"
proof (induction as arbitrary: s s')
  case (Cons a as)
  show ?case
  proof (cases "bucket_index s (fst a) = i")
    case True
    then show ?thesis using Cons.IH [OF record_same(2) [OF Cons.prems True]] by simp
  next
    case False
    then show ?thesis using Cons.IH [OF record_other [OF Cons.prems False]] by simp
  qed
qed simp

lemma sorted_map_filter: "sorted (map f as) \<Longrightarrow> sorted (map f (filter P as))"
  by (induction as) auto

text \<open>C25. A tenant with a positive cap whose bucket is shared only by tenants of the same limits gets at most twice its cap in
  any burst shorter than its window, whatever requests came before and whichever others are interleaved. The condition on
  sharing holds when the limits are uniform, and it is needed: tenants of different limits in one bucket can exceed the
  bound (\<open>sharing_exceeds\<close>).\<close>

theorem tenant_rate_bounded:
  fixes as before :: "('t :: linorder \<times> nat) list"
  assumes "tenant_limits_new hash ls fb = Some s" "max_requests_per_window (limits_for s t) = Some mx" "0 < mx"
    "\<forall>a \<in> set (before @ as). bucket_index s (fst a) = bucket_index s t \<longrightarrow> limits_for s (fst a) = limits_for s t"
    "sorted (map snd as)" "\<forall>a \<in> set as. \<forall>b \<in> set as. snd b - snd a < window (limits_for s t)"
  shows "granted (\<lambda>a. fst a = t) as (answers record_arrive (arrivals record_arrive s before) as) \<le> 2 * unat mx"
proof -
  define i l P where d: "i = bucket_index s t" "l = limits_for s t" "P = (\<lambda>a :: 't \<times> nat. bucket_index s (fst a) = i)"
  let ?arr = "\<lambda>oc a. bucket_admit oc (fst a) l mx (snd a)"
  define u where "u = arrivals record_arrive s (filter P before)"
  have shape: "table_shape s" "occupant (buckets s ! i) = None"
    using new_shape [OF assms(1)] bucket_index_bound [of s t] by (auto simp: d table_shape_def list_all_length)
  have "same_at i (arrivals record_arrive s before) u"
    using arrivals_same [of i s s before] shape(1) by (simp add: same_at_def u_def d)
  then have 1: "answers_to P as (answers record_arrive (arrivals record_arrive s before) as) = answers record_arrive u (filter P as)"
    using answers_isolated [of i "arrivals record_arrive s before" u as] by (simp add: d)
  have u: "table_shape u" "bucket_index u = bucket_index s" "limits_for u = limits_for s" using shape(1) by (simp_all add: u_def)
  have "occupant (buckets u ! i) = arrivals ?arr None (filter P before)"
    using answers_bucket [of s "filter P before" i l mx] assms(2,4) shape by (auto simp: u_def d)
  then have inv: "bucket_inv l mx (occupant (buckets u ! i))"
    using bucket.arrivals_inv [of l mx None "filter P before"] assms(3) by (simp add: bucket_inv_def list_all_iff)
  have "answers record_arrive u (filter P as) = answers ?arr (occupant (buckets u ! i)) (filter P as)"
    using answers_bucket [of u "filter P as" i l mx] assms(2,4) u by (auto simp: d)
  then have "granted P as (answers record_arrive (arrivals record_arrive s before) as) = admitted ?arr (occupant (buckets u ! i)) (filter P as)"
    using 1 by (simp add: granted_def admitted_def)
  also have "\<dots> \<le> 2 * unat mx"
    using bucket.burst_bounded [OF inv, of "filter P as"] assms(5,6) by (auto simp: sorted_map_filter list_all_iff d)
  finally show ?thesis
    using granted_mono [of "\<lambda>a. fst a = t" P as "answers record_arrive (arrivals record_arrive s before) as"] by (simp add: d)
qed

lemma admitted_le: "admitted f s as \<le> length as"
  by (simp add: admitted_def) (metis length_answers length_filter_le)

lemma refused_step: "unat (refused_total (fst (global_admit g now))) = min (unat (refused_total g) + of_bool (\<not> snd (global_admit g now))) (2 ^ 64 - 1)"
  using unat_lt_len [of "gs_refused (gb_state g)"]
  by (simp add: refused_total_def global_admit_def Let_def unat_sat_add)

lemma refused_exact:
  "unat (refused_total (arrivals global_admit g as)) = min (unat (refused_total g) + (length as - admitted global_admit g as)) (2 ^ 64 - 1)"
proof (induction as arbitrary: g)
  case Nil
  then show ?case using unat_lt_len [of "refused_total g"] by simp
next
  case (Cons a as)
  then show ?case using refused_step [of g a] admitted_le [of global_admit "fst (global_admit g a)" as] by (cases "snd (global_admit g a)") auto
qed

lemma global_new_inv: "global_bucket_new b w = Some g \<Longrightarrow> global_inv b w g \<and> global_win g = None \<and> refused_total g = 0 \<and> 0 < w"
  by (auto simp: global_bucket_new_def global_inv_def global_win_def refused_total_def split: if_splits)

text \<open>The process-wide budget: in any burst shorter than the window at most twice the budget is admitted, whatever came
  before; once a window has passed without arrivals the next one is admitted; and the refusal counter counts exactly the
  refusals, up to the largest 64-bit number.\<close>

theorem global_budget_bounds:
  assumes "global_bucket_new b w = Some g" "sorted as" "\<forall>x \<in> set as. \<forall>y \<in> set as. y - x < w"
  shows "admitted global_admit (arrivals global_admit g before) as \<le> 2 * unat b \<and>
    unat (refused_total (arrivals global_admit g before)) = min (length before - admitted global_admit g before) (2 ^ 64 - 1) \<and>
    (0 < b \<longrightarrow> (\<forall>t \<in> set before. t + w \<le> now) \<longrightarrow> snd (global_admit (arrivals global_admit g before) now))"
proof (intro conjI impI)
  note new = global_new_inv [OF assms(1)]
  have inv: "global_inv b w (arrivals global_admit g before)" using global.arrivals_inv [of b w g before] new by (simp add: list_all_iff)
  show "admitted global_admit (arrivals global_admit g before) as \<le> 2 * unat b"
    using global.burst_bounded [OF inv, of as] assms(2,3) by (simp add: list_all_iff)
  show "unat (refused_total (arrivals global_admit g before)) = min (length before - admitted global_admit g before) (2 ^ 64 - 1)"
    using refused_exact [of g before] new by simp
  assume b: "0 < b" and old: "\<forall>t \<in> set before. t + w \<le> now"
  have "w \<le> now - st" if "global_win (arrivals global_admit g before) = Some (st, c)" for st c
    using global.start_among [of b w g before st c] that new old by (auto simp: list_all_iff)
  then show "snd (global_admit (arrivals global_admit g before) now)"
    using global.opened [OF inv, of now] b by (simp add: word_less_nat_alt)
qed


section \<open>Examples\<close>

lemma uniform_limits: "tenant_limits_new h [] l = Some s \<Longrightarrow> limits_for s t = l"
  by (auto simp: tenant_limits_new_def limits_for_def Let_def split: if_splits)

lemma sample_limiter: "\<exists>s. tenant_limits_new (\<lambda>t :: nat. of_nat t) [] (with_rate 2 10) = Some s"
  by (simp add: tenant_limits_new_def is_coherent_def with_rate_def)

theorem buckets_isolated_witness:
  "\<exists>s. tenant_limits_new (\<lambda>t :: nat. of_nat t) [] (with_rate 2 10) = Some s \<and>
     answers_to (\<lambda>a. bucket_index s (fst a) = bucket_index s 1) [(1, 0), (2, 1), (1, 2 :: nat)] (answers record_arrive s [(1, 0), (2, 1), (1, 2)]) =
     answers record_arrive s (filter (\<lambda>a. bucket_index s (fst a) = bucket_index s 1) [(1, 0), (2, 1), (1, 2)])"
  using sample_limiter buckets_isolated by blast

theorem tenant_rate_bounded_witness:
  "\<exists>s. tenant_limits_new (\<lambda>t :: nat. of_nat t) [] (with_rate 2 10) = Some s \<and>
     granted (\<lambda>a. fst a = 1) [(1 :: nat, 5 :: nat), (2, 6), (1, 7), (1, 8)]
       (answers record_arrive (arrivals record_arrive s [(1, 0)]) [(1, 5), (2, 6), (1, 7), (1, 8)]) \<le> 4"
proof -
  obtain s where s: "tenant_limits_new (\<lambda>t :: nat. of_nat t) [] (with_rate 2 10) = Some s" using sample_limiter by blast
  have "granted (\<lambda>a. fst a = 1) [(1 :: nat, 5 :: nat), (2, 6), (1, 7), (1, 8)]
      (answers record_arrive (arrivals record_arrive s [(1, 0)]) [(1, 5), (2, 6), (1, 7), (1, 8)]) \<le> 2 * unat (2 :: u32)"
    by (rule tenant_rate_bounded [OF s]) (auto simp: uniform_limits [OF s] with_rate_def)
  then show ?thesis using s by auto
qed

theorem global_budget_bounds_witness:
  "\<exists>g. global_bucket_new 3 10 = Some g \<and> admitted global_admit (arrivals global_admit g [1, 2]) [8, 9, 12] \<le> 6"
proof -
  obtain g where g: "global_bucket_new 3 10 = Some g" by (simp add: global_bucket_new_def)
  then show ?thesis using global_budget_bounds [OF g, of "[8, 9, 12]" "[1, 2]"] by auto
qed

section \<open>Connection ceilings\<close>

lemma map_of_filter_values:
  "distinct (map fst m) \<Longrightarrow> map_of (List.map_filter (\<lambda>(k, v). map_option (\<lambda>c. (k, c)) (f v)) m) k = Option.bind (map_of m k) f"
proof (induction m)
  case (Cons kv m)
  have "fst ` set (List.map_filter (\<lambda>(k, v). map_option (\<lambda>c. (k, c)) (f v)) m) \<subseteq> fst ` set m"
    by (force simp: List.map_filter_def split: option.splits)
  then have "map_of (List.map_filter (\<lambda>(k, v). map_option (\<lambda>c. (k, c)) (f v)) m) (fst kv) = None" "map_of m (fst kv) = None"
    using Cons.prems by (auto simp: map_of_eq_None_iff)
  then show ?case using Cons by (cases "f (snd kv)") (auto simp: split_beta)
qed simp

lemma map_of_rev_distinct: "distinct (map fst xs) \<Longrightarrow> map_of (rev xs) = map_of xs"
  by (subst map_of_inject_set) (simp_all flip: rev_map)

lemma ordered_collect: "btree_ordered m \<Longrightarrow> btree_ordered (foldl (\<lambda>m (k, l). btree_insert k l m) m ls)"
  by (induction ls arbitrary: m) (auto simp: btree_ordered_insert)

text \<open>A tenant of the table that names a ceiling has it in the ledger; every other keeps the ceiling of the server.\<close>

lemma ceiling_from_limits:
  assumes "tenant_limits_new h ls fb = Some s"
  shows "ceiling_for (with_limits (connections_by_tenant s) n) t =
    max (case Option.bind (map_of (tl_limits s) t) max_connections of Some c \<Rightarrow> c | None \<Rightarrow> n) 1"
proof -
  let ?cs = "connections_by_tenant s"
  have "btree_ordered (tl_limits s)"
    using assms ordered_collect [of "[]" ls] by (auto simp: tenant_limits_new_def btree_ordered_def Let_def split: if_splits)
  then have d: "distinct (map fst (tl_limits s))" by (rule btree_ordered_distinct)
  then have m: "map_of ?cs t = Option.bind (map_of (tl_limits s) t) max_connections"
    using map_of_filter_values [of "tl_limits s" max_connections t] by (simp add: connections_by_tenant_def)
  have "map fst (List.map_filter (\<lambda>(t, l). map_option (\<lambda>c. (t, c)) (max_connections l)) m) =
      map fst (filter (\<lambda>(t, l). max_connections l \<noteq> None) m)" for m :: "('a \<times> ReqLimits) list"
    by (induction m) (auto split: option.splits)
  then have "distinct (map fst ?cs)" using d by (simp add: distinct_map_filter connections_by_tenant_def)
  then have "map_of (rev (map (\<lambda>(t, n). (t, max n 1)) ?cs)) t = map_option (\<lambda>n. max n 1) (map_of ?cs t)"
    by (subst map_of_rev_distinct) (simp_all add: o_def split_beta map_of_map)
  then show ?thesis using m by (simp add: ceiling_for_def with_limits_def split: option.splits)
qed

section \<open>Where the comments promise more\<close>

text \<open>A cap of zero is meant to refuse everything, but a bucket that is free or whose window has passed admits one request.\<close>

lemma zero_cap_admits: "snd (bucket_admit None t l 0 now)"
  by (simp add: bucket_admit_def)

text \<open>
  Sharing a bucket is said never to admit past a cap. A tenant with a long window that collides with one of a short window
  is counted by the window of the other: here tenant 1, allowed two requests in 100, gets five.
\<close>

lemma sharing_exceeds:
  "granted (\<lambda>a. fst a = 1) reqs (answers (\<lambda>oc a. if fst a = 0 then bucket_admit oc (fst a) (with_rate 2 1) 2 (snd a)
       else bucket_admit oc (fst a) (with_rate 2 100) 2 (snd a)) None reqs) = 5"
  if "reqs = [(0 :: nat, 0), (1, 0), (0, 1), (1, 1), (0, 2), (1, 2), (0, 3), (1, 3), (0, 4), (1, 4)]"
  unfolding that by (simp add: granted_def bucket_admit_def window_is_active_def with_rate_def sat_add_def word_le_nat_alt)

end
