(* ===== verification/Body.thy ===== *)
theory Body
  imports Http1 RateLimits
begin

text \<open>
  Request bodies: the incremental reader with its cap (\<open>qqq-serve/src/body.rs\<close>), the body a flat handler receives
  (\<open>body_bytes.rs\<close>) and the loop of the server that collects it (\<open>drain_body\<close> in \<open>server.rs\<close>). The transport is a parameter:
  \<open>rd io want\<close> is one \<open>read\<close> into a buffer of \<open>want\<close> bytes, an I/O error being an empty read. What \<open>AsyncRead\<close> promises of
  it is the locale \<open>byte_source\<close>. A \<open>String\<close> is the list of its bytes.
\<close>

section \<open>The reader\<close>

datatype BodyError =
    BadChunkSize bstr
  | ChunkSizeLineTooLong nat
  | MissingChunkTerminator
  | TooLarge u64 u64
  | Truncated
  | BadFraming string
  | InvalidReadSize

definition MAX_CHUNK_SIZE_LINE :: nat where
  "MAX_CHUNK_SIZE_LINE = 1024"

datatype BodyChunk = Data "u8 list" | End

datatype Framing = NoFraming | Length u64 | Chunked

record BodyReader =
  br_framing :: Framing
  max_bytes :: u64
  seen :: u64
  chunk_remaining :: u64
  finished :: bool

definition reader_empty :: "u64 \<Rightarrow> BodyReader" where
  "reader_empty mx = \<lparr>br_framing = NoFraming, max_bytes = mx, seen = 0, chunk_remaining = 0, finished = True\<rparr>"

definition length_delimited :: "u64 \<Rightarrow> u64 \<Rightarrow> BodyReader" where
  "length_delimited len mx =
     \<lparr>br_framing = (if len = 0 then NoFraming else Length len), max_bytes = mx, seen = 0, chunk_remaining = 0, finished = (len = 0)\<rparr>"

definition reader_chunked :: "u64 \<Rightarrow> BodyReader" where
  "reader_chunked mx = \<lparr>br_framing = Chunked, max_bytes = mx, seen = 0, chunk_remaining = 0, finished = False\<rparr>"

definition from_head :: "RequestHead \<Rightarrow> u64 \<Rightarrow> BodyError + BodyReader" where
  "from_head h mx =
     (if chunked h \<and> content_length h \<noteq> None then Inl (BadFraming ''both Content-Length and Transfer-Encoding: chunked'')
      else if chunked h then Inr (reader_chunked mx)
      else case content_length h of Some len \<Rightarrow> Inr (length_delimited len mx) | None \<Rightarrow> Inr (reader_empty mx))"

definition account :: "nat \<Rightarrow> BodyReader \<Rightarrow> BodyReader \<times> (BodyError + unit)" where
  "account n r =
     (let r = r\<lparr>seen := sat_add (seen r) (if n < 2 ^ 64 then of_nat n else umax)\<rparr> in
      if max_bytes r < seen r then (r, Inl (TooLarge (max_bytes r) (seen r))) else (r, Inr ()))"

type_synonym 'io rd = "'io \<Rightarrow> nat \<Rightarrow> u8 list \<times> 'io"

function read_line_loop :: "'io rd \<Rightarrow> nat \<Rightarrow> u8 list \<Rightarrow> 'io \<Rightarrow> 'io \<times> (BodyError + bstr)" where
  "read_line_loop rd lim out io =
     (if lim < length out then (io, Inl (ChunkSizeLineTooLong lim))
      else case rd io 1 of
        ([], io') \<Rightarrow> (io', Inl Truncated)
      | (b # _, io') \<Rightarrow>
          if b = 10 then
            (if out = [] \<or> last out \<noteq> 13 then (io', Inl (BadFraming ''a chunk line must end with CRLF, not a bare LF''))
             else if from_utf8_ok (butlast out) then (io', Inr (butlast out))
             else (io', Inl (BadFraming ''non-UTF-8 line'')))
          else read_line_loop rd lim (out @ [b]) io')"
  by pat_completeness auto
termination
  by (relation "measure (\<lambda>(_, lim, out, _). Suc lim - length out)") auto

declare read_line_loop.simps [simp del]

definition read_line :: "'io rd \<Rightarrow> 'io \<Rightarrow> nat \<Rightarrow> 'io \<times> (BodyError + bstr)" where
  "read_line rd io lim = read_line_loop rd lim [] io"

definition is_hexdigit :: "u8 \<Rightarrow> bool" where
  "is_hexdigit b \<longleftrightarrow> (48 \<le> b \<and> b \<le> 57) \<or> (65 \<le> b \<and> b \<le> 70) \<or> (97 \<le> b \<and> b \<le> 102)"

definition hex_val :: "u8 \<Rightarrow> nat" where
  "hex_val b = (if b \<le> 57 then unat b - 48 else if b \<le> 70 then unat b - 55 else unat b - 87)"

definition hex_number :: "bstr \<Rightarrow> nat" where
  "hex_number ds = foldl (\<lambda>a d. a * 16 + hex_val d) 0 ds"

definition blank :: "u8 \<Rightarrow> bool" where
  "blank c \<longleftrightarrow> c = 32 \<or> c = 9"

text \<open>The digits of a size line: before the first \<open>;\<close>, without blanks around them.\<close>

definition size_digits :: "bstr \<Rightarrow> bstr" where
  "size_digits line = rev (dropWhile blank (rev (dropWhile blank (takeWhile (\<lambda>c. c \<noteq> 59) line))))"

definition parse_chunk_size :: "bstr \<Rightarrow> BodyError + u64" where
  "parse_chunk_size line =
     (let digits = size_digits line in
      if digits = [] \<or> \<not> list_all is_hexdigit digits then Inl (BadChunkSize line)
      else if hex_number digits < 2 ^ 64 then Inr (of_nat (hex_number digits)) else Inl (BadChunkSize line))"

definition read_chunk_size :: "'io rd \<Rightarrow> 'io \<Rightarrow> 'io \<times> (BodyError + u64)" where
  "read_chunk_size rd io =
     (case read_line rd io MAX_CHUNK_SIZE_LINE of
        (io, Inl e) \<Rightarrow> (io, Inl e)
      | (io, Inr line) \<Rightarrow> (io, parse_chunk_size line))"

fun trailer_loop :: "'io rd \<Rightarrow> nat \<Rightarrow> BodyReader \<Rightarrow> 'io \<Rightarrow> BodyReader \<times> 'io \<times> (BodyError + unit)" where
  "trailer_loop rd 0 r io = (r, io, Inl (BadFraming ''too many trailer lines''))"
| "trailer_loop rd (Suc k) r io =
     (case read_line rd io MAX_CHUNK_SIZE_LINE of
        (io, Inl e) \<Rightarrow> (r, io, Inl e)
      | (io, Inr line) \<Rightarrow>
          (case account (length line + 2) r of
             (r, Inl e) \<Rightarrow> (r, io, Inl e)
           | (r, Inr _) \<Rightarrow> if line = [] then (r, io, Inr ()) else trailer_loop rd k r io))"

definition read_trailers :: "'io rd \<Rightarrow> BodyReader \<Rightarrow> 'io \<Rightarrow> BodyReader \<times> 'io \<times> (BodyError + unit)" where
  "read_trailers rd r io = trailer_loop rd 100 r io"

function crlf_loop :: "'io rd \<Rightarrow> u8 list \<Rightarrow> 'io \<Rightarrow> 'io \<times> (BodyError + unit)" where
  "crlf_loop rd got io =
     (if length got < 2 then
        (case rd io (2 - length got) of
           ([], io') \<Rightarrow> (io', Inl Truncated)
         | (b # bs, io') \<Rightarrow> crlf_loop rd (got @ b # bs) io')
      else (io, if got \<noteq> [13, 10] then Inl MissingChunkTerminator else Inr ()))"
  by pat_completeness auto
termination
  by (relation "measure (\<lambda>(_, got, _). 2 - length got)") auto

declare crlf_loop.simps [simp del]

definition expect_crlf :: "'io rd \<Rightarrow> 'io \<Rightarrow> 'io \<times> (BodyError + unit)" where
  "expect_crlf rd io = crlf_loop rd [] io"

text \<open>The part of the chunked path that delivers bytes of the current chunk.\<close>

definition chunk_data :: "'io rd \<Rightarrow> BodyReader \<Rightarrow> 'io \<Rightarrow> nat \<Rightarrow> BodyReader \<times> 'io \<times> (BodyError + BodyChunk)" where
  "chunk_data rd r io mx =
     (let want = min (unat (chunk_remaining r)) mx in
      case rd io want of
        ([], io) \<Rightarrow> (r, io, Inl Truncated)
      | (b # bs, io) \<Rightarrow>
          (let buf = b # bs in
           case account (length buf) (r\<lparr>chunk_remaining := chunk_remaining r - of_nat (length buf)\<rparr>) of
             (r, Inl e) \<Rightarrow> (r, io, Inl e)
           | (r, Inr _) \<Rightarrow>
               if chunk_remaining r = 0 then
                 (case expect_crlf rd io of (io, Inl e) \<Rightarrow> (r, io, Inl e) | (io, Inr _) \<Rightarrow> (r, io, Inr (Data buf)))
               else (r, io, Inr (Data buf))))"

definition poll_chunked :: "'io rd \<Rightarrow> BodyReader \<Rightarrow> 'io \<Rightarrow> nat \<Rightarrow> BodyReader \<times> 'io \<times> (BodyError + BodyChunk)" where
  "poll_chunked rd r io mx =
     (if chunk_remaining r = 0 then
        (case read_chunk_size rd io of
           (io, Inl e) \<Rightarrow> (r, io, Inl e)
         | (io, Inr sz) \<Rightarrow>
             if sz = 0 then
               (case read_trailers rd r io of
                  (r, io, Inl e) \<Rightarrow> (r, io, Inl e)
                | (r, io, Inr _) \<Rightarrow> (r\<lparr>finished := True\<rparr>, io, Inr End))
             else chunk_data rd (r\<lparr>chunk_remaining := sz\<rparr>) io mx)
      else chunk_data rd r io mx)"

definition poll_chunk :: "'io rd \<Rightarrow> BodyReader \<Rightarrow> 'io \<Rightarrow> nat \<Rightarrow> BodyReader \<times> 'io \<times> (BodyError + BodyChunk)" where
  "poll_chunk rd r io mx =
     (if finished r then (r, io, Inr End)
      else if mx = 0 then (r, io, Inl InvalidReadSize)
      else case br_framing r of
        NoFraming \<Rightarrow> (r\<lparr>finished := True\<rparr>, io, Inr End)
      | Length tot \<Rightarrow>
          (let left = sat_sub tot (seen r) in
           if left = 0 then (r\<lparr>finished := True\<rparr>, io, Inr End)
           else case rd io (min (unat left) mx) of
             ([], io) \<Rightarrow> (r, io, Inl Truncated)
           | (b # bs, io) \<Rightarrow>
               (case account (length (b # bs)) r of
                  (r, Inl e) \<Rightarrow> (r, io, Inl e)
                | (r, Inr _) \<Rightarrow> ((if tot \<le> seen r then r\<lparr>finished := True\<rparr> else r), io, Inr (Data (b # bs)))))
      | Chunked \<Rightarrow> poll_chunked rd r io mx)"

section \<open>Loops over a body\<close>

text \<open>
  The loops of callers. With the largest possible cap the count can stick at its maximum, so that a chunked body need not
  end: \<open>None\<close> stands for a loop that goes on forever.
\<close>

partial_function (option) discard_loop :: "'io rd \<Rightarrow> u64 \<Rightarrow> BodyReader \<Rightarrow> 'io \<Rightarrow> (BodyReader \<times> 'io \<times> (BodyError + u64)) option" where
  "discard_loop rd tot r io =
     (case poll_chunk rd r io (8 * 1024) of
        (r, io, Inl e) \<Rightarrow> Some (r, io, Inl e)
      | (r, io, Inr (Data _)) \<Rightarrow> discard_loop rd (seen r) r io
      | (r, io, Inr End) \<Rightarrow> Some (r, io, Inr tot))"

definition discard :: "'io rd \<Rightarrow> BodyReader \<Rightarrow> 'io \<Rightarrow> (BodyReader \<times> 'io \<times> (BodyError + u64)) option" where
  "discard rd r io = discard_loop rd 0 r io"

datatype BodyBytes = Absent | Buffered "u8 list" | BytesTooLarge

definition body_as_slice :: "BodyBytes \<Rightarrow> u8 list" where
  "body_as_slice b = (case b of Buffered bs \<Rightarrow> bs | _ \<Rightarrow> [])"

definition body_is_present :: "BodyBytes \<Rightarrow> bool" where
  "body_is_present b \<longleftrightarrow> b \<noteq> Absent"

text \<open>
  The loop of \<open>drain_body\<close>, which asks for \<open>mx\<close> bytes at a time: \<open>stall n\<close> says whether the \<open>n\<close>-th poll takes longer than the idle bound. The result is the body and
  the count, or nothing when the connection has to close.
\<close>

partial_function (option) drain_loop :: "'io rd \<Rightarrow> nat \<Rightarrow> (nat \<Rightarrow> bool) \<Rightarrow> nat \<Rightarrow> u8 list \<Rightarrow> BodyReader \<Rightarrow> 'io \<Rightarrow> ('io \<times> (u8 list \<times> u64) option) option" where
  "drain_loop rd mx stall n body r io =
     (if stall n then Some (io, None)
      else case poll_chunk rd r io mx of
        (r, io, Inl e) \<Rightarrow> Some (io, None)
      | (r, io, Inr (Data chunk)) \<Rightarrow> drain_loop rd mx stall (n + 1) (body @ chunk) r io
      | (r, io, Inr End) \<Rightarrow> Some (io, Some (body, seen r)))"

text \<open>\<open>Cursor::new(prefix).chain(stream)\<close>: the buffered bytes first, then the socket.\<close>

definition chain :: "'io rd \<Rightarrow> (u8 list \<times> 'io) rd" where
  "chain rd pio want =
     (case pio of (pre, io) \<Rightarrow>
        if pre \<noteq> [] then (take want pre, (drop want pre, io)) else case rd io want of (bs, io) \<Rightarrow> (bs, ([], io)))"

text \<open>
  The buffer after it, the socket, and the body with its count. The bytes of the prefix that the reader does not consume
  are dropped with the chained reader. \<open>continue_ok\<close> says whether writing the interim response succeeds.
\<close>

definition drain_body :: "'io rd \<Rightarrow> bool \<Rightarrow> (nat \<Rightarrow> bool) \<Rightarrow> 'io \<Rightarrow> u8 list \<Rightarrow> RequestHead \<Rightarrow> u64 \<Rightarrow>
    (u8 list \<times> 'io \<times> (BodyBytes \<times> u64) option) option" where
  "drain_body rd continue_ok stall io buf h mx =
     (if \<not> chunked h \<and> (content_length h = None \<or> content_length h = Some 0) then
        Some (buf, io, Some (if content_length h = Some 0 then Buffered [] else Absent, 0))
      else case from_head h mx of
        Inl _ \<Rightarrow> Some (buf, io, None)
      | Inr r \<Rightarrow>
          if version h = Http11 \<and> (case header h (ascii ''expect'') of Some e \<Rightarrow> eq_ignore_ascii_case e (ascii ''100-continue'') | None \<Rightarrow> False) \<and>
             \<not> continue_ok then Some (buf, io, None)
          else map_option (\<lambda>((_, io), res). ([], io, map_option (\<lambda>(body, n). (Buffered body, n)) res))
            (drain_loop (chain rd) (8 * 1024) stall 0 [] r (buf, io)))"

definition effective_body_cap :: "'t TenantLimits option \<Rightarrow> 't \<Rightarrow> u64" where
  "effective_body_cap ls t =
     min MAX_REQUEST_BYTES (case ls of None \<Rightarrow> umax | Some l \<Rightarrow> (case max_body_bytes (limits_for l t) of Some n \<Rightarrow> n | None \<Rightarrow> umax))"

section \<open>What a body is\<close>

text \<open>
  The reference: a body as a function of the bytes that follow the head. A line ends with CRLF and is at most 1023 bytes
  long; \<open>b\<close> is what is left of the cap and \<open>k\<close> what is left of the current chunk.
\<close>

definition line_of :: "bstr \<Rightarrow> (bstr \<times> bstr) option" where
  "line_of bs =
     (let pre = takeWhile (\<lambda>c. c \<noteq> 10) bs; rest = dropWhile (\<lambda>c. c \<noteq> 10) bs in
      if rest = [] \<or> MAX_CHUNK_SIZE_LINE < length pre \<or> pre = [] \<or> last pre \<noteq> 13 \<or> \<not> from_utf8_ok (butlast pre) then None
      else Some (butlast pre, tl rest))"

fun trailers_of :: "nat \<Rightarrow> nat \<Rightarrow> bstr \<Rightarrow> bstr option" where
  "trailers_of 0 b bs = None"
| "trailers_of (Suc k) b bs =
     (case line_of bs of
        None \<Rightarrow> None
      | Some (l, rest) \<Rightarrow>
          if b < length l + 2 then None else if l = [] then Some rest else trailers_of k (b - (length l + 2)) rest)"

lemma line_of_shorter: "line_of bs = Some (l, rest) \<Longrightarrow> length rest < length bs"
proof -
  assume "line_of bs = Some (l, rest)"
  then have "rest = tl (dropWhile (\<lambda>c. c \<noteq> 10) bs)" "dropWhile (\<lambda>c. c \<noteq> 10) bs \<noteq> []"
    by (simp_all add: line_of_def Let_def split: if_splits)
  then have "length rest < length (dropWhile (\<lambda>c. c \<noteq> 10) bs)" by simp
  then show ?thesis using length_dropWhile_le [of "\<lambda>c. c \<noteq> 10" bs] by (rule less_le_trans)
qed

function chunked_body :: "nat \<Rightarrow> nat \<Rightarrow> bstr \<Rightarrow> (bstr \<times> bstr) option" where
  "chunked_body b k bs =
     (if k = 0 then
        (case line_of bs of
           None \<Rightarrow> None
         | Some (l, rest) \<Rightarrow>
             (case parse_chunk_size l of
                Inl _ \<Rightarrow> None
              | Inr sz \<Rightarrow> if sz = 0 then map_option (\<lambda>r. ([], r)) (trailers_of 100 b rest) else chunked_body b (unat sz) rest))
      else if length bs < k \<or> b < k \<or> take 2 (drop k bs) \<noteq> [13, 10] then None
      else map_option (\<lambda>(d, r). (take k bs @ d, r)) (chunked_body (b - k) 0 (drop (k + 2) bs)))"
  by pat_completeness auto
termination
  by (relation "measure (\<lambda>(_, _, bs). length bs)") (auto dest: line_of_shorter)

declare chunked_body.simps [simp del]

definition budget :: "BodyReader \<Rightarrow> nat" where
  "budget r = unat (max_bytes r) - unat (seen r)"

definition reader_ok :: "BodyReader \<Rightarrow> bool" where
  "reader_ok r \<longleftrightarrow> max_bytes r < umax \<and> seen r \<le> max_bytes r"

definition body_of :: "BodyReader \<Rightarrow> bstr \<Rightarrow> (bstr \<times> bstr) option" where
  "body_of r bs =
     (if finished r then Some ([], bs)
      else case br_framing r of
        NoFraming \<Rightarrow> Some ([], bs)
      | Length len \<Rightarrow>
          (let left = unat len - unat (seen r) in
           if left \<le> budget r \<and> left \<le> length bs then Some (take left bs, drop left bs) else None)
      | Chunked \<Rightarrow> chunked_body (budget r) (unat (chunk_remaining r)) bs)"

text \<open>A chunk may arrive in pieces.\<close>

lemma chunked_piece:
  assumes "0 < n" "n < k" "n \<le> length bs"
  shows "chunked_body b k bs = (if b < n then None else map_option (\<lambda>(d, r). (take n bs @ d, r)) (chunked_body (b - n) (k - n) (drop n bs)))"
proof -
  have "take 2 (drop (k - n) (drop n bs)) = take 2 (drop k bs)" "drop (k - n + 2) (drop n bs) = drop (k + 2) bs"
      "take n bs @ take (k - n) (drop n bs) = take k bs"
    using assms by (simp_all add: take_add [symmetric])
  then show ?thesis using assms by (auto simp: chunked_body.simps [of b k bs] chunked_body.simps [of "b - n" "k - n"] option.map_comp o_def split_beta
        intro!: option.map_cong)
qed

lemma chunked_last:
  assumes "0 < n" "n \<le> length bs"
  shows "chunked_body b n bs = (if b < n \<or> take 2 (drop n bs) \<noteq> [13, 10] then None
    else map_option (\<lambda>(d, r). (take n bs @ d, r)) (chunked_body (b - n) 0 (drop 2 (drop n bs))))"
  using assms by (simp add: chunked_body.simps [of b n] add.commute)

section \<open>Accounting\<close>

lemma account_ok:
  assumes "reader_ok r" "n \<le> budget r"
  obtains r' where "account n r = (r', Inr ())" "r' = r\<lparr>seen := seen r'\<rparr>" "unat (seen r') = unat (seen r) + n" "reader_ok r'"
    "budget r' = budget r - n"
proof -
  have lim: "unat (max_bytes r) < 2 ^ 64 - 1" "unat (seen r) \<le> unat (max_bytes r)"
    using assms(1) by (simp_all add: reader_ok_def word_less_nat_alt word_le_nat_alt unat_umax)
  have n: "unat (seen r) + n \<le> unat (max_bytes r)" using assms(2) lim(2) by (simp add: budget_def)
  then have "n < 2 ^ 64" using lim(1) by linarith
  then have "unat (sat_add (seen r) (of_nat n)) = unat (seen r) + n" using n lim by (simp add: unat_sat_add unat_of_nat)
  then show ?thesis using that [of "r\<lparr>seen := sat_add (seen r) (of_nat n)\<rparr>"] \<open>n < 2 ^ 64\<close> n assms(1)
    by (simp add: account_def word_le_nat_alt word_less_nat_alt reader_ok_def budget_def)
qed

lemma account_bad:
  assumes "reader_ok r" "budget r < n"
  obtains r' e where "account n r = (r', Inl e)"
proof -
  let ?n = "if n < 2 ^ 64 then of_nat n else umax :: u64"
  have lim: "unat (max_bytes r) < 2 ^ 64 - 1" "unat (seen r) \<le> unat (max_bytes r)"
    using assms(1) by (simp_all add: reader_ok_def word_less_nat_alt word_le_nat_alt unat_umax)
  have "unat (max_bytes r) < unat (seen r) + n" using assms(2) lim(2) by (simp add: budget_def)
  then have "unat (max_bytes r) < min (unat (seen r) + unat ?n) (2 ^ 64 - 1)" using lim(1) by (simp add: unat_of_nat unat_umax)
  then have "max_bytes r < sat_add (seen r) ?n" by (simp add: word_less_nat_alt unat_sat_add)
  then show ?thesis using that by (simp add: account_def Let_def)
qed


lemma account_frame: "account n r = (r', x) \<Longrightarrow> r' = r\<lparr>seen := seen r'\<rparr>"
  by (auto simp: account_def Let_def split: if_splits)

section \<open>Reading from a byte source\<close>

text \<open>
  What \<open>AsyncRead\<close> promises: a read delivers the next bytes, at most as many as asked for, and nothing only at the end.
  How the bytes are cut into reads is up to the transport.
\<close>

locale byte_source =
  fixes rd :: "'io \<Rightarrow> nat \<Rightarrow> u8 list \<times> 'io" and bytes :: "'io \<Rightarrow> u8 list"
  assumes rd_law: "0 < want \<Longrightarrow> rd io want = (d, io') \<Longrightarrow> bytes io = d @ bytes io' \<and> length d \<le> want \<and> (bytes io \<noteq> [] \<longrightarrow> d \<noteq> [])"
begin

lemma rd_cases:
  assumes "0 < want"
  obtains (eof) io' where "rd io want = ([], io')" "bytes io = []"
  | (got) b bs io' where "rd io want = (b # bs, io')" "bytes io = (b # bs) @ bytes io'" "length (b # bs) \<le> want"
proof -
  obtain d io' where d: "rd io want = (d, io')" by (cases "rd io want")
  show ?thesis using rd_law [OF assms d] d that by (cases d) auto
qed

lemma rd_one:
  obtains (eof) io' where "rd io 1 = ([], io')" "bytes io = []"
  | (got) b io' where "rd io 1 = ([b], io')" "bytes io = b # bytes io'"
  by (rule rd_cases [of 1 io]) (auto intro: that)

end

text \<open>The bytes of a line and what is left, as the loop sees them when it has read \<open>out\<close>.\<close>

lemma line_of_found:
  "list_all (\<lambda>c. c \<noteq> 10) out \<Longrightarrow> line_of (out @ 10 # rest) =
     (if MAX_CHUNK_SIZE_LINE < length out \<or> out = [] \<or> last out \<noteq> 13 \<or> \<not> from_utf8_ok (butlast out) then None else Some (butlast out, rest))"
  by (auto simp: line_of_def list_all_iff takeWhile_append dropWhile_append)

lemma line_of_eof: "list_all (\<lambda>c. c \<noteq> 10) out \<Longrightarrow> line_of out = None"
  by (simp add: line_of_def list_all_iff)

lemma line_of_long: "list_all (\<lambda>c. c \<noteq> 10) out \<Longrightarrow> MAX_CHUNK_SIZE_LINE < length out \<Longrightarrow> line_of (out @ rest) = None"
  by (auto simp: line_of_def list_all_iff takeWhile_append Let_def)

definition same_outcome :: "('io \<Rightarrow> bstr) \<Rightarrow> ('r \<times> bstr) option \<Rightarrow> 'io \<times> (BodyError + 'r) \<Rightarrow> bool" where
  "same_outcome bytes spec res \<longleftrightarrow>
     (case snd res of Inl _ \<Rightarrow> spec = None | Inr x \<Rightarrow> spec = Some (x, bytes (fst res)))"

context byte_source
begin

lemma read_line_loop_spec:
  "list_all (\<lambda>c. c \<noteq> 10) out \<Longrightarrow> same_outcome bytes (line_of (out @ bytes io)) (read_line_loop rd MAX_CHUNK_SIZE_LINE out io)"
proof (induction "Suc MAX_CHUNK_SIZE_LINE - length out" arbitrary: out io rule: less_induct)
  case less
  note unf = read_line_loop.simps [of rd MAX_CHUNK_SIZE_LINE out io]
  show ?case
  proof (cases "MAX_CHUNK_SIZE_LINE < length out")
    case True
    then show ?thesis using less.prems unf line_of_long by (simp add: same_outcome_def)
  next
    case False
    show ?thesis
    proof (cases rule: rd_one [of io])
      case (eof io')
      then show ?thesis using less.prems unf False by (simp add: same_outcome_def line_of_eof)
    next
      case (got b io')
      show ?thesis
      proof (cases "b = 10")
        case True
        then show ?thesis using less.prems unf False got by (auto simp: same_outcome_def line_of_found)
      next
        case b: False
        have "same_outcome bytes (line_of ((out @ [b]) @ bytes io')) (read_line_loop rd MAX_CHUNK_SIZE_LINE (out @ [b]) io')"
          using less.prems b False by (intro less.hyps) simp_all
        then show ?thesis using unf False got b by simp
      qed
    qed
  qed
qed

lemma read_line_spec: "same_outcome bytes (line_of (bytes io)) (read_line rd io MAX_CHUNK_SIZE_LINE)"
  using read_line_loop_spec [of "[]" io] by (simp add: read_line_def)

lemma read_line_cases:
  obtains (bad) io' e where "read_line rd io MAX_CHUNK_SIZE_LINE = (io', Inl e)" "line_of (bytes io) = None"
  | (line) io' l where "read_line rd io MAX_CHUNK_SIZE_LINE = (io', Inr l)" "line_of (bytes io) = Some (l, bytes io')"
  using read_line_spec [of io] by (cases "read_line rd io MAX_CHUNK_SIZE_LINE") (auto simp: same_outcome_def split: sum.splits intro: that)

lemma crlf_loop_spec:
  "length out < 2 \<Longrightarrow>
   (case crlf_loop rd out io of
      (io', Inl _) \<Rightarrow> take 2 (out @ bytes io) \<noteq> [13, 10]
    | (io', Inr _) \<Rightarrow> out @ bytes io = [13, 10] @ bytes io')"
proof (induction "2 - length out" arbitrary: out io rule: less_induct)
  case less
  have w: "0 < 2 - length out" using less.prems by simp
  from w show ?case
  proof (cases rule: rd_cases [of _ io])
    case (eof io')
    then have "crlf_loop rd out io = (io', Inl Truncated)" using less.prems by (simp add: crlf_loop.simps [of rd out io])
    then show ?thesis using less.prems eof by (cases out) auto
  next
    case (got b bs io')
    then have step: "crlf_loop rd out io = crlf_loop rd (out @ b # bs) io'" using less.prems by (simp add: crlf_loop.simps [of rd out io])
    show ?thesis
    proof (cases "length (out @ b # bs) < 2")
      case True
      then show ?thesis using less.hyps [of "out @ b # bs" io'] less.prems step got by simp
    next
      case False
      have "length out + length (b # bs) \<le> 2" using got(3) less.prems by linarith
      then have len: "length (out @ b # bs) = 2" using False unfolding length_append by linarith
      define o2 where "o2 = out @ b # bs"
      have o2: "length o2 = 2" "out @ bytes io = o2 @ bytes io'" using len got(2) by (simp_all add: o2_def)
      then show ?thesis unfolding step o2(2) using crlf_loop.simps [of rd o2 io'] by (auto simp flip: o2_def)
    qed
  qed
qed

lemma expect_crlf_cases:
  obtains (bad) io' e where "expect_crlf rd io = (io', Inl e)" "take 2 (bytes io) \<noteq> [13, 10]"
  | (ok) io' where "expect_crlf rd io = (io', Inr ())" "take 2 (bytes io) = [13, 10]" "bytes io' = drop 2 (bytes io)"
proof -
  obtain io' x where x: "crlf_loop rd [] io = (io', x)" by (cases "crlf_loop rd [] io")
  show ?thesis
  proof (cases x)
    case (Inl e)
    then show ?thesis using bad [of io' e] crlf_loop_spec [of "[]" io] x by (simp add: expect_crlf_def)
  next
    case (Inr u)
    then have "bytes io = 13 # 10 # bytes io'" using crlf_loop_spec [of "[]" io] x by simp
    then show ?thesis using x Inr by (intro ok [of io']) (simp_all add: expect_crlf_def)
  qed
qed

lemma trailer_loop_spec:
  assumes "reader_ok r"
  shows "(case trailer_loop rd k r io of
      (r', io', Inl _) \<Rightarrow> trailers_of k (budget r) (bytes io) = None
    | (r', io', Inr _) \<Rightarrow> trailers_of k (budget r) (bytes io) = Some (bytes io'))"
  using assms
proof (induction k arbitrary: r io)
  case (Suc k)
  show ?case
  proof (cases rule: read_line_cases [of io])
    case (bad io' e)
    then show ?thesis by simp
  next
    case (line io' l)
    show ?thesis
    proof (cases "length l + 2 \<le> budget r")
      case True
      obtain r' where r': "account (length l + 2) r = (r', Inr ())" "reader_ok r'" "budget r' = budget r - (length l + 2)"
        using account_ok [OF Suc.prems True] by blast
      then show ?thesis using Suc.IH [OF r'(2), of io'] True line by (auto split: sum.splits)
    next
      case False
      then obtain r' e where "account (length l + 2) r = (r', Inl e)" using account_bad [OF Suc.prems] by (meson not_le)
      then show ?thesis using False line by simp
    qed
  qed
qed simp

end

text \<open>
  What a poll of a well-formed reader does to the body that is still to come: an error when there is none, its end, or a
  first piece, charged to the cap.
\<close>

definition step_ok :: "('io \<Rightarrow> bstr) \<Rightarrow> BodyReader \<Rightarrow> 'io \<Rightarrow> BodyReader \<times> 'io \<times> (BodyError + BodyChunk) \<Rightarrow> bool" where
  "step_ok bytes r io res \<longleftrightarrow>
     (case res of
        (r', io', Inl _) \<Rightarrow> body_of r (bytes io) = None
      | (r', io', Inr End) \<Rightarrow> body_of r (bytes io) = Some ([], bytes io')
      | (r', io', Inr (Data d)) \<Rightarrow> d \<noteq> [] \<and> reader_ok r' \<and> length d \<le> budget r \<and> budget r' = budget r - length d \<and>
          unat (seen r') = unat (seen r) + length d \<and> body_of r (bytes io) = map_option (\<lambda>(x, rest). (d @ x, rest)) (body_of r' (bytes io')))"

lemma take_over: "length d \<le> k \<Longrightarrow> take k (d @ x) = d @ take (k - length d) x \<and> drop k (d @ x) = drop (k - length d) x"
  by simp

lemma step_ok_cong:
  "body_of r (bytes io) = body_of r1 (bytes io1) \<Longrightarrow> budget r = budget r1 \<Longrightarrow> seen r = seen r1 \<Longrightarrow>
    step_ok bytes r io = step_ok bytes r1 io1"
  by (auto simp: step_ok_def fun_eq_iff split: sum.splits BodyChunk.splits)

lemma reader_ok_update [simp]: "reader_ok (r\<lparr>chunk_remaining := k\<rparr>) = reader_ok r" "budget (r\<lparr>chunk_remaining := k\<rparr>) = budget r"
    "reader_ok (r\<lparr>finished := f\<rparr>) = reader_ok r" "budget (r\<lparr>finished := f\<rparr>) = budget r"
  by (simp_all add: reader_ok_def budget_def)

context byte_source
begin

lemma chunk_data_step:
  assumes "reader_ok r" "br_framing r = Chunked" "\<not> finished r" "chunk_remaining r \<noteq> 0" "0 < mx"
  shows "step_ok bytes r io (chunk_data rd r io mx)"
proof -
  let ?k = "unat (chunk_remaining r)"
  have k: "0 < ?k" using assms(4) by (simp add: unat_gt_0)
  then have w: "0 < min ?k mx" using assms(5) by simp
  have spec: "body_of r (bytes io) = chunked_body (budget r) ?k (bytes io)" using assms(2,3) by (simp add: body_of_def)
  from w show ?thesis
  proof (cases rule: rd_cases [of _ io])
    case (eof io')
    then have "chunk_data rd r io mx = (r, io', Inl Truncated)" by (simp add: chunk_data_def)
    then show ?thesis using spec k eof(2) by (simp add: step_ok_def chunked_body.simps [of _ ?k])
  next
    case (got b bs io')
    let ?d = "b # bs" and ?n = "length (b # bs)"
    have n: "0 < ?n" "?n \<le> ?k" using got(3) by simp_all
    define r1 where "r1 = r\<lparr>chunk_remaining := chunk_remaining r - of_nat ?n\<rparr>"
    have "?n < 2 ^ 64" using n(2) unat_lt_len [of "chunk_remaining r"] by simp
    then have "unat (of_nat ?n :: u64) = ?n" by (simp add: unat_of_nat del: of_nat_Suc)
    then have rem: "unat (chunk_remaining r1) = ?k - ?n" unfolding r1_def using n(2) by (simp add: unat_sub_if' del: of_nat_Suc)
    have ok1: "reader_ok r1" "budget r1 = budget r" using assms(1) by (simp_all add: r1_def)
    have split: "bytes io = ?d @ bytes io'" using got(2) .
    have take: "take ?n (bytes io) = ?d" "drop ?n (bytes io) = bytes io'" "?n \<le> length (bytes io)" using split by simp_all
    have data: "chunk_data rd r io mx =
        (case account ?n r1 of
           (r, Inl e) \<Rightarrow> (r, io', Inl e)
         | (r, Inr _) \<Rightarrow>
             if chunk_remaining r = 0 then (case expect_crlf rd io' of (io, Inl e) \<Rightarrow> (r, io, Inl e) | (io, Inr _) \<Rightarrow> (r, io, Inr (Data ?d)))
             else (r, io', Inr (Data ?d)))"
      using got(1) by (simp add: chunk_data_def r1_def Let_def del: of_nat_Suc)
    show ?thesis
    proof (cases "?n \<le> budget r")
      case False
      then obtain r2 e where "account ?n r1 = (r2, Inl e)" using account_bad [OF ok1(1)] ok1(2) by (metis not_le)
      moreover have "chunked_body (budget r) ?k (bytes io) = None"
        using False n take(3) by (auto simp: chunked_body.simps [of "budget r" ?k])
      ultimately show ?thesis using data spec by (simp add: step_ok_def)
    next
      case True
      obtain r2 where r2: "account ?n r1 = (r2, Inr ())" "r2 = r1\<lparr>seen := seen r2\<rparr>" "reader_ok r2" "budget r2 = budget r - ?n"
          "unat (seen r2) = unat (seen r1) + ?n"
        using account_ok [OF ok1(1), of ?n] ok1(2) True by metis
      have s1: "seen r1 = seen r" by (simp add: r1_def)
      have f: "br_framing r2 = Chunked" "\<not> finished r2" "chunk_remaining r2 = chunk_remaining r1" using r2(2) assms(2,3)
        by (metis BodyReader.select_convs BodyReader.surjective BodyReader.update_convs(3) r1_def BodyReader.update_convs(4))+
      show ?thesis
      proof (cases "?n = ?k")
        case last: True
        then have z: "chunk_remaining r2 = 0" using rem f(3) by (simp add: unat_eq_zero)
        have spec2: "body_of r (bytes io) = (if take 2 (bytes io') \<noteq> [13, 10] then None
            else map_option (\<lambda>(d, r). (?d @ d, r)) (chunked_body (budget r2) 0 (drop 2 (bytes io'))))"
          using spec chunked_last [OF n(1) take(3), of "budget r"] True last r2(4) take by simp
        show ?thesis
        proof (cases rule: expect_crlf_cases [of io'])
          case (bad io'' e)
          then show ?thesis using data r2(1) z spec2 by (simp add: step_ok_def)
        next
          case (ok io'')
          then show ?thesis using data r2(1,3,4,5) s1 z spec2 True f by (simp add: step_ok_def body_of_def)
        qed
      next
        case more: False
        then have z: "chunk_remaining r2 \<noteq> 0" using rem f(3) n(2) by (metis unat_0 diff_is_0_eq le_antisym)
        have "body_of r (bytes io) = map_option (\<lambda>(d, r). (?d @ d, r)) (chunked_body (budget r2) (unat (chunk_remaining r2)) (bytes io'))"
          using spec chunked_piece [OF n(1) _ take(3), of ?k "budget r"] True more n(2) r2(4) take rem f(3) by simp
        then show ?thesis using data r2(1,3,4,5) s1 z True f by (simp add: step_ok_def body_of_def)
      qed
    qed
  qed
qed

lemma poll_chunked_step:
  assumes "reader_ok r" "br_framing r = Chunked" "\<not> finished r" "0 < mx"
  shows "step_ok bytes r io (poll_chunked rd r io mx)"
proof (cases "chunk_remaining r = 0")
  case False
  then show ?thesis using chunk_data_step [OF assms(1-3) False assms(4)] by (simp add: poll_chunked_def)
next
  case True
  then have spec: "body_of r (bytes io) = chunked_body (budget r) 0 (bytes io)" using assms(2,3) by (simp add: body_of_def)
  note unf = chunked_body.simps [of "budget r" 0 "bytes io"]
  show ?thesis
  proof (cases rule: read_line_cases [of io])
    case (bad io' e)
    then show ?thesis using True spec unf by (simp add: poll_chunked_def read_chunk_size_def step_ok_def)
  next
    case (line io' l)
    show ?thesis
    proof (cases "parse_chunk_size l")
      case (Inl e)
      then show ?thesis using True spec unf line by (simp add: poll_chunked_def read_chunk_size_def step_ok_def)
    next
      case (Inr sz)
      show ?thesis
      proof (cases "sz = 0")
        case zero: True
        then have "body_of r (bytes io) = map_option (\<lambda>r. ([], r)) (trailers_of 100 (budget r) (bytes io'))"
          using spec unf line Inr by simp
        then show ?thesis using trailer_loop_spec [OF assms(1), of 100 io'] True line Inr zero
          by (auto simp: poll_chunked_def read_chunk_size_def read_trailers_def step_ok_def split: sum.splits)
      next
        case False
        let ?r = "r\<lparr>chunk_remaining := sz\<rparr>"
        have "step_ok bytes ?r io' (chunk_data rd ?r io' mx)" using assms False by (intro chunk_data_step) simp_all
        moreover have "body_of r (bytes io) = body_of ?r (bytes io')"
          using spec unf line Inr False assms(2,3) by (simp add: body_of_def)
        then have "step_ok bytes r io = step_ok bytes ?r io'" by (rule step_ok_cong) simp_all
        ultimately show ?thesis using True line Inr False by (simp add: poll_chunked_def read_chunk_size_def)
      qed
    qed
  qed
qed

lemma poll_length_step:
  assumes "reader_ok r" "br_framing r = Length len" "\<not> finished r" "0 < mx"
  shows "step_ok bytes r io (poll_chunk rd r io mx)"
proof -
  define left where "left = unat (sat_sub len (seen r))"
  have left: "left = unat len - unat (seen r)" by (simp add: left_def unat_sat_sub)
  have spec: "body_of r (bytes io) = (if left \<le> budget r \<and> left \<le> length (bytes io) then Some (take left (bytes io), drop left (bytes io)) else None)"
    using assms(2,3) by (simp add: body_of_def left Let_def)
  show ?thesis
  proof (cases "left = 0")
    case True
    then have "sat_sub len (seen r) = 0" by (simp add: left_def unat_eq_zero)
    then show ?thesis using assms spec True by (simp add: poll_chunk_def step_ok_def)
  next
    case False
    then have nz: "sat_sub len (seen r) \<noteq> 0" by (auto simp: left_def)
    have w: "0 < min left mx" using False assms(4) by simp
    then show ?thesis
    proof (cases rule: rd_cases [of _ io])
      case (eof io')
      then have "poll_chunk rd r io mx = (r, io', Inl Truncated)" using assms nz by (simp add: poll_chunk_def left_def)
      then show ?thesis using spec False eof(2) by (simp add: step_ok_def)
    next
      case (got b bs io')
      let ?d = "b # bs" and ?n = "length (b # bs)"
      have poll: "poll_chunk rd r io mx = (case account ?n r of (r, Inl e) \<Rightarrow> (r, io', Inl e)
          | (r, Inr _) \<Rightarrow> ((if len \<le> seen r then r\<lparr>finished := True\<rparr> else r), io', Inr (Data ?d)))"
        using assms nz got(1) by (simp add: poll_chunk_def left_def)
      have n: "?n \<le> left" using got(3) by simp
      show ?thesis
      proof (cases "?n \<le> budget r")
        case False
        then obtain r2 e where "account ?n r = (r2, Inl e)" using account_bad [OF assms(1)] by (metis not_le)
        then show ?thesis using poll spec False n by (simp add: step_ok_def)
      next
        case True
        obtain r2 where r2: "account ?n r = (r2, Inr ())" "r2 = r\<lparr>seen := seen r2\<rparr>" "unat (seen r2) = unat (seen r) + ?n" "reader_ok r2"
            "budget r2 = budget r - ?n"
          using account_ok [OF assms(1) True] by metis
        have f: "br_framing r2 = Length len" "\<not> finished r2" using r2(2) assms(2,3)
          by (metis BodyReader.select_convs BodyReader.surjective BodyReader.update_convs(3))+
        have left2: "unat len - unat (seen r2) = left - ?n" using r2(3) left by simp
        have fin: "len \<le> seen r2 \<longleftrightarrow> left = ?n" using r2(3) left n False by (auto simp: word_le_nat_alt)
        have b2: "body_of (if len \<le> seen r2 then r2\<lparr>finished := True\<rparr> else r2) (bytes io') =
            (if left - ?n \<le> budget r - ?n \<and> left - ?n \<le> length (bytes io')
             then Some (take (left - ?n) (bytes io'), drop (left - ?n) (bytes io')) else None)"
          using f left2 fin r2(5) by (simp add: body_of_def Let_def)
        have "body_of r (bytes io) = map_option (\<lambda>(x, rest). (?d @ x, rest)) (body_of (if len \<le> seen r2 then r2\<lparr>finished := True\<rparr> else r2) (bytes io'))"
          unfolding b2 spec using n True take_over [OF n, of "bytes io'"] got(2) by (auto simp: not_le)
        then show ?thesis using poll r2(1,3,4,5) True by (simp add: step_ok_def)
      qed
    qed
  qed
qed

lemma poll_step: "reader_ok r \<Longrightarrow> 0 < mx \<Longrightarrow> step_ok bytes r io (poll_chunk rd r io mx)"
proof (cases "finished r")
  case True
  then show ?thesis by (simp add: poll_chunk_def step_ok_def body_of_def)
next
  case False
  assume ok: "reader_ok r" "0 < mx"
  show ?thesis
  proof (cases "br_framing r")
    case NoFraming
    then show ?thesis using False ok by (simp add: poll_chunk_def step_ok_def body_of_def)
  next
    case (Length len)
    then show ?thesis using poll_length_step ok False by blast
  next
    case Chunked
    then show ?thesis using poll_chunked_step [OF ok(1) Chunked False ok(2)] False ok by (simp add: poll_chunk_def)
  qed
qed

text \<open>The loops return, and what they deliver is the body.\<close>

lemma drain_loop_spec:
  assumes "reader_ok r" "0 < mx"
  shows "\<exists>io' out. drain_loop rd mx (\<lambda>_. False) n body r io = Some (io', out) \<and>
    (case body_of r (bytes io) of
       None \<Rightarrow> out = None
     | Some (d, rest) \<Rightarrow> (\<exists>c. out = Some (body @ d, c)) \<and> bytes io' = rest)"
  using assms(1)
proof (induction "budget r" arbitrary: n body r io rule: less_induct)
  case less
  obtain r' io' x where p: "poll_chunk rd r io mx = (r', io', x)" by (cases "poll_chunk rd r io mx")
  have step: "step_ok bytes r io (r', io', x)" using poll_step [OF less.prems assms(2), of io] p by simp
  note unf = drain_loop.simps [of rd mx "\<lambda>_. False" n body r io]
  show ?case
  proof (cases x)
    case (Inl e)
    then show ?thesis using step unf p by (simp add: step_ok_def)
  next
    case (Inr c)
    show ?thesis
    proof (cases c)
      case (Data d)
      then have s: "d \<noteq> []" "reader_ok r'" "length d \<le> budget r" "budget r' = budget r - length d"
          "body_of r (bytes io) = map_option (\<lambda>(x, rest). (d @ x, rest)) (body_of r' (bytes io'))"
        using step Inr by (simp_all add: step_ok_def)
      have "0 < length d" using s(1) by simp
      then have "budget r' < budget r" using s(3,4) by linarith
      then show ?thesis using less.hyps [OF _ s(2), of "n + 1" "body @ d" io'] unf p Inr Data s(5)
        by (cases "body_of r' (bytes io')") auto
    next
      case End
      then show ?thesis using step unf p Inr by (simp add: step_ok_def)
    qed
  qed
qed

lemma discard_loop_spec:
  assumes "reader_ok r"
  shows "\<exists>r' io' x. discard_loop rd tot r io = Some (r', io', x) \<and>
    (case body_of r (bytes io) of
       None \<Rightarrow> \<exists>e. x = Inl e
     | Some (d, rest) \<Rightarrow> (\<exists>c. x = Inr c \<and> unat c = (if d = [] then unat tot else unat (seen r) + length d)) \<and> bytes io' = rest)"
  using assms
proof (induction "budget r" arbitrary: tot r io rule: less_induct)
  case less
  obtain r' io' x where p: "poll_chunk rd r io (8 * 1024) = (r', io', x)" by (cases "poll_chunk rd r io (8 * 1024)")
  have step: "step_ok bytes r io (r', io', x)" using poll_step [OF less.prems, of "8 * 1024" io] p by simp
  note unf = discard_loop.simps [of rd tot r io]
  show ?case
  proof (cases x)
    case (Inl e)
    then show ?thesis using step unf p by (simp add: step_ok_def)
  next
    case (Inr c)
    show ?thesis
    proof (cases c)
      case (Data d)
      then have s: "d \<noteq> []" "reader_ok r'" "length d \<le> budget r" "budget r' = budget r - length d" "unat (seen r') = unat (seen r) + length d"
          "body_of r (bytes io) = map_option (\<lambda>(x, rest). (d @ x, rest)) (body_of r' (bytes io'))"
        using step Inr by (simp_all add: step_ok_def)
      have "0 < length d" using s(1) by simp
      then have "budget r' < budget r" using s(3,4) by linarith
      then show ?thesis using less.hyps [OF _ s(2), of "seen r'" io'] unf p Inr Data s(1,5,6)
        by (cases "body_of r' (bytes io')") auto
    next
      case End
      then show ?thesis using step unf p Inr by (simp add: step_ok_def)
    qed
  qed
qed

end

text \<open>The buffered bytes in front of a source are a source again.\<close>

locale buffered_source = byte_source rd bytes
  for rd :: "'io \<Rightarrow> nat \<Rightarrow> u8 list \<times> 'io" and bytes :: "'io \<Rightarrow> u8 list"

sublocale buffered_source \<subseteq> chained: byte_source "chain rd" "\<lambda>pio. fst pio @ bytes (snd pio)"
proof
  fix want pio d pio' assume w: "0 < want" and c: "chain rd pio want = (d, pio')"
  show "fst pio @ bytes (snd pio) = d @ (fst pio' @ bytes (snd pio')) \<and> length d \<le> want \<and> (fst pio @ bytes (snd pio) \<noteq> [] \<longrightarrow> d \<noteq> [])"
  proof (cases "fst pio = []")
    case True
    obtain e io' where e: "rd (snd pio) want = (e, io')" by (cases "rd (snd pio) want")
    then have "chain rd pio want = (e, [], io')" using True by (simp add: chain_def split_beta)
    then have d: "d = e" "pio' = ([], io')" using c by simp_all
    show ?thesis unfolding d True fst_conv snd_conv append_Nil by (rule rd_law [OF w e])
  next
    case False
    then have "chain rd pio want = (take want (fst pio), drop want (fst pio), snd pio)" by (simp add: chain_def split_beta)
    then have d: "d = take want (fst pio)" "pio' = (drop want (fst pio), snd pio)" using c by simp_all
    show ?thesis unfolding d using w False by simp
  qed
qed

context buffered_source
begin

lemma chain_source: "byte_source (chain rd) (\<lambda>pio. fst pio @ bytes (snd pio))"
  by (rule chained.byte_source_axioms)

end

section \<open>Chunked framing as a grammar\<close>

definition line_ok :: "bstr \<Rightarrow> bool" where
  "line_ok l \<longleftrightarrow> 10 \<notin> set l \<and> length l < MAX_CHUNK_SIZE_LINE \<and> from_utf8_ok l"

abbreviation crlf :: bstr where
  "crlf \<equiv> [13, 10]"

lemma line_of_iff: "line_of bs = Some (l, rest) \<longleftrightarrow> bs = l @ crlf @ rest \<and> line_ok l"
proof
  assume a: "line_of bs = Some (l, rest)"
  let ?p = "takeWhile (\<lambda>c. c \<noteq> 10) bs" and ?r = "dropWhile (\<lambda>c. c \<noteq> 10) bs"
  have f: "?r \<noteq> []" "length ?p \<le> MAX_CHUNK_SIZE_LINE" "?p \<noteq> []" "last ?p = 13" "from_utf8_ok l" "l = butlast ?p" "rest = tl ?r"
    using a by (auto simp: line_of_def Let_def split: if_splits)
  have "hd ?r = 10" using f(1) hd_dropWhile by blast
  then have r: "?r = 10 # rest" using f(1,7) by (cases ?r) auto
  have p: "?p = l @ [13]" using f(3,4,6) append_butlast_last_id by metis
  have "10 \<notin> set ?p" by (auto dest: set_takeWhileD)
  then show "bs = l @ crlf @ rest \<and> line_ok l"
    using takeWhile_dropWhile_id [of "\<lambda>c. c \<noteq> 10" bs] f(2,5) p r by (auto simp: line_ok_def)
next
  assume a: "bs = l @ crlf @ rest \<and> line_ok l"
  have "line_of ((l @ [13]) @ 10 # rest) = Some (l, rest)" using a by (subst line_of_found) (auto simp: line_ok_def list_all_iff)
  then show "line_of bs = Some (l, rest)" using a by simp
qed

definition trailer_text :: "bstr list \<Rightarrow> bstr" where
  "trailer_text ts = concat (map (\<lambda>t. t @ crlf) ts) @ crlf"

lemma trailers_of_iff:
  "trailers_of k b bs = Some rest \<longleftrightarrow>
     (\<exists>ts. bs = trailer_text ts @ rest \<and> (\<forall>t \<in> set ts. line_ok t \<and> t \<noteq> []) \<and> length ts < k \<and> length (trailer_text ts) \<le> b)"
proof (induction k arbitrary: b bs)
  case (Suc k)
  have e: "line_ok []" by (simp add: line_ok_def MAX_CHUNK_SIZE_LINE_def from_utf8_ok_def)
  show ?case
  proof
    assume a: "trailers_of (Suc k) b bs = Some rest"
    then obtain l r where l: "line_of bs = Some (l, r)" "length l + 2 \<le> b" by (auto split: option.splits if_splits)
    show "\<exists>ts. bs = trailer_text ts @ rest \<and> (\<forall>t \<in> set ts. line_ok t \<and> t \<noteq> []) \<and> length ts < Suc k \<and> length (trailer_text ts) \<le> b"
    proof (cases "l = []")
      case True
      then show ?thesis using a l by (intro exI [of _ "[]"]) (auto simp: line_of_iff trailer_text_def)
    next
      case False
      then have "trailers_of k (b - (length l + 2)) r = Some rest" using a l by auto
      then obtain ts where "r = trailer_text ts @ rest" "\<forall>t \<in> set ts. line_ok t \<and> t \<noteq> []" "length ts < k" "length (trailer_text ts) \<le> b - (length l + 2)"
        using Suc.IH by blast
      then show ?thesis using l False by (intro exI [of _ "l # ts"]) (auto simp: line_of_iff trailer_text_def)
    qed
  next
    assume "\<exists>ts. bs = trailer_text ts @ rest \<and> (\<forall>t \<in> set ts. line_ok t \<and> t \<noteq> []) \<and> length ts < Suc k \<and> length (trailer_text ts) \<le> b"
    then obtain ts where ts: "bs = trailer_text ts @ rest" "\<forall>t \<in> set ts. line_ok t \<and> t \<noteq> []" "length ts < Suc k" "length (trailer_text ts) \<le> b"
      by blast
    show "trailers_of (Suc k) b bs = Some rest"
    proof (cases ts)
      case Nil
      then have "line_of bs = Some ([], rest)" using ts(1) e by (simp add: line_of_iff trailer_text_def)
      then show ?thesis using ts(4) Nil by (simp add: trailer_text_def)
    next
      case (Cons t us)
      then have "line_of bs = Some (t, trailer_text us @ rest)" using ts(1,2) by (simp add: line_of_iff trailer_text_def)
      moreover have "trailers_of k (b - (length t + 2)) (trailer_text us @ rest) = Some rest"
        using Suc.IH ts(2,3,4) Cons by (auto simp: trailer_text_def)
      ultimately show ?thesis using ts(2,4) Cons by (simp add: trailer_text_def)
    qed
  qed
qed simp


text \<open>A chunk: its size line, then its bytes.\<close>

definition chunk_text :: "bstr \<times> bstr \<Rightarrow> bstr" where
  "chunk_text c = fst c @ crlf @ snd c @ crlf"

definition chunk_ok :: "bstr \<times> bstr \<Rightarrow> bool" where
  "chunk_ok c \<longleftrightarrow> line_ok (fst c) \<and> snd c \<noteq> [] \<and> (\<exists>sz. parse_chunk_size (fst c) = Inr sz \<and> unat sz = length (snd c))"

definition chunked_text :: "(bstr \<times> bstr) list \<Rightarrow> bstr \<Rightarrow> bstr list \<Rightarrow> bstr" where
  "chunked_text cs l ts = concat (map chunk_text cs) @ l @ crlf @ trailer_text ts"

definition is_chunked :: "nat \<Rightarrow> bstr \<Rightarrow> bstr \<Rightarrow> bstr \<Rightarrow> bool" where
  "is_chunked b bs d rest \<longleftrightarrow>
     (\<exists>cs l ts. bs = chunked_text cs l ts @ rest \<and> d = concat (map snd cs) \<and> list_all chunk_ok cs \<and>
        line_ok l \<and> parse_chunk_size l = Inr 0 \<and> (\<forall>t \<in> set ts. line_ok t \<and> t \<noteq> []) \<and> length ts < 100 \<and>
        length d + length (trailer_text ts) \<le> b)"

lemma chunk_body_step:
  assumes "line_of bs = Some (l, r)" "parse_chunk_size l = Inr sz" "sz \<noteq> 0"
  shows "chunked_body b 0 bs =
    (if length r < unat sz \<or> b < unat sz \<or> take 2 (drop (unat sz) r) \<noteq> crlf then None
     else map_option (\<lambda>(d, rest). (take (unat sz) r @ d, rest)) (chunked_body (b - unat sz) 0 (drop (unat sz + 2) r)))"
proof -
  have "unat sz \<noteq> 0" using assms(3) by (simp add: unat_eq_zero)
  then show ?thesis using assms chunked_body.simps [of b "unat sz" r] by (simp add: chunked_body.simps [of b 0 bs])
qed

lemma chunked_sound: "chunked_body b 0 bs = Some (d, rest) \<Longrightarrow> is_chunked b bs d rest"
proof (induction "length bs" arbitrary: b bs d rule: less_induct)
  case less
  obtain l r where l: "line_of bs = Some (l, r)" using less.prems by (auto simp: chunked_body.simps [of b 0 bs] split: option.splits)
  obtain sz where sz: "parse_chunk_size l = Inr sz" using less.prems l by (auto simp: chunked_body.simps [of b 0 bs] split: sum.splits)
  show ?case
  proof (cases "sz = 0")
    case True
    then have "d = []" "trailers_of 100 b r = Some rest" using less.prems l sz by (auto simp: chunked_body.simps [of b 0 bs])
    then show ?thesis using l sz True unfolding trailers_of_iff line_of_iff is_chunked_def
      by (elim exE conjE) (rule exI [of _ "[]"], rule exI [of _ l], auto simp: chunked_text_def)
  next
    case False
    let ?n = "unat sz"
    obtain e where e: "\<not> length r < ?n" "\<not> b < ?n" "take 2 (drop ?n r) = crlf" "d = take ?n r @ e"
        "chunked_body (b - ?n) 0 (drop (?n + 2) r) = Some (e, rest)"
      using less.prems chunk_body_step [OF l sz False, of b] by (auto split: if_splits)
    have "length (drop (?n + 2) r) < length bs" using line_of_shorter [OF l] by simp
    then have "is_chunked (b - ?n) (drop (?n + 2) r) e rest" using less.hyps e(5) by blast
    then obtain cs l' ts where i: "drop (?n + 2) r = chunked_text cs l' ts @ rest" "e = concat (map snd cs)" "list_all chunk_ok cs"
        "line_ok l'" "parse_chunk_size l' = Inr 0" "\<forall>t \<in> set ts. line_ok t \<and> t \<noteq> []" "length ts < 100" "length e + length (trailer_text ts) \<le> b - ?n"
      by (auto simp: is_chunked_def)
    have "r = take ?n r @ crlf @ drop (?n + 2) r"
      using e(3) append_take_drop_id [of ?n r] append_take_drop_id [of 2 "drop ?n r"] by (simp add: add.commute)
    then have "bs = chunked_text ((l, take ?n r) # cs) l' ts @ rest"
      using l i(1) by (simp add: line_of_iff chunked_text_def chunk_text_def)
    moreover have "chunk_ok (l, take ?n r)" using l sz e(1) False by (auto simp: chunk_ok_def line_of_iff unat_eq_zero)
    ultimately show ?thesis using i e unfolding is_chunked_def
      by (intro exI [of _ "(l, take ?n r) # cs"] exI [of _ l'] exI [of _ ts]) auto
  qed
qed

lemma chunked_complete:
  assumes "line_ok l" "parse_chunk_size l = Inr 0" "\<forall>t \<in> set ts. line_ok t \<and> t \<noteq> []" "length ts < 100"
  shows "list_all chunk_ok cs \<Longrightarrow> length (concat (map snd cs)) + length (trailer_text ts) \<le> b \<Longrightarrow>
    chunked_body b 0 (chunked_text cs l ts @ rest) = Some (concat (map snd cs), rest)"
proof (induction cs arbitrary: b)
  case Nil
  have "line_of (chunked_text [] l ts @ rest) = Some (l, trailer_text ts @ rest)" using assms(1) by (simp add: line_of_iff chunked_text_def)
  moreover have "trailers_of 100 b (trailer_text ts @ rest) = Some rest" using assms(3,4) Nil by (auto simp: trailers_of_iff)
  ultimately show ?case using assms(2) by (simp add: chunked_body.simps [of b 0])
next
  case (Cons c cs)
  obtain l' e where c: "c = (l', e)" by (cases c)
  obtain sz where sz: "parse_chunk_size l' = Inr sz" "unat sz = length e" "e \<noteq> []" "line_ok l'" using Cons.prems(1) c by (auto simp: chunk_ok_def)
  then have "sz \<noteq> 0" by auto
  let ?r = "e @ crlf @ chunked_text cs l ts @ rest"
  have "line_of (chunked_text (c # cs) l ts @ rest) = Some (l', ?r)" using sz(4) c by (simp add: line_of_iff chunked_text_def chunk_text_def)
  moreover have "chunked_body (b - length e) 0 (chunked_text cs l ts @ rest) = Some (concat (map snd cs), rest)"
    using Cons.prems c by (intro Cons.IH) auto
  ultimately show ?case using chunk_body_step [of _ l' ?r sz b] sz \<open>sz \<noteq> 0\<close> Cons.prems(2) c by simp
qed

lemma chunked_body_iff: "chunked_body b 0 bs = Some (d, rest) \<longleftrightarrow> is_chunked b bs d rest"
  using chunked_sound chunked_complete by (auto simp: is_chunked_def)

section \<open>Bodies of requests\<close>

definition request_body :: "RequestHead \<Rightarrow> u64 \<Rightarrow> bstr \<Rightarrow> bstr \<Rightarrow> bstr \<Rightarrow> bool" where
  "request_body h mx bs d rest \<longleftrightarrow>
     (if chunked h then is_chunked (unat mx) bs d rest
      else case content_length h of
        None \<Rightarrow> d = [] \<and> bs = rest
      | Some n \<Rightarrow> bs = d @ rest \<and> length d = unat n \<and> n \<le> mx)"

lemma from_head_body:
  assumes "head_ok h" "mx < umax"
  obtains r where "from_head h mx = Inr r" "reader_ok r" "\<And>bs d rest. body_of r bs = Some (d, rest) \<longleftrightarrow> request_body h mx bs d rest"
proof -
  have one: "\<not> (chunked h \<and> content_length h \<noteq> None)" using assms(1) by (simp add: head_ok_def)
  show ?thesis
  proof (cases "chunked h")
    case True
    then show ?thesis using that [of "reader_chunked mx"] one assms(2)
      by (simp add: from_head_def reader_chunked_def reader_ok_def body_of_def budget_def request_body_def chunked_body_iff)
  next
    case False
    show ?thesis
    proof (cases "content_length h")
      case None
      then show ?thesis using that [of "reader_empty mx"] False assms(2)
        by (auto simp: from_head_def reader_empty_def reader_ok_def body_of_def request_body_def)
    next
      case (Some n)
      have "body_of (length_delimited n mx) bs = Some (d, rest) \<longleftrightarrow> request_body h mx bs d rest" for bs d rest
        using Some False by (auto simp: length_delimited_def body_of_def budget_def request_body_def Let_def word_le_nat_alt unat_eq_zero
            append_eq_conv_conj split: if_splits)
      then show ?thesis using that [of "length_delimited n mx"] Some False assms(2)
        by (simp add: from_head_def length_delimited_def reader_ok_def)
    qed
  qed
qed


text \<open>Reading a body follows its framing exactly. For every accepted head, every transport, however it cuts the bytes
  into reads, every read size and every cap: the loop returns; if the bytes that follow the head begin with a body in
  the declared framing and within the cap, it delivers precisely that body and leaves the connection at the first byte
  behind it, trailers included; otherwise it delivers nothing.\<close>

lemma request_exact:
  assumes "byte_source rd bytes" "head_ok h" "mx < umax" "0 < sz"
  shows "\<exists>r io' out. from_head h mx = Inr r \<and> drain_loop rd sz (\<lambda>_. False) 0 [] r io = Some (io', out) \<and>
    (case out of
       None \<Rightarrow> \<forall>d rest. \<not> request_body h mx (bytes io) d rest
     | Some (d, _) \<Rightarrow> request_body h mx (bytes io) d (bytes io'))"
proof -
  obtain r where r: "from_head h mx = Inr r" "reader_ok r" "\<And>bs d rest. body_of r bs = Some (d, rest) \<longleftrightarrow> request_body h mx bs d rest"
    using from_head_body [OF assms(2,3)] by blast
  obtain io' out where o: "drain_loop rd sz (\<lambda>_. False) 0 [] r io = Some (io', out)"
      "case body_of r (bytes io) of None \<Rightarrow> out = None | Some (d, rest) \<Rightarrow> (\<exists>c. out = Some ([] @ d, c)) \<and> bytes io' = rest"
    using byte_source.drain_loop_spec [OF assms(1) r(2) assms(4), of 0 "[]" io] by blast
  have "case out of None \<Rightarrow> \<forall>d rest. \<not> request_body h mx (bytes io) d rest | Some (d, _) \<Rightarrow> request_body h mx (bytes io) d (bytes io')"
    using o(2) r(3) [of "bytes io"] by (cases "body_of r (bytes io)") (auto split: option.splits)
  then show ?thesis using r(1) o(1) by blast
qed

text \<open>C21. Discarding a body leaves the connection at the next request: \<open>discard\<close> returns on every input, succeeds exactly when a
  body in the declared framing and within the cap is there, reports its length and stops right behind it.\<close>

theorem discard_exact:
  assumes "byte_source rd bytes" "head_ok h" "mx < umax"
  shows "\<exists>r r' io' x. from_head h mx = Inr r \<and> discard rd r io = Some (r', io', x) \<and>
    (case x of
       Inl _ \<Rightarrow> \<forall>d rest. \<not> request_body h mx (bytes io) d rest
     | Inr c \<Rightarrow> \<exists>d. request_body h mx (bytes io) d (bytes io') \<and> unat c = length d)"
proof -
  obtain r where r: "from_head h mx = Inr r" "reader_ok r" "\<And>bs d rest. body_of r bs = Some (d, rest) \<longleftrightarrow> request_body h mx bs d rest"
    using from_head_body [OF assms(2,3)] by blast
  have "seen r = 0" using r(1)
    by (auto simp: from_head_def reader_chunked_def length_delimited_def reader_empty_def split: if_splits option.splits)
  then obtain r' io' x where o: "discard rd r io = Some (r', io', x)"
      "case body_of r (bytes io) of None \<Rightarrow> \<exists>e. x = Inl e
       | Some (d, rest) \<Rightarrow> (\<exists>c. x = Inr c \<and> unat c = length d) \<and> bytes io' = rest"
    using byte_source.discard_loop_spec [OF assms(1) r(2), of 0 io] by (fastforce simp: discard_def split: option.splits if_splits)
  have "case x of Inl _ \<Rightarrow> \<forall>d rest. \<not> request_body h mx (bytes io) d rest
      | Inr c \<Rightarrow> \<exists>d. request_body h mx (bytes io) d (bytes io') \<and> unat c = length d"
    using o(2) r(3) [of "bytes io", symmetric] by (cases "body_of r (bytes io)") auto
  then show ?thesis using r(1) o(1) by blast
qed

lemma effective_body_cap_small: "effective_body_cap ls t < umax" "effective_body_cap ls t \<le> MAX_REQUEST_BYTES"
proof -
  show le: "effective_body_cap ls t \<le> MAX_REQUEST_BYTES" by (simp add: effective_body_cap_def)
  have "MAX_REQUEST_BYTES < umax" by (simp add: MAX_REQUEST_BYTES_def word_less_nat_alt unat_umax)
  then show "effective_body_cap ls t < umax" using le by simp
qed

text \<open>C20. The body a handler receives is the one the client sent: for every accepted head, whatever was buffered with the
  head and however the rest arrives, \<open>drain_body\<close> under the cap of the tenant returns the body that the bytes behind the
  head declare, with absent and empty bodies told apart, and refuses when there is none within the cap.\<close>

theorem served_body_exact:
  assumes "byte_source rd bytes" "head_ok h" "mx = effective_body_cap ls t"
  shows "\<exists>buf' io' out. drain_body rd True (\<lambda>_. False) io buf h mx = Some (buf', io', out) \<and>
    (case out of
       None \<Rightarrow> \<forall>d rest. \<not> request_body h mx (buf @ bytes io) d rest
     | Some (b, _) \<Rightarrow> (\<exists>rest. request_body h mx (buf @ bytes io) (body_as_slice b) rest) \<and>
         (body_is_present b \<longleftrightarrow> chunked h \<or> content_length h \<noteq> None))"
proof (cases "\<not> chunked h \<and> (content_length h = None \<or> content_length h = Some 0)")
  case True
  then show ?thesis by (auto simp: drain_body_def request_body_def body_as_slice_def body_is_present_def)
next
  case False
  have src: "byte_source (chain rd) (\<lambda>pio. fst pio @ bytes (snd pio))"
    using buffered_source.chain_source assms(1) by (simp add: buffered_source_def)
  have cap: "mx < umax" using effective_body_cap_small(1) assms(3) by simp
  obtain r pio out where r: "from_head h mx = Inr r" "drain_loop (chain rd) 8192 (\<lambda>_. False) 0 [] r (buf, io) = Some (pio, out)"
      "case out of None \<Rightarrow> \<forall>d rest. \<not> request_body h mx (buf @ bytes io) d rest
       | Some (d, _) \<Rightarrow> request_body h mx (buf @ bytes io) d (fst pio @ bytes (snd pio))"
    using request_exact [OF src assms(2) cap, of 8192 "(buf, io)", unfolded fst_conv snd_conv] by auto
  then have "drain_body rd True (\<lambda>_. False) io buf h mx = Some ([], snd pio, map_option (\<lambda>(body, n). (Buffered body, n)) out)"
    using False by (auto simp: drain_body_def split_beta)
  then show ?thesis using r(3) False by (cases out) (auto simp: body_as_slice_def body_is_present_def)
qed

section \<open>A transport\<close>

text \<open>
  A socket as a list of bytes to come and the sizes in which they arrive: a read of \<open>want\<close> bytes delivers at most the next
  size, but at least one byte; when the sizes are used up it delivers all it can.
\<close>

definition sock_read :: "(u8 list \<times> nat list) rd" where
  "sock_read io want =
     (case io of (bs, ks) \<Rightarrow>
        let n = (case ks of [] \<Rightarrow> want | k # _ \<Rightarrow> min want (Suc k)) in (take n bs, (drop n bs, tl ks)))"

interpretation sock: buffered_source sock_read fst
  by unfold_locales (auto simp: sock_read_def Let_def split: prod.splits list.splits)


section \<open>Examples\<close>

definition post_head :: "u64 option \<Rightarrow> bool \<Rightarrow> RequestHead" where
  "post_head n c = \<lparr>req_method = Post, target = ascii ''/'', version = Http11,
     headers = (case n of Some k \<Rightarrow> [(ascii ''Content-Length'', ascii ''3'')] | None \<Rightarrow> if c then [(ascii ''Transfer-Encoding'', ascii ''chunked'')] else []),
     content_length = n, chunked = c\<rparr>"

lemma post_head_ok: "head_ok (post_head (Some 3) False)" "head_ok (post_head None True)"
  by (simp_all add: post_head_def head_ok_def target_ok_def starts_with_def field_ok_def token_byte_def is_alnum_def has_control_bytes_def
      is_valid_header_name_def trim_ows_def ows_def length_ok_def coding_ok_def named_def eq_ignore_ascii_case_def lower_def declared_def digits_val_def ascii_def)

theorem discard_exact_witness:
  "head_ok (post_head (Some 3) False) \<and>
   (\<exists>r r' io' x. from_head (post_head (Some 3) False) 100 = Inr r \<and> discard sock_read r (ascii ''abcGET'', [0, 5]) = Some (r', io', x) \<and>
     (case x of Inl _ \<Rightarrow> False | Inr c \<Rightarrow> \<exists>d. request_body (post_head (Some 3) False) 100 (ascii ''abcGET'') d (fst io') \<and> unat c = length d))"
proof -
  let ?h = "post_head (Some 3) False" and ?bs = "ascii ''abcGET''"
  have "request_body ?h 100 ?bs (ascii ''abc'') (ascii ''GET'')" by (simp add: request_body_def post_head_def ascii_def)
  moreover have "(100 :: u64) < umax" by (simp add: word_less_nat_alt unat_umax)
  ultimately show ?thesis
    using discard_exact [OF sock.byte_source_axioms post_head_ok(1), of 100 "(?bs, [0, 5])"] post_head_ok(1)
    by (fastforce split: sum.splits)
qed

theorem served_body_exact_witness:
  "\<exists>buf' io' out. drain_body sock_read True (\<lambda>_. False) (ascii ''bc'', [0]) (ascii ''a'') (post_head (Some 3) False)
      (effective_body_cap (None :: nat TenantLimits option) 0) = Some (buf', io', out) \<and>
    (case out of None \<Rightarrow> False | Some (b, _) \<Rightarrow> body_as_slice b = ascii ''abc'' \<and> body_is_present b)"
proof -
  let ?h = "post_head (Some 3) False" and ?mx = "effective_body_cap (None :: nat TenantLimits option) 0"
  have mx: "?mx = 2097152" by (simp add: effective_body_cap_def MAX_REQUEST_BYTES_def min_def)
  have "request_body ?h ?mx (ascii ''a'' @ ascii ''bc'') d rest \<longleftrightarrow> d = ascii ''abc'' \<and> rest = []" for d rest
    by (auto simp: mx request_body_def post_head_def ascii_def Cons_eq_append_conv)
  then show ?thesis
    using served_body_exact [OF sock.byte_source_axioms post_head_ok(1) refl, where ls = "None :: nat TenantLimits option" and t = 0
        and io = "(ascii ''bc'', [0])" and buf = "ascii ''a''"]
    by (fastforce simp: post_head_def split: option.splits)
qed

section \<open>Two surprises\<close>

text \<open>
  The blank line behind the last chunk is charged to the cap: a chunked body of exactly the cap is refused, the same body
  with a \<open>Content-Length\<close> is accepted.
\<close>

lemma trailers_100:
  "trailers_of 100 b bs = (case line_of bs of None \<Rightarrow> None | Some (l, rest) \<Rightarrow>
     if b < length l + 2 then None else if l = [] then Some rest else trailers_of 99 (b - (length l + 2)) rest)"
  using trailers_of.simps(2) [of 99 b bs] by simp

lemma chunked_cap_off_by_two:
  "body_of (reader_chunked 3) (ascii ''3'' @ crlf @ ascii ''abc'' @ crlf @ ascii ''0'' @ crlf @ crlf) = None"
  "body_of (length_delimited 3 3) (ascii ''abc'') = Some (ascii ''abc'', [])"
  by (simp_all add: body_of_def reader_chunked_def length_delimited_def budget_def chunked_body.simps line_of_def parse_chunk_size_def
      size_digits_def hex_number_def hex_val_def is_hexdigit_def blank_def trailers_100 ascii_def MAX_CHUNK_SIZE_LINE_def from_utf8_ok_def)

text \<open>
  A client that sends a body and the next request together loses the second: what the reader leaves in the buffered prefix
  is dropped, and is neither in the buffer nor on the socket afterwards.
\<close>

lemma pipelined_request_lost:
  "drain_body sock_read True (\<lambda>_. False) ([], []) (ascii ''abcGET / HTTP/1.1'') (post_head (Some 3) False) 100 =
     Some ([], ([], []), Some (Buffered (ascii ''abc''), 3))"
proof -
  let ?r = "(length_delimited 3 100)\<lparr>seen := 3, finished := True\<rparr>" and ?rest = "(ascii ''GET / HTTP/1.1'', [], [])"
  have "poll_chunk (chain sock_read) (length_delimited 3 100) (ascii ''abcGET / HTTP/1.1'', [], []) 8192 = (?r, ?rest, Inr (Data (ascii ''abc'')))"
    by (simp add: poll_chunk_def length_delimited_def chain_def account_def ascii_def sat_sub_def sat_add_def word_le_nat_alt word_less_nat_alt)
  moreover have "poll_chunk (chain sock_read) ?r ?rest 8192 = (?r, ?rest, Inr End)" by (simp add: poll_chunk_def)
  ultimately have "drain_loop (chain sock_read) 8192 (\<lambda>_. False) 0 [] (length_delimited 3 100) (ascii ''abcGET / HTTP/1.1'', [], []) =
      Some (?rest, Some (ascii ''abc'', 3))"
    using drain_loop.simps [of "chain sock_read" 8192 "\<lambda>_. False" 0 "[]" "length_delimited 3 100" "(ascii ''abcGET / HTTP/1.1'', [], [])"]
      drain_loop.simps [of "chain sock_read" 8192 "\<lambda>_. False" 1 "ascii ''abc''" ?r ?rest] by simp
  then show ?thesis by (simp add: drain_body_def from_head_def post_head_def)
qed

end
