(* ===== verification/Responses.thy ===== *)
theory Responses
  imports Body Errors
begin

text \<open>
  Writing responses (\<open>qqq-serve/src/response.rs\<close>): the response value, the check at the point of emission, the head and
  body on the wire, the head and the chunks of a streamed body, and the mapping of errors to responses. A \<open>String\<close> is the
  list of its code points and is encoded when it is written. \<open>dbg\<close> is the \<open>Debug\<close> rendering of a string (\<open>{:?}\<close>).
\<close>

section \<open>Responses\<close>

definition reason_phrase :: "u16 \<Rightarrow> ustr" where
  "reason_phrase s =
     (case map_of
        [(200, msg ''OK''), (201, msg ''Created''), (204, msg ''No Content''), (301, msg ''Moved Permanently''),
         (302, msg ''Found''), (304, msg ''Not Modified''), (307, msg ''Temporary Redirect''), (308, msg ''Permanent Redirect''),
         (400, msg ''Bad Request''), (401, msg ''Unauthorized''), (403, msg ''Forbidden''), (404, msg ''Not Found''),
         (405, msg ''Method Not Allowed''), (408, msg ''Request Timeout''), (409, msg ''Conflict''), (413, msg ''Content Too Large''),
         (414, msg ''URI Too Long''), (415, msg ''Unsupported Media Type''), (421, msg ''Misdirected Request''),
         (422, msg ''Unprocessable Content''), (429, msg ''Too Many Requests''), (431, msg ''Request Header Fields Too Large''),
         (500, msg ''Internal Server Error''), (501, msg ''Not Implemented''), (502, msg ''Bad Gateway''),
         (503, msg ''Service Unavailable''), (504, msg ''Gateway Timeout''), (505, msg ''HTTP Version Not Supported'')] s of
        Some p \<Rightarrow> p | None \<Rightarrow> msg ''Unknown'')"

definition forbids_body :: "u16 \<Rightarrow> bool" where
  "forbids_body s \<longleftrightarrow> s = 204 \<or> s = 304 \<or> (100 \<le> s \<and> s < 200)"

record Response =
  resp_status :: u16
  resp_headers :: "(ustr \<times> ustr) list"
  resp_body :: "u8 list"

definition response_status :: "u16 \<Rightarrow> Response" where
  "response_status s = \<lparr>resp_status = s, resp_headers = [], resp_body = []\<rparr>"

text \<open>The first header with the name is overwritten in place, a new one goes to the end.\<close>

fun set_in :: "ustr \<Rightarrow> ustr \<Rightarrow> (ustr \<times> ustr) list \<Rightarrow> (ustr \<times> ustr) list" where
  "set_in name value [] = [(name, value)]"
| "set_in name value ((k, v) # hs) =
     (if Errors.eq_ignore_ascii_case k name then (k, value) # hs else (k, v) # set_in name value hs)"

definition set_header :: "ustr \<Rightarrow> ustr \<Rightarrow> Response \<Rightarrow> Response" where
  "set_header name value r = r\<lparr>resp_headers := set_in name value (resp_headers r)\<rparr>"

definition response_header :: "Response \<Rightarrow> ustr \<Rightarrow> ustr option" where
  "response_header r name = map_option snd (find (\<lambda>(k, _). Errors.eq_ignore_ascii_case k name) (resp_headers r))"

definition response_text :: "u16 \<Rightarrow> ustr \<Rightarrow> Response" where
  "response_text s body =
     set_header (msg ''Content-Type'') (msg ''text/plain; charset=utf-8'')
       \<lparr>resp_status = s, resp_headers = [], resp_body = utf8_bytes body\<rparr>"

section \<open>Validation\<close>

datatype OutboundRefusal = OutboundRefusal (refusal_detail: ustr)

definition replacement :: "OutboundRefusal \<Rightarrow> Response" where
  "replacement e = response_text 500 (msg ''response failed validation: '' @ refusal_detail e)"

definition bad_value :: "ustr \<Rightarrow> bool" where
  "bad_value v \<longleftrightarrow> has_control_bytes (utf8_bytes v) \<or> list_ex (\<lambda>c. is_control c \<and> c \<noteq> 9 \<or> c = 0x2028 \<or> c = 0x2029) v"

fun check_headers :: "(ustr \<Rightarrow> ustr) \<Rightarrow> (ustr \<times> ustr) list \<Rightarrow> OutboundRefusal + unit" where
  "check_headers dbg [] = Inr ()"
| "check_headers dbg ((name, value) # hs) =
     (if \<not> is_valid_header_name (utf8_bytes name) then
        Inl (OutboundRefusal (msg ''header name '' @ dbg name @ msg '' is not a valid token''))
      else if bad_value value then
        Inl (OutboundRefusal (msg ''header '' @ dbg name @ msg '' value carries a control byte''))
      else check_headers dbg hs)"

definition validate_outbound :: "(ustr \<Rightarrow> ustr) \<Rightarrow> Response \<Rightarrow> u64 \<Rightarrow> OutboundRefusal + unit" where
  "validate_outbound dbg r cap =
     (if \<not> (200 \<le> resp_status r \<and> resp_status r \<le> 599) then
        Inl (OutboundRefusal (msg ''status '' @ show_nat (unat (resp_status r)) @ msg '' has no meaning as a final response (200-599 only)''))
      else case check_headers dbg (resp_headers r) of
        Inl e \<Rightarrow> Inl e
      | Inr _ \<Rightarrow>
          let body_len = (if length (resp_body r) < 2 ^ 64 then of_nat (length (resp_body r)) else umax) in
          if cap < body_len then
            Inl (OutboundRefusal (msg ''body '' @ show_nat (unat body_len) @ msg '' bytes exceeds the '' @ show_nat (unat cap) @ msg ''-byte cap''))
          else Inr ())"

section \<open>Writing\<close>

definition SPLIT_THRESHOLD :: nat where
  "SPLIT_THRESHOLD = 4 * 1024"

text \<open>What goes on the wire: the response, or the replacement of a refused one.\<close>

definition emitted :: "(ustr \<Rightarrow> ustr) \<Rightarrow> Response \<Rightarrow> Response" where
  "emitted dbg r = (case validate_outbound dbg r umax of Inr _ \<Rightarrow> r | Inl e \<Rightarrow> replacement e)"

text \<open>A line of the head, \<open>write!\<close> with \<open>\r\n\<close> at its end.\<close>

definition ln :: "ustr \<Rightarrow> ustr" where
  "ln s = s @ [13, 10]"

definition status_line :: "HttpVersion \<Rightarrow> Response \<Rightarrow> ustr" where
  "status_line ver r = map unat (version_as_str ver) @ [32] @ show_nat (unat (resp_status r)) @ [32] @ reason_phrase (resp_status r)"

definition owned :: "ustr \<Rightarrow> bool" where
  "owned name \<longleftrightarrow> Errors.eq_ignore_ascii_case name (msg ''content-length'') \<or> Errors.eq_ignore_ascii_case name (msg ''connection'') \<or>
     Errors.eq_ignore_ascii_case name (msg ''transfer-encoding'')"

definition field_lines :: "Response \<Rightarrow> ustr list" where
  "field_lines r = map (\<lambda>(name, value). name @ [58, 32] @ value) (filter (\<lambda>(name, _). \<not> owned name) (resp_headers r))"

definition connection_lines :: "HttpVersion \<Rightarrow> bool \<Rightarrow> ustr list" where
  "connection_lines ver keep_alive =
     (if \<not> keep_alive then [msg ''Connection: close''] else if ver = Http10 then [msg ''Connection: keep-alive''] else [])"

definition content_length_line :: "nat \<Rightarrow> ustr" where
  "content_length_line n = msg ''Content-Length: '' @ show_nat n"

definition write_response_head :: "(ustr \<Rightarrow> ustr) \<Rightarrow> Response \<Rightarrow> HttpVersion \<Rightarrow> bool \<Rightarrow> u8 list" where
  "write_response_head dbg resp ver keep_alive =
     (let r = emitted dbg resp; body = (if forbids_body (resp_status r) then [] else resp_body r) in
      utf8_bytes (ln (status_line ver r) @ concat (map ln (field_lines r)) @ ln (content_length_line (length body)) @
        concat (map ln (connection_lines ver keep_alive)) @ [13, 10]))"

definition response_body_for_wire :: "Response \<Rightarrow> bool \<Rightarrow> u8 list" where
  "response_body_for_wire r head_request = (if forbids_body (resp_status r) \<or> head_request then [] else resp_body r)"

definition write_response :: "(ustr \<Rightarrow> ustr) \<Rightarrow> Response \<Rightarrow> HttpVersion \<Rightarrow> bool \<Rightarrow> bool \<Rightarrow> u8 list" where
  "write_response dbg r ver keep_alive head_request =
     write_response_head dbg r ver keep_alive @ (if head_request then [] else response_body_for_wire r head_request)"

definition write_stream_head :: "(ustr \<Rightarrow> ustr) \<Rightarrow> Response \<Rightarrow> HttpVersion \<Rightarrow> bool \<Rightarrow> u8 list" where
  "write_stream_head dbg resp ver keep_alive =
     (let r = emitted dbg resp in
      utf8_bytes (ln (status_line ver r) @ concat (map ln (field_lines r)) @
        (case ver of
           Http10 \<Rightarrow> if forbids_body (resp_status r) then ln (content_length_line 0) else []
         | _ \<Rightarrow> if forbids_body (resp_status r) then ln (content_length_line 0) else ln (msg ''Transfer-Encoding: chunked'')) @
        (if \<not> keep_alive \<or> ver = Http10 then ln (msg ''Connection: close'') else []) @ [13, 10]))"

definition write_chunk :: "u8 list \<Rightarrow> u8 list" where
  "write_chunk piece = (if piece = [] then [] else utf8_bytes (ln (show_hex (length piece))) @ piece @ [13, 10])"

definition write_last_chunk :: "u8 list" where
  "write_last_chunk = ascii ''0'' @ [13, 10, 13, 10]"

definition CHUNK_MAX :: nat where
  "CHUNK_MAX = 64 * 1024"

section \<open>Errors as responses\<close>

record ErrorResponse =
  er_status :: u16
  er_body :: ustr
  er_retry_after :: "ustr option"
  er_close :: bool
  er_log_code :: "ustr option"

datatype Failure = BadRequest | GuestFault | Misconfiguration | HardLimit | Timeout | OverCapacity | ListenerFault

fun failure_status :: "Failure \<Rightarrow> u16" where
  "failure_status BadRequest = 400"
| "failure_status Timeout = 504"
| "failure_status OverCapacity = 503"
| "failure_status _ = 500"

definition is_server_fault :: "Failure \<Rightarrow> bool" where
  "is_server_fault f \<longleftrightarrow> f \<noteq> BadRequest"

definition should_retry :: "Failure \<Rightarrow> bool" where
  "should_retry f \<longleftrightarrow> f = OverCapacity"

definition must_close :: "Failure \<Rightarrow> bool" where
  "must_close f \<longleftrightarrow> f \<in> {OverCapacity, ListenerFault}"

fun failure_as_str :: "Failure \<Rightarrow> ustr" where
  "failure_as_str BadRequest = msg ''bad-request''"
| "failure_as_str GuestFault = msg ''guest-fault''"
| "failure_as_str Misconfiguration = msg ''misconfiguration''"
| "failure_as_str HardLimit = msg ''hard-limit''"
| "failure_as_str Timeout = msg ''timeout''"
| "failure_as_str OverCapacity = msg ''over-capacity''"
| "failure_as_str ListenerFault = msg ''listener-fault''"

definition classify :: "ErrorCode \<Rightarrow> bool \<Rightarrow> Failure" where
  "classify c soft_fuel =
     (if c \<in> {CapabilityDenied, CapabilityOutOfScope, CapabilityWideningRefused, SecretUseFailed, InvalidComponentArtifact,
          ComponentLoadFailed, WitInterfaceMismatch} then Misconfiguration
      else if c = MemoryLimitExceeded then HardLimit
      else if c = FuelExhausted then (if soft_fuel then OverCapacity else HardLimit)
      else if c = EpochDeadlineExceeded then Timeout
      else if c \<in> {InstancePoolExhausted, HostResourceExhausted} then OverCapacity
      else if c = ListenerBindFailed then ListenerFault
      else GuestFault)"

definition retry_after_value :: "u16 \<Rightarrow> Error option \<Rightarrow> ustr" where
  "retry_after_value s err =
     (case Option.bind err (\<lambda>e. find (\<lambda>(k, _). k = msg ''retry-after'') (error_context e)) of
        Some (_, seconds) \<Rightarrow> if seconds \<noteq> [] \<and> list_all is_ascii_digit seconds then seconds else lit ''1''
      | None \<Rightarrow> lit ''1'')"

definition error_response :: "Error \<Rightarrow> bool \<Rightarrow> ErrorResponse" where
  "error_response e soft_fuel =
     (let f = classify (code e) soft_fuel in
      \<lparr>er_status = failure_status f, er_body = reason_phrase (failure_status f) @ [10],
       er_retry_after = (if should_retry f then Some (retry_after_value (failure_status f) (Some e)) else None),
       er_close = must_close f, er_log_code = Some (code_id (code e))\<rparr>)"

definition parse_error_response :: "ustr \<Rightarrow> ErrorResponse" where
  "parse_error_response detail =
     \<lparr>er_status = failure_status BadRequest, er_body = reason_phrase (failure_status BadRequest) @ [10], er_retry_after = None,
      er_close = must_close BadRequest, er_log_code = None\<rparr>"

definition not_found :: Response where
  "not_found = response_text 404 (msg ''not found'' @ [10])"

definition sanitize_reflected :: "ustr \<Rightarrow> ustr" where
  "sanitize_reflected value =
     take 64 (filter (\<lambda>c. \<not> (is_control c \<or> (c \<noteq> 32 \<and> is_whitespace c) \<or> is_layout_forgery c \<or> is_invisible_format c)) value)"

definition misdirected :: "ustr \<Rightarrow> Response" where
  "misdirected hst =
     set_header (msg ''X-QQQ-Error'') (msg ''tenant-unknown-host'')
       (response_text 421 (msg ''no tenant is configured for host '' @ ticks (sanitize_reflected hst) @ [10]))"

definition handler_panicked :: Response where
  "handler_panicked = set_header (msg ''X-QQQ-Error'') (msg ''handler-panicked'') (response_text 502 (msg ''host handler failed''))"

definition method_not_allowed :: "Method list \<Rightarrow> Response" where
  "method_not_allowed allowed =
     set_header (msg ''Allow'') (join (msg '', '') (map (\<lambda>m. map unat (method_as_str m)) allowed))
       (response_text 405 (msg ''method not allowed'' @ [10]))"

definition from_error :: "ErrorResponse \<Rightarrow> Response" where
  "from_error err =
     (let r = response_text (er_status err) (er_body err) in
      case er_retry_after err of Some retry \<Rightarrow> set_header (msg ''Retry-After'') retry r | None \<Rightarrow> r)"


section \<open>Bytes of a text\<close>

lemma utf8_append [simp]: "utf8_bytes (s @ t) = utf8_bytes s @ utf8_bytes t" "utf8_bytes [] = []"
  by (simp_all add: utf8_bytes_def)

lemma utf8_concat: "utf8_bytes (concat ss) = concat (map utf8_bytes ss)"
  by (induction ss) simp_all

definition ascii_only :: "ustr \<Rightarrow> bool" where
  "ascii_only s \<longleftrightarrow> list_all (\<lambda>c. c < 128) s"

lemma ascii_only_simps [simp]:
  "ascii_only []" "ascii_only (c # s) \<longleftrightarrow> c < 128 \<and> ascii_only s" "ascii_only (s @ t) \<longleftrightarrow> ascii_only s \<and> ascii_only t"
  by (simp_all add: ascii_only_def)

lemma utf8_of_ascii: "ascii_only s \<Longrightarrow> utf8_bytes s = map of_nat s"
  by (induction s) (simp_all add: utf8_bytes_def encode_utf8_def encode_utf8_nat_def)

lemma utf8_cons: "c < 128 \<Longrightarrow> utf8_bytes (c # s) = of_nat c # utf8_bytes s"
  by (simp add: utf8_bytes_def encode_utf8_def encode_utf8_nat_def)

text \<open>A continuation byte is never part of a token.\<close>

lemma last_byte_high: "128 \<le> c \<Longrightarrow> \<exists>b \<in> set (encode_utf8 c). \<not> b < 128"
proof -
  assume c: "128 \<le> c"
  have "128 + c mod 64 \<in> set (encode_utf8_nat c)" using c by (simp add: encode_utf8_nat_def)
  then have "of_nat (128 + c mod 64) \<in> set (encode_utf8 c)" unfolding encode_utf8_def by (simp only: set_map image_eqI)
  moreover have "unat (of_nat (128 + c mod 64) :: u8) = 128 + c mod 64"
  proof -
    have "c mod 64 < 64" by simp
    then have "128 + c mod 64 < 256" by linarith
    then show ?thesis by (simp only: unat_of_nat) simp
  qed
  ultimately show ?thesis by (intro bexI) (auto simp: word_less_nat_alt)
qed

lemma utf8_low: "list_all (\<lambda>b. b < 128) (utf8_bytes s) \<Longrightarrow> ascii_only s"
proof (induction s)
  case (Cons c s)
  then have "list_all (\<lambda>b. b < 128) (encode_utf8 c)" "ascii_only s" by (simp_all add: utf8_bytes_def)
  then show ?case using last_byte_high [of c] by (cases "c < 128") (auto simp: list_all_iff)
qed simp

lemma token_low: "token_byte b \<Longrightarrow> b < 128"
  by (auto simp: token_byte_def is_alnum_def ascii_def word_le_nat_alt word_less_nat_alt)

lemma header_name_ascii: "is_valid_header_name (utf8_bytes s) \<Longrightarrow> ascii_only s"
  by (rule utf8_low) (auto simp: is_valid_header_name_def list_all_iff token_low)

lemma lower_of_nat: "c < 128 \<Longrightarrow> lower (of_nat c) = of_nat (to_ascii_lowercase c)"
  by (auto simp: lower_def to_ascii_lowercase_def word_le_nat_alt unat_of_nat)

lemma of_nat_u8_inj: "c < 256 \<Longrightarrow> d < 256 \<Longrightarrow> (of_nat c :: u8) = of_nat d \<longleftrightarrow> c = d"
  by (auto simp: word_unat_eq_iff unat_of_nat)

lemma map_of_nat_inj: "list_all (\<lambda>c. c < 256) s \<Longrightarrow> list_all (\<lambda>c. c < 256) t \<Longrightarrow> map (of_nat :: nat \<Rightarrow> u8) s = map of_nat t \<longleftrightarrow> s = t"
  by (induction s arbitrary: t) (auto simp: Cons_eq_map_conv of_nat_u8_inj, (metis list.pred_inject(2) of_nat_u8_inj)?)

lemma case_bytes:
  assumes "ascii_only s" "ascii_only t"
  shows "Methods.eq_ignore_ascii_case (utf8_bytes s) (utf8_bytes t) \<longleftrightarrow> Errors.eq_ignore_ascii_case s t"
proof -
  have low: "map lower (map of_nat s) = map of_nat (map to_ascii_lowercase s)" if "ascii_only s" for s
    using that by (induction s) (simp_all add: lower_of_nat)
  have lt: "list_all (\<lambda>c. c < 256) (map to_ascii_lowercase s)" if "ascii_only s" for s
    using that by (induction s) (auto simp: to_ascii_lowercase_def)
  show ?thesis
    unfolding Methods.eq_ignore_ascii_case_def Errors.eq_ignore_ascii_case_def
    using assms by (simp add: utf8_of_ascii low map_of_nat_inj lt del: map_map)
qed

lemma ascii_msg: "ascii_only (msg s) \<Longrightarrow> utf8_bytes (msg s) = ascii s"
  by (simp add: utf8_of_ascii msg_def ascii_def o_def)


section \<open>Heads on the wire\<close>

definition header_ok :: "ustr \<times> ustr \<Rightarrow> bool" where
  "header_ok f \<longleftrightarrow> is_valid_header_name (utf8_bytes (fst f)) \<and> \<not> bad_value (snd f)"

lemma check_headers_iff: "check_headers dbg hs = Inr () \<longleftrightarrow> list_all header_ok hs"
  by (induction dbg hs rule: check_headers.induct) (auto simp: header_ok_def)

lemma check_headers_cases: "check_headers dbg hs = Inr u \<longleftrightarrow> list_all header_ok hs"
  using check_headers_iff by (cases u) simp

definition sendable :: "Response \<Rightarrow> bool" where
  "sendable r \<longleftrightarrow> 200 \<le> resp_status r \<and> resp_status r \<le> 599 \<and> list_all header_ok (resp_headers r)"

lemma validate_iff: "validate_outbound dbg r umax = Inr u \<longleftrightarrow> sendable r"
proof (cases "check_headers dbg (resp_headers r)")
  case (Inl e)
  then have "\<not> list_all header_ok (resp_headers r)" by (simp add: check_headers_iff [of dbg, symmetric])
  then show ?thesis using Inl by (simp add: validate_outbound_def sendable_def)
next
  case (Inr w)
  then have "list_all header_ok (resp_headers r)" by (simp add: check_headers_cases)
  then show ?thesis using Inr by (cases u) (auto simp: validate_outbound_def sendable_def Let_def leD [OF le_umax])
qed

lemma emitted_sendable: "sendable r \<Longrightarrow> emitted dbg r = r"
  using validate_iff [of dbg r "()"] by (simp add: emitted_def)

lemma emitted_refused: "validate_outbound dbg r umax = Inl e \<Longrightarrow> emitted dbg r = replacement e"
  by (simp add: emitted_def)

lemma header_ok_text: "header_ok (msg ''Content-Type'', msg ''text/plain; charset=utf-8'')"
  by (simp add: header_ok_def msg_def utf8_of_ascii is_valid_header_name_def token_byte_def is_alnum_def ascii_def bad_value_def
      has_control_bytes_def is_control_def)

lemma sendable_text: "200 \<le> s \<Longrightarrow> s \<le> 599 \<Longrightarrow> sendable (response_text s b)"
  by (simp add: sendable_def response_text_def set_header_def header_ok_text)

lemma sendable_emitted: "sendable (emitted dbg r)"
proof (cases "validate_outbound dbg r umax")
  case (Inl e)
  then show ?thesis by (simp add: emitted_refused replacement_def sendable_text)
next
  case (Inr u)
  then show ?thesis by (simp add: emitted_def validate_iff [symmetric, of _ dbg u])
qed

text \<open>Lines without a carriage return, put together with CRLF.\<close>

definition head_bytes :: "bstr list \<Rightarrow> bstr" where
  "head_bytes ls = join_crlf ls @ CRLF2"

lemma join_lines: "ls \<noteq> [] \<Longrightarrow> concat (map (\<lambda>l. l @ [13, 10]) ls) @ [13, 10] = head_bytes ls"
  by (induction ls rule: join_crlf.induct) (simp_all add: head_bytes_def CRLF2_def)

lemma utf8_ln: "utf8_bytes (ln s) = utf8_bytes s @ [13, 10]"
  by (simp add: ln_def utf8_of_ascii)

lemma utf8_lines:
  assumes "ls \<noteq> []"
  shows "utf8_bytes (concat (map ln ls) @ [13, 10]) = head_bytes (map utf8_bytes ls)"
proof -
  have "utf8_bytes (concat (map ln ls) @ [13, 10]) = concat (map (\<lambda>l. l @ [13, 10]) (map utf8_bytes ls)) @ [13, 10]"
    by (simp add: utf8_concat utf8_ln o_def utf8_of_ascii)
  then show ?thesis using join_lines [of "map utf8_bytes ls"] assms by simp
qed

definition head_lines :: "Response \<Rightarrow> HttpVersion \<Rightarrow> bool \<Rightarrow> ustr list" where
  "head_lines r ver keep_alive =
     status_line ver r # field_lines r @ content_length_line (if forbids_body (resp_status r) then 0 else length (resp_body r)) #
     connection_lines ver keep_alive"

lemma write_response_head_lines: "write_response_head dbg r ver ka = head_bytes (map utf8_bytes (head_lines (emitted dbg r) ver ka))"
proof -
  have "write_response_head dbg r ver ka = utf8_bytes (concat (map ln (head_lines (emitted dbg r) ver ka)) @ [13, 10])"
    by (simp add: write_response_head_def head_lines_def Let_def)
  also have "\<dots> = head_bytes (map utf8_bytes (head_lines (emitted dbg r) ver ka))"
    by (rule utf8_lines) (simp add: head_lines_def)
  finally show ?thesis .
qed

lemma head_end_lines:
  assumes "list_all plain_line (l # ls)"
  shows "head_end first_index (head_bytes (l # ls) @ rest) = Some (length (head_bytes (l # ls)))"
    "split_crlf (take (length (head_bytes (l # ls)) - 4) (head_bytes (l # ls) @ rest)) = l # ls"
proof -
  let ?j = "join_crlf (l # ls)"
  have "ends_at (?j @ CRLF2 @ rest) (length ?j)" using ends_at_shift [of ?j "CRLF2 @ rest" 0]
    by (simp add: ends_at_def starts_with_def CRLF2_def)
  moreover have "\<not> ends_at (?j @ CRLF2 @ rest) j" if "j < length ?j" for j using no_early_end [OF assms that] by blast
  ultimately have "first_end (head_bytes (l # ls) @ rest) 0 (Some (length (head_bytes (l # ls))))"
    by (simp add: first_end_def head_bytes_def CRLF2_def)
  moreover have "first_end (head_bytes (l # ls) @ rest) 0 (head_end first_index (head_bytes (l # ls) @ rest))"
    using head_scan_first [OF memchr_ok_first_index, of "head_bytes (l # ls) @ rest" 0] by (simp add: head_end_def head_end_from_def)
  ultimately show "head_end first_index (head_bytes (l # ls) @ rest) = Some (length (head_bytes (l # ls)))"
    using first_end_unique by blast
  show "split_crlf (take (length (head_bytes (l # ls)) - 4) (head_bytes (l # ls) @ rest)) = l # ls"
    using split_join_crlf [OF assms] by (simp add: head_bytes_def CRLF2_def)
qed


text \<open>Texts the writer makes itself: ASCII, without a carriage return.\<close>

definition plain_text :: "ustr \<Rightarrow> bool" where
  "plain_text s \<longleftrightarrow> ascii_only s \<and> 13 \<notin> set s"

lemma plain_text_simps [simp]:
  "plain_text []" "plain_text (c # s) \<longleftrightarrow> c < 128 \<and> c \<noteq> 13 \<and> plain_text s" "plain_text (s @ t) \<longleftrightarrow> plain_text s \<and> plain_text t"
  by (auto simp: plain_text_def)

lemma plain_text_bytes: "plain_text s \<Longrightarrow> 13 \<notin> set (utf8_bytes s)"
proof -
  assume p: "plain_text s"
  have "(of_nat c :: u8) = 13 \<Longrightarrow> c = 13" if "c < 128" for c using that of_nat_u8_inj [of c 13] by simp
  then show ?thesis using p by (auto simp: plain_text_def ascii_only_def list_all_iff utf8_of_ascii dest!: spec)
qed

lemma plain_show_nat [simp]: "plain_text (show_nat n)"
  using show_nat_digits [of n] by (auto simp: plain_text_def ascii_only_def list_all_iff is_ascii_digit_def)

lemma plain_reason [simp]: "plain_text (reason_phrase s)"
  unfolding reason_phrase_def by (auto simp: msg_def split: option.splits dest!: map_of_SomeD)

lemma plain_version [simp]: "plain_text (map unat (version_as_str ver))"
  by (cases ver) (simp_all add: ascii_def)

lemma plain_status_line: "plain_text (status_line ver r)"
  by (simp add: status_line_def)

lemma plain_own_lines: "plain_text (content_length_line n)" "list_all plain_text (connection_lines ver ka)"
  by (simp_all add: content_length_line_def connection_lines_def msg_def)

lemma own_lines_nonempty: "status_line ver r \<noteq> []" "content_length_line n \<noteq> []" "[] \<notin> set (connection_lines ver ka)"
  by (simp_all add: status_line_def content_length_line_def connection_lines_def msg_def)

lemma plain_line_text: "plain_text s \<Longrightarrow> s \<noteq> [] \<Longrightarrow> plain_line (utf8_bytes s)"
proof -
  assume "plain_text s" "s \<noteq> []"
  then show ?thesis using plain_text_bytes [of s] by (simp add: plain_line_def utf8_of_ascii plain_text_def)
qed

lemma utf8_field: "utf8_bytes (k @ [58, 32] @ v) = utf8_bytes k @ 58 # 32 # utf8_bytes v"
proof -
  have "utf8_bytes [58, 32] = [58, 32]" by (simp add: utf8_of_ascii)
  then have "utf8_bytes ([58, 32] @ v) = [58, 32] @ utf8_bytes v" by (simp only: utf8_append)
  then show ?thesis by simp
qed

lemma header_ok_bytes:
  assumes "header_ok (k, v)"
  shows "utf8_bytes k \<noteq> []" "58 \<notin> set (utf8_bytes k)" "13 \<notin> set (utf8_bytes k)" "13 \<notin> set (utf8_bytes v)" "ascii_only k"
proof -
  have k: "is_valid_header_name (utf8_bytes k)" and v: "\<not> has_control_bytes (utf8_bytes v)"
    using assms by (simp_all add: header_ok_def bad_value_def)
  show "utf8_bytes k \<noteq> []" "ascii_only k" using k header_name_ascii by (simp_all add: is_valid_header_name_def)
  show "58 \<notin> set (utf8_bytes k)" "13 \<notin> set (utf8_bytes k)"
    using k token_plain by (fastforce simp: is_valid_header_name_def list_all_iff)+
  show "13 \<notin> set (utf8_bytes v)" using v by (auto simp: has_control_bytes_def list_ex_iff)
qed

lemma field_lines_plain: "list_all header_ok (resp_headers r) \<Longrightarrow> list_all plain_line (map utf8_bytes (field_lines r))"
proof -
  assume ok: "list_all header_ok (resp_headers r)"
  have "plain_line (utf8_bytes (k @ [58, 32] @ v))" if "(k, v) \<in> set (resp_headers r)" for k v
    unfolding utf8_field using header_ok_bytes [of k v] ok that by (auto simp: plain_line_def list_all_iff)
  then show ?thesis by (auto simp: field_lines_def list_all_iff simp del: utf8_append append.simps)
qed

lemma response_lines_plain: "sendable r \<Longrightarrow> list_all plain_line (map utf8_bytes (head_lines r ver ka))"
proof -
  assume r: "sendable r"
  have "plain_line (utf8_bytes s)" if "s \<in> set (connection_lines ver ka)" for s
    using that own_lines_nonempty(3) [of ver ka] plain_own_lines(2) [of ver ka] by (auto simp: list_all_iff intro!: plain_line_text)
  then show ?thesis using r field_lines_plain [of r]
    by (auto simp: head_lines_def sendable_def plain_line_text plain_status_line plain_own_lines own_lines_nonempty list_all_iff)
qed

section \<open>How a client reads a response\<close>

text \<open>
  The reference: the head ends at the first blank line, its lines are the status line and the fields, and the body has the
  declared length unless the request was a HEAD or the status forbids a body. The result is the status line, the fields, the
  body and what is left for the next response; nothing when more bytes are needed.
\<close>

definition status_of :: "bstr \<Rightarrow> nat" where
  "status_of l = (case split_once 32 l of None \<Rightarrow> 0 | Some (_, r) \<Rightarrow> declared (take 3 r))"

definition fields_of :: "bstr list \<Rightarrow> (bstr \<times> bstr) list option" where
  "fields_of ls = those (map (\<lambda>l. map_option (\<lambda>(k, v). (k, trim_ows v)) (split_once 58 l)) ls)"

definition read_response :: "bool \<Rightarrow> bstr \<Rightarrow> (bstr \<times> (bstr \<times> bstr) list \<times> bstr \<times> bstr) option" where
  "read_response head_request bs =
     (case head_end first_index bs of
        None \<Rightarrow> None
      | Some e \<Rightarrow>
          (case split_crlf (take (e - 4) bs) of
             [] \<Rightarrow> None
           | l # ls \<Rightarrow>
               (case fields_of ls of
                  None \<Rightarrow> None
                | Some fs \<Rightarrow>
                    (case named ''content-length'' fs of
                       [(_, v)] \<Rightarrow>
                         let n = (if head_request \<or> forbids_body (of_nat (status_of l)) then 0 else declared v); t = drop e bs in
                         if length t < n then None else Some (l, fs, take n t, drop n t)
                     | _ \<Rightarrow> None))))"

definition wire_field :: "ustr \<times> ustr \<Rightarrow> bstr \<times> bstr" where
  "wire_field f = (utf8_bytes (fst f), trim_ows (utf8_bytes (snd f)))"

definition wire_fields :: "Response \<Rightarrow> HttpVersion \<Rightarrow> bool \<Rightarrow> (bstr \<times> bstr) list" where
  "wire_fields r ver keep_alive =
     map wire_field (filter (\<lambda>(k, _). \<not> owned k) (resp_headers r)) @
     (ascii ''Content-Length'', utf8_bytes (show_nat (if forbids_body (resp_status r) then 0 else length (resp_body r)))) #
     (if \<not> keep_alive then [(ascii ''Connection'', ascii ''close'')]
      else if ver = Http10 then [(ascii ''Connection'', ascii ''keep-alive'')] else [])"

lemma declared_show: "declared (utf8_bytes (show_nat n)) = n"
proof -
  have a: "ascii_only (show_nat n)" using plain_show_nat [of n] by (simp only: plain_text_def)
  have "map unat (map (of_nat :: nat \<Rightarrow> u8) s) = s" if "ascii_only s" for s
    using that by (induction s) (simp_all add: unat_of_nat)
  then show ?thesis using a by (simp add: declared_def utf8_of_ascii del: map_map)
qed

lemma fields_of_headers: "list_all header_ok hs \<Longrightarrow>
    fields_of (map (\<lambda>f. utf8_bytes (fst f @ [58, 32] @ snd f)) hs) = Some (map wire_field hs)"
proof (induction hs)
  case (Cons f hs)
  obtain k v where f: "f = (k, v)" by (cases f)
  have "trim_ows (32 # w) = trim_ows w" for w by (simp add: trim_ows_def ows_def)
  then show ?case using Cons header_ok_bytes [of k v] unfolding f
    by (simp add: fields_of_def utf8_field wire_field_def del: utf8_append append.simps)
qed (simp add: fields_of_def)


text \<open>Every line after the status line is a field.\<close>

definition all_headers :: "Response \<Rightarrow> HttpVersion \<Rightarrow> bool \<Rightarrow> (ustr \<times> ustr) list" where
  "all_headers r ver keep_alive =
     filter (\<lambda>(k, _). \<not> owned k) (resp_headers r) @
     (msg ''Content-Length'', show_nat (if forbids_body (resp_status r) then 0 else length (resp_body r))) #
     (if \<not> keep_alive then [(msg ''Connection'', msg ''close'')]
      else if ver = Http10 then [(msg ''Connection'', msg ''keep-alive'')] else [])"

lemma head_lines_fields: "head_lines r ver ka = status_line ver r # map (\<lambda>f. fst f @ [58, 32] @ snd f) (all_headers r ver ka)"
  by (auto simp: head_lines_def all_headers_def field_lines_def content_length_line_def connection_lines_def msg_def)

text \<open>Visible ASCII text is a value.\<close>

definition visible :: "ustr \<Rightarrow> bool" where
  "visible s \<longleftrightarrow> list_all (\<lambda>c. 32 \<le> c \<and> c < 127) s"

lemma visible_value: "visible s \<Longrightarrow> \<not> bad_value s"
proof -
  assume v: "visible s"
  then have "ascii_only s" by (auto simp: visible_def ascii_only_def list_all_iff)
  moreover have "\<not> has_control_bytes (map of_nat s)" using v
    by (induction s) (auto simp: visible_def has_control_bytes_def word_less_nat_alt word_unat_eq_iff unat_of_nat)
  moreover have "\<not> list_ex (\<lambda>c. is_control c \<and> c \<noteq> 9 \<or> c = 0x2028 \<or> c = 0x2029) s" using v
    by (induction s) (auto simp: visible_def is_control_def)
  ultimately show ?thesis by (simp add: bad_value_def utf8_of_ascii)
qed

lemma visible_digits: "list_all is_ascii_digit s \<Longrightarrow> visible s"
  by (auto simp: visible_def list_all_iff is_ascii_digit_def)

lemma visible_join: "visible sep \<Longrightarrow> list_all visible xs \<Longrightarrow> visible (join sep xs)"
  by (induction sep xs rule: join.induct) (auto simp: visible_def)

lemma digits_value_ok: "\<not> bad_value (show_nat n)"
  by (intro visible_value visible_digits show_nat_digits)

lemma header_ok_own:
  "header_ok (msg ''Content-Length'', show_nat n)" "header_ok (msg ''Connection'', msg ''close'')" "header_ok (msg ''Connection'', msg ''keep-alive'')"
  using digits_value_ok [of n]
  by (simp_all add: header_ok_def msg_def utf8_of_ascii is_valid_header_name_def token_byte_def is_alnum_def ascii_def)
    (simp_all add: bad_value_def utf8_of_ascii has_control_bytes_def is_control_def)

lemma all_headers_ok: "sendable r \<Longrightarrow> list_all header_ok (all_headers r ver ka)"
  by (auto simp: all_headers_def sendable_def header_ok_own list_all_iff)

lemma trim_digits: "trim_ows (utf8_bytes (show_nat n)) = utf8_bytes (show_nat n)"
proof -
  have a: "ascii_only (show_nat n)" using plain_show_nat [of n] by (simp only: plain_text_def)
  have "\<not> ows (of_nat c)" if "c \<in> set (show_nat n)" for c
  proof -
    have "48 \<le> c" "c \<le> 57" using that show_nat_digits [of n] by (auto simp: list_all_iff is_ascii_digit_def)
    then show ?thesis by (auto simp: ows_def word_unat_eq_iff unat_of_nat)
  qed
  then show ?thesis by (intro trim_id_iff) (simp add: utf8_of_ascii a hd_map last_map)
qed

lemma wire_fields_all: "map wire_field (all_headers r ver ka) = wire_fields r ver ka"
  by (simp add: all_headers_def wire_fields_def wire_field_def trim_digits)
    (simp add: msg_def ascii_def utf8_of_ascii trim_ows_def ows_def)

lemma named_wire: "sendable r \<Longrightarrow>
    named ''content-length'' (wire_fields r ver ka) =
      [(ascii ''Content-Length'', utf8_bytes (show_nat (if forbids_body (resp_status r) then 0 else length (resp_body r))))]"
proof -
  assume r: "sendable r"
  have nm: "ascii_only (msg ''content-length'')" "utf8_bytes (msg ''content-length'') = ascii ''content-length''"
    by (simp_all add: msg_def ascii_def utf8_of_ascii)
  have "named ''content-length'' (map wire_field (filter (\<lambda>(k, _). \<not> owned k) hs)) = []" if "list_all header_ok hs" for hs
    using that
  proof (induction hs)
    case (Cons f hs)
    obtain k v where f: "f = (k, v)" by (cases f)
    have "ascii_only k" using Cons.prems header_ok_bytes(5) [of k v] by (simp add: f)
    then have "Methods.eq_ignore_ascii_case (utf8_bytes k) (ascii ''content-length'') \<longleftrightarrow> Errors.eq_ignore_ascii_case k (msg ''content-length'')"
      using case_bytes [of k "msg ''content-length''"] nm by simp
    then show ?case using Cons by (auto simp: f named_def wire_field_def owned_def)
  qed (simp add: named_def)
  then show ?thesis using r
    by (simp add: sendable_def wire_fields_def named_def) (simp add: Methods.eq_ignore_ascii_case_def ascii_def lower_def)
qed


lemma status_of_line:
  assumes "sendable r"
  shows "status_of (utf8_bytes (status_line ver r)) = unat (resp_status r)"
proof -
  let ?n = "unat (resp_status r)"
  have n: "100 \<le> ?n" "?n < 1000" using assms by (auto simp: sendable_def word_le_nat_alt)
  then have "10 \<le> ?n div 10" "?n div 10 div 10 < 10" by auto
  then have len: "length (show_nat ?n) = 3" using n
    by (simp add: show_nat.simps [of ?n] show_nat.simps [of "?n div 10"] show_nat.simps [of "?n div 10 div 10"])
  have a: "ascii_only (show_nat ?n)" using plain_show_nat [of ?n] by (simp only: plain_text_def)
  have "utf8_bytes (map unat (version_as_str ver)) = version_as_str ver" "32 \<notin> set (version_as_str ver)"
    by (cases ver; simp add: ascii_def utf8_of_ascii)+
  then have "split_once 32 (utf8_bytes (status_line ver r)) = Some (version_as_str ver, utf8_bytes (show_nat ?n) @ 32 # utf8_bytes (reason_phrase (resp_status r)))"
    by (simp add: status_line_def utf8_cons)
  then show ?thesis using len a declared_show [of ?n] by (simp add: status_of_def utf8_of_ascii)
qed

lemma read_lines:
  assumes "plain_text l" "l \<noteq> []" "list_all header_ok hs"
    and "named ''content-length'' (map wire_field hs) = [(k, utf8_bytes (show_nat n))]"
  shows "read_response hr (head_bytes (map utf8_bytes (l # map (\<lambda>f. fst f @ [58, 32] @ snd f) hs)) @ t) =
    (let m = (if hr \<or> forbids_body (of_nat (status_of (utf8_bytes l))) then 0 else n) in
     if length t < m then None else Some (utf8_bytes l, map wire_field hs, take m t, drop m t))"
proof -
  let ?ls = "map (\<lambda>f. utf8_bytes (fst f @ [58, 32] @ snd f)) hs"
  have "plain_line (utf8_bytes (a @ [58, 32] @ b))" if "(a, b) \<in> set hs" for a b
    unfolding utf8_field using header_ok_bytes [of a b] assms(3) that by (auto simp: plain_line_def list_all_iff)
  then have "list_all plain_line ?ls" by (auto simp: list_all_iff simp del: utf8_append append.simps)
  then have plain: "list_all plain_line (utf8_bytes l # ?ls)" using plain_line_text [OF assms(1,2)] by simp
  have lines: "map utf8_bytes (l # map (\<lambda>f. fst f @ [58, 32] @ snd f) hs) = utf8_bytes l # ?ls" by (simp only: list.map map_map o_def)
  show ?thesis
    unfolding lines using head_end_lines [OF plain, of t] fields_of_headers [OF assms(3)] assms(4)
    by (simp add: read_response_def declared_show Let_def)
qed

lemma read_head:
  "read_response hr (write_response_head dbg r ver ka @ t) =
     (let e = emitted dbg r; n = (if hr \<or> forbids_body (resp_status e) then 0 else length (resp_body e)) in
      if length t < n then None else Some (utf8_bytes (status_line ver e), wire_fields e ver ka, take n t, drop n t))"
proof -
  let ?e = "emitted dbg r"
  have e: "sendable ?e" by (rule sendable_emitted)
  have "named ''content-length'' (map wire_field (all_headers ?e ver ka)) =
      [(ascii ''Content-Length'', utf8_bytes (show_nat (if forbids_body (resp_status ?e) then 0 else length (resp_body ?e))))]"
    using named_wire [OF e, of ver ka] by (simp only: wire_fields_all)
  from read_lines [OF plain_status_line [of ver ?e] own_lines_nonempty(1) all_headers_ok [OF e] this, of hr t] show ?thesis
    unfolding write_response_head_lines head_lines_fields wire_fields_all using status_of_line [OF e, of ver] by (simp add: Let_def)
qed

text \<open>C15. What is sent is what the client reads: a response that passes the check at the point of emission, written with its
  version, its keep-alive decision and the request method, is read back as exactly its status line, its own fields with the
  length and the connection option of the writer, and its body, and the reading stops where the next response begins.\<close>

theorem response_roundtrip:
  assumes "validate_outbound dbg r umax = Inr ()"
  shows "read_response hr (write_response dbg r ver ka hr @ rest) =
    Some (utf8_bytes (status_line ver r), wire_fields r ver ka, response_body_for_wire r hr, rest)"
proof -
  have "sendable r" using assms by (simp add: validate_iff)
  then have "emitted dbg r = r" by (rule emitted_sendable)
  then show ?thesis by (simp add: write_response_def read_head response_body_for_wire_def)
qed

text \<open>C22. No response splits the connection: whatever the headers hold, the first blank line of what is written is the end of the head,
  and its lines are the status line, the fields of the emitted response and the two lines of the writer, each without a
  carriage return.\<close>

theorem response_never_splits:
  "head_end first_index (write_response dbg r ver ka hr @ rest) = Some (length (write_response_head dbg r ver ka)) \<and>
   split_crlf (take (length (write_response_head dbg r ver ka) - 4) (write_response dbg r ver ka hr)) =
     map utf8_bytes (head_lines (emitted dbg r) ver ka) \<and>
   list_all (\<lambda>l. 13 \<notin> set l) (map utf8_bytes (head_lines (emitted dbg r) ver ka))"
proof -
  let ?e = "emitted dbg r"
  obtain l ls where l: "map utf8_bytes (head_lines ?e ver ka) = l # ls" by (simp add: head_lines_def)
  then have plain: "list_all plain_line (l # ls)" using response_lines_plain [OF sendable_emitted, of dbg r ver ka] by simp
  have h: "write_response_head dbg r ver ka = head_bytes (l # ls)" by (simp only: write_response_head_lines l)
  have "list_all (\<lambda>l. 13 \<notin> set l) (l # ls)" using plain by (auto simp: plain_line_def list_all_iff)
  then show ?thesis using head_end_lines [OF plain] unfolding l h write_response_def h append_assoc by blast
qed

text \<open>C23. A refused response desynchronises the connection: the head of the replacement is followed by the body of the refused
  response. The client takes as many bytes as the replacement would have, so the end of a longer body is read as the next
  response, and after a shorter one the client waits for bytes that never come.\<close>

theorem refused_response_desyncs:
  assumes "validate_outbound dbg r umax = Inl e" "\<not> forbids_body (resp_status r)"
  shows "read_response False (write_response dbg r ver ka False @ rest) =
    (let n = length (resp_body (replacement e)); t = resp_body r @ rest in
     if length t < n then None
     else Some (utf8_bytes (status_line ver (replacement e)), wire_fields (replacement e) ver ka, take n t, drop n t))"
proof -
  have "\<not> forbids_body (resp_status (replacement e))" by (simp add: replacement_def response_text_def set_header_def forbids_body_def)
  then show ?thesis using assms by (simp add: write_response_def read_head emitted_refused response_body_for_wire_def Let_def)
qed


section \<open>Responses the host builds\<close>

lemma sendable_set:
  assumes "sendable r" "header_ok (k, v)"
  shows "sendable (set_header k v r)"
proof -
  have "list_all header_ok hs \<Longrightarrow> list_all header_ok (set_in k v hs)" for hs
    using assms(2) by (induction k v hs rule: set_in.induct) (auto simp: header_ok_def)
  then show ?thesis using assms(1) by (simp add: sendable_def set_header_def)
qed

lemma own_names:
  "is_valid_header_name (utf8_bytes (msg ''X-QQQ-Error''))" "is_valid_header_name (utf8_bytes (msg ''Allow''))"
  "is_valid_header_name (utf8_bytes (msg ''Retry-After''))"
  by (simp_all add: msg_def utf8_of_ascii is_valid_header_name_def token_byte_def is_alnum_def ascii_def)

lemma retry_after_digits: "visible (retry_after_value s err)"
  by (auto simp: retry_after_value_def visible_def is_ascii_digit_def list_all_iff split: option.splits)

lemma failure_status_final: "200 \<le> failure_status f \<and> failure_status f \<le> 599"
  by (cases f) simp_all

lemma visible_method: "visible (map unat (method_as_str m))"
  by (cases m) (simp_all add: visible_def ascii_def)

text \<open>C24. Every response the host builds itself can be sent: not found, an unknown host whatever its name, a failed handler, a
  wrong method, every error of the host however it is classified, a malformed request, and the replacement of a refused
  response all pass the check at the point of emission.\<close>

theorem host_responses_sendable:
  "validate_outbound dbg not_found umax = Inr () \<and> validate_outbound dbg (misdirected hst) umax = Inr () \<and>
   validate_outbound dbg handler_panicked umax = Inr () \<and> validate_outbound dbg (method_not_allowed ms) umax = Inr () \<and>
   validate_outbound dbg (from_error (error_response err soft_fuel)) umax = Inr () \<and>
   validate_outbound dbg (from_error (parse_error_response detail)) umax = Inr () \<and>
   validate_outbound dbg (replacement refusal) umax = Inr ()"
proof -
  have v: "header_ok (k, v)" if "is_valid_header_name (utf8_bytes k)" "visible v" for k v
    using that visible_value by (simp add: header_ok_def)
  have m: "visible (join (msg '', '') (map (\<lambda>m. map unat (method_as_str m)) ms))"
    by (rule visible_join) (simp_all add: visible_def msg_def list_all_iff visible_method [unfolded visible_def list_all_iff])
  have t: "sendable (response_text (failure_status f) b)" for f b using failure_status_final [of f] by (simp add: sendable_text)
  have "visible (msg ''tenant-unknown-host'')" "visible (msg ''handler-panicked'')" by (simp_all add: visible_def msg_def)
  then have "sendable not_found" "sendable (misdirected hst)" "sendable handler_panicked" "sendable (method_not_allowed ms)"
      "sendable (from_error (error_response err soft_fuel))" "sendable (from_error (parse_error_response detail))" "sendable (replacement refusal)"
    by (simp_all add: not_found_def misdirected_def handler_panicked_def method_not_allowed_def from_error_def error_response_def
        parse_error_response_def replacement_def sendable_set sendable_text v own_names m t retry_after_digits Let_def)
  then show ?thesis by (simp add: validate_iff)
qed

section \<open>Examples\<close>

definition hello :: Response where
  "hello = set_header (msg ''X-Id'') (lit ''7'') (response_text 200 (lit ''hi''))"

lemma hello_sendable: "validate_outbound dbg hello umax = Inr ()"
proof -
  have "header_ok (msg ''X-Id'', lit ''7'')"
    by (simp add: header_ok_def visible_value visible_def)
      (simp add: msg_def utf8_of_ascii is_valid_header_name_def token_byte_def is_alnum_def ascii_def)
  then show ?thesis by (simp add: validate_iff hello_def sendable_set sendable_text)
qed

theorem response_roundtrip_witness:
  "validate_outbound (\<lambda>s. s) hello umax = Inr () \<and>
   read_response False (write_response (\<lambda>s. s) hello Http11 False False @ ascii ''HTTP'') =
     Some (ascii ''HTTP/1.1 200 OK'',
       [(ascii ''Content-Type'', ascii ''text/plain; charset=utf-8''), (ascii ''X-Id'', ascii ''7''), (ascii ''Content-Length'', ascii ''2''),
        (ascii ''Connection'', ascii ''close'')], ascii ''hi'', ascii ''HTTP'')"
proof -
  have "utf8_bytes (status_line Http11 hello) = ascii ''HTTP/1.1 200 OK''"
    by (simp add: hello_def response_text_def set_header_def status_line_def reason_phrase_def show_nat.simps utf8_of_ascii msg_def ascii_def)
  moreover have "wire_fields hello Http11 False =
      [(ascii ''Content-Type'', ascii ''text/plain; charset=utf-8''), (ascii ''X-Id'', ascii ''7''), (ascii ''Content-Length'', ascii ''2''),
        (ascii ''Connection'', ascii ''close'')]"
    by (simp add: hello_def response_text_def set_header_def wire_fields_def wire_field_def owned_def Errors.eq_ignore_ascii_case_def
        to_ascii_lowercase_def forbids_body_def show_nat.simps utf8_of_ascii msg_def ascii_def trim_ows_def ows_def)
  moreover have "response_body_for_wire hello False = ascii ''hi''"
    by (simp add: hello_def response_text_def set_header_def response_body_for_wire_def forbids_body_def utf8_of_ascii ascii_def)
  ultimately show ?thesis using response_roundtrip [OF hello_sendable, of False "\<lambda>s. s" Http11 False "ascii ''HTTP''"] hello_sendable by simp
qed

text \<open>A handler answers 600 with a long body that ends in the bytes of another response.\<close>

definition refused_example :: "u8 list \<Rightarrow> Response" where
  "refused_example smuggled = \<lparr>resp_status = 600, resp_headers = [], resp_body = replicate 88 46 @ smuggled\<rparr>"

theorem refused_response_desyncs_witness:
  "\<exists>e. validate_outbound (\<lambda>s. s) (refused_example (ascii ''HTTP/1.1 200 OK'')) umax = Inl e \<and>
     (\<exists>l fs b. read_response False (write_response (\<lambda>s. s) (refused_example (ascii ''HTTP/1.1 200 OK'')) Http11 True False) =
        Some (l, fs, b, ascii ''HTTP/1.1 200 OK''))"
proof -
  let ?r = "refused_example (ascii ''HTTP/1.1 200 OK'')"
  let ?d = "msg ''status '' @ lit ''600'' @ msg '' has no meaning as a final response (200-599 only)''"
  have v: "validate_outbound (\<lambda>s. s) ?r umax = Inl (OutboundRefusal ?d)"
    by (simp add: validate_outbound_def refused_example_def show_nat.simps)
  have n: "length (resp_body (replacement (OutboundRefusal ?d))) = 88"
    by (simp add: replacement_def response_text_def set_header_def utf8_of_ascii msg_def)
  have "\<not> forbids_body (resp_status ?r)" by (simp add: refused_example_def forbids_body_def)
  from refused_response_desyncs [OF v this, of Http11 True "[]"] show ?thesis
    using v n by (simp add: refused_example_def ascii_def)
qed

end
