(* ===== verification/Streams.thy ===== *)
theory Streams
  imports Responses
begin

text \<open>
  Streaming a body (\<open>qqq-serve/src/stream.rs\<close>): the writer a streaming handler holds. The socket and the channel to hyper are
  parameters, a record of their operations; each returns the state after it and whether it succeeded. What \<open>write_all\<close>,
  \<open>flush\<close> and \<open>shutdown\<close> promise is the locale \<open>byte_sink\<close>.
\<close>

section \<open>The writer\<close>

record ('io, 'ch) transport =
  write_all :: "'io \<Rightarrow> u8 list \<Rightarrow> 'io \<times> bool"
  flush :: "'io \<Rightarrow> 'io \<times> bool"
  shutdown :: "'io \<Rightarrow> 'io"
  send :: "'ch \<Rightarrow> u8 list \<Rightarrow> 'ch \<times> bool"

datatype StreamOutcome = Completed | ClientClosed | HandlerFailed

fun stream_outcome_as_str :: "StreamOutcome \<Rightarrow> ustr" where
  "stream_outcome_as_str Completed = msg ''completed''"
| "stream_outcome_as_str ClientClosed = msg ''client_closed''"
| "stream_outcome_as_str HandlerFailed = msg ''handler_failed''"

datatype IoError = InvalidInput string | BrokenPipe string | TransportFailed

datatype ('io, 'ch) Sink = Socket 'io HttpVersion | Channel "'ch option"

record ('io, 'ch) StreamWriter =
  sink :: "('io, 'ch) Sink"
  sw_finished :: bool
  sw_written :: u64

definition STREAM_CHANNEL_PIECES :: nat where
  "STREAM_CHANNEL_PIECES = 16"

definition STREAM_MAX_PIECE_BYTES :: nat where
  "STREAM_MAX_PIECE_BYTES = 2 ^ 20"

definition stream_begin :: "('io, 'ch) transport \<Rightarrow> (ustr \<Rightarrow> ustr) \<Rightarrow> 'io \<Rightarrow> Response \<Rightarrow> HttpVersion \<Rightarrow> 'io \<times> (IoError + ('io, 'ch) StreamWriter)" where
  "stream_begin t dbg io r ver =
     (case write_all t io (write_stream_head dbg r ver False) of
        (io, False) \<Rightarrow> (io, Inl TransportFailed)
      | (io, True) \<Rightarrow>
          (case flush t io of
             (io, False) \<Rightarrow> (io, Inl TransportFailed)
           | (io, True) \<Rightarrow> (io, Inr \<lparr>sink = Socket io ver, sw_finished = False, sw_written = 0\<rparr>)))"

text \<open>\<open>StreamWriter::channel\<close>, given the sending half of a new channel.\<close>

definition stream_channel :: "'ch \<Rightarrow> ('io, 'ch) StreamWriter" where
  "stream_channel tx = \<lparr>sink = Channel (Some tx), sw_finished = False, sw_written = 0\<rparr>"

definition stream_write :: "('io, 'ch) transport \<Rightarrow> ('io, 'ch) StreamWriter \<Rightarrow> u8 list \<Rightarrow> ('io, 'ch) StreamWriter \<times> (IoError + unit)" where
  "stream_write t w piece =
     (if sw_finished w then (w, Inl (InvalidInput ''write after finish: the body was already terminated''))
      else if STREAM_MAX_PIECE_BYTES < length piece then (w, Inl (InvalidInput ''streaming piece exceeds the per-piece budget''))
      else if piece = [] then (w, Inr ())
      else
        let wrote = (\<lambda>s. (w\<lparr>sink := s, sw_written := sw_written w + of_nat (length piece)\<rparr>, Inr ())) in
        case sink w of
          Socket io ver \<Rightarrow>
            (case write_all t io (if ver = Http11 then write_chunk piece else piece) of
               (io, False) \<Rightarrow> (w\<lparr>sink := Socket io ver\<rparr>, Inl TransportFailed)
             | (io, True) \<Rightarrow> wrote (Socket io ver))
        | Channel None \<Rightarrow> (w, Inl (BrokenPipe ''the response body is gone''))
        | Channel (Some tx) \<Rightarrow>
            (case send t tx piece of
               (tx, False) \<Rightarrow> (w\<lparr>sink := Channel (Some tx)\<rparr>, Inl (BrokenPipe ''the response body is gone''))
             | (tx, True) \<Rightarrow> wrote (Channel (Some tx))))"

definition write_now :: "('io, 'ch) transport \<Rightarrow> ('io, 'ch) StreamWriter \<Rightarrow> u8 list \<Rightarrow> ('io, 'ch) StreamWriter \<times> (IoError + unit)" where
  "write_now t w piece =
     (if piece = [] then (w, Inr ())
      else case stream_write t w piece of
        (w, Inl e) \<Rightarrow> (w, Inl e)
      | (w, Inr _) \<Rightarrow>
          (case sink w of
             Socket io ver \<Rightarrow> (case flush t io of (io, ok) \<Rightarrow> (w\<lparr>sink := Socket io ver\<rparr>, if ok then Inr () else Inl TransportFailed))
           | Channel _ \<Rightarrow> (w, Inr ())))"

definition stream_finish :: "('io, 'ch) transport \<Rightarrow> ('io, 'ch) StreamWriter \<Rightarrow> ('io, 'ch) StreamWriter \<times> (IoError + unit)" where
  "stream_finish t w =
     (if sw_finished w then (w, Inr ())
      else case sink w of
        Channel tx \<Rightarrow> (w\<lparr>sink := Channel None, sw_finished := True\<rparr>, Inr ())
      | Socket io ver \<Rightarrow>
          (case (if ver = Http11 then write_all t io write_last_chunk else (io, True)) of
             (io, False) \<Rightarrow> (w\<lparr>sink := Socket io ver\<rparr>, Inl TransportFailed)
           | (io, True) \<Rightarrow>
               (case flush t io of
                  (io, False) \<Rightarrow> (w\<lparr>sink := Socket io ver\<rparr>, Inl TransportFailed)
                | (io, True) \<Rightarrow> (w\<lparr>sink := Socket (if ver \<noteq> Http11 then shutdown t io else io) ver, sw_finished := True\<rparr>, Inr ()))))"

section \<open>Chunks read back\<close>

lemma show_hex_step: "show_hex n = (if n < 16 then [] else show_hex (n div 16)) @ [if n mod 16 < 10 then 48 + n mod 16 else 87 + n mod 16]"
  by (subst show_hex.simps) (auto simp: Let_def)

lemma hex_digit_byte:
  assumes "k < 16"
  shows "is_hexdigit (of_nat (if k < 10 then 48 + k else 87 + k))" "hex_val (of_nat (if k < 10 then 48 + k else 87 + k)) = k"
  using assms by (auto simp: is_hexdigit_def hex_val_def word_le_nat_alt unat_of_nat)

lemma show_hex_bytes: "ascii_only (show_hex n) \<and> list_all is_hexdigit (map of_nat (show_hex n)) \<and> hex_number (map of_nat (show_hex n)) = n"
proof (induction n rule: less_induct)
  case (less n)
  have d: "is_hexdigit (of_nat (if n mod 16 < 10 then 48 + n mod 16 else 87 + n mod 16))"
      "hex_val (of_nat (if n mod 16 < 10 then 48 + n mod 16 else 87 + n mod 16)) = n mod 16"
    using hex_digit_byte [of "n mod 16"] by simp_all
  have a: "(if n mod 16 < 10 then 48 + n mod 16 else 87 + n mod 16) < 128" using mod_less_divisor [of 16 n] by auto
  show ?case
  proof (cases "n < 16")
    case True
    then show ?thesis using d a by (subst (1 2 3) show_hex_step) (simp add: hex_number_def)
  next
    case False
    then have "n div 16 < n" by simp
    from less [OF this] show ?thesis using d a False by (subst (1 2 3) show_hex_step) (simp add: hex_number_def)
  qed
qed

lemma length_show_hex: "n < 16 ^ Suc k \<Longrightarrow> length (show_hex n) \<le> Suc k"
proof (induction k arbitrary: n)
  case 0
  then show ?case by (subst show_hex_step) simp
next
  case (Suc k)
  then have "n div 16 < 16 ^ Suc k" by auto
  from Suc.IH [OF this] show ?case by (subst show_hex_step) simp
qed

lemma hexdigit_plain: "is_hexdigit b \<Longrightarrow> b \<noteq> 10 \<and> b \<noteq> 59 \<and> \<not> blank b \<and> b < 128"
  by (auto simp: is_hexdigit_def blank_def word_le_nat_alt word_less_nat_alt word_unat_eq_iff)

lemma size_line:
  assumes "0 < n" "n < 2 ^ 64"
  defines "l \<equiv> utf8_bytes (show_hex n)"
  shows "line_ok l" "parse_chunk_size l = Inr (of_nat n)"
proof -
  have l: "l = map of_nat (show_hex n)" "list_all is_hexdigit l" "hex_number l = n"
    using show_hex_bytes [of n] by (simp_all add: l_def utf8_of_ascii)
  have ne: "l \<noteq> []" unfolding l(1) by (subst show_hex_step) simp
  have "length l \<le> 16" using length_show_hex [of n 15] assms(2) l(1) by simp
  moreover have "list_all is_scalar (show_hex n)" using show_hex_bytes [of n] by (auto simp: ascii_only_def list_all_iff is_scalar_def)
  then have "from_utf8_ok l" by (simp add: l_def)
  moreover have p: "\<And>b. b \<in> set l \<Longrightarrow> b \<noteq> 10 \<and> b \<noteq> 59 \<and> \<not> blank b" using l(2) hexdigit_plain by (auto simp: list_all_iff)
  ultimately show "line_ok l" by (auto simp: line_ok_def MAX_CHUNK_SIZE_LINE_def)
  have "takeWhile (\<lambda>c. c \<noteq> 59) l = l" using p by (simp add: takeWhile_eq_all_conv)
  moreover have "dropWhile blank l = l" "dropWhile blank (rev l) = rev l"
    using p ne by (simp_all add: dropWhile_eq_self_iff hd_rev)
  ultimately have "size_digits l = l" by (simp only: size_digits_def rev_rev_ident)
  then show "parse_chunk_size l = Inr (of_nat n)" using ne l assms(2) by (simp add: parse_chunk_size_def)
qed

definition frame :: "HttpVersion \<Rightarrow> u8 list \<Rightarrow> u8 list" where
  "frame ver piece = (if ver = Http11 then write_chunk piece else piece)"

lemma frame_http11: "frame Http11 = write_chunk"
  by (simp add: fun_eq_iff frame_def)

lemma write_chunk_text: "p \<noteq> [] \<Longrightarrow> write_chunk p = chunk_text (utf8_bytes (show_hex (length p)), p)"
  by (simp add: write_chunk_def chunk_text_def utf8_ln)

lemma chunks_text: "concat (map write_chunk ps) = concat (map chunk_text (map (\<lambda>p. (utf8_bytes (show_hex (length p)), p)) (filter (\<lambda>p. p \<noteq> []) ps)))"
  by (induction ps) (simp_all add: write_chunk_text, simp add: write_chunk_def)

lemma concat_filter_nonempty: "concat (filter (\<lambda>p. p \<noteq> []) ps) = concat ps"
  by (induction ps) auto

lemma chunks_read_back:
  assumes "list_all (\<lambda>p. length p < 2 ^ 64) ps"
  shows "chunked_body (length (concat ps) + 2) 0 (concat (map write_chunk ps) @ write_last_chunk @ rest) = Some (concat ps, rest)"
proof -
  let ?cs = "map (\<lambda>p. (utf8_bytes (show_hex (length p)), p)) (filter (\<lambda>p. p \<noteq> []) ps)"
  have "chunk_ok (utf8_bytes (show_hex (length p)), p)" if "p \<noteq> []" "length p < 2 ^ 64" for p
    using size_line [of "length p"] that by (auto simp: chunk_ok_def unat_of_nat)
  then have "list_all chunk_ok ?cs" using assms by (auto simp: list_all_iff)
  moreover have d: "concat (map snd ?cs) = concat ps" by (simp add: o_def concat_filter_nonempty)
  moreover have "parse_chunk_size (ascii ''0'') = Inr 0" "line_ok (ascii ''0'')"
    by (simp_all add: parse_chunk_size_def size_digits_def blank_def is_hexdigit_def hex_number_def hex_val_def ascii_def line_ok_def
        MAX_CHUNK_SIZE_LINE_def from_utf8_ok_def)
  ultimately have "chunked_body (length (concat ps) + 2) 0 (chunked_text ?cs (ascii ''0'') [] @ rest) = Some (concat ps, rest)"
    using chunked_complete [of "ascii ''0''" "[]" ?cs "length (concat ps) + 2" rest] by (simp add: trailer_text_def)
  moreover have "chunked_text ?cs (ascii ''0'') [] = concat (map write_chunk ps) @ write_last_chunk"
    by (simp add: chunked_text_def chunks_text write_last_chunk_def trailer_text_def)
  ultimately show ?thesis by simp
qed


section \<open>The transport\<close>

text \<open>
  What the socket promises: a successful \<open>write_all\<close> has taken every byte in order, a failed one some of the first ones; \<open>flush\<close>
  and \<open>shutdown\<close> add nothing. \<open>sent\<close> is what the peer has been or will be sent.
\<close>

lemma take_whole: "\<exists>k. xs = take k xs"
  by (rule exI [of _ "length xs"]) simp

lemma take_into: "\<exists>j. a @ take k b = take j (a @ b @ c)"
  by (rule exI [of _ "length a + min k (length b)"]) (auto simp: min_def)

locale byte_sink =
  fixes t :: "('io, 'ch) transport" and sent :: "'io \<Rightarrow> u8 list"
  assumes write_law: "\<exists>k. sent (fst (write_all t io bs)) = sent io @ take k bs \<and> (snd (write_all t io bs) \<longrightarrow> length bs \<le> k)"
    and flush_law: "sent (fst (flush t io)) = sent io"
    and shutdown_law: "sent (shutdown t io) = sent io"
begin

lemma write_cases:
  obtains io' where "write_all t io bs = (io', True)" "sent io' = sent io @ bs"
    | io' k where "write_all t io bs = (io', False)" "sent io' = sent io @ take k bs"
  using write_law [of io bs] by (cases "write_all t io bs"; cases "snd (write_all t io bs)") auto

lemma flush_cases:
  obtains io' ok where "flush t io = (io', ok)" "sent io' = sent io"
  using flush_law [of io] by (cases "flush t io") auto

lemma begin_sent:
  assumes "stream_begin t dbg io r ver = (io', x)"
  shows "case x of Inl _ \<Rightarrow> \<exists>k. sent io' = sent io @ take k (write_stream_head dbg r ver False)
    | Inr w \<Rightarrow> w = \<lparr>sink = Socket io' ver, sw_finished = False, sw_written = 0\<rparr> \<and> sent io' = sent io @ write_stream_head dbg r ver False"
proof -
  let ?h = "write_stream_head dbg r ver False"
  show ?thesis
  proof (rule write_cases [of io ?h])
    fix i k assume "write_all t io ?h = (i, False)" "sent i = sent io @ take k ?h"
    then show ?thesis using assms by (auto simp: stream_begin_def)
  next
    fix i assume w: "write_all t io ?h = (i, True)" "sent i = sent io @ ?h"
    obtain j ok where "flush t i = (j, ok)" "sent j = sent i" by (rule flush_cases)
    then show ?thesis using w assms by (cases ok) (auto simp: stream_begin_def intro: take_whole)
  qed
qed

lemma write_sent:
  assumes "sink w = Socket io ver" "\<not> sw_finished w" "length piece \<le> STREAM_MAX_PIECE_BYTES" "stream_write t w piece = (w', x)"
  shows "\<exists>io'. sink w' = Socket io' ver \<and> \<not> sw_finished w' \<and>
    (case x of Inl _ \<Rightarrow> \<exists>k. sent io' = sent io @ take k (frame ver piece)
     | Inr _ \<Rightarrow> sent io' = sent io @ frame ver piece \<and> sw_written w' = sw_written w + of_nat (length piece))"
proof (cases "piece = []")
  case True
  then show ?thesis using assms by (auto simp: stream_write_def frame_def write_chunk_def)
next
  case False
  show ?thesis
    by (rule write_cases [of io "frame ver piece"])
      (use assms False in \<open>auto simp: stream_write_def frame_def Let_def not_less\<close>)
qed

lemma finish_sent:
  assumes "sink w = Socket io ver" "\<not> sw_finished w" "stream_finish t w = (w', x)"
  defines "e \<equiv> if ver = Http11 then write_last_chunk else []"
  shows "\<exists>io'. sink w' = Socket io' ver \<and> sw_written w' = sw_written w \<and>
    (case x of Inl _ \<Rightarrow> \<not> sw_finished w' \<and> (\<exists>k. sent io' = sent io @ take k e) | Inr _ \<Rightarrow> sw_finished w' \<and> sent io' = sent io @ e)"
proof (cases "ver = Http11")
  case True
  show ?thesis
  proof (rule write_cases [of io write_last_chunk])
    fix i assume w: "write_all t io write_last_chunk = (i, True)" "sent i = sent io @ write_last_chunk"
    obtain j ok where "flush t i = (j, ok)" "sent j = sent i" by (rule flush_cases)
    then show ?thesis using w assms True by (cases ok) (auto simp: stream_finish_def intro: take_whole)
  qed (use assms True in \<open>auto simp: stream_finish_def\<close>)
next
  case False
  obtain j ok where "flush t io = (j, ok)" "sent j = sent io" by (rule flush_cases)
  then show ?thesis using assms False by (cases ok) (auto simp: stream_finish_def shutdown_law)
qed

end

section \<open>A whole stream\<close>

text \<open>A handler that writes the pieces and stops at the first error, between \<open>begin\<close> and \<open>finish\<close>; the socket at the end and the outcome.\<close>

fun write_pieces :: "('io, 'ch) transport \<Rightarrow> ('io, 'ch) StreamWriter \<Rightarrow> u8 list list \<Rightarrow> ('io, 'ch) StreamWriter \<times> (IoError + unit)" where
  "write_pieces t w [] = (w, Inr ())"
| "write_pieces t w (p # ps) = (case stream_write t w p of (w, Inl e) \<Rightarrow> (w, Inl e) | (w, Inr _) \<Rightarrow> write_pieces t w ps)"

definition stream_all :: "('io, 'ch) transport \<Rightarrow> (ustr \<Rightarrow> ustr) \<Rightarrow> 'io \<Rightarrow> Response \<Rightarrow> HttpVersion \<Rightarrow> u8 list list \<Rightarrow>
    'io \<times> (IoError + u64)" where
  "stream_all t dbg io r ver ps =
     (case stream_begin t dbg io r ver of
        (io, Inl e) \<Rightarrow> (io, Inl e)
      | (io, Inr w) \<Rightarrow>
          (case (case write_pieces t w ps of (w, Inl e) \<Rightarrow> (w, Inl e) | (w, Inr _) \<Rightarrow> stream_finish t w) of
             (w, x) \<Rightarrow> (case sink w of Socket io _ \<Rightarrow> io | Channel _ \<Rightarrow> io, case x of Inl e \<Rightarrow> Inl e | Inr _ \<Rightarrow> Inr (sw_written w))))"

definition stream_text :: "(ustr \<Rightarrow> ustr) \<Rightarrow> Response \<Rightarrow> HttpVersion \<Rightarrow> u8 list list \<Rightarrow> u8 list" where
  "stream_text dbg r ver ps =
     write_stream_head dbg r ver False @ concat (map (frame ver) ps) @ (if ver = Http11 then write_last_chunk else [])"

context byte_sink begin

lemma pieces_sent:
  "sink w = Socket io ver \<Longrightarrow> \<not> sw_finished w \<Longrightarrow> list_all (\<lambda>p. length p \<le> STREAM_MAX_PIECE_BYTES) ps \<Longrightarrow>
   write_pieces t w ps = (w', x) \<Longrightarrow>
   \<exists>io'. sink w' = Socket io' ver \<and> \<not> sw_finished w' \<and>
    (case x of Inl _ \<Rightarrow> \<exists>k. sent io' = sent io @ take k (concat (map (frame ver) ps))
     | Inr _ \<Rightarrow> sent io' = sent io @ concat (map (frame ver) ps) \<and> sw_written w' = sw_written w + of_nat (length (concat ps)))"
proof (induction ps arbitrary: w io)
  case (Cons p ps)
  obtain w1 y where s: "stream_write t w p = (w1, y)" by (cases "stream_write t w p")
  obtain i where i: "sink w1 = Socket i ver" "\<not> sw_finished w1"
      "case y of Inl _ \<Rightarrow> \<exists>k. sent i = sent io @ take k (frame ver p)
       | Inr _ \<Rightarrow> sent i = sent io @ frame ver p \<and> sw_written w1 = sw_written w + of_nat (length p)"
    using write_sent [OF Cons.prems(1,2) _ s] Cons.prems(3) by auto
  show ?case
  proof (cases y)
    case (Inl e)
    then obtain k where k: "sent i = sent io @ take k (frame ver p)" using i(3) by auto
    obtain j where "take k (frame ver p) = take j (concat (map (frame ver) (p # ps)))"
      using take_into [of "[]" k "frame ver p" "concat (map (frame ver) ps)"] by auto
    then have "\<exists>j. sent i = sent io @ take j (concat (map (frame ver) (p # ps)))" using k by metis
    then show ?thesis using i(1,2) Inl s Cons.prems(4) by auto
  next
    case (Inr u)
    then have n: "write_pieces t w1 ps = (w', x)" using Cons.prems(4) s by simp
    obtain j where j: "sink w' = Socket j ver" "\<not> sw_finished w'"
        "case x of Inl _ \<Rightarrow> \<exists>k. sent j = sent i @ take k (concat (map (frame ver) ps))
         | Inr _ \<Rightarrow> sent j = sent i @ concat (map (frame ver) ps) \<and> sw_written w' = sw_written w1 + of_nat (length (concat ps))"
      using Cons.IH [OF i(1,2) _ n] Cons.prems(3) by auto
    show ?thesis
    proof (cases x)
      case (Inl e)
      then obtain k where k: "sent j = sent i @ take k (concat (map (frame ver) ps))" using j(3) by auto
      obtain m where "frame ver p @ take k (concat (map (frame ver) ps)) = take m (concat (map (frame ver) (p # ps)))"
        using take_into [of "frame ver p" k "concat (map (frame ver) ps)" "[]"] by auto
      then have "\<exists>m. sent j = sent io @ take m (concat (map (frame ver) (p # ps)))" using k i(3) \<open>y = Inr u\<close> by auto
      then show ?thesis using j(1,2) Inl by auto
    next
      case (Inr v)
      then show ?thesis using i(3) j \<open>y = Inr u\<close> by (auto simp: add.assoc)
    qed
  qed
qed auto

lemma stream_all_sent:
  assumes "list_all (\<lambda>p. length p \<le> STREAM_MAX_PIECE_BYTES) ps" "stream_all t dbg io r ver ps = (io', x)"
  shows "case x of Inl _ \<Rightarrow> \<exists>k. sent io' = sent io @ take k (stream_text dbg r ver ps)
    | Inr n \<Rightarrow> sent io' = sent io @ stream_text dbg r ver ps \<and> n = of_nat (length (concat ps))"
proof -
  let ?h = "write_stream_head dbg r ver False" and ?c = "concat (map (frame ver) ps)" and ?e = "if ver = Http11 then write_last_chunk else []"
  obtain i1 y1 where b: "stream_begin t dbg io r ver = (i1, y1)" by (cases "stream_begin t dbg io r ver")
  note b' = begin_sent [OF b]
  show ?thesis
  proof (cases y1)
    case (Inl e)
    then obtain k where "sent i1 = sent io @ take k ?h" using b' by auto
    then have "\<exists>k. sent i1 = sent io @ take k (stream_text dbg r ver ps)"
      using take_into [of "[]" k ?h "?c @ ?e"] by (auto simp: stream_text_def)
    then show ?thesis using assms(2) b Inl by (auto simp: stream_all_def)
  next
    case (Inr w)
    then have w: "sink w = Socket i1 ver" "\<not> sw_finished w" "sw_written w = 0" "sent i1 = sent io @ ?h" using b' by auto
    obtain w2 y2 where p: "write_pieces t w ps = (w2, y2)" by (cases "write_pieces t w ps")
    from pieces_sent [OF w(1,2) assms(1) p] obtain i2 where i2: "sink w2 = Socket i2 ver" "\<not> sw_finished w2"
        "case y2 of Inl _ \<Rightarrow> \<exists>k. sent i2 = sent i1 @ take k ?c | Inr _ \<Rightarrow> sent i2 = sent i1 @ ?c \<and> sw_written w2 = sw_written w + of_nat (length (concat ps))"
      by blast
    show ?thesis
    proof (cases y2)
      case (Inl e)
      then obtain k where "sent i2 = sent io @ ?h @ take k ?c" using i2(3) w(4) by auto
      then have "\<exists>k. sent i2 = sent io @ take k (stream_text dbg r ver ps)"
        using take_into [of ?h k ?c ?e] by (auto simp: stream_text_def)
      then show ?thesis using assms(2) b p i2(1) \<open>y1 = Inr w\<close> Inl by (auto simp: stream_all_def)
    next
      case (Inr u)
      obtain w3 y3 where f: "stream_finish t w2 = (w3, y3)" by (cases "stream_finish t w2")
      from finish_sent [OF i2(1,2) f] obtain i3 where i3: "sink w3 = Socket i3 ver" "sw_written w3 = sw_written w2"
          "case y3 of Inl _ \<Rightarrow> \<exists>k. sent i3 = sent i2 @ take k ?e | Inr _ \<Rightarrow> sent i3 = sent i2 @ ?e"
        by (cases y3) auto
      have s: "sent i2 = sent io @ ?h @ ?c" using i2(3) w(4) Inr by auto
      have "case y3 of Inl _ \<Rightarrow> \<exists>k. sent i3 = sent io @ take k (stream_text dbg r ver ps) | Inr _ \<Rightarrow> sent i3 = sent io @ stream_text dbg r ver ps"
        using i3(3) s take_into [of "?h @ ?c" _ ?e "[]"] by (auto simp: stream_text_def split: sum.splits)
      then show ?thesis using assms(2) b p i2 i3(1,2) w(3) f \<open>y1 = Inr w\<close> Inr by (auto simp: stream_all_def split: sum.splits)
    qed
  qed
qed

end

text \<open>A transport on which nothing fails.\<close>

locale open_sink = byte_sink t sent for t :: "('io, 'ch) transport" and sent +
  assumes accepts: "snd (write_all t io bs)" "snd (flush t io)"
begin

lemma accepted: "\<exists>io'. write_all t io bs = (io', True)" "\<exists>io'. flush t io = (io', True)"
  using accepts by (metis prod.collapse)+

lemma write_succeeds:
  assumes "sink w = Socket io ver" "\<not> sw_finished w" "length p \<le> STREAM_MAX_PIECE_BYTES"
  shows "\<exists>w' io'. stream_write t w p = (w', Inr ()) \<and> sink w' = Socket io' ver \<and> \<not> sw_finished w'"
  using assms accepted(1) [of io "if ver = Http11 then write_chunk p else p"] by (auto simp: stream_write_def Let_def)

lemma pieces_succeed: "sink w = Socket io ver \<Longrightarrow> \<not> sw_finished w \<Longrightarrow> list_all (\<lambda>p. length p \<le> STREAM_MAX_PIECE_BYTES) ps \<Longrightarrow>
    \<exists>w' io'. write_pieces t w ps = (w', Inr ()) \<and> sink w' = Socket io' ver \<and> \<not> sw_finished w'"
proof (induction ps arbitrary: w io)
  case (Cons p ps)
  have "length p \<le> STREAM_MAX_PIECE_BYTES" using Cons.prems(3) by simp
  from write_succeeds [OF Cons.prems(1,2) this]
  obtain w' i where "stream_write t w p = (w', Inr ())" "sink w' = Socket i ver" "\<not> sw_finished w'" by auto
  then show ?case using Cons.IH [of w' i] Cons.prems(3) by simp
qed simp

lemma finish_succeeds: "sink w = Socket io ver \<Longrightarrow> \<exists>w'. stream_finish t w = (w', Inr ())"
proof -
  assume w: "sink w = Socket io ver"
  obtain i1 where "(if ver = Http11 then write_all t io write_last_chunk else (io, True)) = (i1, True)"
    using accepted(1) [of io write_last_chunk] by (cases "ver = Http11") auto
  moreover obtain i2 where "flush t i1 = (i2, True)" using accepted(2) by blast
  ultimately show ?thesis using w by (simp add: stream_finish_def)
qed

lemma stream_succeeds:
  assumes "list_all (\<lambda>p. length p \<le> STREAM_MAX_PIECE_BYTES) ps"
  shows "\<exists>io' n. stream_all t dbg io r ver ps = (io', Inr n)"
proof -
  obtain i where "stream_begin t dbg io r ver = (i, Inr \<lparr>sink = Socket i ver, sw_finished = False, sw_written = 0\<rparr>)"
  proof -
    obtain i1 where i1: "write_all t io (write_stream_head dbg r ver False) = (i1, True)" using accepted(1) by blast
    obtain i2 where "flush t i1 = (i2, True)" using accepted(2) by blast
    then show thesis using i1 that [of i2] by (simp add: stream_begin_def)
  qed
  moreover obtain w' i' where "write_pieces t \<lparr>sink = Socket i ver, sw_finished = False, sw_written = 0\<rparr> ps = (w', Inr ())" "sink w' = Socket i' ver"
    using pieces_succeed [of "\<lparr>sink = Socket i ver, sw_finished = False, sw_written = 0\<rparr>" i ver ps] assms by auto
  moreover obtain w3 where "stream_finish t w' = (w3, Inr ())" using finish_succeeds calculation(3) by blast
  ultimately show ?thesis by (simp add: stream_all_def)
qed

end

section \<open>Stream heads\<close>

definition stream_lines :: "Response \<Rightarrow> HttpVersion \<Rightarrow> bool \<Rightarrow> ustr list" where
  "stream_lines r ver keep_alive =
     status_line ver r # field_lines r @
     (if forbids_body (resp_status r) then [content_length_line 0] else if ver = Http10 then [] else [msg ''Transfer-Encoding: chunked'']) @
     (if \<not> keep_alive \<or> ver = Http10 then [msg ''Connection: close''] else [])"

lemma write_stream_head_lines: "write_stream_head dbg r ver ka = head_bytes (map utf8_bytes (stream_lines (emitted dbg r) ver ka))"
proof -
  have "write_stream_head dbg r ver ka = utf8_bytes (concat (map ln (stream_lines (emitted dbg r) ver ka)) @ [13, 10])"
    by (cases ver) (simp_all add: write_stream_head_def stream_lines_def Let_def)
  also have "\<dots> = head_bytes (map utf8_bytes (stream_lines (emitted dbg r) ver ka))"
    by (rule utf8_lines) (simp add: stream_lines_def)
  finally show ?thesis .
qed

lemma stream_lines_plain: "sendable r \<Longrightarrow> list_all plain_line (map utf8_bytes (stream_lines r ver ka))"
proof -
  assume r: "sendable r"
  have "plain_line (utf8_bytes (msg ''Transfer-Encoding: chunked''))" "plain_line (utf8_bytes (msg ''Connection: close''))"
    by (rule plain_line_text; simp add: msg_def)+
  then show ?thesis using r field_lines_plain [of r]
    by (auto simp: stream_lines_def sendable_def plain_line_text plain_status_line plain_own_lines own_lines_nonempty list_all_iff)
qed

lemma stream_head_end: "head_end first_index (write_stream_head dbg r ver ka @ rest) = Some (length (write_stream_head dbg r ver ka))"
proof -
  obtain l ls where l: "map utf8_bytes (stream_lines (emitted dbg r) ver ka) = l # ls" by (simp add: stream_lines_def)
  then have "list_all plain_line (l # ls)" using stream_lines_plain [OF sendable_emitted, of dbg r ver ka] by simp
  from head_end_lines(1) [OF this] show ?thesis by (simp only: write_stream_head_lines l)
qed


section \<open>How a client reads a stream\<close>

text \<open>
  The reference: the head as for any response; no body follows a status that forbids one; otherwise the head must frame the
  body by the chunked coding and nothing else, and the body is what the chunks hold, up to the client's limit. The result is
  the status line, the fields, the body and what is left for the next response.
\<close>

definition read_streamed :: "nat \<Rightarrow> bstr \<Rightarrow> (bstr \<times> (bstr \<times> bstr) list \<times> bstr \<times> bstr) option" where
  "read_streamed lim bs =
     (case head_end first_index bs of
        None \<Rightarrow> None
      | Some e \<Rightarrow>
          (case split_crlf (take (e - 4) bs) of
             [] \<Rightarrow> None
           | l # ls \<Rightarrow>
               (case fields_of ls of
                  None \<Rightarrow> None
                | Some fs \<Rightarrow>
                    if forbids_body (of_nat (status_of l)) then Some (l, fs, [], drop e bs)
                    else if named ''content-length'' fs = [] \<and> map snd (named ''transfer-encoding'' fs) = [ascii ''chunked'']
                    then map_option (\<lambda>(body, rest). (l, fs, body, rest)) (chunked_body lim 0 (drop e bs))
                    else None)))"

definition stream_headers :: "Response \<Rightarrow> (ustr \<times> ustr) list" where
  "stream_headers r =
     filter (\<lambda>(k, _). \<not> owned k) (resp_headers r) @
     [(msg ''Transfer-Encoding'', msg ''chunked''), (msg ''Connection'', msg ''close'')]"

lemma stream_lines_fields:
  "\<not> forbids_body (resp_status r) \<Longrightarrow>
     stream_lines r Http11 False = status_line Http11 r # map (\<lambda>f. fst f @ [58, 32] @ snd f) (stream_headers r)"
  by (auto simp: stream_lines_def stream_headers_def field_lines_def msg_def)

lemma stream_headers_ok: "sendable r \<Longrightarrow> list_all header_ok (stream_headers r)"
proof -
  have "header_ok (msg ''Transfer-Encoding'', msg ''chunked'')"
    by (simp add: header_ok_def msg_def utf8_of_ascii is_valid_header_name_def token_byte_def is_alnum_def ascii_def)
      (simp add: bad_value_def utf8_of_ascii has_control_bytes_def is_control_def)
  then show "sendable r \<Longrightarrow> ?thesis"
    by (auto simp: stream_headers_def sendable_def header_ok_own list_all_iff)
qed

lemma named_not_owned:
  assumes "owned (msg nm)" "\<And>k. Errors.eq_ignore_ascii_case k (msg nm) \<Longrightarrow> owned k" "ascii_only (msg nm)" "list_all header_ok hs"
  shows "named nm (map wire_field (filter (\<lambda>(k, _). \<not> owned k) hs)) = []"
  using assms(4)
proof (induction hs)
  case (Cons f hs)
  obtain k v where f: "f = (k, v)" by (cases f)
  have nm: "utf8_bytes (msg nm) = ascii nm" using assms(3) by (simp add: msg_def ascii_def utf8_of_ascii)
  have "ascii_only k" using Cons.prems header_ok_bytes(5) [of k v] by (simp add: f)
  then have "Methods.eq_ignore_ascii_case (utf8_bytes k) (ascii nm) \<longleftrightarrow> Errors.eq_ignore_ascii_case k (msg nm)"
    using case_bytes [of k "msg nm"] nm assms(3) by simp
  then show ?case using Cons assms(2) by (auto simp: f named_def wire_field_def)
qed (simp add: named_def)

lemma named_stream:
  assumes "sendable r"
  shows "named ''content-length'' (map wire_field (stream_headers r)) = []"
    and "map snd (named ''transfer-encoding'' (map wire_field (stream_headers r))) = [ascii ''chunked'']"
proof -
  have hs: "list_all header_ok (resp_headers r)" using assms by (simp add: sendable_def)
  have own: "owned (msg ''content-length'')" "owned (msg ''transfer-encoding'')"
      "ascii_only (msg ''content-length'')" "ascii_only (msg ''transfer-encoding'')"
    by (simp_all add: owned_def Errors.eq_ignore_ascii_case_def msg_def)
  have none: "named ''content-length'' (map wire_field (filter (\<lambda>(k, _). \<not> owned k) (resp_headers r))) = []"
      "named ''transfer-encoding'' (map wire_field (filter (\<lambda>(k, _). \<not> owned k) (resp_headers r))) = []"
    by (intro named_not_owned own hs; simp add: owned_def msg_def)+
  have wire: "wire_field (msg ''Transfer-Encoding'', msg ''chunked'') = (ascii ''Transfer-Encoding'', ascii ''chunked'')"
      "wire_field (msg ''Connection'', msg ''close'') = (ascii ''Connection'', ascii ''close'')"
    by (simp_all add: wire_field_def msg_def ascii_def utf8_of_ascii trim_ows_def ows_def)
  have split: "named nm (xs @ ys) = named nm xs @ named nm ys" for nm xs ys by (simp add: named_def)
  have tail: "named ''content-length'' [(ascii ''Transfer-Encoding'', ascii ''chunked''), (ascii ''Connection'', ascii ''close'')] = []"
      "named ''transfer-encoding'' [(ascii ''Transfer-Encoding'', ascii ''chunked''), (ascii ''Connection'', ascii ''close'')] =
         [(ascii ''Transfer-Encoding'', ascii ''chunked'')]"
    by (simp_all add: named_def Methods.eq_ignore_ascii_case_def ascii_def lower_def)
  show "named ''content-length'' (map wire_field (stream_headers r)) = []"
      "map snd (named ''transfer-encoding'' (map wire_field (stream_headers r))) = [ascii ''chunked'']"
    by (simp_all add: stream_headers_def split none wire tail)
qed

lemma read_stream_head:
  assumes "\<not> forbids_body (resp_status (emitted dbg r))"
  shows "read_streamed lim (write_stream_head dbg r Http11 False @ t) =
    map_option (\<lambda>(body, rest). (utf8_bytes (status_line Http11 (emitted dbg r)), map wire_field (stream_headers (emitted dbg r)), body, rest))
      (chunked_body lim 0 t)"
proof -
  let ?e = "emitted dbg r"
  let ?ls = "map (\<lambda>f. utf8_bytes (fst f @ [58, 32] @ snd f)) (stream_headers ?e)"
  have e: "sendable ?e" by (rule sendable_emitted)
  have lines: "map utf8_bytes (stream_lines ?e Http11 False) = utf8_bytes (status_line Http11 ?e) # ?ls"
    using stream_lines_fields [OF assms] by (simp only: list.map map_map o_def)
  have "list_all plain_line (utf8_bytes (status_line Http11 ?e) # ?ls)" using stream_lines_plain [OF e, of Http11 False] by (simp only: lines)
  from head_end_lines [OF this, of t] fields_of_headers [OF stream_headers_ok [OF e]] named_stream [OF e] assms status_of_line [OF e, of Http11]
  show ?thesis unfolding write_stream_head_lines lines by (simp add: read_streamed_def)
qed

section \<open>Streams on the wire\<close>

text \<open>C17. A streamed body arrives as it was written. For every status that allows a body and whatever the socket does, what
  is on the wire is a beginning of the response with its head and its framed pieces; and when the stream completes, an
  HTTP/1.1 client that goes by the head alone finds it framed by the chunked coding and nothing else, reads the status line
  and the fields of the emitted response, decodes exactly the pieces put together, and stops behind the terminator, where the
  next response begins. The count for the log is the length of the body.\<close>

theorem streamed_body_roundtrip:
  assumes "byte_sink t sent" "list_all (\<lambda>p. length p \<le> STREAM_MAX_PIECE_BYTES) ps" "stream_all t dbg io r Http11 ps = (io', x)"
    and "\<not> forbids_body (resp_status (emitted dbg r))"
  shows "case x of
      Inl _ \<Rightarrow> \<exists>k. sent io' = sent io @ take k (stream_text dbg r Http11 ps)
    | Inr n \<Rightarrow> \<exists>wire. sent io' = sent io @ wire \<and>
        read_streamed (length (concat ps) + 2) (wire @ rest) =
          Some (utf8_bytes (status_line Http11 (emitted dbg r)), map wire_field (stream_headers (emitted dbg r)), concat ps, rest) \<and>
        n = of_nat (length (concat ps))"
proof -
  note s = byte_sink.stream_all_sent [OF assms(1-3)]
  have "list_all (\<lambda>p. length p < 2 ^ 64) ps" using assms(2) by (auto simp: list_all_iff STREAM_MAX_PIECE_BYTES_def)
  from chunks_read_back [OF this, of rest]
  have b: "chunked_body (length (concat ps) + 2) 0 ((concat (map write_chunk ps) @ write_last_chunk) @ rest) = Some (concat ps, rest)" by simp
  have t: "stream_text dbg r Http11 ps = write_stream_head dbg r Http11 False @ concat (map write_chunk ps) @ write_last_chunk"
    by (simp add: stream_text_def frame_http11)
  have read: "read_streamed (length (concat ps) + 2) (stream_text dbg r Http11 ps @ rest) =
      Some (utf8_bytes (status_line Http11 (emitted dbg r)), map wire_field (stream_headers (emitted dbg r)), concat ps, rest)"
    using read_stream_head [OF assms(4), of "length (concat ps) + 2" "(concat (map write_chunk ps) @ write_last_chunk) @ rest"] b
    by (simp only: t append_assoc) simp
  show ?thesis
  proof (cases x)
    case (Inr n)
    then have "sent io' = sent io @ stream_text dbg r Http11 ps" "n = of_nat (length (concat ps))"
      using s by simp_all
    then show ?thesis using Inr read by auto
  qed (use s in auto)
qed

text \<open>A socket with room for a number of bytes, after which it fails.\<close>

definition bounded_socket :: "(u8 list \<times> nat, 'ch) transport" where
  "bounded_socket =
     \<lparr>write_all = (\<lambda>(out, room) bs. ((out @ take room bs, room - length bs), length bs \<le> room)),
      flush = (\<lambda>s. (s, True)), shutdown = (\<lambda>s. s), send = (\<lambda>ch _. (ch, False))\<rparr>"

interpretation bounded: byte_sink bounded_socket fst
proof
  fix io :: "u8 list \<times> nat" and bs
  show "\<exists>k. fst (fst (write_all bounded_socket io bs)) = fst io @ take k bs \<and> (snd (write_all bounded_socket io bs) \<longrightarrow> length bs \<le> k)"
    by (cases io) (auto simp: bounded_socket_def)
qed (simp_all add: bounded_socket_def)

text \<open>A socket that takes everything.\<close>

definition open_socket :: "(u8 list, 'ch) transport" where
  "open_socket = \<lparr>write_all = (\<lambda>out bs. (out @ bs, True)), flush = (\<lambda>s. (s, True)), shutdown = (\<lambda>s. s), send = (\<lambda>ch _. (ch, False))\<rparr>"

interpretation opened: open_sink open_socket "\<lambda>s. s"
proof
  fix io bs
  show "\<exists>k. fst (write_all open_socket io bs) = io @ take k bs \<and> (snd (write_all open_socket io bs) \<longrightarrow> length bs \<le> k)"
    by (rule exI [of _ "length bs"]) (simp add: open_socket_def)
qed (simp_all add: open_socket_def)

lemma open_stream_completes: "list_all (\<lambda>p. length p \<le> STREAM_MAX_PIECE_BYTES) ps \<Longrightarrow>
    \<exists>n. stream_all (open_socket :: (u8 list, 'ch) transport) dbg io r ver ps = (io @ stream_text dbg r ver ps, Inr n)"
proof -
  assume ps: "list_all (\<lambda>p. length p \<le> STREAM_MAX_PIECE_BYTES) ps"
  obtain io' n where "stream_all (open_socket :: (u8 list, 'ch) transport) dbg io r ver ps = (io', Inr n)"
    using opened.stream_succeeds [OF ps] by blast
  then show ?thesis using opened.stream_all_sent [OF ps, where 'a = 'ch] by fastforce
qed

theorem streamed_body_roundtrip_witness:
  "\<exists>n out. stream_all (open_socket :: (_, unit) transport) (\<lambda>s. s) [] hello Http11 [ascii ''ab'', [], ascii ''c''] = (out, Inr n) \<and>
     (\<exists>l fs. read_streamed 5 (out @ ascii ''x'') = Some (l, fs, ascii ''abc'', ascii ''x''))"
proof -
  let ?ps = "[ascii ''ab'', [], ascii ''c'']" and ?t = "open_socket :: (_, unit) transport"
  have ps: "list_all (\<lambda>p. length p \<le> STREAM_MAX_PIECE_BYTES) ?ps" by (simp add: STREAM_MAX_PIECE_BYTES_def ascii_def)
  obtain n where e: "stream_all ?t (\<lambda>s. s) [] hello Http11 ?ps = ([] @ stream_text (\<lambda>s. s) hello Http11 ?ps, Inr n)"
    using open_stream_completes [OF ps] by blast
  have "emitted (\<lambda>s. s) hello = hello" using hello_sendable by (simp add: emitted_sendable validate_iff)
  then have ok: "\<not> forbids_body (resp_status (emitted (\<lambda>s. s) hello))"
    by (simp add: hello_def response_text_def set_header_def forbids_body_def)
  have c: "concat ?ps = ascii ''abc''" "length (ascii ''abc'') + 2 = 5" by (simp_all add: ascii_def)
  have "\<exists>l fs. read_streamed 5 (stream_text (\<lambda>s. s) hello Http11 ?ps @ ascii ''x'') = Some (l, fs, ascii ''abc'', ascii ''x'')"
    using streamed_body_roundtrip [OF opened.byte_sink_axioms ps e ok, of "ascii ''x''"] unfolding c by auto
  then show ?thesis using e by auto
qed

text \<open>A stream that was refused a body by its status still ends in a chunk: the head says \<open>Content-Length: 0\<close> and five bytes follow.\<close>

lemma empty_stream_after_204:
  "\<exists>n. stream_all open_socket dbg [] (response_status 204) Http11 [] =
     (head_bytes (map utf8_bytes [status_line Http11 (response_status 204), content_length_line 0, msg ''Connection: close'']) @ write_last_chunk, Inr n)"
proof -
  have "sendable (response_status 204)" by (simp add: sendable_def response_status_def)
  then have "write_stream_head dbg (response_status 204) Http11 False =
      head_bytes (map utf8_bytes [status_line Http11 (response_status 204), content_length_line 0, msg ''Connection: close''])"
    unfolding write_stream_head_lines by (simp add: emitted_sendable stream_lines_def field_lines_def response_status_def forbids_body_def)
  then show ?thesis using open_stream_completes [of "[]" dbg "[]" "response_status 204" Http11] by (simp add: stream_text_def)
qed

text \<open>A finished writer stays finished: nothing more reaches the wire.\<close>

lemma finished_is_final: "sw_finished w \<Longrightarrow> stream_finish t w = (w, Inr ()) \<and> fst (stream_write t w p) = w \<and> fst (write_now t w p) = w"
  by (auto simp: stream_finish_def stream_write_def write_now_def)

end
