(* ===== verification/Sse.thy ===== *)
theory Sse
  imports Responses
begin

text \<open>
  Server-sent events (\<open>qqq-serve/src/sse.rs\<close>): the event, its encoding and the resumption header. The reference it is
  checked against is the client of the specification: lines end at CRLF, LF or CR, a blank line dispatches.
\<close>

section \<open>Events\<close>

definition CONTENT_TYPE :: ustr where
  "CONTENT_TYPE = msg ''text/event-stream''"

definition sse_headers :: "(ustr \<times> ustr) list" where
  "sse_headers = [(msg ''Content-Type'', CONTENT_TYPE), (msg ''Cache-Control'', msg ''no-store''), (msg ''X-Accel-Buffering'', msg ''no'')]"

record Event =
  ev_event :: "ustr option"
  ev_data :: ustr
  ev_id :: "ustr option"
  ev_retry :: "u64 option"
  ev_comment :: "ustr option"

definition event_data :: "ustr \<Rightarrow> Event" where
  "event_data d = \<lparr>ev_event = None, ev_data = d, ev_id = None, ev_retry = None, ev_comment = None\<rparr>"

definition event_named :: "ustr \<Rightarrow> ustr \<Rightarrow> Event" where
  "event_named n d = (event_data d)\<lparr>ev_event := Some n\<rparr>"

definition keep_alive_event :: "ustr \<Rightarrow> Event" where
  "keep_alive_event txt = (event_data [])\<lparr>ev_comment := Some txt\<rparr>"

definition with_event :: "ustr \<Rightarrow> Event \<Rightarrow> Event" where
  "with_event n e = e\<lparr>ev_event := Some n\<rparr>"

definition with_id :: "ustr \<Rightarrow> Event \<Rightarrow> Event" where
  "with_id i e = e\<lparr>ev_id := Some i\<rparr>"

definition with_retry :: "u64 \<Rightarrow> Event \<Rightarrow> Event" where
  "with_retry ms e = e\<lparr>ev_retry := Some ms\<rparr>"

definition fold_newlines :: "ustr \<Rightarrow> ustr" where
  "fold_newlines s = (if \<not> (10 \<in> set s \<or> 13 \<in> set s) then s else map (\<lambda>c. if c = 10 \<or> c = 13 then 32 else c) s)"

text \<open>The text after a line feed that belongs to the carriage return before it.\<close>

definition skip_lf :: "ustr \<Rightarrow> ustr" where
  "skip_lf s = (case s of c # r \<Rightarrow> if c = 10 then r else s | [] \<Rightarrow> [])"

lemma skip_lf_length: "length (skip_lf s) \<le> length s"
  by (cases s) (simp_all add: skip_lf_def)

function split_lines :: "ustr \<Rightarrow> ustr list" where
  "split_lines [] = [[]]"
| "split_lines (c # s) =
     (if c = 10 then [] # split_lines s
      else if c = 13 then [] # split_lines (skip_lf s)
      else case split_lines s of [] \<Rightarrow> [[c]] | l # ls \<Rightarrow> (c # l) # ls)"
  by pat_completeness auto
termination
  by (relation "measure length") (auto simp: le_imp_less_Suc skip_lf_length)

definition escape_leading_space :: "ustr \<Rightarrow> ustr" where
  "escape_leading_space l = (case l of c # _ \<Rightarrow> if c = 32 then 32 # l else l | [] \<Rightarrow> l)"

definition comment_only :: "Event \<Rightarrow> bool" where
  "comment_only e \<longleftrightarrow> ev_comment e \<noteq> None \<and> ev_event e = None \<and> ev_id e = None \<and> ev_retry e = None \<and> ev_data e = []"

text \<open>The text \<open>encode\<close> builds, line by line, with the blank line at its end; \<open>writeln!\<close> ends a line with LF.\<close>

definition event_lines :: "Event \<Rightarrow> ustr list" where
  "event_lines e =
     (case ev_comment e of Some c \<Rightarrow> [lit '':'' @ fold_newlines c] | None \<Rightarrow> []) @
     (case ev_event e of Some n \<Rightarrow> [lit ''event:'' @ fold_newlines n] | None \<Rightarrow> []) @
     (case ev_id e of Some i \<Rightarrow> if 0 \<notin> set i then [lit ''id:'' @ fold_newlines i] else [] | None \<Rightarrow> []) @
     (case ev_retry e of Some ms \<Rightarrow> [lit ''retry:'' @ show_nat (unat ms)] | None \<Rightarrow> []) @
     (if comment_only e then [] else map (\<lambda>l. lit ''data:'' @ escape_leading_space l) (split_lines (ev_data e))) @ [[]]"

definition event_text :: "Event \<Rightarrow> ustr" where
  "event_text e = concat (map (\<lambda>l. l @ [10]) (event_lines e))"

definition event_encode :: "Event \<Rightarrow> u8 list" where
  "event_encode e = utf8_bytes (event_text e)"

definition last_event_id :: "(ustr \<times> ustr) list \<Rightarrow> ustr option" where
  "last_event_id hs =
     (case map_option snd (find (\<lambda>(k, _). Errors.eq_ignore_ascii_case k (msg ''Last-Event-ID'')) hs) of
        Some v \<Rightarrow> if v \<noteq> [] then Some v else None
      | None \<Rightarrow> None)"

section \<open>The client\<close>

text \<open>
  The state of the specification's parser: the data and event type buffers, the last event identifier, the reconnection
  time; and the messages dispatched so far, each with its type, its data and the identifier.
\<close>

record client =
  c_data :: ustr
  c_type :: ustr
  c_id :: ustr
  c_retry :: "nat option"
  c_out :: "(ustr \<times> ustr \<times> ustr) list"

definition one_space :: "ustr \<Rightarrow> ustr" where
  "one_space v = (case v of c # r \<Rightarrow> if c = 32 then r else v | [] \<Rightarrow> [])"

definition client_field :: "ustr \<Rightarrow> ustr \<Rightarrow> client \<Rightarrow> client" where
  "client_field f v st =
     (if f = lit ''event'' then st\<lparr>c_type := v\<rparr>
      else if f = lit ''data'' then st\<lparr>c_data := c_data st @ v @ [10]\<rparr>
      else if f = lit ''id'' then (if 0 \<in> set v then st else st\<lparr>c_id := v\<rparr>)
      else if f = lit ''retry'' then (if list_all is_ascii_digit v then st\<lparr>c_retry := Some (digits_val v)\<rparr> else st)
      else st)"

definition client_dispatch :: "client \<Rightarrow> client" where
  "client_dispatch st =
     (if c_data st = [] then st\<lparr>c_data := [], c_type := []\<rparr>
      else st\<lparr>c_data := [], c_type := [], c_out := c_out st @ [(c_type st, butlast (c_data st), c_id st)]\<rparr>)"

definition client_line :: "client \<Rightarrow> ustr \<Rightarrow> client" where
  "client_line st l =
     (if l = [] then client_dispatch st
      else if hd l = 58 then st
      else if 58 \<in> set l then client_field (takeWhile (\<lambda>c. c \<noteq> 58) l) (one_space (tl (dropWhile (\<lambda>c. c \<noteq> 58) l))) st
      else client_field l [] st)"

text \<open>
  The client takes its lines off the text one character at a time, a CR with the LF behind it as one line end. What is
  after the last line end is an incomplete line, which is not processed.
\<close>

fun complete_lines :: "ustr \<Rightarrow> ustr \<Rightarrow> ustr list" where
  "complete_lines cur [] = []"
| "complete_lines cur [c] = (if c = 10 \<or> c = 13 then [cur] else [])"
| "complete_lines cur (c # d # s) =
     (if c = 13 \<and> d = 10 then cur # complete_lines [] s
      else if c = 10 \<or> c = 13 then cur # complete_lines [] (d # s)
      else complete_lines (cur @ [c]) (d # s))"

definition client_read :: "client \<Rightarrow> ustr \<Rightarrow> client" where
  "client_read st txt = foldl client_line st (complete_lines [] txt)"

section \<open>Lines\<close>

definition unbroken :: "ustr \<Rightarrow> bool" where
  "unbroken l \<longleftrightarrow> 10 \<notin> set l \<and> 13 \<notin> set l"

lemma unbroken_simps [simp]: "unbroken []" "unbroken (c # l) \<longleftrightarrow> c \<noteq> 10 \<and> c \<noteq> 13 \<and> unbroken l" "unbroken (l @ m) \<longleftrightarrow> unbroken l \<and> unbroken m"
  by (auto simp: unbroken_def)

lemma unbroken_fold: "unbroken (fold_newlines s)"
  by (auto simp: fold_newlines_def unbroken_def)

lemma fold_unbroken: "unbroken s \<Longrightarrow> fold_newlines s = s"
  by (simp add: fold_newlines_def unbroken_def)

lemma split_lines_nonempty [simp]: "split_lines s \<noteq> []"
  by (cases s) (auto split: list.splits)

lemma split_lines_unbroken: "l \<in> set (split_lines s) \<Longrightarrow> unbroken l"
  by (induction s arbitrary: l rule: split_lines.induct) (auto split: if_splits list.splits)

lemma split_lines_one: "unbroken l \<Longrightarrow> split_lines l = [l]"
  by (induction l) auto

lemma split_lines_append: "unbroken l \<Longrightarrow> split_lines (l @ 10 # s) = l # split_lines s"
  by (induction l) auto

lemma split_lines_concat: "list_all unbroken ls \<Longrightarrow> split_lines (concat (map (\<lambda>l. l @ [10]) ls) @ s) = ls @ split_lines s"
  by (induction ls) (simp_all add: split_lines_append)

lemma complete_line: "unbroken l \<Longrightarrow> complete_lines p (l @ 10 # s) = (p @ l) # complete_lines [] s"
proof (induction l arbitrary: p)
  case Nil
  then show ?case by (cases s) simp_all
next
  case (Cons c l)
  obtain d r where d: "l @ 10 # s = d # r" by (cases l) auto
  then show ?case using Cons.IH [of "p @ [c]"] Cons.prems by simp
qed

lemma complete_lines_concat: "list_all unbroken ls \<Longrightarrow> complete_lines [] (concat (map (\<lambda>l. l @ [10]) ls) @ s) = ls @ complete_lines [] s"
  by (induction ls) (simp_all add: complete_line)

lemma unbroken_show_nat: "unbroken (show_nat n)"
  using show_nat_digits [of n] by (auto simp: unbroken_def list_all_iff is_ascii_digit_def)

lemma unbroken_escape: "unbroken l \<Longrightarrow> unbroken (escape_leading_space l)"
  by (cases l) (auto simp: escape_leading_space_def)

lemma event_lines_unbroken: "list_all unbroken (event_lines e)"
  using split_lines_unbroken [of _ "ev_data e"]
  by (auto simp: event_lines_def unbroken_fold unbroken_show_nat unbroken_escape list_all_iff split: option.splits)

lemma one_space_escape: "one_space (escape_leading_space l) = l"
  by (cases l) (auto simp: one_space_def escape_leading_space_def)

section \<open>Events read back\<close>

lemma line_field: "58 \<notin> set f \<Longrightarrow> f \<noteq> [] \<Longrightarrow> client_line st (f @ 58 # v) = client_field f (one_space v) st"
proof -
  assume f: "58 \<notin> set f" "f \<noteq> []"
  then have "takeWhile (\<lambda>c. c \<noteq> 58) (f @ 58 # v) = f" "dropWhile (\<lambda>c. c \<noteq> 58) (f @ 58 # v) = 58 # v"
    by (auto simp: takeWhile_append dropWhile_append)
  moreover have "hd (f @ 58 # v) \<noteq> 58" using f by (cases f) auto
  ultimately show ?thesis using f by (simp add: client_line_def)
qed

lemma client_lines:
  "client_line st (lit '':'' @ v) = st"
  "client_line st (lit ''event:'' @ v) = client_field (lit ''event'') (one_space v) st"
  "client_line st (lit ''id:'' @ v) = client_field (lit ''id'') (one_space v) st"
  "client_line st (lit ''retry:'' @ v) = client_field (lit ''retry'') (one_space v) st"
  "client_line st (lit ''data:'' @ v) = client_field (lit ''data'') (one_space v) st"
  using line_field [of "lit ''event''" st v] line_field [of "lit ''id''" st v] line_field [of "lit ''retry''" st v] line_field [of "lit ''data''" st v]
  by (simp_all add: client_line_def)

lemma data_lines: "foldl client_line st (map (\<lambda>l. lit ''data:'' @ escape_leading_space l) ls) =
    st\<lparr>c_data := c_data st @ concat (map (\<lambda>l. l @ [10]) ls)\<rparr>"
  by (induction ls arbitrary: st) (simp_all only: list.map foldl.simps client_lines one_space_escape, simp_all add: client_field_def)

text \<open>The payload with every line end, whether CRLF, LF or CR, written as LF.\<close>

fun normalised :: "ustr \<Rightarrow> ustr" where
  "normalised [] = []"
| "normalised [c] = [if c = 13 then 10 else c]"
| "normalised (c # d # s) =
     (if c = 13 \<and> d = 10 then 10 # normalised s else (if c = 13 then 10 else c) # normalised (d # s))"

lemma join_cons: "ls \<noteq> [] \<Longrightarrow> join sep (l # ls) = l @ sep @ join sep ls"
  by (cases ls) simp_all

lemma join_hd: "ls \<noteq> [] \<Longrightarrow> join sep ((c # hd ls) # tl ls) = c # join sep ls"
  by (cases ls; cases "tl ls") simp_all

lemma normalised_lines: "normalised s = join [10] (split_lines s)"
proof (induction s rule: normalised.induct)
  case (3 c d s)
  show ?case
  proof (cases "c = 10 \<or> c = 13")
    case True
    then show ?thesis using 3 join_cons [OF split_lines_nonempty, of "[10]" "[]" "d # s"] join_cons [OF split_lines_nonempty, of "[10]" "[]" s]
      by (auto simp: skip_lf_def simp del: join.simps)
  next
    case False
    let ?ls = "split_lines (d # s)"
    have "split_lines (c # d # s) = (c # hd ?ls) # tl ?ls" using False split_lines_nonempty [of "d # s"] by (cases ?ls) (simp_all del: split_lines_nonempty)
    then show ?thesis using False 3 join_hd [OF split_lines_nonempty, of "[10]" c "d # s"] by simp
  qed
qed (auto simp: skip_lf_def)

lemma join_terminated: "ls \<noteq> [] \<Longrightarrow> concat (map (\<lambda>l. l @ [10]) ls) = join [10] ls @ [10]"
  by (induction "[10] :: ustr" ls rule: join.induct) simp_all

text \<open>What a client makes of an event: the message it dispatches, if any, and the identifier and reconnection time it keeps.\<close>

definition received :: "Event \<Rightarrow> client \<Rightarrow> client" where
  "received e st =
     (let i = (case ev_id e of Some i \<Rightarrow> if 0 \<notin> set i then one_space (fold_newlines i) else c_id st | None \<Rightarrow> c_id st) in
      st\<lparr>c_data := [], c_type := [], c_id := i,
         c_retry := (case ev_retry e of Some ms \<Rightarrow> Some (unat ms) | None \<Rightarrow> c_retry st),
         c_out := c_out st @
           (if comment_only e then []
            else [(case ev_event e of Some n \<Rightarrow> one_space (fold_newlines n) | None \<Rightarrow> [], normalised (ev_data e), i)])\<rparr>)"

lemma set_one_space: "set (one_space v) \<subseteq> set v"
  by (cases v) (auto simp: one_space_def)

lemma set_fold: "0 \<notin> set i \<Longrightarrow> 0 \<notin> set (fold_newlines i)"
  by (auto simp: fold_newlines_def)

lemma retry_field: "one_space (show_nat n) = show_nat n"
  using show_nat_ends(1) [of n] by (cases "show_nat n") (auto simp: one_space_def is_whitespace_def)

lemma event_lines_read:
  assumes "c_data st = []" "c_type st = []"
  shows "foldl client_line st (event_lines e) = received e st"
proof -
  let ?h = "(case ev_comment e of Some c \<Rightarrow> [lit '':'' @ fold_newlines c] | None \<Rightarrow> []) @
     (case ev_event e of Some n \<Rightarrow> [lit ''event:'' @ fold_newlines n] | None \<Rightarrow> []) @
     (case ev_id e of Some i \<Rightarrow> if 0 \<notin> set i then [lit ''id:'' @ fold_newlines i] else [] | None \<Rightarrow> []) @
     (case ev_retry e of Some ms \<Rightarrow> [lit ''retry:'' @ show_nat (unat ms)] | None \<Rightarrow> [])"
  let ?st = "st\<lparr>c_type := (case ev_event e of Some n \<Rightarrow> one_space (fold_newlines n) | None \<Rightarrow> []),
     c_id := (case ev_id e of Some i \<Rightarrow> if 0 \<notin> set i then one_space (fold_newlines i) else c_id st | None \<Rightarrow> c_id st),
     c_retry := (case ev_retry e of Some ms \<Rightarrow> Some (unat ms) | None \<Rightarrow> c_retry st)\<rparr>"
  have id: "0 \<notin> set (one_space (fold_newlines i))" if "0 \<notin> set i" for i using set_fold [OF that] set_one_space by blast
  have h: "foldl client_line st ?h = ?st"
    by (cases "ev_comment e"; cases "ev_event e"; cases "ev_id e"; cases "ev_retry e")
      (use assms in \<open>simp_all add: client_lines [simplified] client_field_def id show_nat_digits retry_field\<close>)
  show ?thesis
  proof (cases "comment_only e")
    case True
    then show ?thesis using h assms
      by (simp add: event_lines_def received_def client_line_def client_dispatch_def comment_only_def Let_def)
  next
    case False
    have "event_lines e = ?h @ map (\<lambda>l. lit ''data:'' @ escape_leading_space l) (split_lines (ev_data e)) @ [[]]"
      using False by (simp add: event_lines_def)
    then have "foldl client_line st (event_lines e) =
        client_dispatch (?st\<lparr>c_data := concat (map (\<lambda>l. l @ [10]) (split_lines (ev_data e)))\<rparr>)"
      using h assms(1) by (simp only: foldl_append data_lines) (simp add: client_line_def)
    then show ?thesis using False
      by (simp add: join_terminated client_dispatch_def received_def normalised_lines Let_def)
  qed
qed


lemma received_clean: "c_data (received e st) = []" "c_type (received e st) = []"
  by (simp_all add: received_def Let_def)

lemma events_read:
  assumes "c_data st = []" "c_type st = []"
  shows "client_read st (concat (map event_text es)) = foldl (\<lambda>st e. received e st) st es"
proof -
  have "complete_lines [] (concat (map event_text es) @ []) = concat (map event_lines es)"
  proof (induction es)
    case (Cons e es)
    have "complete_lines [] (event_text e @ concat (map event_text es)) = event_lines e @ complete_lines [] (concat (map event_text es))"
      using complete_lines_concat [OF event_lines_unbroken] by (simp only: event_text_def)
    then show ?case using Cons by simp
  qed simp
  then have "client_read st (concat (map event_text es)) = foldl client_line st (concat (map event_lines es))"
    by (simp add: client_read_def)
  also have "\<dots> = foldl (\<lambda>st e. received e st) st es"
    using assms by (induction es arbitrary: st) (simp_all add: event_lines_read received_clean)
  finally show ?thesis .
qed

section \<open>What was sent\<close>

text \<open>
  A field value a line can carry: no line end, and no space in front (which a client takes for the separator's); an
  identifier has no NUL either. The constructors of an event do not ask for it: the encoder replaces line ends by spaces,
  drops an identifier with a NUL, and lets a leading space be lost.
\<close>

definition carried :: "ustr \<Rightarrow> bool" where
  "carried v \<longleftrightarrow> 10 \<notin> set v \<and> 13 \<notin> set v \<and> (case v of [] \<Rightarrow> True | c # _ \<Rightarrow> c \<noteq> 32)"

definition carried_event :: "Event \<Rightarrow> bool" where
  "carried_event e \<longleftrightarrow>
     (case ev_event e of None \<Rightarrow> True | Some n \<Rightarrow> carried n) \<and>
     (case ev_id e of None \<Rightarrow> True | Some i \<Rightarrow> carried i \<and> 0 \<notin> set i)"

definition is_keep_alive :: "Event \<Rightarrow> bool" where
  "is_keep_alive e \<longleftrightarrow> (\<exists>c. e = keep_alive_event c)"

text \<open>The identifier in force behind a list of events, and the messages that were sent: type, payload, identifier.\<close>

fun sent_id :: "ustr \<Rightarrow> Event list \<Rightarrow> ustr" where
  "sent_id i [] = i"
| "sent_id i (e # es) = sent_id (case ev_id e of Some j \<Rightarrow> j | None \<Rightarrow> i) es"

fun sent_messages :: "ustr \<Rightarrow> Event list \<Rightarrow> (ustr \<times> ustr \<times> ustr) list" where
  "sent_messages i [] = []"
| "sent_messages i (e # es) =
     (let j = (case ev_id e of Some k \<Rightarrow> k | None \<Rightarrow> i) in
      (if is_keep_alive e then []
       else [(case ev_event e of Some n \<Rightarrow> n | None \<Rightarrow> [], normalised (ev_data e), j)]) @ sent_messages j es)"

fun sent_retry :: "nat option \<Rightarrow> Event list \<Rightarrow> nat option" where
  "sent_retry r [] = r"
| "sent_retry r (e # es) = sent_retry (case ev_retry e of Some ms \<Rightarrow> Some (unat ms) | None \<Rightarrow> r) es"

lemma keep_alive_iff: "is_keep_alive e \<longleftrightarrow> comment_only e"
  by (cases e) (auto simp: is_keep_alive_def keep_alive_event_def event_data_def comment_only_def)

lemma carried_unchanged: "carried v \<Longrightarrow> one_space (fold_newlines v) = v"
  by (cases v) (auto simp: carried_def fold_newlines_def one_space_def)

lemma received_carried:
  assumes "carried_event e"
  shows "c_out (received e st) = c_out st @ sent_messages (c_id st) [e]" "c_id (received e st) = sent_id (c_id st) [e]"
    "c_retry (received e st) = sent_retry (c_retry st) [e]"
  using assms by (auto simp: received_def carried_event_def keep_alive_iff carried_unchanged Let_def split: option.splits)

lemma received_all:
  "list_all carried_event es \<Longrightarrow>
     (let st' = foldl (\<lambda>st e. received e st) st es in
      c_out st' = c_out st @ sent_messages (c_id st) es \<and> c_id st' = sent_id (c_id st) es \<and> c_retry st' = sent_retry (c_retry st) es)"
proof (induction es arbitrary: st)
  case (Cons e es)
  then have e: "carried_event e" by simp
  show ?case using Cons received_carried [OF e, of st] by (simp add: Let_def)
qed (simp add: Let_def)

text \<open>C18. Events arrive as they were sent. For events whose type and identifier a line can carry (no line end, no leading
  space, no NUL in the identifier), with any payload, any comment and any reconnection time, a client of the specification
  that reads the encodings dispatches exactly one message for each event that is not a keep-alive, in order, with the type
  and the payload that were sent, the payload's line ends read as LF, and the identifier in force; it keeps the last
  identifier and the last reconnection time that were sent, and nothing is left over for the next event.\<close>

theorem events_roundtrip:
  assumes "c_data st = []" "c_type st = []" "list_all carried_event es"
  shows "let st' = client_read st (concat (map event_text es)) in
    c_out st' = c_out st @ sent_messages (c_id st) es \<and> c_id st' = sent_id (c_id st) es \<and>
    c_retry st' = sent_retry (c_retry st) es \<and> c_data st' = [] \<and> c_type st' = []"
proof -
  have "c_data (foldl (\<lambda>st e. received e st) st es) = [] \<and> c_type (foldl (\<lambda>st e. received e st) st es) = []"
    using assms(1,2) by (induction es rule: rev_induct) (simp_all add: received_clean)
  then show ?thesis using received_all [OF assms(3), of st] by (simp add: events_read [OF assms(1,2)] Let_def)
qed

definition new_client :: client where
  "new_client = \<lparr>c_data = [], c_type = [], c_id = [], c_retry = None, c_out = []\<rparr>"

definition sample_events :: "Event list" where
  "sample_events =
     [with_id (lit ''7'') (event_named (lit ''tick'') (lit '' a'' @ 13 # 10 # lit ''b'' @ [10])), keep_alive_event (lit ''x''),
      with_retry 500 (event_data [])]"

theorem events_roundtrip_witness:
  "list_all carried_event sample_events \<and>
   c_out (client_read new_client (concat (map event_text sample_events))) =
     [(lit ''tick'', lit '' a'' @ 10 # lit ''b'' @ [10], lit ''7''), ([], [], lit ''7'')]"
proof -
  have ok: "list_all carried_event sample_events" "c_data new_client = []" "c_type new_client = []"
    by (simp_all add: sample_events_def carried_event_def carried_def with_id_def with_retry_def event_named_def event_data_def
        keep_alive_event_def new_client_def)
  have "sent_messages [] sample_events = [(lit ''tick'', lit '' a'' @ 10 # lit ''b'' @ [10], lit ''7''), ([], [], lit ''7'')]"
    by (simp add: sample_events_def keep_alive_iff comment_only_def with_id_def with_retry_def event_named_def event_data_def
        keep_alive_event_def Let_def)
  then show ?thesis using events_roundtrip [OF ok(2,3,1)] ok(1) by (simp add: new_client_def Let_def)
qed

text \<open>The space that keeps a payload's own first space is not written for a type or an identifier, which lose theirs.\<close>

lemma leading_space_lost:
  "c_out (client_read new_client (event_text (with_id (lit '' 7'') (event_named (lit '' tick'') (lit '' a''))))) = [(lit ''tick'', lit '' a'', lit ''7'')]"
  using events_read [of new_client "[with_id (lit '' 7'') (event_named (lit '' tick'') (lit '' a''))]"]
  by (simp add: new_client_def received_def with_id_def event_named_def event_data_def comment_only_def fold_newlines_def one_space_def Let_def)

end
