(* ===== verification/Cors.thy ===== *)
theory Cors
  imports Responses Normalize Limits
begin

text \<open>
  Cross-origin policy (\<open>qqq-serve/src/cors.rs\<close>): origins, the policy, its decisions on requests and preflights, the
  validation of \<open>[server.cors]\<close> (\<open>qqq-cap/src/server.rs\<close>), the policy built from it (\<open>qqq-run/src/serve.rs\<close>) and its
  application to responses (\<open>apply_cors\<close> in \<open>server.rs\<close>). A \<open>BTreeSet\<close> of strings is the list of its elements in order.
\<close>

section \<open>Strings\<close>

text \<open>\<open>str::split_once\<close> on a string, and \<open>to_ascii_uppercase\<close>.\<close>

fun cut_str :: "ustr \<Rightarrow> ustr \<Rightarrow> (ustr \<times> ustr) option" where
  "cut_str p [] = (if p = [] then Some ([], []) else None)"
| "cut_str p (x # xs) =
     (case strip_prefix p (x # xs) of
        Some r \<Rightarrow> Some ([], r)
      | None \<Rightarrow> map_option (\<lambda>(a, b). (x # a, b)) (cut_str p xs))"

definition to_upper :: "ustr \<Rightarrow> ustr" where
  "to_upper s = map (\<lambda>c. if 97 \<le> c \<and> c \<le> 122 then c - 32 else c) s"

section \<open>Origins\<close>

datatype CorsError = BadOrigin ustr | Unsupported ustr

fun cors_error_display :: "CorsError \<Rightarrow> ustr" where
  "cors_error_display (BadOrigin d) = msg ''invalid origin: '' @ d"
| "cors_error_display (Unsupported d) = msg ''unsupported CORS configuration: '' @ d"

definition is_null :: "ustr \<Rightarrow> bool" where
  "is_null v \<longleftrightarrow> Errors.eq_ignore_ascii_case (trim v) (lit ''null'')"

definition scheme_char :: "nat \<Rightarrow> bool" where
  "scheme_char c \<longleftrightarrow> is_ascii_alnum c \<or> c = 43 \<or> c = 45 \<or> c = 46"

text \<open>The split of the authority at its last colon, when digits follow it.\<close>

definition split_authority :: "ustr \<Rightarrow> ustr \<times> ustr option" where
  "split_authority rest =
     (case rcut_once 58 rest of
        Some (h, p) \<Rightarrow> if p \<noteq> [] \<and> list_all is_ascii_digit p then (h, Some p) else (rest, None)
      | None \<Rightarrow> (rest, None))"

definition origin_parse :: "ustr \<Rightarrow> CorsError + ustr" where
  "origin_parse raw =
     (let value = trim raw in
      if value = [] then Inl (BadOrigin (msg ''the value is empty''))
      else if Errors.eq_ignore_ascii_case value (lit ''null'') then
        Inl (BadOrigin (msg ''`null` is a valid Origin header but never a matchable origin: it is sent by sandboxed iframes and `file://` pages''))
      else case cut_str (lit ''://'') value of
        None \<Rightarrow> Inl (BadOrigin (ticks value @ msg '' has no scheme''))
      | Some (scheme, rest) \<Rightarrow>
          if rest = [] then Inl (BadOrigin (ticks value @ msg '' has no host''))
          else let scheme = to_lower scheme in
          if scheme = [] then Inl (BadOrigin (ticks value @ msg '' has no scheme before `://`''))
          else if \<not> list_all scheme_char scheme then
            Inl (BadOrigin (ticks value @ msg '' has a scheme ('' @ ticks scheme @ msg '') with characters a scheme cannot carry''))
          else case split_authority rest of
            (h, p) \<Rightarrow>
              if h = [] then Inl (BadOrigin (ticks value @ msg '' has no host''))
              else if 64 \<in> set h then Inl (BadOrigin (ticks value @ msg '' carries userinfo; an Origin is scheme, host and port only''))
              else if 58 \<in> set h \<and> \<not> (hd h = 91 \<and> last h = 93) then
                Inl (BadOrigin (ticks value @ msg '' has a malformed authority: `:` outside `[...]`''))
              else if 47 \<in> set h \<or> 63 \<in> set h \<or> 35 \<in> set h then
                Inl (BadOrigin (ticks value @ msg '' carries a path, query or fragment; an Origin is not a URL''))
              else Inr (scheme @ lit ''://'' @ to_lower h @ (case p of Some d \<Rightarrow> 58 # d | None \<Rightarrow> [])))"

section \<open>The policy\<close>

record Cors =
  co_allowed :: "ustr list"
  co_credentials :: bool
  co_methods :: "ustr list"
  co_headers :: "ustr list"
  co_exposed :: "ustr list"
  co_max_age :: "u64 option"

datatype Reason = NoPolicy | OriginNotAllowed ustr | NotACorsRequest | NullOrigin | MethodNotAllowed ustr | HeaderNotAllowed ustr

fun reason_display :: "Reason \<Rightarrow> ustr" where
  "reason_display NoPolicy = msg ''no allowed origins are configured''"
| "reason_display (OriginNotAllowed og) = msg ''origin '' @ ticks og @ msg '' is not allowed''"
| "reason_display NotACorsRequest = msg ''the request carries no Origin header''"
| "reason_display NullOrigin = msg ''the `null` origin is never allowed''"
| "reason_display (MethodNotAllowed m) = msg ''method '' @ ticks m @ msg '' is not allowed''"
| "reason_display (HeaderNotAllowed h) = msg ''header '' @ ticks h @ msg '' is not allowed''"

datatype Decision = Granted "(ustr \<times> ustr) list" | Denied Reason "(ustr \<times> ustr) list"

definition is_granted :: "Decision \<Rightarrow> bool" where
  "is_granted d = (case d of Granted _ \<Rightarrow> True | Denied _ _ \<Rightarrow> False)"

definition decision_reason :: "Decision \<Rightarrow> Reason option" where
  "decision_reason d = (case d of Granted _ \<Rightarrow> None | Denied r _ \<Rightarrow> Some r)"

definition decision_headers :: "Decision \<Rightarrow> (ustr \<times> ustr) list" where
  "decision_headers d = (case d of Granted hs \<Rightarrow> hs | Denied _ hs \<Rightarrow> hs)"

definition denial_headers :: "Reason \<Rightarrow> (ustr \<times> ustr) list" where
  "denial_headers r = (case r of NotACorsRequest \<Rightarrow> [] | _ \<Rightarrow> [(msg ''Vary'', msg ''Origin'')])"

definition deny :: "Reason \<Rightarrow> Decision" where
  "deny r = Denied r (denial_headers r)"

definition cors_none :: Cors where
  "cors_none = \<lparr>co_allowed = [], co_credentials = False, co_methods = [], co_headers = [], co_exposed = [], co_max_age = None\<rparr>"

fun allow_all :: "Cors \<Rightarrow> ustr list \<Rightarrow> CorsError + Cors" where
  "allow_all c [] = Inr c"
| "allow_all c (s # ss) =
     (let raw = trim s in
      if raw = lit ''*'' then
        Inl (Unsupported (msg ''`*` is not accepted: name the origins explicitly. A wildcard would make every QQQ application readable by every site, and combined with credentials browsers reject it outright, so it would not even work''))
      else if 42 \<in> set raw then
        Inl (Unsupported (ticks raw @ msg '' contains a wildcard: V1 has no subdomain wildcard, because a partial matcher is a substring matcher and this is the classic CORS bypass''))
      else case origin_parse raw of
        Inl e \<Rightarrow> Inl e
      | Inr og \<Rightarrow> allow_all (c\<lparr>co_allowed := insort_insert og (co_allowed c)\<rparr>) ss)"

definition cors_from_manifest :: "ustr list \<Rightarrow> CorsError + Cors" where
  "cors_from_manifest origins = allow_all cors_none origins"

definition with_credentials :: "Cors \<Rightarrow> Cors" where
  "with_credentials c = c\<lparr>co_credentials := True\<rparr>"

definition with_methods :: "ustr list \<Rightarrow> Cors \<Rightarrow> Cors" where
  "with_methods ms c = c\<lparr>co_methods := sort (remdups (map to_upper ms))\<rparr>"

definition with_allowed_headers :: "ustr list \<Rightarrow> Cors \<Rightarrow> Cors" where
  "with_allowed_headers hs c = c\<lparr>co_headers := sort (remdups (map to_lower hs))\<rparr>"

definition with_exposed_headers :: "ustr list \<Rightarrow> Cors \<Rightarrow> Cors" where
  "with_exposed_headers hs c = c\<lparr>co_exposed := sort (remdups (map to_lower hs))\<rparr>"

definition with_max_age :: "u64 \<Rightarrow> Cors \<Rightarrow> Cors" where
  "with_max_age s c = c\<lparr>co_max_age := Some s\<rparr>"

definition cors_simple :: "Cors \<Rightarrow> ustr option \<Rightarrow> Decision" where
  "cors_simple c origin =
     (case origin of
        None \<Rightarrow> deny NotACorsRequest
      | Some raw \<Rightarrow>
          if is_null raw then deny NullOrigin
          else if co_allowed c = [] then deny NoPolicy
          else case origin_parse raw of
            Inl _ \<Rightarrow> deny (OriginNotAllowed raw)
          | Inr og \<Rightarrow>
              if og \<notin> set (co_allowed c) then deny (OriginNotAllowed og)
              else Granted
                ([(msg ''Access-Control-Allow-Origin'', og), (msg ''Vary'', msg ''Origin'')] @
                 (if co_credentials c then [(msg ''Access-Control-Allow-Credentials'', msg ''true'')] else []) @
                 (if co_exposed c \<noteq> [] then [(msg ''Access-Control-Expose-Headers'', join (msg '', '') (co_exposed c))] else [])))"

text \<open>The loop over the requested headers: the first one that is not allowed, or the names in the order they were asked for.\<close>

fun check_requested :: "ustr list \<Rightarrow> ustr list \<Rightarrow> ustr + ustr list" where
  "check_requested allowed [] = Inr []"
| "check_requested allowed (n # ns) =
     (let nm = to_lower (trim n) in
      if nm = [] then check_requested allowed ns
      else if nm \<notin> set allowed then Inl nm
      else case check_requested allowed ns of Inl e \<Rightarrow> Inl e | Inr rs \<Rightarrow> Inr (nm # rs))"

fun widen_vary :: "(ustr \<times> ustr) list \<Rightarrow> (ustr \<times> ustr) list" where
  "widen_vary [] = []"
| "widen_vary ((k, v) # hs) =
     (if Errors.eq_ignore_ascii_case k (msg ''vary'') then (k, msg ''Origin, Access-Control-Request-Method, Access-Control-Request-Headers'') # hs
      else (k, v) # widen_vary hs)"

definition cors_preflight :: "Cors \<Rightarrow> ustr option \<Rightarrow> ustr option \<Rightarrow> ustr option \<Rightarrow> Decision" where
  "cors_preflight c origin requested_method requested_headers =
     (case cors_simple c origin of
        Denied r hs \<Rightarrow> Denied r hs
      | Granted hs \<Rightarrow>
          (case requested_method of
             None \<Rightarrow> Granted hs
           | Some m \<Rightarrow>
               let meth = to_upper (trim m) in
               if meth \<notin> set (co_methods c) then deny (MethodNotAllowed meth)
               else case (case requested_headers of None \<Rightarrow> Inr [] | Some h \<Rightarrow> check_requested (co_headers c) (split_on 44 h)) of
                 Inl nm \<Rightarrow> deny (HeaderNotAllowed nm)
               | Inr names \<Rightarrow>
                   Granted
                     (widen_vary (hs @ [(msg ''Access-Control-Allow-Methods'', meth)] @
                        (if names \<noteq> [] then [(msg ''Access-Control-Allow-Headers'', join (msg '', '') names)] else [])) @
                      (case co_max_age c of Some age \<Rightarrow> [(msg ''Access-Control-Max-Age'', show_nat (unat age))] | None \<Rightarrow> []))))"

section \<open>The manifest's table\<close>

record CorsDecl =
  allow_origins :: "ustr list"
  allow_credentials :: bool
  allow_methods :: "ustr list"
  allow_headers :: "ustr list"
  expose_headers :: "ustr list"
  max_age :: "u64 option"

definition cors_field :: "ustr \<Rightarrow> ManifestError" where
  "cors_field reason = InvalidField (msg ''server.cors.allow_origins'') reason"

fun check_origins :: "ustr list \<Rightarrow> ManifestError + unit" where
  "check_origins [] = Inr ()"
| "check_origins (og # os) =
     (let value = trim og in
      if Errors.eq_ignore_ascii_case value (lit ''null'') then
        Inl (cors_field (msg ''`null` is sent by sandboxed iframes and `file://` pages: admitting it grants exactly the callers least able to be trusted''))
      else case cut_str (lit ''://'') value of
        None \<Rightarrow> Inl (cors_field (ticks value @ msg '' is not `scheme://host[:port]`; origins compare exactly, so this entry could never match''))
      | Some (scheme, rest) \<Rightarrow>
          if scheme = [] \<or> rest = [] then Inl (cors_field (ticks value @ msg '' has no scheme or no host''))
          else if 47 \<in> set rest \<or> 63 \<in> set rest \<or> 35 \<in> set rest then
            Inl (cors_field (ticks value @ msg '' carries a path, query or fragment; an origin is not a URL''))
          else check_origins os)"

definition validate_cors :: "CorsDecl \<Rightarrow> ManifestError + unit" where
  "validate_cors d =
     (if list_ex (\<lambda>og. trim og = lit ''*'') (allow_origins d) then
        Inl (cors_field (msg ''`*` allows every origin to read every response; name the origins explicitly, e.g. allow_origins = [\"https://app.example.com\"]''))
      else if list_ex (\<lambda>og. 42 \<in> set og \<and> trim og \<noteq> lit ''*'') (allow_origins d) then
        Inl (cors_field (msg ''a wildcard host is not supported in V1; list each origin in full, because a partial matcher is a substring matcher and that is the classic CORS bypass''))
      else check_origins (allow_origins d))"

definition build_cors :: "CorsDecl option \<Rightarrow> Error + Cors option" where
  "build_cors decl =
     (case decl of
        None \<Rightarrow> Inr None
      | Some d \<Rightarrow>
          (case cors_from_manifest (allow_origins d) of
             Inl e \<Rightarrow>
               Inl (with_remediation (msg ''name each origin explicitly, for example `allow_origins = [\"https://app.example.com\"]`'')
                 (error_new ManifestSchemaViolation (msg ''`[server.cors] allow_origins` is not usable: '' @ cors_error_display e)))
           | Inr c \<Rightarrow>
               let c = (if allow_credentials d then with_credentials c else c);
                   c = (if allow_methods d \<noteq> [] then with_methods (allow_methods d) c else c);
                   c = (if allow_headers d \<noteq> [] then with_allowed_headers (allow_headers d) c else c);
                   c = (if expose_headers d \<noteq> [] then with_exposed_headers (expose_headers d) c else c);
                   c = (case max_age d of Some s \<Rightarrow> with_max_age s c | None \<Rightarrow> c)
               in Inr (Some c)))"

section \<open>Responses\<close>

text \<open>\<open>head.header("origin")\<close> is a \<open>str\<close> of the request: the text whose bytes the field holds.\<close>

definition apply_cors :: "Response \<Rightarrow> ustr option \<Rightarrow> Cors option \<Rightarrow> Response" where
  "apply_cors r origin cors =
     (case cors of
        None \<Rightarrow> r
      | Some c \<Rightarrow> foldl (\<lambda>r (nm, value). set_header nm value r) r (decision_headers (cors_simple c origin)))"

text \<open>The response of \<open>serve_preflight\<close>.\<close>

definition preflight_response :: "Cors \<Rightarrow> ustr option \<Rightarrow> ustr \<Rightarrow> ustr option \<Rightarrow> Response" where
  "preflight_response c origin requested_method requested_headers =
     (let d = cors_preflight c origin (Some requested_method) requested_headers in
      foldl (\<lambda>r (nm, value). set_header nm value r) (response_status (if is_granted d then 204 else 403)) (decision_headers d))"


section \<open>Canonical origins\<close>

lemma trim_ends_clean: "trim s = [] \<or> \<not> is_whitespace (hd (trim s)) \<and> \<not> is_whitespace (last (trim s))"
proof (cases "trim s = []")
  case False
  define t where "t = dropWhile is_whitespace s"
  define u where "u = dropWhile is_whitespace (rev t)"
  have s: "trim s = rev u" by (simp add: trim_def t_def u_def)
  have u: "u \<noteq> []" using False by (simp add: s)
  then have t: "t \<noteq> []" by (auto simp: u_def)
  have "last u = hd t" using last_dropWhile [of is_whitespace "rev t"] u t by (simp add: u_def last_rev)
  moreover have "\<not> is_whitespace (hd t)" using hd_dropWhile_not t unfolding t_def by blast
  moreover have "\<not> is_whitespace (hd u)" using hd_dropWhile_not u unfolding u_def by blast
  ultimately show ?thesis using u by (simp add: s hd_rev last_rev)
qed simp

lemma trim_twice [simp]: "trim (trim s) = trim s"
  using trim_ends_clean [of s] by (intro trim_id) auto

lemma cut_str_Some: "cut_str p s = Some (a, b) \<Longrightarrow> s = a @ p @ b"
proof (induction p s arbitrary: a b rule: cut_str.induct)
  case (2 p x xs)
  then show ?case by (auto simp: strip_prefix_Some split: option.splits)
qed (auto split: if_splits)

lemma cut_once_Some: "cut_once c s = Some (a, b) \<Longrightarrow> s = a @ c # b"
  by (induction s arbitrary: a) (auto split: if_splits)

lemma rcut_once_Some: "rcut_once c s = Some (a, b) \<Longrightarrow> s = a @ c # b"
  by (auto simp: rcut_once_def dest!: cut_once_Some) (metis append.assoc append_Cons append_Nil rev.simps rev_append rev_rev_ident)

text \<open>A character that letter case leaves alone.\<close>

lemma lower_fixed: "\<not> is_ascii_alphabetic k \<Longrightarrow> to_ascii_lowercase c = k \<longleftrightarrow> c = k"
  by (auto simp: to_ascii_lowercase_def is_ascii_alphabetic_def)

lemma to_lower_simps [simp]: "to_lower [] = []" "to_lower (c # s) = to_ascii_lowercase c # to_lower s" "to_lower (s @ t) = to_lower s @ to_lower t"
    "to_lower s = [] \<longleftrightarrow> s = []" "to_lower (rev s) = rev (to_lower s)" "hd (to_lower (c # s)) = to_ascii_lowercase c"
  by (simp_all add: to_lower_def rev_map)

lemma lower_lower [simp]: "to_ascii_lowercase (to_ascii_lowercase c) = to_ascii_lowercase c" "to_lower (to_lower s) = to_lower s"
  by (auto simp: to_ascii_lowercase_def to_lower_def)

lemma mem_lower: "\<not> is_ascii_alphabetic k \<Longrightarrow> k \<in> set (to_lower s) \<longleftrightarrow> k \<in> set s"
  by (auto simp: to_lower_def lower_fixed image_iff eq_commute [of k])

lemma digits_lower: "list_all is_ascii_digit (to_lower s) = list_all is_ascii_digit s" "list_all is_ascii_digit s \<Longrightarrow> to_lower s = s"
proof -
  have d: "is_ascii_digit (to_ascii_lowercase c) = is_ascii_digit c" for c by (auto simp: is_ascii_digit_def to_ascii_lowercase_def)
  show "list_all is_ascii_digit (to_lower s) = list_all is_ascii_digit s" by (simp add: to_lower_def list_all_iff d)
  show "list_all is_ascii_digit s \<Longrightarrow> to_lower s = s"
    by (induction s) (auto simp: is_ascii_digit_def to_ascii_lowercase_def)
qed

lemma strip_prefix_lower: "list_all (\<lambda>k. \<not> is_ascii_alphabetic k) p \<Longrightarrow> strip_prefix p (to_lower s) = map_option to_lower (strip_prefix p s)"
  by (induction p s rule: strip_prefix.induct) (auto simp: lower_fixed eq_commute [of _ "to_ascii_lowercase _"])

lemma cut_str_lower: "list_all (\<lambda>k. \<not> is_ascii_alphabetic k) p \<Longrightarrow>
    cut_str p (to_lower s) = map_option (\<lambda>(a, b). (to_lower a, to_lower b)) (cut_str p s)"
proof (induction p s rule: cut_str.induct)
  case (2 p x xs)
  have "strip_prefix p (to_lower (x # xs)) = map_option to_lower (strip_prefix p (x # xs))" by (rule strip_prefix_lower [OF 2(2)])
  then show ?case using 2 by (auto simp: option.map_comp o_def split_beta split: option.splits)
qed simp

lemma cut_once_lower: "\<not> is_ascii_alphabetic c \<Longrightarrow> cut_once c (to_lower s) = map_option (\<lambda>(a, b). (to_lower a, to_lower b)) (cut_once c s)"
  by (induction s) (auto simp: lower_fixed option.map_comp o_def split_beta)

lemma rcut_once_lower: "\<not> is_ascii_alphabetic c \<Longrightarrow> rcut_once c (to_lower s) = map_option (\<lambda>(a, b). (to_lower a, to_lower b)) (rcut_once c s)"
  by (simp add: rcut_once_def cut_once_lower option.map_comp o_def split_beta flip: to_lower_simps(5))

lemma split_authority_lower: "split_authority (to_lower s) = (case split_authority s of (h, p) \<Rightarrow> (to_lower h, p))"
  using rcut_once_lower [of 58 s]
  by (auto simp: split_authority_def is_ascii_alphabetic_def digits_lower split: option.splits prod.splits)

text \<open>What a trimmed value has to be.\<close>

definition host_accepted :: "ustr \<Rightarrow> bool" where
  "host_accepted h \<longleftrightarrow> h \<noteq> [] \<and> 64 \<notin> set h \<and> (58 \<in> set h \<longrightarrow> hd h = 91 \<and> last h = 93) \<and> 47 \<notin> set h \<and> 63 \<notin> set h \<and> 35 \<notin> set h"

definition accepted :: "ustr \<Rightarrow> bool" where
  "accepted v \<longleftrightarrow> v \<noteq> [] \<and> to_lower v \<noteq> lit ''null'' \<and>
     (case cut_str (lit ''://'') v of
        None \<Rightarrow> False
      | Some (sch, rest) \<Rightarrow> rest \<noteq> [] \<and> sch \<noteq> [] \<and> list_all scheme_char (to_lower sch) \<and> host_accepted (fst (split_authority rest)))"

lemma split_authority_text: "split_authority s = (h, p) \<Longrightarrow> s = h @ (case p of Some d \<Rightarrow> 58 # d | None \<Rightarrow> []) \<and> (case p of Some d \<Rightarrow> to_lower d = d | None \<Rightarrow> True)"
  by (auto simp: split_authority_def digits_lower dest!: rcut_once_Some split: option.splits if_splits)

lemma null_lower: "Errors.eq_ignore_ascii_case v (lit ''null'') \<longleftrightarrow> to_lower v = lit ''null''"
  by (simp add: Errors.eq_ignore_ascii_case_def to_lower_def to_ascii_lowercase_def)

lemma origin_parse_cases:
  "accepted (trim s) \<Longrightarrow> origin_parse s = Inr (to_lower (trim s))"
  "\<not> accepted (trim s) \<Longrightarrow> \<exists>e. origin_parse s = Inl e"
proof -
  note defs = origin_parse_def Let_def accepted_def host_accepted_def null_lower [simplified]
  assume a: "accepted (trim s)"
  then obtain sch rest where c: "cut_str (lit ''://'') (trim s) = Some (sch, rest)" by (auto simp: accepted_def split: option.splits)
  obtain h p where h: "split_authority rest = (h, p)" by (cases "split_authority rest")
  have "trim s = sch @ lit ''://'' @ rest" using cut_str_Some [OF c] by simp
  then have "to_lower (trim s) = to_lower sch @ lit ''://'' @ to_lower h @ (case p of Some d \<Rightarrow> 58 # d | None \<Rightarrow> [])"
    using split_authority_text [OF h] by (auto simp: to_ascii_lowercase_def split: option.splits)
  then show "origin_parse s = Inr (to_lower (trim s))" using a c h by (simp add: defs)
next
  assume "\<not> accepted (trim s)"
  then show "\<exists>e. origin_parse s = Inl e"
    by (auto simp: origin_parse_def Let_def accepted_def host_accepted_def null_lower [simplified] split: option.splits prod.splits)
qed

lemma host_accepted_lower: "host_accepted (to_lower h) = host_accepted h"
proof (cases "h = []")
  case False
  have "hd (to_lower h) = to_ascii_lowercase (hd h)" "last (to_lower h) = to_ascii_lowercase (last h)"
    using False by (simp_all add: to_lower_def hd_map last_map)
  then show ?thesis by (simp add: host_accepted_def mem_lower lower_fixed is_ascii_alphabetic_def)
qed (simp add: host_accepted_def)

lemma accepted_lower: "accepted (to_lower v) = accepted v"
proof -
  have "cut_str (lit ''://'') (to_lower v) = map_option (\<lambda>(a, b). (to_lower a, to_lower b)) (cut_str (lit ''://'') v)"
    by (rule cut_str_lower) (simp add: is_ascii_alphabetic_def)
  then show ?thesis
    by (auto simp: accepted_def split_authority_lower host_accepted_lower split: option.splits prod.splits)
qed

lemma origin_parse_Inr: "origin_parse s = Inr og \<longleftrightarrow> accepted (trim s) \<and> og = to_lower (trim s)"
  using origin_parse_cases [of s] by (cases "accepted (trim s)") auto

lemma accepted_star: "accepted v \<Longrightarrow> v \<noteq> lit ''*''"
  by (auto simp: accepted_def)


section \<open>The policy of a manifest\<close>

text \<open>Origins are compared without blanks around them and without letter case.\<close>

definition same_origin :: "ustr \<Rightarrow> ustr \<Rightarrow> bool" where
  "same_origin a b \<longleftrightarrow> to_lower (trim a) = to_lower (trim b)"

lemma allow_all_allowed:
  "allow_all c ss = Inr c' \<Longrightarrow> set (co_allowed c') = set (co_allowed c) \<union> (to_lower \<circ> trim) ` set ss \<and>
     list_all (\<lambda>s. accepted (trim s)) ss \<and> c' = c\<lparr>co_allowed := co_allowed c'\<rparr>"
proof (induction c ss rule: allow_all.induct)
  case (2 c s ss)
  obtain og where og: "origin_parse (trim s) = Inr og" "allow_all (c\<lparr>co_allowed := insort_insert og (co_allowed c)\<rparr>) ss = Inr c'"
      "trim s \<noteq> lit ''*''" "42 \<notin> set (trim s)"
    using 2(2) by (auto simp: Let_def split: if_splits sum.splits)
  have o: "accepted (trim s)" "og = to_lower (trim s)" using og(1) by (simp_all add: origin_parse_Inr)
  from 2(1) [OF refl og(3) _ og(1,2)] og(4) show ?case using o by (auto simp: set_insort_insert)
qed simp

lemma from_manifest_allowed: "cors_from_manifest ss = Inr c \<Longrightarrow> set (co_allowed c) = (to_lower \<circ> trim) ` set ss \<and> list_all (\<lambda>s. accepted (trim s)) ss"
  using allow_all_allowed [of cors_none ss c] by (simp add: cors_from_manifest_def cors_none_def)

lemma build_cors_fields:
  assumes "build_cors (Some d) = Inr (Some c)"
  shows "set (co_allowed c) = (to_lower \<circ> trim) ` set (allow_origins d)" "list_all (\<lambda>s. accepted (trim s)) (allow_origins d)"
    "co_credentials c = allow_credentials d" "set (co_methods c) = to_upper ` set (allow_methods d)"
    "set (co_headers c) = to_lower ` set (allow_headers d)" "co_max_age c = max_age d"
proof -
  obtain c0 where c0: "cors_from_manifest (allow_origins d) = Inr c0" using assms by (auto simp: build_cors_def split: sum.splits)
  have "c0 = cors_none\<lparr>co_allowed := co_allowed c0\<rparr>" using allow_all_allowed c0 by (simp add: cors_from_manifest_def)
  then obtain al where al: "c0 = cors_none\<lparr>co_allowed := al\<rparr>" by blast
  have e: "build_cors (Some d) = Inr (Some \<lparr>co_allowed = al, co_credentials = allow_credentials d, co_methods = sort (remdups (map to_upper (allow_methods d))),
      co_headers = sort (remdups (map to_lower (allow_headers d))), co_exposed = sort (remdups (map to_lower (expose_headers d))), co_max_age = max_age d\<rparr>)"
    by (cases "max_age d") (simp_all add: build_cors_def c0 al cors_none_def Let_def with_credentials_def with_methods_def with_allowed_headers_def
        with_exposed_headers_def with_max_age_def)
  have c: "c = \<lparr>co_allowed = al, co_credentials = allow_credentials d, co_methods = sort (remdups (map to_upper (allow_methods d))),
      co_headers = sort (remdups (map to_lower (allow_headers d))), co_exposed = sort (remdups (map to_lower (expose_headers d))), co_max_age = max_age d\<rparr>"
    using assms e by simp
  show "set (co_allowed c) = (to_lower \<circ> trim) ` set (allow_origins d)" "list_all (\<lambda>s. accepted (trim s)) (allow_origins d)"
    using from_manifest_allowed [OF c0] by (simp_all add: c al)
  show "co_credentials c = allow_credentials d" "set (co_methods c) = to_upper ` set (allow_methods d)"
    "set (co_headers c) = to_lower ` set (allow_headers d)" "co_max_age c = max_age d"
    by (simp_all add: c)
qed

lemma simple_granted:
  assumes "build_cors (Some d) = Inr (Some c)"
  shows "is_granted (cors_simple c (Some raw)) \<longleftrightarrow> (\<exists>m \<in> set (allow_origins d). same_origin m raw)"
proof
  note f = build_cors_fields [OF assms]
  assume "is_granted (cors_simple c (Some raw))"
  then obtain og where "origin_parse raw = Inr og" "og \<in> set (co_allowed c)"
    by (auto simp: cors_simple_def deny_def is_granted_def split: if_splits sum.splits)
  then show "\<exists>m \<in> set (allow_origins d). same_origin m raw" using f(1) by (auto simp: origin_parse_Inr same_origin_def)
next
  note f = build_cors_fields [OF assms]
  assume "\<exists>m \<in> set (allow_origins d). same_origin m raw"
  then obtain m where m: "m \<in> set (allow_origins d)" "to_lower (trim m) = to_lower (trim raw)" by (auto simp: same_origin_def)
  then have "accepted (trim m)" using f(2) by (simp add: list_all_iff)
  then have a: "accepted (trim raw)" using accepted_lower [of "trim m"] accepted_lower [of "trim raw"] m(2) by simp
  have "to_lower (trim raw) \<in> set (co_allowed c)" unfolding f(1) by (rule image_eqI [OF _ m(1)]) (simp add: m(2))
  moreover have "\<not> is_null raw" using a by (simp add: is_null_def null_lower [simplified] accepted_def)
  ultimately show "is_granted (cors_simple c (Some raw))"
    using origin_parse_cases(1) [OF a] by (auto simp: cors_simple_def is_granted_def)
qed

lemma check_requested_iff: "(\<exists>rs. check_requested al ns = Inr rs) \<longleftrightarrow> (\<forall>n \<in> set ns. trim n = [] \<or> to_lower (trim n) \<in> set al)"
  by (induction al ns rule: check_requested.induct) (auto simp: Let_def split: sum.splits)

text \<open>The names a preflight asks for: the parts of its \<open>Access-Control-Request-Headers\<close>, none without one.\<close>

definition asked_headers :: "ustr option \<Rightarrow> ustr list" where
  "asked_headers asked = (case asked of None \<Rightarrow> [] | Some h \<Rightarrow> filter (\<lambda>n. n \<noteq> []) (map trim (split_on 44 h)))"

lemma preflight_granted:
  assumes "build_cors (Some d) = Inr (Some c)"
  shows "is_granted (cors_preflight c (Some raw) (Some meth) asked) \<longleftrightarrow>
    is_granted (cors_simple c (Some raw)) \<and> to_upper (trim meth) \<in> to_upper ` set (allow_methods d) \<and>
    to_lower ` set (asked_headers asked) \<subseteq> to_lower ` set (allow_headers d)"
proof -
  note f = build_cors_fields [OF assms]
  have r: "(\<exists>rs. check_requested (co_headers c) (split_on 44 h) = Inr rs) \<longleftrightarrow>
      to_lower ` set (asked_headers (Some h)) \<subseteq> to_lower ` set (allow_headers d)" for h
    unfolding check_requested_iff f(5) by (auto simp: asked_headers_def)
  have "is_granted (cors_preflight c (Some raw) (Some meth) asked) \<longleftrightarrow>
      is_granted (cors_simple c (Some raw)) \<and> to_upper (trim meth) \<in> set (co_methods c) \<and>
      (case asked of None \<Rightarrow> True | Some h \<Rightarrow> \<exists>rs. check_requested (co_headers c) (split_on 44 h) = Inr rs)"
    by (auto simp: cors_preflight_def is_granted_def deny_def Let_def split: Decision.splits sum.splits option.splits)
  then show ?thesis by (cases asked) (simp_all add: r f(4) asked_headers_def)
qed

lemma widen_vary_keeps: "\<not> Errors.eq_ignore_ascii_case k (msg ''vary'') \<Longrightarrow> map_of (widen_vary hs) k = map_of hs k"
  by (induction hs rule: widen_vary.induct) auto

text \<open>C16. The cross-origin policy is the manifest's lists and nothing more. The policy built from \<open>[server.cors]\<close> grants a
  request exactly when its \<open>Origin\<close> is one of the listed origins, blanks around it and letter case aside, names that origin in
  its canonical form, and grants credentials only when they are declared. A preflight that names a method is granted exactly
  when, besides, that method is listed and every requested header is, with or without a list of requested headers, and the
  answer names the method; one that names none is answered as a request. A table that lists no method so grants no
  preflight that names one, although a comment on the field says that an empty set is derived from the request.\<close>

theorem cors_policy_exact:
  assumes "build_cors (Some d) = Inr (Some c)"
  shows "(is_granted (cors_simple c (Some raw)) \<longleftrightarrow> (\<exists>m \<in> set (allow_origins d). same_origin m raw)) \<and>
    \<not> is_granted (cors_simple c None) \<and>
    (\<forall>hs. cors_simple c (Some raw) = Granted hs \<longrightarrow>
       map_of hs (msg ''Access-Control-Allow-Origin'') = Some (to_lower (trim raw)) \<and> map_of hs (msg ''Vary'') = Some (msg ''Origin'') \<and>
       map_of hs (msg ''Access-Control-Allow-Credentials'') = (if allow_credentials d then Some (msg ''true'') else None)) \<and>
    (is_granted (cors_preflight c (Some raw) (Some meth) asked) \<longleftrightarrow>
       (\<exists>m \<in> set (allow_origins d). same_origin m raw) \<and> to_upper (trim meth) \<in> to_upper ` set (allow_methods d) \<and>
       to_lower ` set (asked_headers asked) \<subseteq> to_lower ` set (allow_headers d)) \<and>
    (\<forall>hs. cors_preflight c (Some raw) (Some meth) asked = Granted hs \<longrightarrow>
       map_of hs (msg ''Access-Control-Allow-Methods'') = Some (to_upper (trim meth)) \<and>
       map_of hs (msg ''Access-Control-Allow-Origin'') = Some (to_lower (trim raw))) \<and>
    cors_preflight c (Some raw) None asked = cors_simple c (Some raw) \<and>
    \<not> is_granted (cors_preflight c None (Some meth) asked) \<and>
    (allow_methods d = [] \<longrightarrow> \<not> is_granted (cors_preflight c (Some raw) (Some meth) asked))"
proof (intro conjI allI impI)
  note f = build_cors_fields [OF assms] and g = simple_granted [OF assms, of raw] and p = preflight_granted [OF assms]
  show "is_granted (cors_simple c (Some raw)) \<longleftrightarrow> (\<exists>m \<in> set (allow_origins d). same_origin m raw)" by (rule g)
  show "\<not> is_granted (cors_simple c None)" by (simp add: cors_simple_def is_granted_def deny_def)
  show "is_granted (cors_preflight c (Some raw) (Some meth) asked) \<longleftrightarrow>
       (\<exists>m \<in> set (allow_origins d). same_origin m raw) \<and> to_upper (trim meth) \<in> to_upper ` set (allow_methods d) \<and>
       to_lower ` set (asked_headers asked) \<subseteq> to_lower ` set (allow_headers d)"
    by (simp only: p g)
  show "cors_preflight c (Some raw) None asked = cors_simple c (Some raw)"
    by (simp add: cors_preflight_def split: Decision.splits)
  show "\<not> is_granted (cors_preflight c None (Some meth) asked)"
    by (simp add: cors_preflight_def cors_simple_def is_granted_def deny_def)
  show "\<not> is_granted (cors_preflight c (Some raw) (Some meth) asked)" if "allow_methods d = []"
    by (simp add: p that)
next
  note f = build_cors_fields [OF assms]
  fix hs assume hs: "cors_simple c (Some raw) = Granted hs"
  then have "hs = [(msg ''Access-Control-Allow-Origin'', to_lower (trim raw)), (msg ''Vary'', msg ''Origin'')] @
       (if allow_credentials d then [(msg ''Access-Control-Allow-Credentials'', msg ''true'')] else []) @
       (if co_exposed c \<noteq> [] then [(msg ''Access-Control-Expose-Headers'', join (msg '', '') (co_exposed c))] else [])"
    using f(3) by (auto simp: cors_simple_def deny_def origin_parse_Inr split: if_splits sum.splits)
  then show "map_of hs (msg ''Access-Control-Allow-Origin'') = Some (to_lower (trim raw))" "map_of hs (msg ''Vary'') = Some (msg ''Origin'')"
      "map_of hs (msg ''Access-Control-Allow-Credentials'') = (if allow_credentials d then Some (msg ''true'') else None)"
    by (simp_all add: msg_def)
next
  note f = build_cors_fields [OF assms]
  fix hs assume hs: "cors_preflight c (Some raw) (Some meth) asked = Granted hs"
  then obtain h0 extra ages where h0: "cors_simple c (Some raw) = Granted h0"
      and out: "hs = widen_vary (h0 @ (msg ''Access-Control-Allow-Methods'', to_upper (trim meth)) # extra) @ ages"
    by (simp add: cors_preflight_def deny_def Let_def split: Decision.splits sum.splits if_splits) blast+
  have "h0 = [(msg ''Access-Control-Allow-Origin'', to_lower (trim raw)), (msg ''Vary'', msg ''Origin'')] @
       (if allow_credentials d then [(msg ''Access-Control-Allow-Credentials'', msg ''true'')] else []) @
       (if co_exposed c \<noteq> [] then [(msg ''Access-Control-Expose-Headers'', join (msg '', '') (co_exposed c))] else [])"
    using h0 f(3) by (auto simp: cors_simple_def deny_def origin_parse_Inr split: if_splits sum.splits)
  moreover have "\<not> Errors.eq_ignore_ascii_case (msg ''Access-Control-Allow-Methods'') (msg ''vary'')"
      "\<not> Errors.eq_ignore_ascii_case (msg ''Access-Control-Allow-Origin'') (msg ''vary'')"
    by (simp_all add: Errors.eq_ignore_ascii_case_def msg_def to_ascii_lowercase_def)
  ultimately show "map_of hs (msg ''Access-Control-Allow-Methods'') = Some (to_upper (trim meth))"
      "map_of hs (msg ''Access-Control-Allow-Origin'') = Some (to_lower (trim raw))"
    by (simp_all add: out map_of_append map_add_def widen_vary_keeps) (simp_all add: msg_def)
qed


definition cors_table :: CorsDecl where
  "cors_table = \<lparr>allow_origins = [lit ''https://App.example'', lit ''http://localhost:8080''], allow_credentials = True, allow_methods = [lit ''get''],
     allow_headers = [lit ''X-Id''], expose_headers = [], max_age = Some 600\<rparr>"

lemma cors_table_builds: "\<exists>c. build_cors (Some cors_table) = Inr (Some c)"
  by (simp add: build_cors_def cors_table_def cors_from_manifest_def cors_none_def origin_parse_def Let_def trim_def is_whitespace_def
      Errors.eq_ignore_ascii_case_def to_ascii_lowercase_def scheme_char_def is_ascii_alnum_def is_ascii_alphabetic_def is_ascii_digit_def
      split_authority_def rcut_once_def)

theorem cors_policy_exact_witness:
  "\<exists>c. build_cors (Some cors_table) = Inr (Some c) \<and> is_granted (cors_simple c (Some (lit '' HTTPS://app.EXAMPLE''))) \<and>
     \<not> is_granted (cors_simple c (Some (lit ''https://app.example.evil''))) \<and>
     is_granted (cors_preflight c (Some (lit ''http://localhost:8080'')) (Some (lit ''GET'')) (Some (lit ''x-id, ''))) \<and>
     \<not> is_granted (cors_preflight c (Some (lit ''http://localhost:8080'')) (Some (lit ''PUT'')) None)"
proof -
  obtain c where c: "build_cors (Some cors_table) = Inr (Some c)" using cors_table_builds by blast
  note e = cors_table_def same_origin_def trim_def is_whitespace_def to_ascii_lowercase_def to_upper_def asked_headers_def
  have "is_granted (cors_simple c (Some (lit '' HTTPS://app.EXAMPLE'')))" "\<not> is_granted (cors_simple c (Some (lit ''https://app.example.evil'')))"
    using cors_policy_exact [OF c, of "lit '' HTTPS://app.EXAMPLE''"] cors_policy_exact [OF c, of "lit ''https://app.example.evil''"] by (simp_all add: e)
  moreover have "is_granted (cors_preflight c (Some (lit ''http://localhost:8080'')) (Some (lit ''GET'')) (Some (lit ''x-id, '')))"
      "\<not> is_granted (cors_preflight c (Some (lit ''http://localhost:8080'')) (Some (lit ''PUT'')) None)"
    using cors_policy_exact [OF c, of "lit ''http://localhost:8080''" "lit ''GET''" "Some (lit ''x-id, '')"]
      cors_policy_exact [OF c, of "lit ''http://localhost:8080''" "lit ''PUT''" None] by (simp_all add: e)
  ultimately show ?thesis using c by blast
qed

section \<open>The policy on responses\<close>

lemma set_header_lookup:
  "response_header (set_header k v r) k' = (if Errors.eq_ignore_ascii_case k k' then Some v else response_header r k')"
proof -
  have "map_option snd (find (\<lambda>(q, _). Errors.eq_ignore_ascii_case q k') (set_in k v hs)) =
      (if Errors.eq_ignore_ascii_case k k' then Some v else map_option snd (find (\<lambda>(q, _). Errors.eq_ignore_ascii_case q k') hs))" for hs
    by (induction k v hs rule: set_in.induct) (auto simp: Errors.eq_ignore_ascii_case_def)
  then show ?thesis by (simp add: response_header_def set_header_def)
qed

lemma cors_names:
  "Errors.eq_ignore_ascii_case (msg ''Access-Control-Allow-Origin'') (msg ''Access-Control-Allow-Origin'')"
  "Errors.eq_ignore_ascii_case (msg ''Vary'') (msg ''Vary'')"
  "\<not> Errors.eq_ignore_ascii_case (msg ''Vary'') (msg ''Access-Control-Allow-Origin'')"
  "\<not> Errors.eq_ignore_ascii_case (msg ''Access-Control-Allow-Origin'') (msg ''Vary'')"
  "\<not> Errors.eq_ignore_ascii_case (msg ''Access-Control-Allow-Credentials'') (msg ''Access-Control-Allow-Origin'')"
  "\<not> Errors.eq_ignore_ascii_case (msg ''Access-Control-Allow-Credentials'') (msg ''Vary'')"
  "\<not> Errors.eq_ignore_ascii_case (msg ''Access-Control-Expose-Headers'') (msg ''Access-Control-Allow-Origin'')"
  "\<not> Errors.eq_ignore_ascii_case (msg ''Access-Control-Expose-Headers'') (msg ''Vary'')"
  by (simp_all add: Errors.eq_ignore_ascii_case_def msg_def to_ascii_lowercase_def)

text \<open>
  What the server adds: a granted origin is named; a refused one is not, but a header of that name which the handler has set
  itself stays; and \<open>Vary\<close> is set to \<open>Origin\<close> whatever the handler had written there.
\<close>

lemma apply_cors_headers:
  "response_header (apply_cors r (Some raw) (Some c)) (msg ''Access-Control-Allow-Origin'') =
     (if is_granted (cors_simple c (Some raw)) then Some (to_lower (trim raw)) else response_header r (msg ''Access-Control-Allow-Origin''))"
  "response_header (apply_cors r (Some raw) (Some c)) (msg ''Vary'') = Some (msg ''Origin'')"
  "apply_cors r None (Some c) = r"
  by (auto simp: apply_cors_def cors_simple_def deny_def denial_headers_def decision_headers_def is_granted_def origin_parse_Inr set_header_lookup cors_names
      split: sum.splits)

text \<open>A handler's own grant survives a refusal, and its own \<open>Vary\<close> is lost.\<close>

lemma refusal_keeps_own_grant:
  "\<not> is_granted (cors_simple c (Some raw)) \<Longrightarrow>
   response_header (apply_cors (set_header (msg ''Access-Control-Allow-Origin'') (lit ''*'') r) (Some raw) (Some c)) (msg ''Access-Control-Allow-Origin'') = Some (lit ''*'')"
  by (simp add: apply_cors_headers set_header_lookup cors_names)

lemma own_vary_lost:
  "response_header (apply_cors (set_header (msg ''Vary'') (msg ''Accept-Encoding'') r) (Some raw) (Some c)) (msg ''Vary'') = Some (msg ''Origin'')"
  by (rule apply_cors_headers)

section \<open>The two validations\<close>

lemma usable_origins_pass: "list_all (\<lambda>s. accepted (trim s)) os \<Longrightarrow> check_origins os = Inr ()"
proof (induction os)
  case (Cons og os)
  obtain sch rest where c: "cut_str (lit ''://'') (trim og) = Some (sch, rest)" using Cons.prems by (auto simp: accepted_def split: option.splits)
  obtain h p where h: "split_authority rest = (h, p)" by (cases "split_authority rest")
  have ok: "host_accepted h" "sch \<noteq> []" "rest \<noteq> []" "to_lower (trim og) \<noteq> lit ''null''"
    using Cons.prems c h by (simp_all add: accepted_def)
  have "rest = h @ (case p of Some d \<Rightarrow> 58 # d | None \<Rightarrow> [])" "case p of Some d \<Rightarrow> list_all is_ascii_digit d | None \<Rightarrow> True"
    using h by (auto simp: split_authority_def dest!: rcut_once_Some split: option.splits if_splits)
  then have "47 \<notin> set rest" "63 \<notin> set rest" "35 \<notin> set rest"
    using ok(1) by (auto simp: host_accepted_def list_all_iff is_ascii_digit_def split: option.splits)
  then show ?case using Cons c ok by (simp add: Let_def null_lower [simplified])
qed simp

text \<open>Every table the server can use passes the check of the manifest; the converse fails.\<close>

lemma usable_cors_validates: "cors_from_manifest (allow_origins d) = Inr c \<Longrightarrow> validate_cors d = Inr ()"
proof -
  assume a: "cors_from_manifest (allow_origins d) = Inr c"
  have "list_all (\<lambda>s. 42 \<notin> set (trim s)) ss" if "allow_all c0 ss = Inr c" for c0 ss
    using that by (induction c0 ss rule: allow_all.induct) (auto simp: Let_def split: if_splits sum.splits)
  then have star: "list_all (\<lambda>s. 42 \<notin> set (trim s)) (allow_origins d)" using a by (simp add: cors_from_manifest_def)
  have "42 \<in> set (trim s)" if "42 \<in> set s" for s
  proof -
    have "42 \<in> set (dropWhile is_whitespace s)" if "42 \<in> set s" for s
      using that by (induction s) (auto simp: is_whitespace_def)
    then show ?thesis using that by (metis set_rev trim_def)
  qed
  then have "list_all (\<lambda>s. 42 \<notin> set s) (allow_origins d)" using star by (auto simp: list_all_iff)
  moreover have "check_origins (allow_origins d) = Inr ()" using usable_origins_pass from_manifest_allowed [OF a] by blast
  moreover have "trim s \<noteq> lit ''*''" if "42 \<notin> set (trim s)" for s using that by auto
  ultimately show ?thesis using star by (auto simp: validate_cors_def list_all_iff list_ex_iff)
qed

lemma validated_cors_unusable:
  "\<exists>d. validate_cors d = Inr () \<and> (\<exists>e. build_cors (Some d) = Inl e)"
proof -
  let ?d = "cors_table\<lparr>allow_origins := [lit ''https://user@host'']\<rparr>"
  have "validate_cors ?d = Inr ()"
    by (simp add: validate_cors_def cors_table_def Let_def trim_def is_whitespace_def Errors.eq_ignore_ascii_case_def to_ascii_lowercase_def)
  moreover have "\<exists>e. build_cors (Some ?d) = Inl e"
    by (simp add: build_cors_def cors_table_def cors_from_manifest_def cors_none_def origin_parse_def Let_def trim_def is_whitespace_def
        Errors.eq_ignore_ascii_case_def to_ascii_lowercase_def scheme_char_def is_ascii_alnum_def is_ascii_alphabetic_def is_ascii_digit_def
        split_authority_def rcut_once_def)
  ultimately show ?thesis by blast
qed

end
