(* ===== verification/WsHandshake.thy ===== *)
theory WsHandshake
  imports Cors
begin

text \<open>
  The WebSocket handshake (\<open>qqq-serve/src/ws.rs\<close>): parsing, the origins that may upgrade, the host names of a loopback
  listener, and the two answers. \<open>b64_decode\<close>, \<open>b64\<close> (crate \<open>base64\<close>) and \<open>sha1\<close> (crate \<open>sha1\<close>) are parameters; \<open>dbg\<close> is
  the \<open>Debug\<close> rendering of a string; \<open>hdr\<close> is the header lookup the caller passes in.
\<close>

section \<open>The handshake\<close>

definition GUID :: ustr where
  "GUID = msg ''258EAFA5-E914-47DA-95CA-C5AB0DC85B11''"

definition WS_VERSION :: ustr where
  "WS_VERSION = lit ''13''"

datatype HandshakeError =
    NotGet ustr
  | NotAnUpgrade
  | ConnectionNotUpgraded
  | UnsupportedWsVersion "ustr option"
  | BadKey ustr
  | InvalidSubprotocol ustr

fun handshake_error_display :: "(ustr \<Rightarrow> ustr) \<Rightarrow> HandshakeError \<Rightarrow> ustr" where
  "handshake_error_display dbg (NotGet m) = msg ''a WebSocket handshake must be a GET, not '' @ ticks m"
| "handshake_error_display dbg NotAnUpgrade = msg ''`Upgrade: websocket` is required; without it this is an ordinary request''"
| "handshake_error_display dbg ConnectionNotUpgraded = msg ''`Connection` must list the `Upgrade` token''"
| "handshake_error_display dbg (UnsupportedWsVersion (Some v)) = msg ''`Sec-WebSocket-Version: '' @ v @ msg ''` is not supported; only '' @ WS_VERSION @ msg '' is''"
| "handshake_error_display dbg (UnsupportedWsVersion None) = msg ''`Sec-WebSocket-Version` is required; only '' @ WS_VERSION @ msg '' is''"
| "handshake_error_display dbg (BadKey r) = msg ''`Sec-WebSocket-Key` is invalid: '' @ r"
| "handshake_error_display dbg (InvalidSubprotocol v) = msg ''subprotocol '' @ dbg v @ msg '' is not a valid token and cannot be echoed''"

record Handshake =
  hs_key :: ustr
  hs_protocols :: "ustr list"
  hs_extensions :: "ustr list"

definition validate_key :: "(ustr \<Rightarrow> ustr + u8 list) \<Rightarrow> ustr \<Rightarrow> HandshakeError + ustr" where
  "validate_key b64_decode raw =
     (let trimmed = trim raw in
      case b64_decode trimmed of
        Inl e \<Rightarrow> Inl (BadKey (msg ''not valid base64: '' @ e))
      | Inr decoded \<Rightarrow>
          if length decoded \<noteq> 16 then Inl (BadKey (msg ''decoded to '' @ show_nat (length decoded) @ msg '' bytes, expected 16''))
          else Inr trimmed)"

definition list_of :: "ustr option \<Rightarrow> ustr list" where
  "list_of v = (case v of Some s \<Rightarrow> filter (\<lambda>p. p \<noteq> []) (map trim (split_on 44 s)) | None \<Rightarrow> [])"

definition handshake_assemble :: "(ustr \<Rightarrow> ustr + u8 list) \<Rightarrow> (ustr \<Rightarrow> ustr option) \<Rightarrow> HandshakeError + Handshake" where
  "handshake_assemble b64_decode hdr =
     (let ver = hdr (msg ''sec-websocket-version'') in
      if map_option trim ver \<noteq> Some WS_VERSION then Inl (UnsupportedWsVersion ver)
      else case hdr (msg ''sec-websocket-key'') of
        None \<Rightarrow> Inl (BadKey (msg ''the header is absent''))
      | Some raw \<Rightarrow>
          (case validate_key b64_decode raw of
             Inl e \<Rightarrow> Inl e
           | Inr key \<Rightarrow>
               Inr \<lparr>hs_key = key, hs_protocols = list_of (hdr (msg ''sec-websocket-protocol'')),
                 hs_extensions = list_of (hdr (msg ''sec-websocket-extensions''))\<rparr>))"

definition has_token :: "ustr \<Rightarrow> ustr option \<Rightarrow> bool" where
  "has_token t v = (case v of Some s \<Rightarrow> list_ex (\<lambda>p. Errors.eq_ignore_ascii_case (trim p) t) (split_on 44 s) | None \<Rightarrow> False)"

definition handshake_parse :: "(ustr \<Rightarrow> ustr + u8 list) \<Rightarrow> ustr \<Rightarrow> (ustr \<Rightarrow> ustr option) \<Rightarrow> HandshakeError + Handshake" where
  "handshake_parse b64_decode meth hdr =
     (if meth \<noteq> lit ''GET'' then Inl (NotGet meth)
      else if \<not> has_token (msg ''websocket'') (hdr (msg ''upgrade'')) then Inl NotAnUpgrade
      else if \<not> has_token (msg ''upgrade'') (hdr (msg ''connection'')) then Inl ConnectionNotUpgraded
      else handshake_assemble b64_decode hdr)"

definition parse_extended_connect :: "(ustr \<Rightarrow> ustr + u8 list) \<Rightarrow> (ustr \<Rightarrow> ustr option) \<Rightarrow> HandshakeError + Handshake" where
  "parse_extended_connect b64_decode hdr = handshake_assemble b64_decode hdr"

definition accept_for :: "(u8 list \<Rightarrow> u8 list) \<Rightarrow> (u8 list \<Rightarrow> ustr) \<Rightarrow> ustr \<Rightarrow> ustr" where
  "accept_for sha1 b64 key = b64 (sha1 (utf8_bytes key @ utf8_bytes GUID))"

definition select_protocol :: "Handshake \<Rightarrow> ustr list \<Rightarrow> ustr option" where
  "select_protocol h supported = find (\<lambda>s. s \<in> set (hs_protocols h)) supported"

definition is_token :: "ustr \<Rightarrow> bool" where
  "is_token s \<longleftrightarrow> s \<noteq> [] \<and> list_all (\<lambda>b. 32 < b \<and> b < 127 \<and> b \<notin> set (ascii ''()<>@,;:'') \<and> b \<noteq> 92 \<and> b \<noteq> 34 \<and> b \<notin> set (ascii ''/[]?={}'')) (utf8_bytes s)"

section \<open>Origins\<close>

record WsOriginPolicy =
  ws_allowed :: "ustr list"
  ws_allow_any :: bool

definition ws_same_origin_policy :: WsOriginPolicy where
  "ws_same_origin_policy = \<lparr>ws_allowed = [], ws_allow_any = False\<rparr>"

fun ws_admit :: "WsOriginPolicy \<Rightarrow> ustr list \<Rightarrow> CorsError + WsOriginPolicy" where
  "ws_admit p [] = Inr p"
| "ws_admit p (v # vs) =
     (if trim v = lit ''*'' then ws_admit (p\<lparr>ws_allow_any := True\<rparr>) vs
      else if 42 \<in> set v then
        Inl (BadOrigin (ticks v @ msg '' is a wildcard host, which V1 refuses: list each origin in full, because a partial matcher is a substring matcher''))
      else case origin_parse v of
        Inl e \<Rightarrow> Inl e
      | Inr og \<Rightarrow> ws_admit (p\<lparr>ws_allowed := insort_insert og (ws_allowed p)\<rparr>) vs)"

definition ws_from_manifest :: "ustr list \<Rightarrow> CorsError + WsOriginPolicy" where
  "ws_from_manifest vs = ws_admit ws_same_origin_policy vs"

text \<open>\<open>split_authority\<close> of \<open>ws.rs\<close>.\<close>

definition ws_split_authority :: "ustr \<Rightarrow> ustr \<times> ustr option" where
  "ws_split_authority a =
     (case strip_prefix (lit ''['') a of
        Some stripped \<Rightarrow>
          (case cut_str (lit '']:'') stripped of
             Some (h, p) \<Rightarrow> (lit ''['' @ h @ lit '']'', Some p)
           | None \<Rightarrow> (to_lower a, None))
      | None \<Rightarrow>
          (case rcut_once 58 a of
             Some (h, p) \<Rightarrow> if 58 \<in> set h then (to_lower a, None) else (to_lower h, Some p)
           | None \<Rightarrow> (to_lower a, None)))"

definition default_port :: "ustr \<Rightarrow> ustr option" where
  "default_port scheme =
     (if scheme = lit ''http'' \<or> scheme = lit ''ws'' then Some (lit ''80'')
      else if scheme = lit ''https'' \<or> scheme = lit ''wss'' then Some (lit ''443'') else None)"

definition port_or :: "ustr \<Rightarrow> ustr option \<Rightarrow> ustr" where
  "port_or d p = (case p of Some q \<Rightarrow> if q \<noteq> [] then q else d | None \<Rightarrow> d)"

definition ws_same_origin :: "ustr \<Rightarrow> ustr \<Rightarrow> bool" where
  "ws_same_origin origin hst =
     (case cut_str (lit ''://'') origin of
        None \<Rightarrow> False
      | Some (scheme, authority) \<Rightarrow>
          (case default_port scheme of
             None \<Rightarrow> False
           | Some d \<Rightarrow>
               (case (ws_split_authority authority, ws_split_authority (to_lower (trim hst))) of
                  ((oh, op), (hh, hp)) \<Rightarrow> oh = hh \<and> port_or d op = port_or d hp)))"

definition upgrade_origin_allowed :: "WsOriginPolicy \<Rightarrow> ustr option \<Rightarrow> ustr \<Rightarrow> bool" where
  "upgrade_origin_allowed p origin hst =
     (case origin of
        None \<Rightarrow> True
      | Some raw \<Rightarrow>
          if ws_allow_any p then True
          else case origin_parse raw of
            Inl _ \<Rightarrow> False
          | Inr og \<Rightarrow> og \<in> set (ws_allowed p) \<or> ws_same_origin og hst)"

section \<open>Loopback hosts\<close>

definition host_name :: "ustr \<Rightarrow> ustr" where
  "host_name value =
     (let lower = to_lower value in
      case strip_prefix (lit ''['') lower of
        Some stripped \<Rightarrow>
          (case cut_str (lit '']:'') stripped of
             Some (h, p) \<Rightarrow> if p \<noteq> [] \<and> list_all is_ascii_digit p then lit ''['' @ h @ lit '']'' else lower
           | None \<Rightarrow> lower)
      | None \<Rightarrow>
          (case rcut_once 58 lower of
             Some (h, p) \<Rightarrow> if 58 \<notin> set h \<and> p \<noteq> [] \<and> list_all is_ascii_digit p then h else lower
           | None \<Rightarrow> lower))"

definition loopback_host_allowed :: "ustr \<Rightarrow> ustr list \<Rightarrow> bool" where
  "loopback_host_allowed hst extra =
     (let nm = host_name (trim hst) in
      nm \<in> {lit ''localhost'', lit ''127.0.0.1'', lit ''[::1]''} \<or> list_ex (\<lambda>e. nm = host_name (trim e)) extra)"

section \<open>Answers\<close>

definition accept_headers :: "(u8 list \<Rightarrow> u8 list) \<Rightarrow> (u8 list \<Rightarrow> ustr) \<Rightarrow> Handshake \<Rightarrow> ustr option \<Rightarrow> (ustr \<times> ustr) list" where
  "accept_headers sha1 b64 h protocol =
     [(msg ''Upgrade'', msg ''websocket''), (msg ''Connection'', msg ''Upgrade''), (msg ''Sec-WebSocket-Accept'', accept_for sha1 b64 (hs_key h))] @
     (case protocol of Some p \<Rightarrow> [(msg ''Sec-WebSocket-Protocol'', p)] | None \<Rightarrow> [])"

definition write_upgrade :: "(u8 list \<Rightarrow> u8 list) \<Rightarrow> (u8 list \<Rightarrow> ustr) \<Rightarrow> Handshake \<Rightarrow> ustr option \<Rightarrow> u8 list" where
  "write_upgrade sha1 b64 h protocol =
     utf8_bytes (ln (msg ''HTTP/1.1 101 Switching Protocols'') @
       concat (map (\<lambda>(nm, value). ln (nm @ [58, 32] @ value)) (accept_headers sha1 b64 h protocol)) @ [13, 10])"

definition refusal_status :: "HandshakeError \<Rightarrow> u16 \<times> ustr" where
  "refusal_status e = (case e of UnsupportedWsVersion _ \<Rightarrow> (426, msg ''Upgrade Required'') | _ \<Rightarrow> (400, msg ''Bad Request''))"

definition write_refusal :: "(ustr \<Rightarrow> ustr) \<Rightarrow> HandshakeError \<Rightarrow> u8 list" where
  "write_refusal dbg e =
     (let body = handshake_error_display dbg e in
      utf8_bytes (ln (msg ''HTTP/1.1 '' @ show_nat (unat (fst (refusal_status e))) @ [32] @ snd (refusal_status e)) @
        (case e of UnsupportedWsVersion _ \<Rightarrow> ln (msg ''Sec-WebSocket-Version: '' @ WS_VERSION) | _ \<Rightarrow> []) @
        ln (msg ''Content-Type: text/plain; charset=utf-8'') @
        ln (msg ''Content-Length: '' @ show_nat (length (utf8_bytes body))) @
        ln (msg ''Connection: close'') @ [13, 10] @ body))"


section \<open>Who may upgrade\<close>

lemma ws_admit_allowed:
  "ws_admit p vs = Inr p' \<Longrightarrow>
     set (ws_allowed p') = set (ws_allowed p) \<union> (to_lower \<circ> trim) ` {v \<in> set vs. trim v \<noteq> lit ''*''} \<and>
     (ws_allow_any p' \<longleftrightarrow> ws_allow_any p \<or> (\<exists>v \<in> set vs. trim v = lit ''*'')) \<and>
     list_all (\<lambda>v. trim v = lit ''*'' \<or> accepted (trim v)) vs"
proof (induction p vs rule: ws_admit.induct)
  case (2 p v vs)
  show ?case
  proof (cases "trim v = lit ''*''")
    case True
    then have "ws_admit (p\<lparr>ws_allow_any := True\<rparr>) vs = Inr p'" using 2(3) by simp
    from 2(1) [OF True this] show ?thesis using True by auto
  next
    case False
    then obtain og where og: "42 \<notin> set v" "origin_parse v = Inr og" "ws_admit (p\<lparr>ws_allowed := insort_insert og (ws_allowed p)\<rparr>) vs = Inr p'"
      using 2(3) by (auto split: if_splits sum.splits)
    have "accepted (trim v)" "og = to_lower (trim v)" using og(2) by (simp_all add: origin_parse_Inr)
    with 2(2) [OF False og(1,2,3)] False show ?thesis by (auto simp: set_insort_insert)
  qed
qed simp

lemma upgrade_allowed_iff:
  assumes "ws_from_manifest vs = Inr p"
  shows "upgrade_origin_allowed p origin hst \<longleftrightarrow>
    (case origin of
       None \<Rightarrow> True
     | Some raw \<Rightarrow> (\<exists>v \<in> set vs. trim v = lit ''*'' \<or> same_origin v raw) \<or>
         accepted (trim raw) \<and> ws_same_origin (to_lower (trim raw)) hst)"
proof (cases origin)
  case (Some raw)
  have f: "set (ws_allowed p) = (to_lower \<circ> trim) ` {v \<in> set vs. trim v \<noteq> lit ''*''}" "ws_allow_any p \<longleftrightarrow> (\<exists>v \<in> set vs. trim v = lit ''*'')"
      "\<And>v. v \<in> set vs \<Longrightarrow> trim v = lit ''*'' \<or> accepted (trim v)"
    using ws_admit_allowed [of ws_same_origin_policy vs p] assms
    by (auto simp: ws_from_manifest_def ws_same_origin_policy_def list_all_iff)
  show ?thesis
  proof (cases "ws_allow_any p")
    case True
    then show ?thesis using f(2) Some by (auto simp: upgrade_origin_allowed_def)
  next
    case False
    then have ns: "\<And>v. v \<in> set vs \<Longrightarrow> trim v \<noteq> lit ''*''" using f(2) by blast
    have acc: "accepted (trim raw)" if "v \<in> set vs" "same_origin v raw" for v
      using f(3) [OF that(1)] ns [OF that(1)] that(2) accepted_lower [of "trim v"] accepted_lower [of "trim raw"] by (auto simp: same_origin_def)
    have mem: "to_lower (trim raw) \<in> set (ws_allowed p) \<longleftrightarrow> (\<exists>v \<in> set vs. same_origin v raw)"
      unfolding f(1) using ns by (auto simp: same_origin_def image_iff)
    show ?thesis
    proof (cases "accepted (trim raw)")
      case True
      then show ?thesis using False Some mem ns origin_parse_cases(1) [OF True] by (auto simp: upgrade_origin_allowed_def)
    next
      case no: False
      then show ?thesis using False Some acc ns origin_parse_cases(2) [OF no] by (auto simp: upgrade_origin_allowed_def)
    qed
  qed
qed (simp add: upgrade_origin_allowed_def)

text \<open>An authority with a name and perhaps a port.\<close>

definition authority :: "ustr \<Rightarrow> ustr option \<Rightarrow> ustr" where
  "authority h p = h @ (case p of Some q \<Rightarrow> 58 # q | None \<Rightarrow> [])"

lemma cut_once_absent: "c \<notin> set s \<Longrightarrow> cut_once c s = None"
  by (induction s) auto

lemma cut_once_present: "c \<notin> set s \<Longrightarrow> cut_once c (s @ c # t) = Some (s, t)"
  by (induction s) auto

lemma rcut_once_absent: "c \<notin> set s \<Longrightarrow> rcut_once c s = None"
  by (simp add: rcut_once_def cut_once_absent)

lemma rcut_once_present: "c \<notin> set t \<Longrightarrow> rcut_once c (s @ c # t) = Some (s, t)"
  using cut_once_present [of c "rev t" "rev s"] by (simp add: rcut_once_def)

lemma ws_split_authority_plain:
  assumes "h \<noteq> []" "hd h \<noteq> 91" "58 \<notin> set h" "\<And>q. p = Some q \<Longrightarrow> 58 \<notin> set q"
  shows "ws_split_authority (authority h p) = (to_lower h, p)"
proof -
  obtain c r where h: "h = c # r" "c \<noteq> 91" using assms(1,2) by (cases h) auto
  then show ?thesis using assms(3,4) rcut_once_present [of 58 _ h]
    by (cases p) (auto simp: ws_split_authority_def authority_def rcut_once_absent)
qed

text \<open>Host names: a plain name, or an address in brackets.\<close>

definition proper_host :: "ustr \<Rightarrow> bool" where
  "proper_host g \<longleftrightarrow> g \<noteq> [] \<and> set g \<inter> {47, 63, 35, 64} = {} \<and>
     (hd g \<noteq> 91 \<and> 58 \<notin> set g \<or> (\<exists>b. g = 91 # b @ [93] \<and> 93 \<notin> set b))"

lemma cut_bracket: "93 \<notin> set b \<Longrightarrow> cut_str (lit '']:'') (b @ [93]) = None \<and> cut_str (lit '']:'') (b @ 93 # 58 # q) = Some (b, q)"
  by (induction b) auto

lemma ws_split_proper:
  assumes "proper_host g" "to_lower g = g" "\<And>q. p = Some q \<Longrightarrow> 58 \<notin> set q"
  shows "ws_split_authority (authority g p) = (g, p)"
proof (cases "hd g = 91")
  case True
  then obtain b where b: "g = 91 # b @ [93]" "93 \<notin> set b" using assms(1) by (auto simp: proper_host_def)
  then show ?thesis using cut_bracket [OF b(2)] assms(2) by (cases p) (simp_all add: ws_split_authority_def authority_def)
next
  case False
  then have "58 \<notin> set g" "g \<noteq> []" using assms(1) by (auto simp: proper_host_def)
  then show ?thesis using ws_split_authority_plain [of g p] False assms(2,3) by simp
qed

lemma lower_parts: "to_lower (u @ v) = u @ v \<Longrightarrow> to_lower u = u \<and> to_lower v = v"
  by (simp add: to_lower_def append_eq_append_conv)

lemma ws_split_text: "to_lower a = a \<Longrightarrow> ws_split_authority a = (h, p) \<Longrightarrow> a = authority h p"
proof -
  assume l: "to_lower a = a" and s: "ws_split_authority a = (h, p)"
  have "to_lower u = u" if "a = u @ v" for u v using l that lower_parts by blast
  then show ?thesis using s unfolding ws_split_authority_def l
    by (auto simp: ws_split_authority_def authority_def strip_prefix_Some dest!: cut_str_Some rcut_once_Some split: option.splits if_splits)
qed

lemma digits_no_colon: "list_all is_ascii_digit q \<Longrightarrow> 58 \<notin> set q"
  by (auto simp: list_all_iff is_ascii_digit_def)

lemma default_port_Some: "default_port scheme = Some d \<longleftrightarrow>
    scheme \<in> {lit ''http'', lit ''ws''} \<and> d = lit ''80'' \<or> scheme \<in> {lit ''https'', lit ''wss''} \<and> d = lit ''443''"
  by (auto simp: default_port_def)

text \<open>Own origins: the host of the request, and its port where a missing one is the default of the scheme of the origin.\<close>

lemma ws_same_origin_iff:
  assumes "to_lower og = og" "to_lower (trim hst) = authority g r" "proper_host g" "pred_option (list_all is_ascii_digit) r"
  shows "ws_same_origin og hst \<longleftrightarrow>
    (\<exists>scheme d p. og = scheme @ lit ''://'' @ authority g p \<and> default_port scheme = Some d \<and> port_or d p = port_or d r)"
proof -
  have lg: "to_lower g = g"
    using lower_parts [of g] assms(2) by (metis authority_def lower_lower(2))
  have dr: "\<And>q. r = Some q \<Longrightarrow> list_all is_ascii_digit q" using assms(4) by simp
  have h: "ws_split_authority (to_lower (trim hst)) = (g, r)"
    unfolding assms(2) using dr digits_no_colon by (intro ws_split_proper assms(3) lg) blast
  have dg: "58 \<notin> set (port_or d r)" if "default_port scheme = Some d" for scheme d
    using that dr digits_no_colon by (auto simp: default_port_Some port_or_def split: option.splits)
  show ?thesis
  proof
    assume "ws_same_origin og hst"
    then obtain scheme a d p where a: "cut_str (lit ''://'') og = Some (scheme, a)" "default_port scheme = Some d"
        "ws_split_authority a = (g, p)" "port_or d p = port_or d r"
      using h by (auto simp: ws_same_origin_def split: option.splits)
    have og: "og = scheme @ lit ''://'' @ a" by (rule cut_str_Some [OF a(1)])
    then have "to_lower a = a" using assms(1) lower_parts by metis
    then have "a = authority g p" using a(3) by (rule ws_split_text)
    then show "\<exists>scheme d p. og = scheme @ lit ''://'' @ authority g p \<and> default_port scheme = Some d \<and> port_or d p = port_or d r"
      using og a by blast
  next
    assume "\<exists>scheme d p. og = scheme @ lit ''://'' @ authority g p \<and> default_port scheme = Some d \<and> port_or d p = port_or d r"
    then obtain scheme d p where o: "og = scheme @ lit ''://'' @ authority g p" "default_port scheme = Some d" "port_or d p = port_or d r"
      by blast
    have "58 \<notin> set q" if "p = Some q" for q using that o(3) dg [OF o(2)] by (cases "q = []") (auto simp: port_or_def)
    then have "ws_split_authority (authority g p) = (g, p)" by (intro ws_split_proper assms(3) lg) blast
    moreover have "cut_str (lit ''://'') og = Some (scheme, authority g p)" using o(1,2) by (auto simp: default_port_Some)
    ultimately show "ws_same_origin og hst" using o(2,3) h by (simp add: ws_same_origin_def)
  qed
qed

text \<open>Which of these are well-formed origins: all but those with a colon and no port.\<close>

lemma own_accepted:
  assumes "proper_host g" "default_port scheme = Some d" "\<And>n. q = Some n \<Longrightarrow> list_all is_ascii_digit n"
  shows "accepted (scheme @ lit ''://'' @ authority g q) \<longleftrightarrow> q \<noteq> Some []"
proof -
  have g: "g \<noteq> []" "58 \<in> set g \<longrightarrow> hd g = 91 \<and> last g = 93" "64 \<notin> set g" "47 \<notin> set g" "63 \<notin> set g" "35 \<notin> set g"
    using assms(1) by (auto simp: proper_host_def)
  have "\<not> list_all is_ascii_digit b" if "rcut_once 58 g = Some (a, b)" for a b
  proof -
    have t: "g = a @ 58 # b" by (rule rcut_once_Some [OF that])
    then have "last g = 93" using g(2) by simp
    then have "93 \<in> set b" using t by (cases b rule: rev_cases) auto
    then show ?thesis by (auto simp: list_all_iff is_ascii_digit_def intro!: bexI [of _ 93])
  qed
  then have bare: "split_authority g = (g, None)" by (auto simp: split_authority_def split: option.splits)
  have port: "split_authority (g @ 58 # n) = (if n = [] then (g @ [58], None) else (g, Some n))" if "list_all is_ascii_digit n" for n
    using that rcut_once_present [OF digits_no_colon [OF that], of g] by (simp add: split_authority_def)
  have host: "host_accepted g" "\<not> host_accepted (g @ [58])" using g by (auto simp: host_accepted_def)
  have c: "cut_str (lit ''://'') (scheme @ lit ''://'' @ authority g q) = Some (scheme, authority g q)"
      "scheme \<noteq> []" "list_all scheme_char (to_lower scheme)" "to_lower (scheme @ lit ''://'' @ authority g q) \<noteq> lit ''null''"
    using assms(2) by (auto simp: default_port_Some scheme_char_def is_ascii_alnum_def is_ascii_alphabetic_def to_ascii_lowercase_def)
  have "accepted (scheme @ lit ''://'' @ authority g q) \<longleftrightarrow> authority g q \<noteq> [] \<and> host_accepted (fst (split_authority (authority g q)))"
    using c by (simp add: accepted_def del: lit_simps)
  also have "\<dots> \<longleftrightarrow> q \<noteq> Some []"
    using bare port host g(1) assms(3) by (cases q) (auto simp: authority_def)
  finally show ?thesis .
qed

text \<open>C19. An upgrade is for listed origins and the server's own. With the policy built from the manifest, and a request whose
  \<open>Host\<close> is a name or a bracketed address with perhaps a port, an upgrade is allowed exactly when it carries no \<open>Origin\<close>, or any
  origin is admitted by a literal \<open>*\<close>, or its origin is a listed one (letter case and blanks around it aside), or its origin is
  one, \<open>http\<close>, \<open>ws\<close>, \<open>https\<close> or \<open>wss\<close>, of exactly the host of the request and of its port, where a missing port is 80
  for the first two schemes and 443 for the others, on both sides. The scheme supplies that default and is not itself compared: an
  origin of either kind may upgrade on a \<open>Host\<close> without a port, whichever way the request came.\<close>

theorem upgrade_origins_exact:
  assumes "ws_from_manifest vs = Inr p" "to_lower (trim hst) = authority g r" "proper_host g" "pred_option (list_all is_ascii_digit) r"
  shows "upgrade_origin_allowed p origin hst \<longleftrightarrow>
    (case origin of
       None \<Rightarrow> True
     | Some raw \<Rightarrow> (\<exists>v \<in> set vs. trim v = lit ''*'' \<or> same_origin v raw) \<or>
         (\<exists>scheme d q. to_lower (trim raw) = scheme @ lit ''://'' @ g @ (case q of None \<Rightarrow> [] | Some n \<Rightarrow> 58 # n) \<and> q \<noteq> Some [] \<and>
            (scheme \<in> {lit ''http'', lit ''ws''} \<and> d = lit ''80'' \<or> scheme \<in> {lit ''https'', lit ''wss''} \<and> d = lit ''443'') \<and>
            (case q of None \<Rightarrow> d | Some n \<Rightarrow> n) = (case r of None \<Rightarrow> d | Some n \<Rightarrow> if n = [] then d else n)))"
proof -
  have own: "accepted (trim raw) \<and> ws_same_origin (to_lower (trim raw)) hst \<longleftrightarrow>
      (\<exists>scheme d q. to_lower (trim raw) = scheme @ lit ''://'' @ authority g q \<and> q \<noteq> Some [] \<and> default_port scheme = Some d \<and>
         port_or d q = port_or d r)" for raw
  proof -
    have "accepted (scheme @ lit ''://'' @ authority g q) \<longleftrightarrow> q \<noteq> Some []" if "default_port scheme = Some d" "port_or d q = port_or d r" for scheme d q
      using that assms(4) by (intro own_accepted [OF assms(3) that(1)])
        (auto simp: port_or_def default_port_Some is_ascii_digit_def split: option.splits if_splits)
    then show ?thesis
      using ws_same_origin_iff [OF lower_lower(2) assms(2-4), of "trim raw"] accepted_lower [of "trim raw"] by metis
  qed
  have po: "port_or d r = (case r of None \<Rightarrow> d | Some n \<Rightarrow> if n = [] then d else n)" for d by (simp add: port_or_def split: option.splits)
  have pq: "q \<noteq> Some [] \<and> default_port scheme = Some d \<and> port_or d q = x \<longleftrightarrow>
      q \<noteq> Some [] \<and> default_port scheme = Some d \<and> (case q of None \<Rightarrow> d | Some n \<Rightarrow> n) = x" for d q x scheme
    by (auto simp: port_or_def split: option.splits)
  have au: "authority g q = g @ (case q of None \<Rightarrow> [] | Some n \<Rightarrow> 58 # n)" for q by (simp add: authority_def split: option.splits)
  show ?thesis unfolding upgrade_allowed_iff [OF assms(1)] own pq unfolding default_port_Some po au by (rule refl)
qed

text \<open>The scheme itself is not compared: a plain-text page may upgrade on a server that is reached under the same name over TLS.\<close>

lemma scheme_not_compared:
  "upgrade_origin_allowed ws_same_origin_policy (Some (lit ''http://bank.example'')) (lit ''bank.example'')"
  "upgrade_origin_allowed ws_same_origin_policy (Some (lit ''https://bank.example'')) (lit ''bank.example'')"
  by (simp_all add: upgrade_origin_allowed_def ws_same_origin_policy_def origin_parse_def ws_same_origin_def default_port_def port_or_def
      ws_split_authority_def Let_def trim_def is_whitespace_def Errors.eq_ignore_ascii_case_def to_ascii_lowercase_def scheme_char_def
      is_ascii_alnum_def is_ascii_alphabetic_def is_ascii_digit_def split_authority_def rcut_once_def)

theorem upgrade_origins_exact_witness:
  "\<exists>p. ws_from_manifest [lit ''https://App.example''] = Inr p \<and> upgrade_origin_allowed p (Some (lit ''https://app.example'')) (lit ''x:8080'') \<and>
     upgrade_origin_allowed p (Some (lit ''http://X:8080'')) (lit ''x:8080'') \<and> \<not> upgrade_origin_allowed p (Some (lit ''http://x'')) (lit ''x:8080'') \<and>
     \<not> upgrade_origin_allowed p (Some (lit ''http://evil.x:8080'')) (lit ''x:8080'')"
proof -
  note e = origin_parse_def Let_def trim_def is_whitespace_def Errors.eq_ignore_ascii_case_def to_ascii_lowercase_def scheme_char_def
      is_ascii_alnum_def is_ascii_alphabetic_def is_ascii_digit_def split_authority_def rcut_once_def
  obtain p where p: "ws_from_manifest [lit ''https://App.example''] = Inr p"
    by (auto simp: ws_from_manifest_def ws_same_origin_policy_def e)
  have h: "to_lower (trim (lit ''x:8080'')) = authority (lit ''x'') (Some (lit ''8080''))" "proper_host (lit ''x'')"
      "pred_option (list_all is_ascii_digit) (Some (lit ''8080''))"
    by (auto simp: authority_def proper_host_def e)
  note u = upgrade_origins_exact [OF p h]
  have "upgrade_origin_allowed p (Some (lit ''https://app.example'')) (lit ''x:8080'')" unfolding u by (simp add: same_origin_def e)
  moreover have "upgrade_origin_allowed p (Some (lit ''http://X:8080'')) (lit ''x:8080'')"
    unfolding u option.case
    by (rule disjI2, rule exI [of _ "lit ''http''"], rule exI [of _ "lit ''80''"], rule exI [of _ "Some (lit ''8080'')"]) (simp add: e)
  moreover have "\<not> upgrade_origin_allowed p (Some (lit ''http://x'')) (lit ''x:8080'')"
      "\<not> upgrade_origin_allowed p (Some (lit ''http://evil.x:8080'')) (lit ''x:8080'')"
    unfolding u by (auto simp: same_origin_def e split: option.splits)
  ultimately show ?thesis using p by blast
qed

section \<open>Loopback names\<close>

lemma host_name_plain:
  assumes "h \<noteq> []" "hd h \<noteq> 91" "58 \<notin> set h" "\<And>q. p = Some q \<Longrightarrow> q \<noteq> [] \<and> list_all is_ascii_digit q"
  shows "host_name (authority h p) = to_lower h"
proof -
  obtain c r where h: "h = c # r" "to_ascii_lowercase c \<noteq> 91" using assms(1,2) by (cases h) (auto simp: lower_fixed is_ascii_alphabetic_def)
  have n: "58 \<notin> set (to_lower h)" using assms(3) by (simp add: mem_lower is_ascii_alphabetic_def)
  show ?thesis
  proof (cases p)
    case None
    then show ?thesis using h n by (simp add: host_name_def authority_def rcut_once_absent)
  next
    case (Some q)
    then have q: "q \<noteq> []" "list_all is_ascii_digit q" using assms(4) by auto
    then have "58 \<notin> set q" by (auto simp: list_all_iff is_ascii_digit_def)
    then have "rcut_once 58 (to_lower h @ 58 # q) = Some (to_lower h, q)" by (rule rcut_once_present)
    then show ?thesis using Some h n q by (simp add: host_name_def authority_def digits_lower to_ascii_lowercase_def)
  qed
qed


section \<open>Answers on the wire\<close>

definition refusal_fields :: "(ustr \<Rightarrow> ustr) \<Rightarrow> HandshakeError \<Rightarrow> (ustr \<times> ustr) list" where
  "refusal_fields dbg e =
     (case e of UnsupportedWsVersion _ \<Rightarrow> [(msg ''Sec-WebSocket-Version'', WS_VERSION)] | _ \<Rightarrow> []) @
     [(msg ''Content-Type'', msg ''text/plain; charset=utf-8''), (msg ''Content-Length'', show_nat (length (utf8_bytes (handshake_error_display dbg e)))),
      (msg ''Connection'', msg ''close'')]"

definition refusal_line :: "HandshakeError \<Rightarrow> ustr" where
  "refusal_line e = msg ''HTTP/1.1 '' @ show_nat (unat (fst (refusal_status e))) @ [32] @ snd (refusal_status e)"

lemma write_refusal_lines:
  "write_refusal dbg e =
     head_bytes (map utf8_bytes (refusal_line e # map (\<lambda>f. fst f @ [58, 32] @ snd f) (refusal_fields dbg e))) @ utf8_bytes (handshake_error_display dbg e)"
proof -
  let ?ls = "refusal_line e # map (\<lambda>f. fst f @ [58, 32] @ snd f) (refusal_fields dbg e)"
  have "write_refusal dbg e = utf8_bytes ((concat (map ln ?ls) @ [13, 10]) @ handshake_error_display dbg e)"
    by (cases e) (simp_all add: write_refusal_def refusal_line_def refusal_fields_def Let_def msg_def)
  also have "\<dots> = utf8_bytes (concat (map ln ?ls) @ [13, 10]) @ utf8_bytes (handshake_error_display dbg e)" by (simp only: utf8_append)
  also have "utf8_bytes (concat (map ln ?ls) @ [13, 10]) = head_bytes (map utf8_bytes ?ls)" by (rule utf8_lines) simp
  finally show ?thesis .
qed

lemma refusal_fields_ok: "list_all header_ok (refusal_fields dbg e)"
proof -
  have "header_ok (msg ''Sec-WebSocket-Version'', WS_VERSION)"
    by (simp add: header_ok_def visible_value visible_def WS_VERSION_def)
      (simp add: msg_def utf8_of_ascii is_valid_header_name_def token_byte_def is_alnum_def ascii_def)
  then show ?thesis by (cases e) (simp_all add: refusal_fields_def header_ok_text header_ok_own)
qed

lemma refusal_line_facts: "plain_text (refusal_line e)" "refusal_line e \<noteq> []" "status_of (utf8_bytes (refusal_line e)) = unat (fst (refusal_status e))"
  by (cases e; simp add: refusal_line_def refusal_status_def msg_def show_nat.simps utf8_of_ascii status_of_def declared_def digits_val_def)+

text \<open>A refused handshake is a complete response: whatever text of the request the refusal repeats, a client reads the status, the fields and exactly the
  message as the body, and what follows is left alone.\<close>

theorem refusal_roundtrip:
  "read_response False (write_refusal dbg e @ rest) =
     Some (utf8_bytes (refusal_line e), map wire_field (refusal_fields dbg e), utf8_bytes (handshake_error_display dbg e), rest)"
proof -
  let ?n = "length (utf8_bytes (handshake_error_display dbg e))"
  have "named ''content-length'' (map wire_field (refusal_fields dbg e)) = [(ascii ''Content-Length'', utf8_bytes (show_nat ?n))]"
    by (cases e) (simp_all add: refusal_fields_def wire_field_def named_def trim_digits, simp_all add: msg_def ascii_def utf8_of_ascii
        Methods.eq_ignore_ascii_case_def lower_def)
  from read_lines [OF refusal_line_facts(1,2) refusal_fields_ok this, of False e "utf8_bytes (handshake_error_display dbg e) @ rest"]
  have "read_response False (write_refusal dbg e @ rest) =
      (let m = (if forbids_body (of_nat (status_of (utf8_bytes (refusal_line e)))) then 0 else ?n) in
       if length (utf8_bytes (handshake_error_display dbg e) @ rest) < m then None
       else Some (utf8_bytes (refusal_line e), map wire_field (refusal_fields dbg e), take m (utf8_bytes (handshake_error_display dbg e) @ rest),
         drop m (utf8_bytes (handshake_error_display dbg e) @ rest)))"
    by (simp only: write_refusal_lines append_assoc simp_thms)
  moreover have "\<not> forbids_body (fst (refusal_status e))" by (cases e) (simp_all add: refusal_status_def forbids_body_def)
  ultimately show ?thesis by (simp add: refusal_line_facts(3))
qed

text \<open>The answer to an accepted handshake has the lines it should have, provided the digest renders as visible text.\<close>

lemma token_visible: "is_token p \<Longrightarrow> visible p"
proof -
  assume "is_token p"
  then have b: "\<And>b. b \<in> set (utf8_bytes p) \<Longrightarrow> 32 < b \<and> b < 127" by (auto simp: is_token_def list_all_iff)
  have "(b :: u8) < 128" if "b < 127" for b using that by (simp add: word_less_nat_alt)
  then have "list_all (\<lambda>b. b < 128) (utf8_bytes p)" using b by (auto simp: list_all_iff)
  then have a: "ascii_only p" by (rule utf8_low)
  have "32 \<le> c \<and> c < 127" if "c \<in> set p" for c
  proof -
    have "c < 128" using a that by (simp add: ascii_only_def list_all_iff)
    moreover have "(of_nat c :: u8) \<in> set (utf8_bytes p)" using a that by (simp add: utf8_of_ascii)
    ultimately show ?thesis using b by (fastforce simp: word_less_nat_alt unat_of_nat)
  qed
  then show ?thesis by (simp add: visible_def list_all_iff)
qed

lemma upgrade_unsplit:
  assumes "\<And>bs. visible (b64 bs)" "\<And>p. protocol = Some p \<Longrightarrow> is_token p"
  shows "head_end first_index (write_upgrade sha1 b64 h protocol @ rest) = Some (length (write_upgrade sha1 b64 h protocol))"
    "split_crlf (take (length (write_upgrade sha1 b64 h protocol) - 4) (write_upgrade sha1 b64 h protocol)) =
      map utf8_bytes (msg ''HTTP/1.1 101 Switching Protocols'' # map (\<lambda>f. fst f @ [58, 32] @ snd f) (accept_headers sha1 b64 h protocol))"
proof -
  let ?ls = "msg ''HTTP/1.1 101 Switching Protocols'' # map (\<lambda>f. fst f @ [58, 32] @ snd f) (accept_headers sha1 b64 h protocol)"
  have "write_upgrade sha1 b64 h protocol = utf8_bytes (concat (map ln ?ls) @ [13, 10])"
    by (cases protocol) (simp_all add: write_upgrade_def accept_headers_def)
  also have "\<dots> = head_bytes (map utf8_bytes ?ls)" by (rule utf8_lines) simp
  finally have w: "write_upgrade sha1 b64 h protocol = head_bytes (map utf8_bytes ?ls)" .
  have vis: "plain_text s" if "visible s" for s using that by (auto simp: visible_def plain_text_def ascii_only_def list_all_iff)
  have "list_all (\<lambda>s. plain_text s \<and> s \<noteq> []) ?ls"
    using assms token_visible by (cases protocol) (auto simp: accept_headers_def accept_for_def vis msg_def)
  then have "list_all plain_line (map utf8_bytes ?ls)"
    by (simp only: list_all_iff set_map ball_simps) (blast intro: plain_line_text)
  then have p: "list_all plain_line (utf8_bytes (msg ''HTTP/1.1 101 Switching Protocols'') #
      map utf8_bytes (map (\<lambda>f. fst f @ [58, 32] @ snd f) (accept_headers sha1 b64 h protocol)))"
    by (simp only: list.map)
  show "head_end first_index (write_upgrade sha1 b64 h protocol @ rest) = Some (length (write_upgrade sha1 b64 h protocol))"
    unfolding w list.map by (rule head_end_lines(1) [OF p])
  show "split_crlf (take (length (write_upgrade sha1 b64 h protocol) - 4) (write_upgrade sha1 b64 h protocol)) = map utf8_bytes ?ls"
    unfolding w using head_end_lines(2) [OF p, of "[]"] by (simp only: list.map append_Nil2)
qed

end
