(* ===== verification/Spec2Isabelle.thy ===== *)
theory Spec2Isabelle
  imports Semver Token Handles Admission WsMessage Conn QueueHost Generations Http1 ServerRoutes Egress Hpack Streams Sse WsHandshake
begin

text \<open>
  A verification library for the core of QQQ, a host for WebAssembly components: what a component may do, how the host
  enforces it, and how requests reach it. All paths below are under \<open>src/crates\<close>.

  \<^bold>\<open>How the parts interact.\<close> A component ships with a manifest (\<open>qqq-cap/src/manifest.rs\<close>). Its capability tables declare a
  set of capabilities; overlays of the developer, the organisation and the platform narrow that set (\<open>resolve.rs\<close>); the
  tables themselves are normalised against the host (\<open>normalize.rs\<close>) into allow-lists of hosts, directories, variables and
  secrets, and the egress policy (\<open>egress.rs\<close>) decides for each outgoing request. Tokens (\<open>token.rs\<close>) delegate narrowed
  authority. Before an instance starts, its limits are admitted against the memory of the host
  (\<open>qqq-host/src/admission.rs\<close>); while it runs, it refers to host resources by handles (\<open>handles.rs\<close>), spends quotas
  (\<open>quota.rs\<close>) and calls host interfaces such as the message queue (\<open>host_queue.rs\<close>), each call passing the capability check
  and the audit seam (\<open>ambient.rs\<close>, \<open>audit.rs\<close>). On the serving side a connection (\<open>qqq-serve/src/conn.rs\<close>) reads a request
  head (\<open>http1.rs\<close>), the route table compiled from the manifest (\<open>qqq-cap/src/server.rs\<close>, \<open>qqq-run/src/serve_routes.rs\<close>,
  \<open>qqq-serve/src/route.rs\<close>) picks the handler and its authentication, the response is written (\<open>response.rs\<close>) or streamed (\<open>stream.rs\<close>, \<open>sse.rs\<close>) under
  the cross-origin policy (\<open>cors.rs\<close>), upgraded connections (\<open>ws.rs\<close>) exchange WebSocket frames (\<open>ws_frame.rs\<close>,
  \<open>ws_message.rs\<close>), and live updates swap the code behind a name (\<open>qqq-run/src/generations.rs\<close>).

  \<^bold>\<open>The theories.\<close>
  \<^item> \<open>QQQ_Prelude\<close>, \<open>Machines\<close>, \<open>Utf8\<close>, \<open>Bytes\<close>, \<open>BTree\<close>, \<open>Edit_Distance\<close>, \<open>IpAddr\<close>: what the code uses of the Rust
    language and standard library. A \<open>str\<close> is a list of code points (\<open>ustr\<close>), a machine integer a word of its width, a
    \<open>Result\<close> a sum with the error on the left, a \<open>BTreeMap\<close> an association list in key order (locale \<open>keyed_map\<close>).
    \<open>Machines\<close> holds the contract of a state machine whose invariant every step keeps.
  \<^item> \<open>Errors\<close>, \<open>Ids\<close>, \<open>Semver\<close>: \<open>qqq-core/src/error.rs\<close>, \<open>text.rs\<close>, \<open>ids.rs\<close> and \<open>qqq-pkg/src/semver.rs\<close>. Codes are unique and
    parse back; a rendered error can not be made to show a forged line; requirements round-trip and mean version intervals.
  \<^item> \<open>Capability\<close>, \<open>Manifest\<close>, \<open>Resolve\<close>, \<open>Token\<close>: the capability taxonomy, the tables with the capabilities they declare,
    overlays and explanations (locale \<open>narrowing\<close>, interpreted for grant sets and for resolutions), attenuated tokens.
    Authority only narrows, whatever the order, and every removal is explained by the overlay that caused it; a token opens only with the chain over all its caveats.
  \<^item> \<open>Normalize\<close>, \<open>Egress\<close>: host patterns, containment of paths, allow-lists, and the egress decision. What is allowed is
    exactly what the manifest declares; an accepted path of the kind of the root (absolute or relative) leads below it; the egress
    policy decides exactly by its documented checks, whose gaps (spellings of addresses, relative candidates) are lemmas.
  \<^item> \<open>Handles\<close>, \<open>Limits\<close>, \<open>Admission\<close>, \<open>Quota\<close>: slot table with generations, the \<open>[limits]\<close> table and the pool derived from
    it, admission, quotas. A closed handle never revives; admission is exact in unbounded arithmetic; budgets are exact.
  \<^item> \<open>Queue\<close>, \<open>QueueHost\<close>: the shared backend (publish, lease, acknowledge, reject, reap) and the guest-facing calls with
    their grants, quotas and audit rows. Messages are conserved, settled once and bounded; batches are atomic.
  \<^item> \<open>Generations\<close>: reservation, publication and draining of live updates; a superseded update is never published.
  \<^item> \<open>Methods\<close>, \<open>Http1\<close>, \<open>Route\<close>, \<open>ServerRoutes\<close>: request heads, the segment trie (locale \<open>route_index\<close>, refined by the
    trie), declared routes and their authentication. Accepted heads are unambiguous; routing picks the most specific route;
    a request is served without authentication exactly when the manifest says so.
  \<^item> \<open>WsFrame\<close>, \<open>WsMessage\<close>, \<open>Conn\<close>: the frame codec, the assembler, the keep-alive machine and the per-tenant ledger.
  \<^item> \<open>RateLimits\<close>, \<open>Body\<close>: per-tenant and process-wide request limits (\<open>qqq-serve/src/limits.rs\<close>; locale \<open>fixed_window\<close>,
    interpreted for the global budget and for a bucket of the tenant table) and request bodies (\<open>body.rs\<close>, \<open>body_bytes.rs\<close>,
    \<open>drain_body\<close> of \<open>server.rs\<close>) over any transport (locale \<open>byte_source\<close>, interpreted for a socket and for a buffer chained
    before it). Bursts are bounded where the tenants of a bucket have the same limits; a body is read exactly as its framing declares, and no further.
  \<^item> \<open>Responses\<close>, \<open>Streams\<close>, \<open>Sse\<close>: responses on the wire, streamed bodies over any transport (locales \<open>byte_sink\<close> and
    \<open>open_sink\<close>, interpreted for a socket that fails and one that does not) and server-sent events. What is written is read back by
    a client of the protocol, no header can split a response, chunks are decoded by the reader of \<open>Body\<close>; a response that
    fails the outbound check loses the framing, which is a defect of the code.
  \<^item> \<open>Cors\<close>, \<open>WsHandshake\<close>: origins, the cross-origin policy from the manifest to the response, and the upgrade to WebSocket.
    A policy grants exactly what the manifest lists, and an upgrade besides what comes from the host and port of the request.
  \<^item> \<open>Huffman\<close>, \<open>H2Error\<close>, \<open>Hpack\<close>: header compression and error codes of HTTP/2 (\<open>qqq-serve/src/h2\<close>), the independent codec of the
    conformance tests. The code of the table is complete and prefix-free, so decoding is the exact inverse of encoding;
    encoder and decoder stay in step through any sequence of blocks and limits; any bytes are decoded within the limits.

  \<^bold>\<open>State and operations.\<close> A struct is a \<open>record\<close> with the fields of the source, an enum a \<open>datatype\<close> with its variants, a
  method a function from the old state to the new state and its result; \<open>&mut self\<close> behind a mutex is the state passed on.
  Error texts are kept where they are part of a value. Names follow the source; a name that clashes carries the type first
  (\<open>handle_insert\<close>, \<open>tenant_from_manifest\<close>).

  \<^bold>\<open>Parameters.\<close> Code outside the repository is an argument of the definitions that use it: HMAC-SHA-256 and SHA-256 (tokens,
  digests), \<open>memchr\<close> (head scanning), the \<open>HostEnv\<close> calls into the operating system (normalisation) and the \<open>Debug\<close> rendering
  of strings (messages), base64 and SHA-1 (handshake), the transports of bodies and streams. What a theorem needs of one is a hypothesis of that theorem, with a witness.

  \<^bold>\<open>Bounds.\<close> No definition carries fuel, and every loop is a total function but those over a body, which with the largest
  possible cap need not end: they are partial functions whose \<open>None\<close> is a loop that goes on, and the theorems prove that they return. Loops that do not follow the structure of their
  input (\<open>head_scan\<close>, \<open>walk\<close>, \<open>trim_start\<close>, \<open>show_nat\<close>) have a measure on the remaining input. Counters keep their width:
  delivery ids of the queue are 64-bit, and the theorems that need them distinct bound a run by \<open>2 ^ 53\<close> calls, since one
  call mints at most 1024 ids.

  \<^bold>\<open>Not modelled.\<close> TOML deserialisation (\<open>toml\<close>, \<open>serde\<close>) and the wording of manifest diagnostics; socket, TLS and file I/O
  (\<open>tokio\<close>, \<open>hyper\<close>, \<open>rustls\<close>); the wasmtime engine and the bindings it generates; cryptography, SQLite and DNS clients;
  the command line, build tasks, benchmarks and tests. They only call such libraries or print.
\<close>

end
